(* ===== verification/Prelude.thy ===== *)
theory Prelude
  imports Main "HOL-Library.Word"
begin

text \<open>
  Shared vocabulary of the development.

  The target is the Android build of \<open>tun2socks\<close>: a little-endian machine
  (\<open>-DBADVPN_LITTLE_ENDIAN\<close>) with assertions compiled out (\<open>-DNDEBUG\<close>).
  This theory fixes the representation of bytes and of \<open>uint16_t\<close>/\<open>uint32_t\<close>
  objects in memory, the byte-order helpers of \<open>misc/byteorder.h\<close> and
  \<open>misc/read_write_int.h\<close>, \<open>memcpy\<close> into and out of a buffer, and three
  interfaces the components share: fixed-width wire formats, three-way comparators and
  transition systems with an invariant.
\<close>

unbundle bit_operations_syntax

named_theorems wire_simps \<open>reading and writing of wire formats\<close>
named_theorems buf_simps \<open>slices of buffers and writes into them\<close>

type_synonym byte = "8 word"
type_synonym bytes = "byte list"

section \<open>Objects in memory\<close>

text \<open>\<open>mem16 x\<close> are the bytes of a \<open>uint16_t\<close> object holding \<open>x\<close>.\<close>

definition mem16 :: "16 word \<Rightarrow> bytes" where
  "mem16 x = [ucast x, ucast (drop_bit 8 x)]"

definition load16 :: "bytes \<Rightarrow> 16 word" where
  "load16 p = ucast (p ! 0) OR push_bit 8 (ucast (p ! 1))"

definition mem32 :: "32 word \<Rightarrow> bytes" where
  "mem32 x = [ucast x, ucast (drop_bit 8 x), ucast (drop_bit 16 x), ucast (drop_bit 24 x)]"

definition load32 :: "bytes \<Rightarrow> 32 word" where
  "load32 p = ucast (p ! 0) OR push_bit 8 (ucast (p ! 1))
      OR push_bit 16 (ucast (p ! 2)) OR push_bit 24 (ucast (p ! 3))"

text \<open>\<open>misc/read_write_int.h\<close> and \<open>misc/byteorder.h\<close>.\<close>

definition badvpn_read_be16 :: "bytes \<Rightarrow> 16 word" where
  "badvpn_read_be16 p = push_bit 8 (ucast (p ! 0)) OR ucast (p ! 1)"

definition badvpn_reverse16 :: "16 word \<Rightarrow> 16 word" where
  "badvpn_reverse16 x = load16 [mem16 x ! 1, mem16 x ! 0]"

definition badvpn_reverse32 :: "32 word \<Rightarrow> 32 word" where
  "badvpn_reverse32 x = load32 [mem32 x ! 3, mem32 x ! 2, mem32 x ! 1, mem32 x ! 0]"

definition hton16 :: "16 word \<Rightarrow> 16 word" where
  "hton16 x = badvpn_reverse16 x"

definition hton32 :: "32 word \<Rightarrow> 32 word" where
  "hton32 x = badvpn_reverse32 x"

definition ntoh16 :: "16 word \<Rightarrow> 16 word" where
  "ntoh16 x = hton16 x"

definition ntoh32 :: "32 word \<Rightarrow> 32 word" where
  "ntoh32 x = hton32 x"

definition htol16 :: "16 word \<Rightarrow> 16 word" where
  "htol16 x = x"

definition ltoh16 :: "16 word \<Rightarrow> 16 word" where
  "ltoh16 x = htol16 x"

text \<open>\<open>memcpy\<close> out of and into a buffer.\<close>

definition bslice :: "nat \<Rightarrow> nat \<Rightarrow> 'a list \<Rightarrow> 'a list" where
  "bslice off n xs = take n (drop off xs)"

definition blit :: "'a list \<Rightarrow> nat \<Rightarrow> 'a list \<Rightarrow> 'a list" where
  "blit dst off src = take off dst @ src @ drop (off + length src) dst"

text \<open>
  \<open>malloc\<close> belongs to the C library and is a parameter of the components that allocate:
  it fails or returns an object of the requested size.
\<close>

definition malloc_ok :: "(nat \<Rightarrow> 'a list option) \<Rightarrow> bool" where
  "malloc_ok malloc \<longleftrightarrow> (\<forall>n m. malloc n = Some m \<longrightarrow> length m = n)"

text \<open>\<open>misc/compare.h\<close> and \<open>misc/balign.h\<close>.\<close>

definition B_COMPARE :: "'a::linorder \<Rightarrow> 'a \<Rightarrow> int" where
  "B_COMPARE a b = of_bool (a > b) - of_bool (a < b)"

definition bdivide_up :: "nat \<Rightarrow> nat \<Rightarrow> nat" where
  "bdivide_up a b = (let r = a mod b in if r > 0 then a div b + 1 else a div b)"

abbreviation (input) UINT16_MAX :: nat where "UINT16_MAX \<equiv> 65535"
abbreviation (input) INT_MAX :: nat where "INT_MAX \<equiv> 2147483647"

section \<open>misc/bsize.h\<close>

text \<open>\<open>size_t\<close> has 32 bits on the smallest target (armeabi-v7a).\<close>

abbreviation (input) SIZE_MAX :: nat where "SIZE_MAX \<equiv> 4294967295"

record bsize_t =
  is_overflow :: bool
  bsize_value :: nat

definition bsize_fromsize :: "nat \<Rightarrow> bsize_t" where
  "bsize_fromsize v = \<lparr>is_overflow = False, bsize_value = v\<rparr>"

definition bsize_fromint :: "int \<Rightarrow> bsize_t" where
  "bsize_fromint v = \<lparr>is_overflow = (v < 0), bsize_value = nat (v mod (int SIZE_MAX + 1))\<rparr>"

definition bsize_toint :: "bsize_t \<Rightarrow> int option" where
  "bsize_toint s = (if is_overflow s \<or> bsize_value s > INT_MAX then None else Some (int (bsize_value s)))"

definition bsize_add :: "bsize_t \<Rightarrow> bsize_t \<Rightarrow> bsize_t" where
  "bsize_add s1 s2 = \<lparr>is_overflow = (is_overflow s1 \<or> is_overflow s2 \<or> bsize_value s2 > SIZE_MAX - bsize_value s1),
     bsize_value = (bsize_value s1 + bsize_value s2) mod (SIZE_MAX + 1)\<rparr>"

definition bsize_max :: "bsize_t \<Rightarrow> bsize_t \<Rightarrow> bsize_t" where
  "bsize_max s1 s2 = \<lparr>is_overflow = (is_overflow s1 \<or> is_overflow s2),
     bsize_value = of_bool (bsize_value s1 > bsize_value s2) * bsize_value s1
       + of_bool (bsize_value s1 \<le> bsize_value s2) * bsize_value s2\<rparr>"

definition bsize_mul :: "bsize_t \<Rightarrow> bsize_t \<Rightarrow> bsize_t" where
  "bsize_mul s1 s2 = \<lparr>is_overflow = (is_overflow s1 \<or> is_overflow s2
       \<or> bsize_value s1 \<noteq> 0 \<and> bsize_value s2 > SIZE_MAX div bsize_value s1),
     bsize_value = (bsize_value s1 * bsize_value s2) mod (SIZE_MAX + 1)\<rparr>"

section \<open>Lemmas on objects in memory\<close>

lemma length_mem16 [simp, wire_simps]: "length (mem16 x) = 2"
  by (simp add: mem16_def)

lemma length_mem32 [simp, wire_simps]: "length (mem32 x) = 4"
  by (simp add: mem32_def)

lemma load16_mem16 [simp, wire_simps]: "load16 (mem16 x @ r) = x"
  by (rule bit_word_eqI) (auto simp: load16_def mem16_def bit_simps)

lemma load16_mem16' [simp, wire_simps]: "load16 (mem16 x) = x"
  using load16_mem16 [of x "[]"] by simp

lemma load32_mem32 [simp, wire_simps]: "load32 (mem32 x @ r) = x"
proof (rule bit_word_eqI)
  fix n :: nat
  assume "n < LENGTH(32)"
  then consider "n < 8" | "8 \<le> n" "n < 16" | "16 \<le> n" "n < 24" | "24 \<le> n" "n < 32"
    by fastforce
  then show "bit (load32 (mem32 x @ r)) n = bit x n"
    by cases (auto simp: load32_def mem32_def bit_simps nth_Cons')
qed

lemma load32_mem32' [simp, wire_simps]: "load32 (mem32 x) = x"
  using load32_mem32 [of x "[]"] by simp

lemma mem16_load16: "length p = 2 \<Longrightarrow> mem16 (load16 p) = p"
proof -
  assume "length p = 2"
  then obtain a b where p: "p = [a, b]"
    by (auto simp: numeral_eq_Suc length_Suc_conv)
  have "ucast (load16 [a, b]) = a" "ucast (drop_bit 8 (load16 [a, b])) = b"
    by (rule bit_word_eqI, auto simp: load16_def bit_simps dest: bit_imp_le_length)+
  with p show ?thesis by (simp add: mem16_def)
qed

lemma read_be16_mem16 [wire_simps]: "badvpn_read_be16 (mem16 x @ r) = badvpn_reverse16 x"
  by (rule bit_word_eqI)
    (auto simp: badvpn_read_be16_def badvpn_reverse16_def load16_def mem16_def bit_simps)

lemma reverse16_reverse16 [simp]: "badvpn_reverse16 (badvpn_reverse16 x) = x"
proof -
  have "mem16 (load16 [mem16 x ! 1, mem16 x ! 0]) = [mem16 x ! 1, mem16 x ! 0]"
    by (rule mem16_load16) simp
  then show ?thesis
    by (simp add: badvpn_reverse16_def) (metis load16_mem16' mem16_def nth_Cons_0 nth_Cons_Suc One_nat_def)
qed

lemma ntoh16_hton16 [simp, wire_simps]: "ntoh16 (hton16 x) = x"
  by (simp add: ntoh16_def hton16_def)

lemma read_be16_hton16 [simp, wire_simps]: "badvpn_read_be16 (mem16 (hton16 x) @ r) = x"
  by (simp add: read_be16_mem16 hton16_def)

lemma ltoh16_htol16 [simp, wire_simps]: "ltoh16 (htol16 x) = x"
  by (simp add: ltoh16_def htol16_def)

section \<open>Lemmas on buffers\<close>

lemma length_bslice [simp, buf_simps]: "length (bslice off n xs) = min n (length xs - off)"
  by (simp add: bslice_def)

lemma length_blit [simp, buf_simps]:
  "off + length src \<le> length dst \<Longrightarrow> length (blit dst off src) = length dst"
  by (simp add: blit_def)

lemma bslice_0 [simp, buf_simps]: "bslice off 0 xs = []"
  by (simp add: bslice_def)

lemma bslice_append [buf_simps]: "bslice off m xs @ bslice (off + m) n xs = bslice off (m + n) xs"
  by (simp add: bslice_def take_add add.commute [of off])

lemma bslice_take [buf_simps]: "take k (bslice off n xs) = bslice off (min k n) xs"
  by (simp add: bslice_def)

lemma bslice_drop [buf_simps]: "drop k (bslice off n xs) = bslice (off + k) (n - k) xs"
  by (simp add: bslice_def drop_take add.commute [of off])

lemma bslice_blit_same [simp, buf_simps]:
  "off + length src \<le> length dst \<Longrightarrow> bslice off (length src) (blit dst off src) = src"
  by (simp add: bslice_def blit_def)

lemma bslice_blit_before [buf_simps]:
  "a + n \<le> off \<Longrightarrow> off + length src \<le> length dst \<Longrightarrow> bslice a n (blit dst off src) = bslice a n dst"
  by (simp add: bslice_def blit_def drop_take)

lemma bslice_blit_after [buf_simps]:
  assumes "off + length src \<le> a" and "off + length src \<le> length dst"
  shows "bslice a n (blit dst off src) = bslice a n dst"
proof -
  have "drop a (blit dst off src) = drop a dst"
    using assms by (simp add: blit_def)
  then show ?thesis by (simp add: bslice_def)
qed

lemma bslice_all [simp]: "bslice 0 (length xs) xs = xs"
  by (simp add: bslice_def)

lemma bslice_blit_extend [buf_simps]:
  assumes "off + n + length src \<le> length dst"
  shows "bslice off (n + length src) (blit dst (off + n) src) = bslice off n dst @ src"
proof -
  have "bslice off (n + length src) (blit dst (off + n) src)
      = bslice off n (blit dst (off + n) src) @ bslice (off + n) (length src) (blit dst (off + n) src)"
    by (simp add: bslice_append)
  then show ?thesis using assms by (simp add: bslice_blit_before)
qed

lemma bdivide_up_le: "0 < b \<Longrightarrow> a \<le> b * bdivide_up a b"
proof -
  assume "0 < b"
  then have r: "a mod b < b" by simp
  have q: "a = b * (a div b) + a mod b" by simp
  show ?thesis
  proof (cases "a mod b > 0")
    case True
    have "a \<le> b * (a div b) + b" using q r by linarith
    with True show ?thesis by (simp add: bdivide_up_def)
  next
    case False
    then show ?thesis using q by (simp add: bdivide_up_def)
  qed
qed

lemma bdivide_up_mono:
  assumes "0 < b" and "a \<le> c"
  shows "bdivide_up a b \<le> bdivide_up c b"
proof (cases "a div b = c div b")
  case True
  then have "a mod b \<le> c mod b"
    using assms by (metis add_le_cancel_left div_mult_mod_eq)
  with True show ?thesis by (auto simp: bdivide_up_def Let_def)
next
  case False
  with assms have "a div b < c div b" by (simp add: div_le_mono le_neq_implies_less)
  then show ?thesis by (auto simp: bdivide_up_def Let_def)
qed

lemma bdivide_up_least: "0 < b \<Longrightarrow> a \<le> b * k \<Longrightarrow> bdivide_up a b \<le> k"
  using bdivide_up_mono [of b a "b * k"] by (simp add: bdivide_up_def)

section \<open>Interfaces\<close>

subsection \<open>Fixed-width wire formats\<close>

text \<open>
  Every packed struct the program copies to or from the wire is a fixed number of bytes
  whose fields can be read back. Clients use \<open>dec_frame\<close> to peel a header off a packet and
  \<open>enc_inj\<close> to tell two encodings apart.
\<close>

locale wire_format =
  fixes enc :: "'a \<Rightarrow> bytes" and dec :: "bytes \<Rightarrow> 'a" and width :: nat and ok :: "'a \<Rightarrow> bool"
  assumes enc_length: "ok a \<Longrightarrow> length (enc a) = width"
    and dec_enc: "ok a \<Longrightarrow> dec (enc a @ r) = a"
begin

lemma dec_frame:
  "ok a \<Longrightarrow> p = enc a @ r \<Longrightarrow> dec p = a \<and> drop width p = r \<and> width \<le> length p"
  using enc_length dec_enc by simp

lemma enc_inj: "ok a \<Longrightarrow> ok b \<Longrightarrow> enc a @ r = enc b @ s \<Longrightarrow> a = b \<and> r = s"
  by (metis dec_frame)

lemma take_enc: "ok a \<Longrightarrow> take width (enc a @ r) = enc a"
  using enc_length by simp

end

subsection \<open>Three-way comparators\<close>

text \<open>
  The contract of the comparators the balanced trees are instantiated with
  (\<open>BAVL_comparator\<close>, \<open>compare_flows\<close>): a sign-valued total order on the keys
  that satisfy \<open>good\<close>.
\<close>

locale comparator =
  fixes cmp :: "'a \<Rightarrow> 'a \<Rightarrow> int" and good :: "'a \<Rightarrow> bool"
  assumes cmp_sym: "good a \<Longrightarrow> good b \<Longrightarrow> cmp b a = - cmp a b"
    and cmp_eq: "good a \<Longrightarrow> good b \<Longrightarrow> cmp a b = 0 \<longleftrightarrow> a = b"
    and cmp_trans: "good a \<Longrightarrow> good b \<Longrightarrow> good c \<Longrightarrow> cmp a b < 0 \<Longrightarrow> cmp b c < 0 \<Longrightarrow> cmp a c < 0"
begin

lemma cmp_irrefl: "good a \<Longrightarrow> \<not> cmp a a < 0"
  using cmp_eq [of a a] by simp

lemma cmp_asym: "good a \<Longrightarrow> good b \<Longrightarrow> cmp a b < 0 \<Longrightarrow> \<not> cmp b a < 0"
  using cmp_sym [of a b] by simp

lemma cmp_linear: "good a \<Longrightarrow> good b \<Longrightarrow> cmp a b < 0 \<or> a = b \<or> cmp b a < 0"
  using cmp_sym [of a b] cmp_eq [of a b] by linarith

end

lemma B_COMPARE_sym: "B_COMPARE b a = - B_COMPARE a b"
  by (simp add: B_COMPARE_def)

lemma B_COMPARE_eq [simp]: "B_COMPARE a b = 0 \<longleftrightarrow> a = b"
  by (auto simp: B_COMPARE_def of_bool_def)

lemma B_COMPARE_less [simp]: "B_COMPARE a b < 0 \<longleftrightarrow> a < b"
  by (auto simp: B_COMPARE_def of_bool_def)

lemma B_COMPARE_refl [simp]: "B_COMPARE a a = 0"
  by simp

subsection \<open>Transition systems\<close>

text \<open>
  The reachable states of a component under its environment, and the proof rule for a
  property that the start has and every step keeps.
\<close>

inductive reach :: "('s \<Rightarrow> bool) \<Rightarrow> ('s \<Rightarrow> 's \<Rightarrow> bool) \<Rightarrow> 's \<Rightarrow> bool" for init step where
  reach_start: "init s \<Longrightarrow> reach init step s"
| reach_step: "reach init step s \<Longrightarrow> step s t \<Longrightarrow> reach init step t"

locale invariant_system =
  fixes init :: "'s \<Rightarrow> bool" and step :: "'s \<Rightarrow> 's \<Rightarrow> bool" and inv :: "'s \<Rightarrow> bool"
  assumes inv_start: "init s \<Longrightarrow> inv s"
    and inv_step: "inv s \<Longrightarrow> step s t \<Longrightarrow> inv t"
begin

lemma reach_inv: "reach init step s \<Longrightarrow> inv s"
  by (induction rule: reach.induct) (auto intro: inv_start inv_step)

lemma reach_next_inv: "reach init step s \<Longrightarrow> step s t \<Longrightarrow> inv s \<and> inv t"
  using reach_inv inv_step by blast

end

text \<open>A transition system in which every step decreases a measure has no long run.\<close>

inductive steps_n :: "('s \<Rightarrow> 's \<Rightarrow> bool) \<Rightarrow> nat \<Rightarrow> 's \<Rightarrow> 's \<Rightarrow> bool" for step where
  steps_0: "steps_n step 0 s s"
| steps_Suc: "steps_n step n s t \<Longrightarrow> step t u \<Longrightarrow> steps_n step (Suc n) s u"

locale terminating_system = invariant_system +
  fixes size :: "'s \<Rightarrow> nat"
  assumes step_decreases: "inv s \<Longrightarrow> step s t \<Longrightarrow> size t < size s"
begin

lemma steps_n_inv: "steps_n step n s t \<Longrightarrow> inv s \<Longrightarrow> inv t"
  by (induction rule: steps_n.induct) (auto intro: inv_step)

lemma steps_bounded: "steps_n step n s t \<Longrightarrow> inv s \<Longrightarrow> n + size t \<le> size s"
proof (induction rule: steps_n.induct)
  case (steps_Suc n s t u)
  then have "inv t" by (blast intro: steps_n_inv)
  with steps_Suc step_decreases [of t u] show ?case by simp
qed simp

lemma reach_steps_n: "reach init step s \<Longrightarrow> steps_n step n s t \<Longrightarrow> reach init step t"
  by (rotate_tac, induction rule: steps_n.induct) (auto intro: reach_step)

text \<open>From an invariant state some run ends in a state with no further step.\<close>

lemma run_to_end: "inv s \<Longrightarrow> \<exists>n t. steps_n step n s t \<and> (\<forall>u. \<not> step t u)"
proof (induction "size s" arbitrary: s rule: less_induct)
  case less
  show ?case
  proof (cases "\<exists>t. step s t")
    case True
    then obtain t where t: "step s t" by blast
    with less have "inv t" and "size t < size s"
      by (auto intro: inv_step step_decreases)
    with less obtain n u where "steps_n step n t u" and end_u: "\<forall>v. \<not> step u v" by blast
    from this(1) t have "steps_n step (Suc n) s u"
      by (induction rule: steps_n.induct) (auto intro: steps_n.intros)
    with end_u show ?thesis by blast
  next
    case False
    then show ?thesis by (auto intro: steps_0)
  qed
qed

end

end
