(* ===== verification/Pending.thy ===== *)
theory Pending
  imports Prelude
begin

text \<open>
  \<open>base/BPending.c\<close> over \<open>structure/SLinkedList_impl.h\<close>: the queue of pending
  jobs that drives the whole program. Objects are addresses; the \<open>next\<close> and
  \<open>prev\<close> fields of the intrusive nodes and the \<open>handler\<close> fields live in an
  explicit store. A job that is not pending has \<open>next\<close> pointing at itself.

  The second half relates the pointer structure to a stack of distinct jobs and shows that
  every operation of the C code implements the stack operation of the same name.
\<close>

section \<open>The pointer structure\<close>

type_synonym addr = nat

record 'h BPendingGroup =
  list_first :: "addr option"
  node_next :: "addr \<Rightarrow> addr option"
  node_prev :: "addr \<Rightarrow> addr option"
  job_handler :: "addr \<Rightarrow> 'h"

definition SLinkedListMarkRemoved :: "addr \<Rightarrow> 'h BPendingGroup \<Rightarrow> 'h BPendingGroup" where
  "SLinkedListMarkRemoved e g = g\<lparr>node_next := (node_next g)(e := Some e)\<rparr>"

definition SLinkedListIsRemoved :: "addr \<Rightarrow> 'h BPendingGroup \<Rightarrow> bool" where
  "SLinkedListIsRemoved e g \<longleftrightarrow> node_next g e = Some e"

definition SLinkedList_Init :: "'h BPendingGroup \<Rightarrow> 'h BPendingGroup" where
  "SLinkedList_Init g = g\<lparr>list_first := None\<rparr>"

definition SLinkedList_Prepend :: "addr \<Rightarrow> 'h BPendingGroup \<Rightarrow> 'h BPendingGroup" where
  "SLinkedList_Prepend e g =
    (let g1 = g\<lparr>node_next := (node_next g)(e := list_first g)\<rparr>;
         g2 = (case list_first g1 of
                 Some f \<Rightarrow> g1\<lparr>node_prev := (node_prev g1)(f := Some e)\<rparr>
               | None \<Rightarrow> g1)
     in g2\<lparr>list_first := Some e\<rparr>)"

definition SLinkedList_Remove :: "addr \<Rightarrow> 'h BPendingGroup \<Rightarrow> 'h BPendingGroup" where
  "SLinkedList_Remove e g =
    (if Some e \<noteq> list_first g then
       (let g1 = (case node_prev g e of
                    Some q \<Rightarrow> g\<lparr>node_next := (node_next g)(q := node_next g e)\<rparr>
                  | None \<Rightarrow> g)
        in case node_next g1 e of
             Some n \<Rightarrow> g1\<lparr>node_prev := (node_prev g1)(n := node_prev g1 e)\<rparr>
           | None \<Rightarrow> g1)
     else g\<lparr>list_first := node_next g e\<rparr>)"

definition SLinkedList_RemoveFirst :: "'h BPendingGroup \<Rightarrow> 'h BPendingGroup" where
  "SLinkedList_RemoveFirst g =
    (case list_first g of Some f \<Rightarrow> g\<lparr>list_first := node_next g f\<rparr> | None \<Rightarrow> g)"

definition SLinkedList_IsEmpty :: "'h BPendingGroup \<Rightarrow> bool" where
  "SLinkedList_IsEmpty g \<longleftrightarrow> list_first g = None"

section \<open>BPending.c\<close>

definition BPendingGroup_Init :: "'h BPendingGroup \<Rightarrow> 'h BPendingGroup" where
  "BPendingGroup_Init g = SLinkedList_Init g"

definition BPendingGroup_HasJobs :: "'h BPendingGroup \<Rightarrow> bool" where
  "BPendingGroup_HasJobs g \<longleftrightarrow> \<not> SLinkedList_IsEmpty g"

text \<open>
  The job is taken off the list and marked not pending before its handler is called; the
  result names the handler the C code then calls (\<open>None\<close>: the asserted precondition, a
  non-empty list, does not hold).
\<close>

definition BPendingGroup_ExecuteJob :: "'h BPendingGroup \<Rightarrow> 'h BPendingGroup \<times> (addr \<times> 'h) option" where
  "BPendingGroup_ExecuteJob g =
    (case list_first g of
       None \<Rightarrow> (g, None)
     | Some p \<Rightarrow>
         (let g1 = SLinkedList_RemoveFirst g;
              g2 = SLinkedListMarkRemoved p g1
          in (g2, Some (p, job_handler g2 p))))"

definition BPendingGroup_PeekJob :: "'h BPendingGroup \<Rightarrow> addr option" where
  "BPendingGroup_PeekJob g = list_first g"

definition BSmallPending_Init :: "addr \<Rightarrow> 'h \<Rightarrow> 'h BPendingGroup \<Rightarrow> 'h BPendingGroup" where
  "BSmallPending_Init p h g =
     SLinkedListMarkRemoved p (g\<lparr>job_handler := (job_handler g)(p := h)\<rparr>)"

definition BSmallPending_Free :: "addr \<Rightarrow> 'h BPendingGroup \<Rightarrow> 'h BPendingGroup" where
  "BSmallPending_Free p g = (if \<not> SLinkedListIsRemoved p g then SLinkedList_Remove p g else g)"

definition BSmallPending_SetHandler :: "addr \<Rightarrow> 'h \<Rightarrow> 'h BPendingGroup \<Rightarrow> 'h BPendingGroup" where
  "BSmallPending_SetHandler p h g = g\<lparr>job_handler := (job_handler g)(p := h)\<rparr>"

definition BSmallPending_Set :: "addr \<Rightarrow> 'h BPendingGroup \<Rightarrow> 'h BPendingGroup" where
  "BSmallPending_Set p g =
    (let g1 = (if \<not> SLinkedListIsRemoved p g then SLinkedList_Remove p g else g)
     in SLinkedList_Prepend p g1)"

definition BSmallPending_Unset :: "addr \<Rightarrow> 'h BPendingGroup \<Rightarrow> 'h BPendingGroup" where
  "BSmallPending_Unset p g =
    (if \<not> SLinkedListIsRemoved p g then SLinkedListMarkRemoved p (SLinkedList_Remove p g) else g)"

definition BSmallPending_IsSet :: "addr \<Rightarrow> 'h BPendingGroup \<Rightarrow> bool" where
  "BSmallPending_IsSet p g \<longleftrightarrow> \<not> SLinkedListIsRemoved p g"

lemmas pending_defs =
  SLinkedListMarkRemoved_def SLinkedListIsRemoved_def SLinkedList_Init_def SLinkedList_Prepend_def
  SLinkedList_Remove_def SLinkedList_RemoveFirst_def SLinkedList_IsEmpty_def
  BPendingGroup_Init_def BPendingGroup_HasJobs_def BPendingGroup_ExecuteJob_def
  BPendingGroup_PeekJob_def BSmallPending_Init_def BSmallPending_Free_def
  BSmallPending_SetHandler_def BSmallPending_Set_def BSmallPending_Unset_def BSmallPending_IsSet_def

section \<open>The job stack it represents\<close>

text \<open>
  \<open>linked n p f xs\<close>: starting at \<open>f\<close> and following \<open>next\<close> visits exactly
  \<open>xs\<close>, and every entry but the first has the correct \<open>prev\<close>.
\<close>

fun linked :: "(addr \<Rightarrow> addr option) \<Rightarrow> (addr \<Rightarrow> addr option) \<Rightarrow> addr option \<Rightarrow> addr list \<Rightarrow> bool" where
  "linked n p f [] \<longleftrightarrow> f = None"
| "linked n p f [x] \<longleftrightarrow> f = Some x \<and> n x = None"
| "linked n p f (x # y # xs) \<longleftrightarrow> f = Some x \<and> p y = Some x \<and> linked n p (n x) (y # xs)"

text \<open>
  \<open>job_stack S g xs\<close>: among the initialised jobs \<open>S\<close>, exactly those in \<open>xs\<close> are
  pending, in this order of execution.
\<close>

definition job_stack :: "addr set \<Rightarrow> 'h BPendingGroup \<Rightarrow> addr list \<Rightarrow> bool" where
  "job_stack S g xs \<longleftrightarrow> distinct xs \<and> set xs \<subseteq> S
     \<and> linked (node_next g) (node_prev g) (list_first g) xs
     \<and> (\<forall>q \<in> S - set xs. node_next g q = Some q)"

lemma job_stackD:
  assumes "job_stack S g xs"
  shows "distinct xs" and "set xs \<subseteq> S" and "linked (node_next g) (node_prev g) (list_first g) xs"
    and "\<forall>q \<in> S - set xs. node_next g q = Some q"
  using assms by (auto simp: job_stack_def)

lemma linked_first: "linked n p f xs \<Longrightarrow> f = (case xs of [] \<Rightarrow> None | x # _ \<Rightarrow> Some x)"
  by (cases "(n, p, f, xs)" rule: linked.cases) auto

lemma linked_Cons:
  "linked n p f (x # xs) \<longleftrightarrow>
     f = Some x \<and> linked n p (n x) xs \<and> (case xs of [] \<Rightarrow> True | y # _ \<Rightarrow> p y = Some x)"
  by (cases xs) auto

lemma linked_upd_next:
  "a \<notin> set xs \<Longrightarrow> linked (n(a := v)) p f xs = linked n p f xs"
  by (induction n p f xs rule: linked.induct) auto

lemma linked_upd_prev:
  "a \<notin> set (tl xs) \<Longrightarrow> linked n (p(a := v)) f xs = linked n p f xs"
  by (induction n p f xs rule: linked.induct) auto

lemma linked_next_not_self:
  "linked n p f xs \<Longrightarrow> distinct xs \<Longrightarrow> x \<in> set xs \<Longrightarrow> n x \<noteq> Some x"
proof (induction xs arbitrary: f)
  case (Cons a xs)
  then have "linked n p (n a) xs" by (simp add: linked_Cons)
  with Cons show ?case
    by (cases xs) (auto dest: linked_first)
qed simp

lemma linked_middle:
  "linked n p f (as @ q # e # bs) \<Longrightarrow> p e = Some q \<and> n q = Some e \<and> linked n p (n e) bs"
  by (induction as arbitrary: f) (auto simp: linked_Cons)

text \<open>Unlinking an entry that is not the first.\<close>

lemma linked_remove_middle:
  assumes "linked n p f (as @ q # e # bs)" and "distinct (as @ q # e # bs)"
  shows "linked (n(q := n e)) (case n e of Some m \<Rightarrow> p(m := Some q) | None \<Rightarrow> p) f (as @ q # bs)"
  using assms
proof (induction as arbitrary: f)
  case Nil
  then have q: "f = Some q" "n q = Some e" "linked n p (n e) bs"
    by (auto simp: linked_Cons)
  show ?case
  proof (cases bs)
    case Nil
    with q show ?thesis by simp
  next
    case (Cons b bs')
    with q have b: "n e = Some b" by (simp add: linked_Cons)
    have "b \<notin> set bs'" "q \<notin> set (b # bs')" using \<open>distinct ([] @ q # e # bs)\<close> Cons by auto
    then have "linked (n(q := n e)) (p(b := Some q)) (n e) bs"
      using q Cons by (simp add: linked_upd_next linked_upd_prev)
    then have "linked (n(q := n e)) (p(b := Some q)) f (q # bs)"
      by (subst linked_Cons) (use q b Cons in \<open>auto simp del: linked.simps\<close>)
    with b show ?thesis by (simp del: fun_upd_apply)
  qed
next
  case (Cons a as)
  then have a: "f = Some a" and "linked n p (n a) (as @ q # e # bs)" "distinct (as @ q # e # bs)"
    by (auto simp: linked_Cons)
  then have IH: "linked (n(q := n e))
      (case n e of Some m \<Rightarrow> p(m := Some q) | None \<Rightarrow> p) (n a) (as @ q # bs)"
    by (intro Cons.IH)
  have "n e = Some m \<Longrightarrow> bs \<noteq> [] \<and> m = hd bs" for m
    using linked_middle [OF \<open>linked n p f ((a # as) @ q # e # bs)\<close>] by (cases bs) (auto simp: linked_Cons)
  then have hd_keep: "(case n e of Some m \<Rightarrow> p(m := Some q) | None \<Rightarrow> p) y = p y"
    if "y \<in> set (as @ [q])" for y
    using that \<open>distinct ((a # as) @ q # e # bs)\<close> by (cases bs) (auto split: option.splits)
  from Cons.prems have "p (hd (as @ [q])) = Some a"
    by (cases as) (auto simp: linked_Cons)
  with hd_keep have hd_link: "(case n e of Some m \<Rightarrow> p(m := Some q) | None \<Rightarrow> p) (hd (as @ [q])) = Some a"
    by (cases as) auto
  have "a \<noteq> q" using Cons.prems by simp
  have "linked (n(q := n e)) (case n e of Some m \<Rightarrow> p(m := Some q) | None \<Rightarrow> p) f (a # as @ q # bs)"
    by (subst linked_Cons) (use a IH hd_link \<open>a \<noteq> q\<close> in \<open>cases as; auto simp del: linked.simps\<close>)
  then show ?case by (simp del: fun_upd_apply linked.simps)
qed

lemma job_stack_IsRemoved:
  "job_stack S g xs \<Longrightarrow> e \<in> S \<Longrightarrow> SLinkedListIsRemoved e g \<longleftrightarrow> e \<notin> set xs"
  by (auto simp: job_stack_def SLinkedListIsRemoved_def dest: linked_next_not_self)

text \<open>Each list operation on the represented stack.\<close>

lemma job_stack_Prepend:
  assumes "distinct xs" and "set xs \<subseteq> S" and "e \<in> S" and "e \<notin> set xs"
    and "linked (node_next g) (node_prev g) (list_first g) xs"
    and "\<forall>q \<in> S - set xs - {e}. node_next g q = Some q"
  shows "job_stack S (SLinkedList_Prepend e g) (e # xs)"
proof -
  let ?n = "(node_next g)(e := list_first g)"
  have L: "linked ?n (node_prev g) (list_first g) xs"
    using assms by (simp add: linked_upd_next del: fun_upd_apply)
  show ?thesis
  proof (cases xs)
    case Nil
    with assms L show ?thesis
      by (simp add: job_stack_def SLinkedList_Prepend_def)
  next
    case (Cons f ys)
    then have f: "list_first g = Some f" using linked_first [OF assms(5)] by simp
    have "linked ?n ((node_prev g)(f := Some e)) (list_first g) xs"
      using L Cons assms(1) by (simp add: linked_upd_prev del: fun_upd_apply linked.simps)
    then have "linked ?n ((node_prev g)(f := Some e)) (Some e) (e # xs)"
      by (subst linked_Cons) (use Cons in \<open>auto simp del: linked.simps\<close>)
    then show ?thesis
      using assms(1-4,6) f by (auto simp: job_stack_def SLinkedList_Prepend_def Let_def)
  qed
qed

lemma linked_Remove:
  assumes "job_stack S g xs" and "e \<in> set xs"
  defines "g' \<equiv> SLinkedList_Remove e g"
  shows "linked (node_next g') (node_prev g') (list_first g') (remove1 e xs)"
    and "\<forall>q \<in> S - set xs. node_next g' q = Some q"
proof -
  from assms(1) have L: "linked (node_next g) (node_prev g) (list_first g) xs" and D: "distinct xs"
    by (auto simp: job_stack_def)
  have "linked (node_next g') (node_prev g') (list_first g') (remove1 e xs)
      \<and> (\<forall>q. q \<notin> set xs \<longrightarrow> node_next g' q = node_next g q)"
  proof (cases "list_first g = Some e")
    case True
    then obtain ys where "xs = e # ys" using linked_first [OF L] by (cases xs) auto
    with L True show ?thesis by (simp add: g'_def SLinkedList_Remove_def linked_Cons)
  next
    case False
    from assms(2) obtain as0 bs where "xs = as0 @ e # bs" by (auto dest: split_list)
    with False linked_first [OF L] obtain as q where xs: "xs = as @ q # e # bs"
      by (cases as0 rule: rev_cases) auto
    have "node_prev g e = Some q" "linked (node_next g) (node_prev g) (node_next g e) bs"
      using linked_middle [OF L [unfolded xs]] by auto
    then show ?thesis
      using False linked_remove_middle [OF L [unfolded xs] D [unfolded xs]] D xs
      by (auto simp: g'_def SLinkedList_Remove_def Let_def remove1_append split: option.splits)
  qed
  then show "linked (node_next g') (node_prev g') (list_first g') (remove1 e xs)"
    and "\<forall>q \<in> S - set xs. node_next g' q = Some q"
    using job_stackD(4) [OF assms(1)] by auto
qed

text \<open>
  The contract of a pending group: a stack of distinct jobs. Components that schedule jobs
  rely on these laws only.
\<close>

locale job_queue =
  fixes stack :: "addr set \<Rightarrow> 'g \<Rightarrow> addr list \<Rightarrow> bool"
    and set_job :: "addr \<Rightarrow> 'g \<Rightarrow> 'g" and unset_job :: "addr \<Rightarrow> 'g \<Rightarrow> 'g"
    and is_set :: "addr \<Rightarrow> 'g \<Rightarrow> bool" and exec_job :: "'g \<Rightarrow> 'g \<times> (addr \<times> 'h) option"
  assumes stack_distinct: "stack S g xs \<Longrightarrow> distinct xs \<and> set xs \<subseteq> S"
    and stack_set: "stack S g xs \<Longrightarrow> e \<in> S \<Longrightarrow> stack S (set_job e g) (e # remove1 e xs)"
    and stack_unset: "stack S g xs \<Longrightarrow> e \<in> S \<Longrightarrow> stack S (unset_job e g) (remove1 e xs)"
    and stack_is_set: "stack S g xs \<Longrightarrow> e \<in> S \<Longrightarrow> is_set e g \<longleftrightarrow> e \<in> set xs"
    and stack_exec: "stack S g (e # xs) \<Longrightarrow> stack S (fst (exec_job g)) xs \<and>
          (\<exists>h. snd (exec_job g) = Some (e, h))"
begin

lemma set_then_exec:
  assumes "stack S g xs" and "e \<in> S"
  shows "stack S (fst (exec_job (set_job e g))) (remove1 e xs)
     \<and> (\<exists>h. snd (exec_job (set_job e g)) = Some (e, h))"
  using stack_exec [OF stack_set [OF assms]] .

lemma set_unset:
  assumes "stack S g xs" and "e \<in> S"
  shows "stack S (unset_job e (set_job e g)) (remove1 e xs)"
  using stack_unset [OF stack_set [OF assms] assms(2)] by simp

lemma later_set_runs_first:
  assumes "stack S g xs" and "a \<in> S" and "b \<in> S" and "a \<noteq> b" and "a \<notin> set xs" and "b \<notin> set xs"
  shows "\<exists>h h'. snd (exec_job (set_job b (set_job a g))) = Some (b, h)
     \<and> snd (exec_job (fst (exec_job (set_job b (set_job a g))))) = Some (a, h')
     \<and> stack S (fst (exec_job (fst (exec_job (set_job b (set_job a g)))))) xs"
proof -
  have "stack S (set_job b (set_job a g)) (b # a # xs)"
    using stack_set [OF stack_set [OF assms(1,2)] assms(3)] assms by (simp add: remove1_idem)
  then show ?thesis using stack_exec by metis
qed

end

lemma job_stack_Set:
  assumes "job_stack S g xs" and "e \<in> S"
  shows "job_stack S (BSmallPending_Set e g) (e # remove1 e xs)"
proof (cases "e \<in> set xs")
  case True
  then have "BSmallPending_Set e g = SLinkedList_Prepend e (SLinkedList_Remove e g)"
    using job_stack_IsRemoved [OF assms] by (simp add: BSmallPending_Set_def)
  moreover have "job_stack S (SLinkedList_Prepend e (SLinkedList_Remove e g)) (e # remove1 e xs)"
    using linked_Remove [OF assms(1) True] job_stackD [OF assms(1)] assms(2)
    by (intro job_stack_Prepend) auto
  ultimately show ?thesis by simp
next
  case False
  then have "BSmallPending_Set e g = SLinkedList_Prepend e g"
    using job_stack_IsRemoved [OF assms] by (simp add: BSmallPending_Set_def)
  moreover have "job_stack S (SLinkedList_Prepend e g) (e # xs)"
    using job_stackD [OF assms(1)] assms(2) False by (intro job_stack_Prepend) auto
  ultimately show ?thesis using False by (simp add: remove1_idem)
qed

lemma job_stack_Unset:
  assumes "job_stack S g xs" and "e \<in> S"
  shows "job_stack S (BSmallPending_Unset e g) (remove1 e xs)"
proof (cases "e \<in> set xs")
  case True
  then have "BSmallPending_Unset e g = SLinkedListMarkRemoved e (SLinkedList_Remove e g)"
    using job_stack_IsRemoved [OF assms] by (simp add: BSmallPending_Unset_def)
  moreover have "e \<notin> set (remove1 e xs)" "set (remove1 e xs) = set xs - {e}"
    using job_stackD(1) [OF assms(1)] by (auto simp: set_remove1_eq)
  ultimately show ?thesis
    using linked_Remove [OF assms(1) True] job_stackD [OF assms(1)]
    by (auto simp: job_stack_def SLinkedListMarkRemoved_def linked_upd_next)
next
  case False
  then show ?thesis
    using assms job_stack_IsRemoved [OF assms] by (simp add: BSmallPending_Unset_def remove1_idem)
qed

lemma job_stack_Execute:
  assumes "job_stack S g (e # xs)"
  shows "job_stack S (fst (BPendingGroup_ExecuteJob g)) xs
    \<and> snd (BPendingGroup_ExecuteJob g) = Some (e, job_handler g e)"
proof -
  from assms have f: "list_first g = Some e" "linked (node_next g) (node_prev g) (node_next g e) xs"
    by (auto simp: job_stack_def linked_Cons)
  then show ?thesis using assms
    by (auto simp: job_stack_def BPendingGroup_ExecuteJob_def SLinkedList_RemoveFirst_def
        SLinkedListMarkRemoved_def Let_def linked_upd_next simp del: fun_upd_apply)
      (auto simp: fun_upd_apply)
qed

interpretation pq: job_queue job_stack BSmallPending_Set BSmallPending_Unset BSmallPending_IsSet
    BPendingGroup_ExecuteJob
proof
  fix S :: "addr set" and g :: "'h BPendingGroup" and xs e
  show "job_stack S g xs \<Longrightarrow> distinct xs \<and> set xs \<subseteq> S" by (simp add: job_stack_def)
  show "job_stack S g xs \<Longrightarrow> e \<in> S \<Longrightarrow> BSmallPending_IsSet e g \<longleftrightarrow> e \<in> set xs"
    by (simp add: BSmallPending_IsSet_def job_stack_IsRemoved)
qed (auto intro: job_stack_Set job_stack_Unset dest: job_stack_Execute)

lemma job_stack_start:
  "job_stack {} (BPendingGroup_Init g) []"
  by (simp add: job_stack_def BPendingGroup_Init_def SLinkedList_Init_def)

lemma job_stack_Init:
  "job_stack S g xs \<Longrightarrow> e \<notin> S \<Longrightarrow> job_stack (insert e S) (BSmallPending_Init e h g) xs"
  by (subgoal_tac "e \<notin> set xs")
    (auto simp: job_stack_def BSmallPending_Init_def SLinkedListMarkRemoved_def linked_upd_next)

lemma job_stack_Free:
  assumes "job_stack S g xs" and "e \<in> S"
  shows "job_stack (S - {e}) (BSmallPending_Free e g) (remove1 e xs)"
proof (cases "e \<in> set xs")
  case True
  then have "BSmallPending_Free e g = SLinkedList_Remove e g"
    using job_stack_IsRemoved [OF assms] by (simp add: BSmallPending_Free_def)
  then show ?thesis
    using job_stackD [OF assms(1)] linked_Remove [OF assms(1) True] by (auto simp: job_stack_def set_remove1_eq)
next
  case False
  then show ?thesis
    using assms job_stack_IsRemoved [OF assms]
    by (auto simp: BSmallPending_Free_def remove1_idem job_stack_def)
qed

section \<open>Properties\<close>

text \<open>
  C19. The pointer list of pending jobs is a stack: starting from any represented stack, every
  operation of \<open>BPending.c\<close> leaves a well-formed list that represents the stack with the
  job moved to the front (\<open>Set\<close>), removed (\<open>Unset\<close>, \<open>Free\<close>) or popped
  (\<open>ExecuteJob\<close>, which returns that job's handler), and \<open>IsSet\<close>, \<open>HasJobs\<close>
  and \<open>PeekJob\<close> report what is in it.
\<close>

theorem pending_refines_stack:
  assumes "job_stack S g xs" and "e \<in> S"
  shows "job_stack S (BSmallPending_Set e g) (e # remove1 e xs)
    \<and> job_stack S (BSmallPending_Unset e g) (remove1 e xs)
    \<and> job_stack (S - {e}) (BSmallPending_Free e g) (remove1 e xs)
    \<and> (BSmallPending_IsSet e g \<longleftrightarrow> e \<in> set xs)
    \<and> (BPendingGroup_HasJobs g \<longleftrightarrow> xs \<noteq> [])
    \<and> BPendingGroup_PeekJob g = (case xs of [] \<Rightarrow> None | x # _ \<Rightarrow> Some x)
    \<and> (xs \<noteq> [] \<longrightarrow> job_stack S (fst (BPendingGroup_ExecuteJob g)) (tl xs)
       \<and> snd (BPendingGroup_ExecuteJob g) = Some (hd xs, job_handler g (hd xs)))"
proof (intro conjI)
  from assms(1) have f: "list_first g = (case xs of [] \<Rightarrow> None | x # _ \<Rightarrow> Some x)"
    by (auto simp: job_stack_def dest: linked_first)
  show "job_stack S (BSmallPending_Set e g) (e # remove1 e xs)"
    and "job_stack S (BSmallPending_Unset e g) (remove1 e xs)"
    and "BSmallPending_IsSet e g \<longleftrightarrow> e \<in> set xs"
    using assms by (auto intro: pq.stack_set pq.stack_unset simp: pq.stack_is_set)
  show "job_stack (S - {e}) (BSmallPending_Free e g) (remove1 e xs)"
    using assms by (rule job_stack_Free)
  show "BPendingGroup_HasJobs g \<longleftrightarrow> xs \<noteq> []"
    and "BPendingGroup_PeekJob g = (case xs of [] \<Rightarrow> None | x # _ \<Rightarrow> Some x)"
    using f by (auto simp: pending_defs split: list.splits)
  show "xs \<noteq> [] \<longrightarrow> job_stack S (fst (BPendingGroup_ExecuteJob g)) (tl xs)
       \<and> snd (BPendingGroup_ExecuteJob g) = Some (hd xs, job_handler g (hd xs))"
    using assms(1) job_stack_Execute [of S g "hd xs" "tl xs"] by (cases xs) auto
qed

definition demo_group :: "nat BPendingGroup" where
  "demo_group = BSmallPending_Set 2 (BSmallPending_Set 1 (BSmallPending_Init 2 20
     (BSmallPending_Init 1 10 (BPendingGroup_Init
       \<lparr>list_first = None, node_next = \<lambda>_. None, node_prev = \<lambda>_. None, job_handler = \<lambda>_. 0\<rparr>))))"

lemma demo_group_stack: "job_stack {1, 2} demo_group [2, 1]"
proof -
  have "job_stack {1, 2} (BSmallPending_Init 2 20 (BSmallPending_Init 1 (10::nat) (BPendingGroup_Init
       \<lparr>list_first = None, node_next = \<lambda>_. None, node_prev = \<lambda>_. None, job_handler = \<lambda>_. 0\<rparr>))) []"
    using job_stack_Init [OF job_stack_Init [OF job_stack_start, of 1], of 2] by (simp add: insert_commute)
  from pq.stack_set [OF pq.stack_set [OF this, of 1], of 2] show ?thesis
    by (simp add: demo_group_def)
qed

theorem pending_refines_stack_witness:
  "job_stack {1, 2} demo_group [2, 1] \<and> (1::nat) \<in> {1, 2::nat}
    \<and> job_stack {1, 2} (BSmallPending_Set 1 demo_group) [1, 2]
    \<and> snd (BPendingGroup_ExecuteJob demo_group) = Some (2, job_handler demo_group 2)"
  using demo_group_stack pending_refines_stack [OF demo_group_stack, of 1] by simp

text \<open>
  Jobs run last-in first-out: a job scheduled after another, from the same handler, is
  executed before it, and when both are done the jobs that were pending before are untouched.
  Components rely on this order (a connection's first packet is sent before the buffer it
  points into is reused).
\<close>

lemma later_job_runs_first:
  assumes "job_stack S g xs" and "a \<in> S" and "b \<in> S" and "a \<noteq> b" and "a \<notin> set xs" and "b \<notin> set xs"
  shows "\<exists>h h'. snd (BPendingGroup_ExecuteJob (BSmallPending_Set b (BSmallPending_Set a g))) = Some (b, h)
     \<and> snd (BPendingGroup_ExecuteJob (fst (BPendingGroup_ExecuteJob
          (BSmallPending_Set b (BSmallPending_Set a g))))) = Some (a, h')
     \<and> job_stack S (fst (BPendingGroup_ExecuteJob (fst (BPendingGroup_ExecuteJob
          (BSmallPending_Set b (BSmallPending_Set a g)))))) xs"
  using pq.later_set_runs_first [OF assms] .

theorem later_job_runs_first_witness:
  "\<exists>h h'. snd (BPendingGroup_ExecuteJob (BSmallPending_Set 4 (BSmallPending_Set 3
        (BSmallPending_Init 4 40 (BSmallPending_Init 3 30 demo_group))))) = Some (4, h)
     \<and> snd (BPendingGroup_ExecuteJob (fst (BPendingGroup_ExecuteJob (BSmallPending_Set 4
        (BSmallPending_Set 3 (BSmallPending_Init 4 40 (BSmallPending_Init 3 30 demo_group))))))) = Some (3, h')"
proof -
  have "job_stack (insert 4 (insert 3 {1, 2})) (BSmallPending_Init 4 40 (BSmallPending_Init 3 30 demo_group)) [2, 1]"
    by (intro job_stack_Init demo_group_stack) auto
  from later_job_runs_first [OF this, of 3 4] show ?thesis by auto
qed

end
