(* ===== verification/Packet_Proto.thy ===== *)
theory Packet_Proto
  imports Prelude
begin

text \<open>
  PacketProto framing: \<open>protocol/packetproto.h\<close>, \<open>flow/PacketProtoEncoder.c\<close> and
  \<open>flow/PacketProtoDecoder.c\<close>. The encoder writes a two byte little-endian length in
  front of a payload that its input wrote into the output buffer; the decoder re-assembles
  packets from a byte stream that arrives in arbitrary pieces, in one buffer of exactly one
  maximal frame that is compacted when its end is reached.

  Calls to the neighbouring flow interfaces are returned as values, in the order in which the
  code makes them. The decoder is run against every environment that respects the stream
  interface: any positive number of bytes per receive, at most what was asked for.
\<close>

section \<open>packetproto.h\<close>

abbreviation (input) packetproto_header_size :: nat where "packetproto_header_size \<equiv> 2"

definition PACKETPROTO_ENCLEN :: "nat \<Rightarrow> nat" where
  "PACKETPROTO_ENCLEN len = packetproto_header_size + len"

definition PACKETPROTO_MAXPAYLOAD :: nat where
  "PACKETPROTO_MAXPAYLOAD = UINT16_MAX"

section \<open>PacketProtoEncoder.c\<close>

record PacketProtoEncoder =
  enc_output_packet :: "nat option"  \<comment> \<open>address of the packet being received into\<close>
  enc_output_mtu :: nat

datatype encoder_call =
    Enc_Input_Recv nat  \<comment> \<open>\<open>PacketRecvInterface_Receiver_Recv\<close> with this destination\<close>
  | Enc_Output_Done nat \<comment> \<open>\<open>PacketRecvInterface_Done\<close> with this length\<close>

definition PacketProtoEncoder_Init :: "nat \<Rightarrow> PacketProtoEncoder" where
  "PacketProtoEncoder_Init input_mtu =
     \<lparr>enc_output_packet = None, enc_output_mtu = PACKETPROTO_ENCLEN input_mtu\<rparr>"

definition PacketProtoEncoder_output_handler_recv ::
  "PacketProtoEncoder \<Rightarrow> nat \<Rightarrow> PacketProtoEncoder \<times> encoder_call list" where
  "PacketProtoEncoder_output_handler_recv enc data =
     (enc\<lparr>enc_output_packet := Some data\<rparr>, [Enc_Input_Recv (data + packetproto_header_size)])"

definition PacketProtoEncoder_input_handler_done ::
  "PacketProtoEncoder \<Rightarrow> bytes \<Rightarrow> nat \<Rightarrow> PacketProtoEncoder \<times> bytes \<times> encoder_call list" where
  "PacketProtoEncoder_input_handler_done enc mem in_len =
    (case enc_output_packet enc of
       None \<Rightarrow> (enc, mem, [])
     | Some p \<Rightarrow>
         (enc\<lparr>enc_output_packet := None\<rparr>,
          blit mem p (mem16 (htol16 (of_nat in_len))),
          [Enc_Output_Done (PACKETPROTO_ENCLEN in_len)]))"

section \<open>PacketProtoDecoder.c\<close>

record PacketProtoDecoder =
  dec_output_mtu :: nat
  dec_buf :: bytes
  dec_buf_size :: nat
  dec_buf_start :: nat
  dec_buf_used :: nat

datatype decoder_call =
    Dec_Output_Send bytes    \<comment> \<open>\<open>PacketPassInterface_Sender_Send(output, data, data_len)\<close>\<close>
  | Dec_Input_Recv nat nat   \<comment> \<open>\<open>StreamRecvInterface_Receiver_Recv(input, buf + off, avail)\<close>\<close>
  | Dec_Handler_Error        \<comment> \<open>\<open>handler_error(user)\<close>\<close>

text \<open>\<open>malloc\<close> is a parameter: it fails or returns that many bytes of memory.\<close>

definition PacketProtoDecoder_Init ::
  "(nat \<Rightarrow> bytes option) \<Rightarrow> nat \<Rightarrow> (PacketProtoDecoder \<times> decoder_call list) option" where
  "PacketProtoDecoder_Init malloc interface_mtu =
    (let output_mtu = min interface_mtu PACKETPROTO_MAXPAYLOAD;
         size = PACKETPROTO_ENCLEN output_mtu
     in case malloc size of
          None \<Rightarrow> None
        | Some memory \<Rightarrow>
            Some (\<lparr>dec_output_mtu = output_mtu, dec_buf = memory, dec_buf_size = size,
                   dec_buf_start = 0, dec_buf_used = 0\<rparr>,
                  [Dec_Input_Recv 0 size]))"

text \<open>
  The part of \<open>process_data\<close> after the \<open>do ... while (0)\<close> block: no complete packet
  is at the front of the buffer.
\<close>

definition process_data_receive ::
  "bool \<Rightarrow> PacketProtoDecoder \<Rightarrow> PacketProtoDecoder \<times> decoder_call list" where
  "process_data_receive was_error enc =
    (let enc1 = (if was_error then enc\<lparr>dec_buf_start := 0, dec_buf_used := 0\<rparr>
                 else if dec_buf_start enc + dec_buf_used enc = dec_buf_size enc
                 then enc\<lparr>dec_buf := blit (dec_buf enc) 0
                            (bslice (dec_buf_start enc) (dec_buf_used enc) (dec_buf enc)),
                          dec_buf_start := 0\<rparr>
                 else enc)
     in (enc1,
         Dec_Input_Recv (dec_buf_start enc1 + dec_buf_used enc1)
           (dec_buf_size enc1 - (dec_buf_start enc1 + dec_buf_used enc1))
         # (if was_error then [Dec_Handler_Error] else [])))"

definition process_data :: "PacketProtoDecoder \<Rightarrow> PacketProtoDecoder \<times> decoder_call list" where
  "process_data enc =
    (let data = dec_buf_start enc; left = dec_buf_used enc in
     if left < packetproto_header_size then process_data_receive False enc
     else
       let header = bslice data packetproto_header_size (dec_buf enc);
           data = data + packetproto_header_size;
           left = left - packetproto_header_size;
           data_len = unat (ltoh16 (load16 header))
       in if data_len > dec_output_mtu enc then process_data_receive True enc
          else if left < data_len then process_data_receive False enc
          else (enc\<lparr>dec_buf_start := dec_buf_start enc + (packetproto_header_size + data_len),
                    dec_buf_used := dec_buf_used enc - (packetproto_header_size + data_len)\<rparr>,
                [Dec_Output_Send (bslice data data_len (dec_buf enc))]))"

definition PacketProtoDecoder_input_handler_done ::
  "PacketProtoDecoder \<Rightarrow> nat \<Rightarrow> PacketProtoDecoder \<times> decoder_call list" where
  "PacketProtoDecoder_input_handler_done enc data_len =
     process_data (enc\<lparr>dec_buf_used := dec_buf_used enc + data_len\<rparr>)"

definition PacketProtoDecoder_output_handler_done ::
  "PacketProtoDecoder \<Rightarrow> PacketProtoDecoder \<times> decoder_call list" where
  "PacketProtoDecoder_output_handler_done enc = process_data enc"

definition PacketProtoDecoder_Reset :: "PacketProtoDecoder \<Rightarrow> PacketProtoDecoder" where
  "PacketProtoDecoder_Reset enc =
     enc\<lparr>dec_buf_start := dec_buf_start enc + dec_buf_used enc, dec_buf_used := 0\<rparr>"

section \<open>The decoder in its environment\<close>

text \<open>
  \<open>ds_todo\<close> is what the stream has not delivered yet, \<open>ds_out\<close> what the output
  interface has been given and \<open>ds_errors\<close> how often the error handler was called. The decoder always waits for exactly one
  thing: bytes (\<open>Dec_Receiving off avail\<close>) or the completion of a send. After an error it goes on receiving; its owner
  may let it, as here, or free it.
\<close>

datatype decoder_wait = Dec_Receiving nat nat | Dec_Sending

record decoder_env =
  ds_dec :: PacketProtoDecoder
  ds_wait :: "decoder_wait option"
  ds_todo :: bytes
  ds_out :: "bytes list"
  ds_errors :: nat

text \<open>What the calls of a handler, each of which starts exactly one operation, leave the decoder waiting for.\<close>

fun decoder_wait_after :: "decoder_call list \<Rightarrow> decoder_wait option" where
  "decoder_wait_after [] = None"
| "decoder_wait_after (Dec_Output_Send _ # _) = Some Dec_Sending"
| "decoder_wait_after (Dec_Input_Recv off avail # _) = Some (Dec_Receiving off avail)"
| "decoder_wait_after (Dec_Handler_Error # cs) = decoder_wait_after cs"

fun decoder_sends :: "decoder_call list \<Rightarrow> bytes list" where
  "decoder_sends [] = []"
| "decoder_sends (Dec_Output_Send d # cs) = d # decoder_sends cs"
| "decoder_sends (_ # cs) = decoder_sends cs"

definition decoder_errors :: "decoder_call list \<Rightarrow> nat" where
  "decoder_errors cs = length (filter (\<lambda>c. c = Dec_Handler_Error) cs)"

definition decoder_after :: "decoder_env \<Rightarrow> PacketProtoDecoder \<times> decoder_call list \<Rightarrow> decoder_env" where
  "decoder_after s r = s\<lparr>ds_dec := fst r, ds_wait := decoder_wait_after (snd r),
      ds_out := ds_out s @ decoder_sends (snd r), ds_errors := ds_errors s + decoder_errors (snd r)\<rparr>"

definition decoder_start ::
  "(nat \<Rightarrow> bytes option) \<Rightarrow> nat \<Rightarrow> bytes \<Rightarrow> decoder_env \<Rightarrow> bool" where
  "decoder_start malloc mtu stream s =
    (case PacketProtoDecoder_Init malloc mtu of
       None \<Rightarrow> False
     | Some (d, cs) \<Rightarrow>
         s = \<lparr>ds_dec = d, ds_wait = decoder_wait_after cs, ds_todo = stream, ds_out = [], ds_errors = 0\<rparr>)"

inductive decoder_step :: "decoder_env \<Rightarrow> decoder_env \<Rightarrow> bool" where
  dec_recv: "ds_wait s = Some (Dec_Receiving off avail) \<Longrightarrow> 0 < n \<Longrightarrow> n \<le> avail \<Longrightarrow> n \<le> length (ds_todo s) \<Longrightarrow>
    d = (ds_dec s)\<lparr>dec_buf := blit (dec_buf (ds_dec s)) off (take n (ds_todo s))\<rparr> \<Longrightarrow>
    decoder_step s (decoder_after (s\<lparr>ds_todo := drop n (ds_todo s)\<rparr>)
      (PacketProtoDecoder_input_handler_done d n))"
| dec_sent: "ds_wait s = Some Dec_Sending \<Longrightarrow>
    decoder_step s (decoder_after s (PacketProtoDecoder_output_handler_done (ds_dec s)))"

section \<open>What a stream of frames means\<close>

definition pp_frame :: "bytes \<Rightarrow> bytes" where
  "pp_frame d = mem16 (htol16 (of_nat (length d))) @ d"

text \<open>The packets at the front of a stream, up to the first incomplete or oversized frame.\<close>

function pp_packets :: "nat \<Rightarrow> bytes \<Rightarrow> bytes list" where
  "pp_packets mtu bs =
    (if length bs < 2 then []
     else let n = unat (load16 bs) in
       if n > mtu \<or> length bs - 2 < n then []
       else take n (drop 2 bs) # pp_packets mtu (drop (2 + n) bs))"
  by pat_completeness auto
termination
  by (relation "measure (\<lambda>(mtu, bs). length bs)") auto

text \<open>Whether the first frame that is not delivered is oversized (and not just incomplete).\<close>

function pp_malformed :: "nat \<Rightarrow> bytes \<Rightarrow> bool" where
  "pp_malformed mtu bs =
    (if length bs < 2 then False
     else let n = unat (load16 bs) in
       if n > mtu then True
       else if length bs - 2 < n then False
       else pp_malformed mtu (drop (2 + n) bs))"
  by pat_completeness auto
termination
  by (relation "measure (\<lambda>(mtu, bs). length bs)") auto

declare pp_packets.simps [simp del] pp_malformed.simps [simp del]

interpretation pp_header: wire_format "\<lambda>n. mem16 (htol16 n)" "\<lambda>p. ltoh16 (load16 p)" 2 "\<lambda>_. True"
  by unfold_locales (simp_all add: htol16_def ltoh16_def)

lemma pp_packets_Nil [simp]: "pp_packets mtu [] = []"
  by (simp add: pp_packets.simps)

lemma pp_malformed_Nil [simp]: "\<not> pp_malformed mtu []"
  by (simp add: pp_malformed.simps)

lemma pp_packets_frame:
  assumes "length d \<le> mtu" and "mtu \<le> UINT16_MAX"
  shows "pp_packets mtu (pp_frame d @ rest) = d # pp_packets mtu rest"
proof -
  have n: "unat (load16 (pp_frame d @ rest)) = length d"
    using assms by (simp add: pp_frame_def htol16_def unat_of_nat take_bit_nat_eq_self_iff)
  show ?thesis
    using assms(1) by (subst pp_packets.simps) (simp add: n Let_def, simp add: pp_frame_def)
qed

lemma pp_malformed_frame:
  assumes "length d \<le> mtu" and "mtu \<le> UINT16_MAX"
  shows "pp_malformed mtu (pp_frame d @ rest) = pp_malformed mtu rest"
proof -
  have n: "unat (load16 (pp_frame d @ rest)) = length d"
    using assms by (simp add: pp_frame_def htol16_def unat_of_nat take_bit_nat_eq_self_iff)
  show ?thesis
    using assms(1) by (subst pp_malformed.simps) (simp add: n Let_def, simp add: pp_frame_def)
qed

lemma pp_packets_frames:
  "\<forall>d \<in> set ds. length d \<le> mtu \<Longrightarrow> mtu \<le> UINT16_MAX \<Longrightarrow> pp_packets mtu (concat (map pp_frame ds)) = ds"
  by (induction ds) (auto simp: pp_packets_frame)

lemma pp_malformed_frames:
  "\<forall>d \<in> set ds. length d \<le> mtu \<Longrightarrow> mtu \<le> UINT16_MAX \<Longrightarrow> \<not> pp_malformed mtu (concat (map pp_frame ds))"
proof (induction ds)
  case Nil
  show ?case by simp
qed (auto simp: pp_malformed_frame)

lemma load16_append: "2 \<le> length p \<Longrightarrow> load16 (p @ t) = load16 p"
  by (cases p; cases "tl p") (auto simp: load16_def)

text \<open>An oversized frame at the end hides what follows it.\<close>

lemma pp_malformed_append:
  "pp_malformed mtu x \<Longrightarrow> pp_malformed mtu (x @ t) \<and> pp_packets mtu (x @ t) = pp_packets mtu x"
proof (induction mtu x rule: pp_malformed.induct)
  case (1 mtu x)
  let ?n = "unat (load16 x)"
  from 1(2) have len: "2 \<le> length x" and c: "?n > mtu \<or> ?n \<le> length x - 2 \<and> pp_malformed mtu (drop (2 + ?n) x)"
    by (auto simp: pp_malformed.simps [of mtu x] Let_def split: if_splits)
  have h: "load16 (x @ t) = load16 x" using len by (simp add: load16_append)
  show ?case
  proof (cases "?n > mtu")
    case True
    then show ?thesis using len h
      by (simp add: pp_malformed.simps [of mtu "x @ t"] pp_packets.simps [of mtu "x @ t"] pp_packets.simps [of mtu x])
  next
    case False
    with c have n: "?n \<le> length x - 2" "pp_malformed mtu (drop (2 + ?n) x)" by auto
    have "pp_malformed mtu (drop (2 + ?n) x @ t) \<and> pp_packets mtu (drop (2 + ?n) x @ t) = pp_packets mtu (drop (2 + ?n) x)"
      using 1(1) [OF _ refl] False n len by auto
    then show ?thesis using False n len h
      by (simp add: pp_malformed.simps [of mtu "x @ t"] pp_packets.simps [of mtu "x @ t"] pp_packets.simps [of mtu x] Let_def)
  qed
qed

section \<open>One step of the decoder against the meaning of the stream\<close>

definition dec_contents :: "PacketProtoDecoder \<Rightarrow> bytes" where
  "dec_contents d = bslice (dec_buf_start d) (dec_buf_used d) (dec_buf d)"

definition dec_inv :: "PacketProtoDecoder \<Rightarrow> bool" where
  "dec_inv d \<longleftrightarrow> length (dec_buf d) = dec_buf_size d \<and> dec_buf_size d = 2 + dec_output_mtu d
     \<and> dec_output_mtu d \<le> UINT16_MAX \<and> dec_buf_start d + dec_buf_used d \<le> dec_buf_size d"

lemma length_dec_contents: "dec_inv d \<Longrightarrow> length (dec_contents d) = dec_buf_used d"
  by (auto simp: dec_contents_def dec_inv_def)

lemma load16_header: "2 \<le> dec_buf_used d \<Longrightarrow> dec_inv d \<Longrightarrow>
   load16 (bslice (dec_buf_start d) 2 (dec_buf d)) = load16 (dec_contents d)"
  by (simp add: load16_def dec_contents_def bslice_def dec_inv_def)

text \<open>The three outcomes of \<open>process_data\<close>.\<close>

lemma process_data_cases:
  assumes inv: "dec_inv d"
  obtains (Packet) p d' where "process_data d = (d', [Dec_Output_Send p])" and "dec_inv d'"
      and "dec_output_mtu d' = dec_output_mtu d" and "dec_buf_used d = dec_buf_used d' + 2 + length p"
      and "\<And>t. pp_packets (dec_output_mtu d) (dec_contents d @ t)
                 = p # pp_packets (dec_output_mtu d) (dec_contents d' @ t)"
      and "\<And>t. pp_malformed (dec_output_mtu d) (dec_contents d @ t)
                 = pp_malformed (dec_output_mtu d) (dec_contents d' @ t)"
    | (Receive) d' where "process_data d = (d', [Dec_Input_Recv (dec_buf_start d' + dec_buf_used d')
                 (dec_buf_size d' - (dec_buf_start d' + dec_buf_used d'))])" and "dec_inv d'"
      and "dec_output_mtu d' = dec_output_mtu d" and "dec_buf_used d' = dec_buf_used d"
      and "dec_buf_start d' + dec_buf_used d' < dec_buf_size d'"
      and "dec_contents d' = dec_contents d"
      and "pp_packets (dec_output_mtu d) (dec_contents d) = []"
      and "\<not> pp_malformed (dec_output_mtu d) (dec_contents d)"
    | (Error) d' where "process_data d = (d', [Dec_Input_Recv 0 (dec_buf_size d'), Dec_Handler_Error])"
      and "dec_inv d'" and "dec_output_mtu d' = dec_output_mtu d" and "dec_buf_used d' = 0" and "dec_buf_start d' = 0"
      and "\<And>t. pp_packets (dec_output_mtu d) (dec_contents d @ t) = []"
      and "\<And>t. pp_malformed (dec_output_mtu d) (dec_contents d @ t)"
proof -
  let ?c = "dec_contents d" and ?m = "dec_output_mtu d"
  have len: "length ?c = dec_buf_used d" using inv by (rule length_dec_contents)
  have receive: thesis
    if "process_data d = process_data_receive False d" "dec_buf_used d < dec_buf_size d"
      "pp_packets ?m ?c = []" "\<not> pp_malformed ?m ?c"
  proof (rule Receive)
    let ?d = "fst (process_data_receive False d)"
    show "process_data d = (?d, [Dec_Input_Recv (dec_buf_start ?d + dec_buf_used ?d)
        (dec_buf_size ?d - (dec_buf_start ?d + dec_buf_used ?d))])"
      using that by (simp add: process_data_receive_def Let_def)
    show "dec_inv ?d" "dec_buf_start ?d + dec_buf_used ?d < dec_buf_size ?d"
      using inv that by (auto simp: process_data_receive_def Let_def dec_inv_def)
    show "dec_contents ?d = ?c"
    proof (cases "dec_buf_start d + dec_buf_used d = dec_buf_size d")
      case True
      then have "dec_contents ?d = bslice 0 (length ?c) (blit (dec_buf d) 0 ?c)"
        using len by (simp add: process_data_receive_def dec_contents_def)
      also have "\<dots> = ?c" using inv len by (intro bslice_blit_same) (auto simp: dec_inv_def)
      finally show ?thesis .
    next
      case False
      then show ?thesis by (simp add: process_data_receive_def dec_contents_def)
    qed
  qed (use that in \<open>auto simp: process_data_receive_def Let_def\<close>)
  show thesis
  proof (cases "dec_buf_used d < 2")
    case True
    show thesis
      by (rule receive, use True inv len in
          \<open>auto simp: process_data_def dec_inv_def pp_packets.simps pp_malformed.simps\<close>)
  next
    case False
    define n where "n = unat (load16 ?c)"
    have hdr: "unat (ltoh16 (load16 (bslice (dec_buf_start d) 2 (dec_buf d)))) = n"
      using False inv by (simp add: load16_header n_def ltoh16_def htol16_def)
    have n: "unat (load16 (?c @ t)) = n" for t
      using False len by (simp add: n_def load16_append)
    consider (big) "n > ?m" | (short) "n \<le> ?m" "dec_buf_used d - 2 < n"
      | (full) "n \<le> ?m" "n \<le> dec_buf_used d - 2" by linarith
    then show thesis
    proof cases
      case big
      let ?d = "d\<lparr>dec_buf_start := 0, dec_buf_used := 0\<rparr>"
      show thesis
      proof (rule Error)
        show "process_data d = (?d, [Dec_Input_Recv 0 (dec_buf_size ?d), Dec_Handler_Error])"
          using big False hdr by (simp add: process_data_def process_data_receive_def Let_def)
        show "pp_packets ?m (?c @ t) = []" for t
          using big n [of t] by (subst pp_packets.simps) simp
        show "pp_malformed ?m (?c @ t)" for t
          using big False len n [of t] by (subst pp_malformed.simps) simp
      qed (use inv in \<open>auto simp: dec_inv_def\<close>)
    next
      case short
      have none: "pp_packets ?m ?c = []" "\<not> pp_malformed ?m ?c"
        using short False len n [of "[]"] by (auto simp: pp_packets.simps [of _ ?c] pp_malformed.simps [of _ ?c])
      show thesis
        by (rule receive [OF _ _ none], use short False hdr inv in
            \<open>auto simp: process_data_def Let_def dec_inv_def\<close>)
    next
      case full
      let ?d = "d\<lparr>dec_buf_start := dec_buf_start d + (2 + n), dec_buf_used := dec_buf_used d - (2 + n)\<rparr>"
      have rest: "drop (2 + n) (?c @ t) = dec_contents ?d @ t" for t
        using full False len by (simp add: dec_contents_def bslice_drop)
      have pkt: "take n (drop 2 (?c @ t)) = bslice (dec_buf_start d + 2) n (dec_buf d)" for t
      proof -
        have "take n (drop 2 (?c @ t)) = take n (drop 2 ?c)" using full False len by simp
        also have "\<dots> = bslice (dec_buf_start d + 2) (min n (dec_buf_used d - 2)) (dec_buf d)"
          by (simp add: dec_contents_def bslice_drop bslice_take)
        finally show ?thesis using full by (simp add: min_def)
      qed
      have enough: "\<not> length (?c @ t) - 2 < n" for t using full False len by simp
      show thesis
      proof (rule Packet)
        show "process_data d = (?d, [Dec_Output_Send (bslice (dec_buf_start d + 2) n (dec_buf d))])"
          using full False hdr by (simp add: process_data_def Let_def)
        show "pp_packets ?m (?c @ t) = bslice (dec_buf_start d + 2) n (dec_buf d)
               # pp_packets ?m (dec_contents ?d @ t)" for t
          using full False len n [of t] rest [of t] pkt [of t]
          by (subst pp_packets.simps) (simp add: Let_def del: drop_append take_append)
        show "pp_malformed ?m (?c @ t) = pp_malformed ?m (dec_contents ?d @ t)" for t
          using full False len n [of t] rest [of t] enough [of t]
          by (subst pp_malformed.simps) (simp add: Let_def del: drop_append take_append)
      qed (use full False inv in \<open>auto simp: dec_inv_def\<close>)
    qed
  qed
qed

section \<open>The decoder in its environment refines the meaning of the stream\<close>

text \<open>
  Every error ends a segment of the stream: frames that are delivered, then an oversized header and whatever else is in the
  buffer, which is discarded. The next byte received starts a new segment. \<open>seg_ok\<close> says that a segment ends in an oversized frame
  of which, with everything behind it, at most a buffer's length was received.
\<close>

definition seg_ok :: "nat \<Rightarrow> bytes \<Rightarrow> bool" where
  "seg_ok m x \<longleftrightarrow> pp_malformed m x \<and> length x \<le> sum_list (map (\<lambda>p. 2 + length p) (pp_packets m x)) + (2 + m)"

text \<open>
  In the current segment \<open>g\<close>, what the output has been given, followed by what the bytes of the buffer and those to come mean,
  is what the segment followed by the bytes to come means.
\<close>

definition segment_inv :: "nat \<Rightarrow> PacketProtoDecoder \<Rightarrow> bytes \<Rightarrow> bytes list \<Rightarrow> bool" where
  "segment_inv m d g out \<longleftrightarrow> (\<forall>t. out @ pp_packets m (dec_contents d @ t) = pp_packets m (g @ t)
     \<and> pp_malformed m (dec_contents d @ t) = pp_malformed m (g @ t))
     \<and> length g = sum_list (map (\<lambda>p. 2 + length p) out) + dec_buf_used d"

definition split_inv :: "nat \<Rightarrow> bytes \<Rightarrow> PacketProtoDecoder \<Rightarrow> decoder_env \<Rightarrow> bool" where
  "split_inv m stream d s \<longleftrightarrow> (\<exists>segs g out. stream = concat segs @ g @ ds_todo s \<and> length segs = ds_errors s
     \<and> (\<forall>x\<in>set segs. seg_ok m x) \<and> ds_out s = concat (map (pp_packets m) segs) @ out \<and> segment_inv m d g out)"

fun decoder_wait_inv :: "decoder_wait option \<Rightarrow> PacketProtoDecoder \<Rightarrow> bool" where
  "decoder_wait_inv None d \<longleftrightarrow> False"
| "decoder_wait_inv (Some (Dec_Receiving off avail)) d \<longleftrightarrow>
     off = dec_buf_start d + dec_buf_used d \<and> avail = dec_buf_size d - off \<and> 0 < avail
     \<and> pp_packets (dec_output_mtu d) (dec_contents d) = [] \<and> \<not> pp_malformed (dec_output_mtu d) (dec_contents d)"
| "decoder_wait_inv (Some Dec_Sending) d \<longleftrightarrow> True"

definition decoder_inv :: "nat \<Rightarrow> bytes \<Rightarrow> decoder_env \<Rightarrow> bool" where
  "decoder_inv mtu stream s \<longleftrightarrow> dec_inv (ds_dec s) \<and> dec_output_mtu (ds_dec s) = min mtu UINT16_MAX
     \<and> decoder_wait_inv (ds_wait s) (ds_dec s) \<and> split_inv (min mtu UINT16_MAX) stream (ds_dec s) s"

text \<open>Running \<open>process_data\<close> keeps the invariant.\<close>

lemma dec_contents_empty: "dec_buf_used d = 0 \<Longrightarrow> dec_contents d = []"
  by (simp add: dec_contents_def bslice_def)

lemma segment_inv_Nil: "dec_buf_used d = 0 \<Longrightarrow> segment_inv m d [] []"
  by (simp add: segment_inv_def dec_contents_empty)

lemma decoder_after_process_data:
  assumes d: "dec_inv d" "dec_output_mtu d = min mtu UINT16_MAX" and sp: "split_inv (min mtu UINT16_MAX) stream d s"
  shows "decoder_inv mtu stream (decoder_after s (process_data d))"
proof -
  let ?m = "min mtu UINT16_MAX"
  from sp obtain segs g out where g: "stream = concat segs @ g @ ds_todo s" "length segs = ds_errors s" "\<forall>x\<in>set segs. seg_ok ?m x"
      "ds_out s = concat (map (pp_packets ?m) segs) @ out" "segment_inv ?m d g out"
    unfolding split_inv_def by blast
  from d(1) show ?thesis
  proof (cases rule: process_data_cases)
    case (Packet p d')
    have seg: "segment_inv ?m d' g (out @ [p])"
      using g(5) Packet(3-6) d(2) by (simp add: segment_inv_def)
    let ?s = "decoder_after s (process_data d)"
    have "split_inv ?m stream d' ?s"
      unfolding split_inv_def
      by (rule exI [of _ segs], rule exI [of _ g], rule exI [of _ "out @ [p]"])
        (use g seg Packet(1) in \<open>simp add: decoder_after_def decoder_errors_def\<close>)
    then show ?thesis using Packet(1-3) d(2) by (simp add: decoder_inv_def decoder_after_def)
  next
    case (Receive d')
    have "split_inv ?m stream d' (decoder_after s (process_data d))"
      unfolding split_inv_def
      by (rule exI [of _ segs], rule exI [of _ g], rule exI [of _ out])
        (use g Receive(1,4,6) in \<open>simp add: decoder_after_def decoder_errors_def segment_inv_def\<close>)
    then show ?thesis using Receive d(2) by (simp add: decoder_inv_def decoder_after_def)
  next
    case (Error d')
    note means = Error(6,7) [of "[]"]
    have e: "pp_packets ?m g = out" "pp_malformed ?m g" "length g \<le> sum_list (map (\<lambda>p. 2 + length p) out) + (2 + ?m)"
      using g(5) means d by (auto simp: segment_inv_def dec_inv_def dest: spec [of _ "[]"])
    then have ok: "seg_ok ?m g" by (simp add: seg_ok_def)
    have "split_inv ?m stream d' (decoder_after s (process_data d))"
      unfolding split_inv_def
      by (rule exI [of _ "segs @ [g]"], rule exI [of _ "[]"], rule exI [of _ "[]"])
        (use g e ok Error(1,4) segment_inv_Nil in \<open>simp add: decoder_after_def decoder_errors_def\<close>)
    moreover have "pp_packets ?m (dec_contents d') = [] \<and> \<not> pp_malformed ?m (dec_contents d')"
      by (simp add: dec_contents_empty [OF Error(4)])
    ultimately show ?thesis using Error(1-5) d(2) by (simp add: decoder_inv_def decoder_after_def dec_inv_def)
  qed
qed

definition decoder_size :: "decoder_env \<Rightarrow> nat" where
  "decoder_size s = 2 * length (ds_todo s) + dec_buf_used (ds_dec s) + (if ds_wait s = Some Dec_Sending then 1 else 0)"

lemma decoder_size_process_data:
  assumes "dec_inv d"
  shows "decoder_size (decoder_after s (process_data d)) \<le> 2 * length (ds_todo s) + dec_buf_used d"
  using assms
  by (cases rule: process_data_cases) (auto simp: decoder_size_def decoder_after_def)

lemma dec_write_contents:
  assumes "dec_inv d" and "dec_buf_start d + dec_buf_used d + length w \<le> dec_buf_size d"
  defines "d' \<equiv> d\<lparr>dec_buf := blit (dec_buf d) (dec_buf_start d + dec_buf_used d) w,
                   dec_buf_used := dec_buf_used d + length w\<rparr>"
  shows "dec_inv d' \<and> dec_contents d' = dec_contents d @ w"
  using assms by (auto simp: dec_inv_def dec_contents_def bslice_blit_extend)

lemma decoder_step_recv:
  assumes "decoder_inv mtu stream s" and "ds_wait s = Some (Dec_Receiving off avail)"
    and "n \<le> avail" and "n \<le> length (ds_todo s)"
  obtains d' where "dec_inv d'" and "dec_output_mtu d' = dec_output_mtu (ds_dec s)"
    and "dec_contents d' = dec_contents (ds_dec s) @ take n (ds_todo s)"
    and "dec_buf_used d' = dec_buf_used (ds_dec s) + n"
    and "PacketProtoDecoder_input_handler_done
           ((ds_dec s)\<lparr>dec_buf := blit (dec_buf (ds_dec s)) off (take n (ds_todo s))\<rparr>) n = process_data d'"
proof -
  let ?d = "(ds_dec s)\<lparr>dec_buf := blit (dec_buf (ds_dec s)) off (take n (ds_todo s)),
       dec_buf_used := dec_buf_used (ds_dec s) + n\<rparr>"
  from assms have "dec_inv ?d \<and> dec_contents ?d = dec_contents (ds_dec s) @ take n (ds_todo s)"
    using dec_write_contents [of "ds_dec s" "take n (ds_todo s)"] by (auto simp: decoder_inv_def)
  with that [of ?d] show thesis
    by (simp add: PacketProtoDecoder_input_handler_done_def)
qed

text \<open>Received bytes join the current segment.\<close>

lemma split_inv_recv:
  assumes "split_inv m stream d s" and "dec_contents d' = dec_contents d @ take n (ds_todo s)" and "dec_buf_used d' = dec_buf_used d + n"
    and "n \<le> length (ds_todo s)"
  shows "split_inv m stream d' (s\<lparr>ds_todo := drop n (ds_todo s)\<rparr>)"
proof -
  from assms(1) obtain segs g out where g: "stream = concat segs @ g @ ds_todo s" "length segs = ds_errors s" "\<forall>x\<in>set segs. seg_ok m x"
      "ds_out s = concat (map (pp_packets m) segs) @ out" "segment_inv m d g out"
    unfolding split_inv_def by blast
  have "segment_inv m d' (g @ take n (ds_todo s)) out"
    using g(5) assms(2-4) by (simp add: segment_inv_def)
  then show ?thesis unfolding split_inv_def
    by (intro exI [of _ segs] exI [of _ "g @ take n (ds_todo s)"] exI [of _ out]) (use g in simp)
qed

lemma decoder_inv_step:
  assumes "decoder_inv mtu stream s" and "decoder_step s t"
  shows "decoder_inv mtu stream t \<and> decoder_size t < decoder_size s"
  using assms(2)
proof cases
  case (dec_recv off avail n d)
  from decoder_step_recv [OF assms(1) dec_recv(2,4,5)] obtain d' where d':
    "dec_inv d'" "dec_output_mtu d' = dec_output_mtu (ds_dec s)"
    "dec_contents d' = dec_contents (ds_dec s) @ take n (ds_todo s)"
    "dec_buf_used d' = dec_buf_used (ds_dec s) + n"
    "PacketProtoDecoder_input_handler_done d n = process_data d'"
    unfolding dec_recv(6) .
  let ?s = "s\<lparr>ds_todo := drop n (ds_todo s)\<rparr>"
  have "split_inv (min mtu UINT16_MAX) stream d' ?s"
    using assms(1) by (intro split_inv_recv [OF _ d'(3,4) dec_recv(5)]) (simp add: decoder_inv_def)
  then have "decoder_inv mtu stream (decoder_after ?s (process_data d'))"
    using assms(1) d' by (intro decoder_after_process_data) (auto simp: decoder_inv_def)
  moreover have "decoder_size (decoder_after ?s (process_data d')) < decoder_size s"
    using decoder_size_process_data [OF d'(1), of ?s] d' dec_recv
    by (simp add: decoder_size_def)
  ultimately show ?thesis using d' dec_recv by simp
next
  case dec_sent
  have "decoder_inv mtu stream (decoder_after s (process_data (ds_dec s)))"
    using assms(1) by (intro decoder_after_process_data) (auto simp: decoder_inv_def)
  then have "decoder_inv mtu stream t"
    using dec_sent by (simp add: PacketProtoDecoder_output_handler_done_def)
  moreover have "decoder_size t < decoder_size s"
    using decoder_size_process_data [of "ds_dec s" s] assms(1) dec_sent
    by (simp add: decoder_size_def PacketProtoDecoder_output_handler_done_def decoder_inv_def)
  ultimately show ?thesis by simp
qed

lemma decoder_inv_start:
  assumes "malloc_ok malloc" and "decoder_start malloc mtu stream s"
  shows "decoder_inv mtu stream s"
proof -
  from assms have s: "dec_inv (ds_dec s)" "dec_output_mtu (ds_dec s) = min mtu UINT16_MAX" "decoder_wait_inv (ds_wait s) (ds_dec s)"
      "dec_buf_used (ds_dec s) = 0" "ds_todo s = stream" "ds_out s = []" "ds_errors s = 0"
    by (auto simp: malloc_ok_def decoder_start_def PacketProtoDecoder_Init_def Let_def dec_inv_def
      dec_contents_def PACKETPROTO_ENCLEN_def PACKETPROTO_MAXPAYLOAD_def split: option.splits prod.splits)
  have "split_inv (min mtu UINT16_MAX) stream (ds_dec s) s"
    unfolding split_inv_def
    by (rule exI [of _ "[]"], rule exI [of _ "[]"], rule exI [of _ "[]"]) (use s segment_inv_Nil in simp)
  with s show ?thesis by (simp add: decoder_inv_def)
qed

interpretation dec_sys: terminating_system
    "\<lambda>s. malloc_ok malloc \<and> decoder_start malloc mtu stream s"
    decoder_step "decoder_inv mtu stream" decoder_size for malloc mtu stream
  by unfold_locales (use decoder_inv_start decoder_inv_step in blast)+

text \<open>The decoder is never stuck while bytes are left: it waits for them, or for its output.\<close>

lemma decoder_stuck:
  assumes "decoder_inv mtu stream s" and "\<forall>t. \<not> decoder_step s t"
  shows "\<exists>segs rest. stream = concat segs @ rest \<and> length segs = ds_errors s \<and> (\<forall>x\<in>set segs. seg_ok (min mtu UINT16_MAX) x)
    \<and> \<not> pp_malformed (min mtu UINT16_MAX) rest
    \<and> ds_out s = concat (map (pp_packets (min mtu UINT16_MAX)) segs) @ pp_packets (min mtu UINT16_MAX) rest"
proof -
  let ?m = "min mtu UINT16_MAX"
  from assms(1) have inv: "decoder_wait_inv (ds_wait s) (ds_dec s)" "dec_output_mtu (ds_dec s) = ?m" "split_inv ?m stream (ds_dec s) s"
    by (simp_all add: decoder_inv_def)
  have "ds_wait s \<noteq> Some Dec_Sending" using assms(2) decoder_step.dec_sent by blast
  with inv(1) obtain off avail where w: "ds_wait s = Some (Dec_Receiving off avail)"
    by (cases "(ds_wait s, ds_dec s)" rule: decoder_wait_inv.cases) auto
  have todo: "ds_todo s = []"
  proof (rule ccontr)
    assume "ds_todo s \<noteq> []"
    then have "1 \<le> length (ds_todo s)" by (cases "ds_todo s") auto
    moreover have "1 \<le> avail" using inv(1) w by auto
    ultimately show False
      using assms(2) decoder_step.dec_recv [OF w, of 1, OF _ _ _ refl] by auto
  qed
  from inv(3) obtain segs g out where g: "stream = concat segs @ g @ ds_todo s" "length segs = ds_errors s" "\<forall>x\<in>set segs. seg_ok ?m x"
      "ds_out s = concat (map (pp_packets ?m) segs) @ out" "segment_inv ?m (ds_dec s) g out"
    unfolding split_inv_def by blast
  have "out = pp_packets ?m g" "\<not> pp_malformed ?m g"
    using g(5) inv(1,2) w unfolding segment_inv_def by (auto dest: spec [of _ "[]"])
  with g todo show ?thesis by (intro exI [of _ segs] exI [of _ g]) simp
qed

text \<open>A stream that contains no oversized frame has no segment that ends in one.\<close>

lemma decoder_no_error:
  assumes "decoder_inv mtu stream s" and "\<not> pp_malformed (min mtu UINT16_MAX) stream"
  shows "ds_errors s = 0" and "\<exists>rest. ds_out s @ rest = pp_packets (min mtu UINT16_MAX) stream"
proof -
  let ?m = "min mtu UINT16_MAX"
  from assms(1) obtain segs g out where g: "stream = concat segs @ g @ ds_todo s" "length segs = ds_errors s" "\<forall>x\<in>set segs. seg_ok ?m x"
      "ds_out s = concat (map (pp_packets ?m) segs) @ out" "segment_inv ?m (ds_dec s) g out"
    unfolding decoder_inv_def split_inv_def by blast
  have no: "segs = []"
  proof (cases segs)
    case (Cons x xs)
    then have "pp_malformed ?m stream" using g(1,3) pp_malformed_append [of ?m x] by (simp add: seg_ok_def)
    with assms(2) show ?thesis by simp
  qed
  then show "ds_errors s = 0" using g(2) by simp
  have "out @ pp_packets ?m (dec_contents (ds_dec s) @ ds_todo s) = pp_packets ?m (g @ ds_todo s)"
    using g(5) by (simp add: segment_inv_def)
  then show "\<exists>rest. ds_out s @ rest = pp_packets ?m stream" using no g(1,4) by auto
qed

section \<open>Properties\<close>

text \<open>
  C17. Framing round trip through an arbitrary network: if a stream is the concatenation of the
  frames of packets no longer than the decoder's maximum, then whatever pieces the stream
  arrives in, the decoder gives its output a prefix of exactly those packets at every moment
  and never reports an error; and when nothing more can happen it has delivered all of them.
\<close>

theorem decoder_delivers_all_packets:
  assumes "malloc_ok malloc"
    and "\<forall>d \<in> set ds. length d \<le> min mtu UINT16_MAX"
    and "reach (decoder_start malloc mtu (concat (map pp_frame ds))) decoder_step s"
  shows "(\<exists>rest. ds_out s @ rest = ds) \<and> ds_errors s = 0
    \<and> ((\<forall>t. \<not> decoder_step s t) \<longrightarrow> ds_out s = ds)"
proof (intro conjI impI)
  let ?st = "concat (map pp_frame ds)" and ?m = "min mtu UINT16_MAX"
  have good: "pp_packets ?m ?st = ds" "\<not> pp_malformed ?m ?st"
    using pp_packets_frames [of ds ?m] pp_malformed_frames [of ds ?m] assms(2) by auto
  have inv: "decoder_inv mtu ?st s"
    using assms(3,1) by (induction rule: reach.induct) (auto intro: decoder_inv_start dest: decoder_inv_step)
  show "\<exists>rest. ds_out s @ rest = ds" and none: "ds_errors s = 0"
    using decoder_no_error [OF inv good(2)] good(1) by simp_all
  show "ds_out s = ds" if "\<forall>t. \<not> decoder_step s t"
    using decoder_stuck [OF inv that] none good(1) by auto
qed

text \<open>
  C18. The decoder always finishes and recovers from errors: every run of the decoder on a stream makes at most
  \<open>2 * length stream\<close> steps, some run reaches a state where nothing more can happen, and in
  every such state the stream falls into as many segments as the error handler was called, and a rest. Every
  segment ends with an oversized frame, of which with what follows in the segment at most \<open>2 + mtu\<close> bytes were received and discarded; the
  rest contains no oversized frame. The output has been given exactly the packets of the segments, each up to its
  oversized frame, and those of the rest up to its incomplete frame: after an error the decoder starts afresh with the next byte.
\<close>

theorem decoder_terminates_with_meaning:
  assumes "malloc_ok malloc"
    and "decoder_start malloc mtu stream s"
  shows "(\<forall>n t. steps_n decoder_step n s t \<longrightarrow> n \<le> 2 * length stream)
    \<and> (\<exists>n t. steps_n decoder_step n s t \<and> (\<forall>u. \<not> decoder_step t u))
    \<and> (\<forall>n t. steps_n decoder_step n s t \<and> (\<forall>u. \<not> decoder_step t u) \<longrightarrow>
      (\<exists>segs rest. stream = concat segs @ rest \<and> length segs = ds_errors t
        \<and> (\<forall>x\<in>set segs. pp_malformed (min mtu UINT16_MAX) x
             \<and> length x \<le> sum_list (map (\<lambda>p. 2 + length p) (pp_packets (min mtu UINT16_MAX) x)) + (2 + min mtu UINT16_MAX))
        \<and> \<not> pp_malformed (min mtu UINT16_MAX) rest
        \<and> ds_out t = concat (map (pp_packets (min mtu UINT16_MAX)) segs) @ pp_packets (min mtu UINT16_MAX) rest))"
proof (intro conjI allI impI)
  have inv: "decoder_inv mtu stream s" using assms by (rule decoder_inv_start)
  have "decoder_size s = 2 * length stream"
    using assms(2) by (auto simp: decoder_start_def PacketProtoDecoder_Init_def Let_def decoder_size_def
        split: option.splits)
  then show "n \<le> 2 * length stream" if "steps_n decoder_step n s t" for n t
    using dec_sys.steps_bounded [OF that inv] by simp
  show "\<exists>n t. steps_n decoder_step n s t \<and> (\<forall>u. \<not> decoder_step t u)"
    using inv by (rule dec_sys.run_to_end)
  fix n t assume "steps_n decoder_step n s t \<and> (\<forall>u. \<not> decoder_step t u)"
  then show "\<exists>segs rest. stream = concat segs @ rest \<and> length segs = ds_errors t
        \<and> (\<forall>x\<in>set segs. pp_malformed (min mtu UINT16_MAX) x
             \<and> length x \<le> sum_list (map (\<lambda>p. 2 + length p) (pp_packets (min mtu UINT16_MAX) x)) + (2 + min mtu UINT16_MAX))
        \<and> \<not> pp_malformed (min mtu UINT16_MAX) rest
        \<and> ds_out t = concat (map (pp_packets (min mtu UINT16_MAX)) segs) @ pp_packets (min mtu UINT16_MAX) rest"
    using decoder_stuck [OF dec_sys.steps_n_inv [OF _ inv]] unfolding seg_ok_def by blast
qed

text \<open>
  The encoder produces frames: when its input has written a payload of at most 65535 bytes
  behind the two reserved bytes, completing the packet leaves exactly the frame of that payload
  in the output buffer, reports its length, changes nothing else in memory and makes the encoder
  ready for the next packet.
\<close>

theorem encoder_writes_frame:
  assumes "enc_output_packet enc = Some p" and "length d \<le> PACKETPROTO_MAXPAYLOAD"
    and "p + 2 + length d \<le> length mem" and "bslice (p + 2) (length d) mem = d"
    and "PacketProtoEncoder_input_handler_done enc mem (length d) = (enc', mem', calls)"
  shows "bslice p (PACKETPROTO_ENCLEN (length d)) mem' = pp_frame d
    \<and> calls = [Enc_Output_Done (length (pp_frame d))] \<and> enc_output_packet enc' = None
    \<and> bslice 0 p mem' = bslice 0 p mem \<and> drop (p + 2) mem' = drop (p + 2) mem"
proof (intro conjI)
  let ?h = "mem16 (htol16 (of_nat (length d)))"
  from assms have m: "mem' = blit mem p ?h" "calls = [Enc_Output_Done (2 + length d)]"
    "enc' = enc\<lparr>enc_output_packet := None\<rparr>"
    by (auto simp: PacketProtoEncoder_input_handler_done_def PACKETPROTO_ENCLEN_def)
  have "bslice p (2 + length d) mem' = bslice p 2 mem' @ bslice (p + 2) (length d) mem'"
    by (simp only: bslice_append)
  also have "bslice p 2 mem' = ?h"
    using bslice_blit_same [of p ?h mem] assms(3) m by simp
  also have "bslice (p + 2) (length d) mem' = d"
    using bslice_blit_after [of p ?h "p + 2" mem] assms(3,4) m by simp
  finally show "bslice p (PACKETPROTO_ENCLEN (length d)) mem' = pp_frame d"
    by (simp add: pp_frame_def PACKETPROTO_ENCLEN_def)
  show "calls = [Enc_Output_Done (length (pp_frame d))]" and "enc_output_packet enc' = None"
    using m by (simp_all add: pp_frame_def)
  show "bslice 0 p mem' = bslice 0 p mem" using m assms(3) by (simp add: bslice_blit_before)
  show "drop (p + 2) mem' = drop (p + 2) mem" using m assms(3) by (simp add: blit_def)
qed

definition demo_malloc :: "nat \<Rightarrow> bytes option" where
  "demo_malloc n = Some (replicate n 0)"

definition demo_decoder_env :: decoder_env where
  "demo_decoder_env =
    \<lparr>ds_dec = \<lparr>dec_output_mtu = 4, dec_buf = 0 # 0 # replicate 4 0, dec_buf_size = 6,
       dec_buf_start = 0, dec_buf_used = 0\<rparr>,
     ds_wait = Some (Dec_Receiving 0 6), ds_todo = [1, 0, 7, 2, 0, 8, 9], ds_out = [], ds_errors = 0\<rparr>"

lemma demo_decoder_start:
  "decoder_start demo_malloc 4 (concat (map pp_frame [[7], [8, 9]])) demo_decoder_env"
  by (simp add: decoder_start_def PacketProtoDecoder_Init_def demo_malloc_def demo_decoder_env_def
      PACKETPROTO_ENCLEN_def PACKETPROTO_MAXPAYLOAD_def Let_def pp_frame_def mem16_def htol16_def)

theorem decoder_delivers_all_packets_witness:
  "reach (decoder_start demo_malloc 4 (concat (map pp_frame [[7], [8, 9]]))) decoder_step demo_decoder_env
    \<and> ds_errors demo_decoder_env = 0"
proof -
  have r: "reach (decoder_start demo_malloc 4 (concat (map pp_frame [[7], [8, 9]]))) decoder_step demo_decoder_env"
    using demo_decoder_start by (rule reach_start)
  show ?thesis
    using r decoder_delivers_all_packets [of demo_malloc "[[7], [8, 9]]" 4, OF _ _ r]
    by (simp add: demo_malloc_def malloc_ok_def)
qed

text \<open>A stream whose second frame is oversized, followed by one that is not.\<close>

definition demo_bad_env :: decoder_env where
  "demo_bad_env = demo_decoder_env\<lparr>ds_todo := [1, 0, 7, 9, 0, 1, 0, 8]\<rparr>"

lemma demo_bad_start: "decoder_start demo_malloc 4 [1, 0, 7, 9, 0, 1, 0, 8] demo_bad_env"
  by (simp add: decoder_start_def PacketProtoDecoder_Init_def demo_malloc_def demo_decoder_env_def demo_bad_env_def
      PACKETPROTO_ENCLEN_def PACKETPROTO_MAXPAYLOAD_def Let_def)

theorem decoder_terminates_with_meaning_witness:
  "\<exists>n t. steps_n decoder_step n demo_bad_env t \<and> n \<le> 16 \<and> 0 < ds_errors t"
proof -
  have m: "malloc_ok demo_malloc" by (simp add: demo_malloc_def malloc_ok_def)
  note facts = decoder_terminates_with_meaning [OF m demo_bad_start]
  from facts obtain n t where nt: "steps_n decoder_step n demo_bad_env t" "\<forall>u. \<not> decoder_step t u"
    by blast
  with facts obtain segs rest where r: "[1, 0, 7, 9, 0, 1, 0, 8] = concat segs @ rest" "length segs = ds_errors t"
    "\<not> pp_malformed (min 4 UINT16_MAX) rest" by blast
  have "pp_malformed 4 [1, 0, 7, 9, 0, 1, 0, 8]"
    by (simp add: pp_malformed.simps load16_def)
  with r have "segs \<noteq> []" by auto
  then have "0 < ds_errors t" using r(2) by (cases segs) simp_all
  moreover have "n \<le> 16" using conjunct1 [OF facts] nt(1) by auto
  ultimately show ?thesis using nt(1) by blast
qed

theorem encoder_writes_frame_witness:
  "bslice 1 4 (fst (snd (PacketProtoEncoder_input_handler_done
     \<lparr>enc_output_packet = Some 1, enc_output_mtu = 6\<rparr> [9, 0, 0, 5, 6, 9] 2))) = pp_frame [5, 6]"
  using encoder_writes_frame [of "\<lparr>enc_output_packet = Some 1, enc_output_mtu = 6\<rparr>" 1 "[5, 6]"
      "[9, 0, 0, 5, 6, 9]"]
  by (simp add: PACKETPROTO_MAXPAYLOAD_def PACKETPROTO_ENCLEN_def bslice_def
      PacketProtoEncoder_input_handler_done_def)

end
