(* ===== verification/Net_Proto.thy ===== *)
theory Net_Proto
  imports Prelude
begin

text \<open>
  Addresses (\<open>system/BAddr.h\<close>) and the IPv4, IPv6 and UDP headers with their checks and
  checksums (\<open>misc/ipv4_proto.h\<close>, \<open>misc/ipv6_proto.h\<close>, \<open>misc/udp_proto.h\<close>).
  Header fields hold what the C fields hold: multi-byte fields are in network byte order, so
  their value on the little-endian target is byte-reversed.

  The lemmas show that headers can be read back from the wire, that the comparison of
  addresses is a total order, that folding a 32-bit sum is reduction modulo 65535, and what
  follows for the checksums.
\<close>

section \<open>BAddr.h\<close>

text \<open>Packet-socket addresses (\<open>BADDR_TYPE_PACKET\<close>) are not used by this program.\<close>

datatype BAddr =
    BAddr_None
  | BAddr_IPv4 "32 word" "16 word"
  | BAddr_IPv6 bytes "16 word"

fun BAddr_type :: "BAddr \<Rightarrow> int" where
  "BAddr_type BAddr_None = 0"
| "BAddr_type (BAddr_IPv4 ip port) = 1"
| "BAddr_type (BAddr_IPv6 ip port) = 2"

text \<open>An address a C object can hold: the IPv6 member is an array of 16 bytes.\<close>

fun BAddr_wf :: "BAddr \<Rightarrow> bool" where
  "BAddr_wf (BAddr_IPv6 ip port) = (length ip = 16)"
| "BAddr_wf _ = True"

text \<open>\<open>memcmp\<close>: the difference of the first bytes that differ.\<close>

fun memcmp :: "bytes \<Rightarrow> bytes \<Rightarrow> int" where
  "memcmp (a # as) (b # bs) = (if a = b then memcmp as bs else uint a - uint b)"
| "memcmp _ _ = 0"

definition BAddr_Compare :: "BAddr \<Rightarrow> BAddr \<Rightarrow> bool" where
  "BAddr_Compare a1 a2 =
    (if BAddr_type a1 \<noteq> BAddr_type a2 then False
     else case (a1, a2) of
       (BAddr_IPv4 ip1 port1, BAddr_IPv4 ip2 port2) \<Rightarrow> ip1 = ip2 \<and> port1 = port2
     | (BAddr_IPv6 ip1 port1, BAddr_IPv6 ip2 port2) \<Rightarrow> memcmp ip1 ip2 = 0 \<and> port1 = port2
     | _ \<Rightarrow> False)"

definition BAddr_CompareOrder :: "BAddr \<Rightarrow> BAddr \<Rightarrow> int" where
  "BAddr_CompareOrder a1 a2 =
    (let c = B_COMPARE (BAddr_type a1) (BAddr_type a2) in
     if c \<noteq> 0 then c
     else case (a1, a2) of
       (BAddr_IPv4 ip1 port1, BAddr_IPv4 ip2 port2) \<Rightarrow>
         (let c = B_COMPARE (ntoh32 ip1) (ntoh32 ip2) in
          if c \<noteq> 0 then c else B_COMPARE (ntoh16 port1) (ntoh16 port2))
     | (BAddr_IPv6 ip1 port1, BAddr_IPv6 ip2 port2) \<Rightarrow>
         (let c = memcmp ip1 ip2 in
          if c \<noteq> 0 then B_COMPARE c 0 else B_COMPARE (ntoh16 port1) (ntoh16 port2))
     | _ \<Rightarrow> 0)"

section \<open>Headers\<close>

record ipv4_header =
  version4_ihl4 :: byte
  ds :: byte
  total_length :: "16 word"
  identification :: "16 word"
  flags3_fragmentoffset13 :: "16 word"
  ttl :: byte
  protocol :: byte
  checksum4 :: "16 word"
  source_address4 :: "32 word"
  destination_address4 :: "32 word"

definition ipv4_header_bytes :: "ipv4_header \<Rightarrow> bytes" where
  "ipv4_header_bytes h = [version4_ihl4 h, ds h] @ mem16 (total_length h) @ mem16 (identification h)
     @ mem16 (flags3_fragmentoffset13 h) @ [ttl h, protocol h] @ mem16 (checksum4 h)
     @ mem32 (source_address4 h) @ mem32 (destination_address4 h)"

definition ipv4_header_read :: "bytes \<Rightarrow> ipv4_header" where
  "ipv4_header_read p = \<lparr>version4_ihl4 = p ! 0, ds = p ! 1, total_length = load16 (drop 2 p),
     identification = load16 (drop 4 p), flags3_fragmentoffset13 = load16 (drop 6 p),
     ttl = p ! 8, protocol = p ! 9, checksum4 = load16 (drop 10 p),
     source_address4 = load32 (drop 12 p), destination_address4 = load32 (drop 16 p)\<rparr>"

record ipv6_header =
  version4_tc4 :: byte
  tc4_fl4 :: byte
  fl :: "16 word"
  payload_length :: "16 word"
  next_header :: byte
  hop_limit :: byte
  source_address6 :: bytes
  destination_address6 :: bytes

definition ipv6_header_bytes :: "ipv6_header \<Rightarrow> bytes" where
  "ipv6_header_bytes h = [version4_tc4 h, tc4_fl4 h] @ mem16 (fl h) @ mem16 (payload_length h)
     @ [next_header h, hop_limit h] @ source_address6 h @ destination_address6 h"

definition ipv6_header_read :: "bytes \<Rightarrow> ipv6_header" where
  "ipv6_header_read p = \<lparr>version4_tc4 = p ! 0, tc4_fl4 = p ! 1, fl = load16 (drop 2 p),
     payload_length = load16 (drop 4 p), next_header = p ! 6, hop_limit = p ! 7,
     source_address6 = bslice 8 16 p, destination_address6 = bslice 24 16 p\<rparr>"

record udp_header =
  source_port :: "16 word"
  dest_port :: "16 word"
  udp_length :: "16 word"
  udp_checksum_field :: "16 word"

definition udp_header_bytes :: "udp_header \<Rightarrow> bytes" where
  "udp_header_bytes h = mem16 (source_port h) @ mem16 (dest_port h) @ mem16 (udp_length h)
     @ mem16 (udp_checksum_field h)"

definition udp_header_read :: "bytes \<Rightarrow> udp_header" where
  "udp_header_read p = \<lparr>source_port = load16 p, dest_port = load16 (drop 2 p),
     udp_length = load16 (drop 4 p), udp_checksum_field = load16 (drop 6 p)\<rparr>"

definition IPV4_GET_VERSION :: "ipv4_header \<Rightarrow> byte" where
  "IPV4_GET_VERSION h = drop_bit 4 (version4_ihl4 h AND 0xF0)"

definition IPV4_GET_IHL :: "ipv4_header \<Rightarrow> byte" where
  "IPV4_GET_IHL h = version4_ihl4 h AND 0x0F"

definition IPV4_MAKE_VERSION_IHL :: "nat \<Rightarrow> byte" where
  "IPV4_MAKE_VERSION_IHL sz = of_nat (sz div 4) + push_bit 4 4"

abbreviation (input) IPV4_PROTOCOL_UDP :: byte where "IPV4_PROTOCOL_UDP \<equiv> 17"
abbreviation (input) IPV6_NEXT_UDP :: byte where "IPV6_NEXT_UDP \<equiv> 17"

section \<open>Checksums\<close>

text \<open>\<open>for (i = 0; i < len / 2; i++) t += badvpn_read_be16(data + 2 * i)\<close>\<close>

definition sum_be16 :: "32 word \<Rightarrow> bytes \<Rightarrow> nat \<Rightarrow> 32 word" where
  "sum_be16 t data len = foldl (\<lambda>t i. t + ucast (badvpn_read_be16 (drop (2 * i) data))) t [0..<len div 2]"

lemma unat_low_half: "unat ((t::32 word) AND 0xFFFF) = unat t mod 65536"
proof -
  have "t AND 0xFFFF = take_bit 16 t" by (simp add: take_bit_eq_mask mask_eq_exp_minus_1)
  then show ?thesis by (simp add: take_bit_eq_mod unat_mod)
qed

lemma unat_high_half: "unat (drop_bit 16 (t::32 word)) = unat t div 65536"
  by (simp add: unat_drop_bit_eq drop_bit_eq_div unat_div)

lemma unat_fold_once:
  "unat ((t AND 0xFFFF) + drop_bit 16 t) = unat (t::32 word) mod 65536 + unat t div 65536"
proof -
  have "unat t < 2 ^ 32" using unsigned_less [of t] by simp
  then have "unat t div 65536 < 65536" by auto
  then show ?thesis by (simp add: unat_word_ariths unat_low_half unat_high_half)
qed

text \<open>\<open>while (t >> 16) t = (t & 0xFFFF) + (t >> 16)\<close>\<close>

function checksum_fold :: "32 word \<Rightarrow> 32 word" where
  "checksum_fold t = (if drop_bit 16 t \<noteq> 0 then checksum_fold ((t AND 0xFFFF) + drop_bit 16 t) else t)"
  by pat_completeness auto
termination
proof (relation "measure unat")
  fix t :: "32 word"
  assume "drop_bit 16 t \<noteq> 0"
  then have "unat t div 65536 \<noteq> 0" by (metis unat_high_half unat_eq_zero)
  then have "unat t mod 65536 + unat t div 65536 < unat t"
    using div_mult_mod_eq [of "unat t" 65536] by linarith
  then show "((t AND 0xFFFF) + drop_bit 16 t, t) \<in> measure unat"
    by (simp only: in_measure unat_fold_once)
qed simp

declare checksum_fold.simps [simp del]

definition ipv4_checksum :: "ipv4_header \<Rightarrow> bytes \<Rightarrow> 16 word" where
  "ipv4_checksum header extra =
    (let t = sum_be16 0 (ipv4_header_bytes header) 20;
         t = sum_be16 t extra (length extra);
         t = checksum_fold t
     in hton16 (ucast (NOT t)))"

definition udp_checksum_summer :: "bytes \<Rightarrow> nat \<Rightarrow> 32 word" where
  "udp_checksum_summer data len = sum_be16 0 data len"

text \<open>
  \<open>payload_len\<close> is a \<open>uint16_t\<close> parameter: the caller's length is truncated. Both
  checksum functions end with the test \<open>if (t == 0) t = UINT16_MAX\<close> on the 32-bit
  complement.
\<close>

definition udp_checksum_finish :: "32 word \<Rightarrow> 16 word" where
  "udp_checksum_finish t =
    (let t = NOT (checksum_fold t);
         t = (if t = 0 then 0xFFFF else t)
     in hton16 (ucast t))"

definition udp_checksum_payload :: "bytes \<Rightarrow> nat \<Rightarrow> 32 word" where
  "udp_checksum_payload payload payload_len =
    (if payload_len mod 2 = 0 then udp_checksum_summer payload payload_len
     else udp_checksum_summer payload (payload_len - 1)
        + udp_checksum_summer (mem16 (hton16 (push_bit 8 (ucast (payload ! (payload_len - 1)))))) 2)"

definition udp_checksum :: "udp_header \<Rightarrow> bytes \<Rightarrow> 32 word \<Rightarrow> 32 word \<Rightarrow> 16 word" where
  "udp_checksum header payload source_addr dest_addr =
    (let payload_len = length payload mod 65536;
         t = udp_checksum_summer (mem32 source_addr) 4 + udp_checksum_summer (mem32 dest_addr) 4;
         t = t + udp_checksum_summer (mem16 (hton16 (ucast IPV4_PROTOCOL_UDP))) 2;
         t = t + udp_checksum_summer (mem16 (hton16 (of_nat (8 + payload_len)))) 2;
         t = t + udp_checksum_summer (udp_header_bytes header) 8;
         t = t + udp_checksum_payload payload payload_len
     in udp_checksum_finish t)"

definition udp_ip6_checksum :: "udp_header \<Rightarrow> bytes \<Rightarrow> bytes \<Rightarrow> bytes \<Rightarrow> 16 word" where
  "udp_ip6_checksum header payload source_addr dest_addr =
    (let payload_len = length payload mod 65536;
         t = udp_checksum_summer source_addr 16 + udp_checksum_summer dest_addr 16;
         t = t + udp_checksum_summer (mem32 (hton32 (of_nat (8 + payload_len)))) 4;
         t = t + udp_checksum_summer (mem32 (hton32 (ucast IPV6_NEXT_UDP))) 4;
         t = t + udp_checksum_summer (udp_header_bytes header) 8;
         t = t + udp_checksum_payload payload payload_len
     in udp_checksum_finish t)"

section \<open>Checking received packets\<close>

text \<open>\<open>None\<close>: the check returns 0. Otherwise the parsed header and the payload.\<close>

definition ipv4_check :: "bytes \<Rightarrow> (ipv4_header \<times> bytes) option" where
  "ipv4_check data =
    (if length data < 20 then None
     else let h = ipv4_header_read data in
       if IPV4_GET_VERSION h \<noteq> 4 then None
       else let header_len = unat (IPV4_GET_IHL h) * 4 in
         if header_len < 20 then None
         else if header_len > length data then None
         else let total_len = unat (ntoh16 (total_length h)) in
           if total_len < header_len then None
           else if total_len > length data then None
           else if checksum4 h \<noteq> ipv4_checksum (h\<lparr>checksum4 := hton16 0\<rparr>) (bslice 20 (header_len - 20) data) then None
           else Some (h, bslice header_len (total_len - header_len) data))"

definition ipv6_check :: "bytes \<Rightarrow> (ipv6_header \<times> bytes) option" where
  "ipv6_check data =
    (if length data < 40 then None
     else let h = ipv6_header_read data in
       if drop_bit 4 (version4_tc4 h) \<noteq> 6 then None
       else let payload_len = unat (ntoh16 (payload_length h)) in
         if payload_len > length data - 40 then None
         else Some (h, bslice 40 payload_len data))"

definition udp_check :: "bytes \<Rightarrow> (udp_header \<times> bytes) option" where
  "udp_check data =
    (if length data < 8 then None
     else let h = udp_header_read data;
              data_len = length data - 8;
              udp_len = unat (ntoh16 (udp_length h))
       in if udp_len < 8 then None
          else if udp_len > 8 + data_len then None
          else Some (h, bslice 8 (udp_len - 8) data))"

section \<open>Wire formats\<close>

interpretation ipv4_wire: wire_format ipv4_header_bytes ipv4_header_read 20 "\<lambda>_. True"
  by unfold_locales (simp_all add: ipv4_header_bytes_def ipv4_header_read_def nth_append nth_Cons')

interpretation ipv6_wire: wire_format ipv6_header_bytes ipv6_header_read 40
    "\<lambda>h. length (source_address6 h) = 16 \<and> length (destination_address6 h) = 16"
  by unfold_locales
    (simp_all add: ipv6_header_bytes_def ipv6_header_read_def nth_append nth_Cons' bslice_def)

interpretation udp_wire: wire_format udp_header_bytes udp_header_read 8 "\<lambda>_. True"
  by unfold_locales (simp_all add: udp_header_bytes_def udp_header_read_def)

section \<open>Folding is reduction modulo 65535\<close>

lemma checksum_fold_mod:
  "unat (checksum_fold t) mod 65535 = unat t mod 65535 \<and> unat (checksum_fold t) < 65536
    \<and> (unat (checksum_fold t) = 0 \<longleftrightarrow> unat t = 0)"
proof (induction t rule: checksum_fold.induct)
  case (1 t)
  show ?case
  proof (cases "drop_bit 16 t = 0")
    case True
    then have "unat t div 65536 = 0" by (metis unat_high_half unat_0)
    then have "unat t < 65536" by auto
    with True show ?thesis by (simp add: checksum_fold.simps [of t])
  next
    case False
    let ?u = "(t AND 0xFFFF) + drop_bit 16 t"
    have u: "unat ?u = unat t mod 65536 + unat t div 65536" by (rule unat_fold_once)
    have "unat t = 65535 * (unat t div 65536) + unat ?u"
      using div_mult_mod_eq [of "unat t" 65536] u by linarith
    then have "unat ?u mod 65535 = unat t mod 65535" by (metis mod_mult_self4)
    moreover have "unat ?u = 0 \<longleftrightarrow> unat t = 0"
      using u div_mult_mod_eq [of "unat t" 65536] by auto
    ultimately show ?thesis using "1.IH" [OF False] False by (simp add: checksum_fold.simps [of t])
  qed
qed

section \<open>The sums against their specification\<close>

text \<open>The sum RFC 1071 is about: big-endian 16-bit words, an odd last byte padded with zero.\<close>

fun be_sum :: "bytes \<Rightarrow> nat" where
  "be_sum (a # b # r) = 256 * unat a + unat b + be_sum r"
| "be_sum [a] = 256 * unat a"
| "be_sum [] = 0"

lemma be_sum_append: "even (length xs) \<Longrightarrow> be_sum (xs @ ys) = be_sum xs + be_sum ys"
  by (induction xs rule: be_sum.induct) auto

lemma unat_bound: "unat (w :: 'a::len word) < 2 ^ LENGTH('a)"
  by (rule unsigned_less)

lemma unat_byte: "unat (a::byte) \<le> 255"
  using unat_bound [of a] by simp

lemma be_sum_bound: "be_sum xs \<le> 65535 * ((length xs + 1) div 2)"
proof (induction xs rule: be_sum.induct)
  case (1 a b r)
  then show ?case using unat_byte [of a] unat_byte [of b] by simp
next
  case (2 a)
  then show ?case using unat_byte [of a] by simp
qed simp

lemma unat_read_be16: "unat (badvpn_read_be16 p) = 256 * unat (p ! 0) + unat (p ! 1)"
proof -
  let ?h = "push_bit 8 (ucast (p ! 0)) :: 16 word" and ?l = "ucast (p ! 1) :: 16 word"
  have "badvpn_read_be16 p = ?h + ?l"
    unfolding badvpn_read_be16_def
    by (rule disjunctive_add [symmetric]) (auto simp: bit_simps dest: bit_imp_le_length)
  moreover have "unat ?l = unat (p ! 1)"
    using unat_byte [of "p ! 1"] by (simp add: unsigned_ucast_eq take_bit_nat_eq_self)
  moreover have "unat ?h = 256 * unat (p ! 0)"
    using unat_byte [of "p ! 0"]
    by (simp add: push_bit_eq_mult unat_word_ariths unsigned_ucast_eq take_bit_nat_eq_self)
  ultimately show ?thesis
    using unat_byte [of "p ! 0"] unat_byte [of "p ! 1"] by (simp add: unat_word_ariths)
qed

lemma take_two_more: "n + 2 \<le> length xs \<Longrightarrow> take (n + 2) xs = take n xs @ [xs ! n, xs ! (n + 1)]"
  by (simp add: take_Suc_conv_app_nth)

lemma sum_be16_unat:
  assumes "2 * n \<le> length data" and "unat t + be_sum (take (2 * n) data) < 2 ^ 32"
  shows "unat (sum_be16 t data (2 * n)) = unat t + be_sum (take (2 * n) data)"
  using assms
proof (induction n)
  case (Suc n)
  have tk: "take (2 * Suc n) data = take (2 * n) data @ [data ! (2 * n), data ! (2 * n + 1)]"
    using take_two_more [of "2 * n" data] Suc.prems by simp
  have s: "be_sum (take (2 * Suc n) data)
      = be_sum (take (2 * n) data) + unat (badvpn_read_be16 (drop (2 * n) data))"
    using Suc.prems(1) unfolding tk by (simp add: be_sum_append unat_read_be16)
  have step: "sum_be16 t data (2 * Suc n)
      = sum_be16 t data (2 * n) + ucast (badvpn_read_be16 (drop (2 * n) data))"
    by (simp add: sum_be16_def)
  have "unat (ucast (badvpn_read_be16 (drop (2 * n) data)) :: 32 word)
      = unat (badvpn_read_be16 (drop (2 * n) data))"
    using unat_bound [of "badvpn_read_be16 (drop (2 * n) data)"]
    by (simp add: unsigned_ucast_eq take_bit_nat_eq_self)
  then show ?case
    using Suc.IH Suc.prems s step by (simp add: unat_word_ariths)
qed (simp add: sum_be16_def)

lemma sum_be16_unat_even:
  assumes "even len" and "len \<le> length data" and "unat t + be_sum (take len data) < 2 ^ 32"
  shows "unat (sum_be16 t data len) = unat t + be_sum (take len data)"
  using assms sum_be16_unat [of "len div 2" data t] by simp

lemma be_sum_mem16: "be_sum (mem16 (hton16 x) @ r) = unat x + be_sum r"
proof -
  have "be_sum (mem16 (hton16 x) @ r) = unat (badvpn_read_be16 (mem16 (hton16 x) @ r)) + be_sum r"
    by (simp add: unat_read_be16 mem16_def)
  then show ?thesis by simp
qed

lemma unat_complement16:
  assumes "unat (t :: 32 word) < 65536"
  shows "unat (ucast (NOT t) :: 16 word) = 65535 - unat t"
proof -
  have e: "NOT t = - 1 - t" by (simp add: not_eq_complement)
  have "unat (NOT t) = 4294967295 - unat t"
    unfolding e by (subst unat_sub) (simp_all add: unsigned_minus_1_eq_mask mask_eq_exp_minus_1)
  also have "\<dots> = 65535 - unat t + 65535 * 65536" using assms by linarith
  finally have "unat (NOT t) mod 65536 = (65535 - unat t) mod 65536" by (simp only: mod_mult_self1)
  then show ?thesis by (simp add: unsigned_ucast_eq take_bit_eq_mod del: unsigned_not_eq)
qed

lemma ipv4_header_sum:
  assumes "even (length extra)" and "length extra \<le> 40"
  shows "\<exists>t. ipv4_checksum h extra = hton16 (ucast (NOT (checksum_fold t)))
    \<and> unat t = be_sum (ipv4_header_bytes h @ extra)"
proof (intro exI conjI)
  let ?t = "sum_be16 (sum_be16 0 (ipv4_header_bytes h) 20) extra (length extra)"
  show "ipv4_checksum h extra = hton16 (ucast (NOT (checksum_fold ?t)))"
    by (simp add: ipv4_checksum_def)
  have l: "length (ipv4_header_bytes h) = 20" by (simp add: ipv4_wire.enc_length)
  have "be_sum (ipv4_header_bytes h) \<le> 655350"
    using be_sum_bound [of "ipv4_header_bytes h"] l by simp
  moreover have "be_sum extra \<le> 65535 * 20"
    using be_sum_bound [of extra] assms(2) div_le_mono [of "length extra + 1" 41 2] by simp
  ultimately show "unat ?t = be_sum (ipv4_header_bytes h @ extra)"
    using l assms by (subst sum_be16_unat_even; simp add: sum_be16_unat_even be_sum_append)
qed

lemma checksum_field_value:
  fixes x :: "16 word"
  assumes "t \<noteq> 0" and "x = ucast (NOT (checksum_fold t))"
  shows "unat x = 65535 - unat (checksum_fold t) \<and> unat x < 65535
    \<and> (unat t + unat x) mod 65535 = 0"
proof (intro conjI)
  note f = checksum_fold_mod [of t]
  show x: "unat x = 65535 - unat (checksum_fold t)"
    unfolding assms(2) by (rule unat_complement16) (use f in simp)
  have "unat (checksum_fold t) \<noteq> 0" using f assms(1) by (simp add: unat_eq_zero)
  with x show "unat x < 65535" by simp
  have "(unat t + unat x) mod 65535 = (unat (checksum_fold t) + unat x) mod 65535"
    using f by (metis mod_add_left_eq)
  with x f show "(unat t + unat x) mod 65535 = 0" by simp
qed

lemma checksum_field_unique:
  assumes "(n + a) mod 65535 = 0" and "(n + b) mod 65535 = 0" and "a < 65535" and "b < 65535"
  shows "a = (b::nat)"
proof -
  have le: "x \<le> y" if "(n + x) mod 65535 = 0" "(n + y) mod 65535 = 0" "x < 65535" for x y :: nat
  proof (rule ccontr)
    assume "\<not> x \<le> y"
    have "65535 dvd (n + x) - (n + y)" using that by (intro dvd_diff_nat) (simp_all add: dvd_eq_mod_eq_0)
    then have "65535 dvd x - y" by simp
    with \<open>\<not> x \<le> y\<close> \<open>x < 65535\<close> show False by (auto dest: dvd_imp_le)
  qed
  show ?thesis using le [of a b] le [of b a] assms by simp
qed

lemma be_sum_pos: "odd (length xs) \<or> xs \<noteq> [] \<Longrightarrow> xs ! 0 \<noteq> 0 \<Longrightarrow> be_sum xs \<noteq> 0"
  by (cases xs rule: be_sum.cases) (auto simp: unat_eq_zero)

lemma ipv4_header_bytes_checksum:
  "be_sum (ipv4_header_bytes (h\<lparr>checksum4 := hton16 x\<rparr>) @ r)
    = unat x + be_sum (ipv4_header_bytes (h\<lparr>checksum4 := hton16 0\<rparr>) @ r)"
  by (simp add: ipv4_header_bytes_def be_sum_append be_sum_mem16)

lemma checksum_accept_iff:
  assumes "unat t = n" and "n \<noteq> 0"
  shows "x = hton16 (ucast (NOT (checksum_fold t))) \<longleftrightarrow>
    (n + unat (ntoh16 x)) mod 65535 = 0 \<and> ntoh16 x \<noteq> 0xFFFF"
proof -
  define c :: "16 word" where "c = ucast (NOT (checksum_fold t))"
  have "t \<noteq> 0" using assms by auto
  note c = checksum_field_value [OF this c_def]
  have inj: "x = hton16 c \<longleftrightarrow> ntoh16 x = c"
    by (metis ntoh16_def ntoh16_hton16)
  have top: "unat (0xFFFF :: 16 word) = 65535" by simp
  show ?thesis
    unfolding c_def [symmetric] inj
  proof
    assume "ntoh16 x = c"
    moreover have "c \<noteq> 0xFFFF"
    proof
      assume "c = 0xFFFF"
      then have "unat c = 65535" using top by (rule ssubst)
      with c show False by linarith
    qed
    moreover have "(n + unat c) mod 65535 = 0" using c unfolding assms(1) by blast
    ultimately show "(n + unat (ntoh16 x)) mod 65535 = 0 \<and> ntoh16 x \<noteq> 0xFFFF"
      by blast
  next
    assume r: "(n + unat (ntoh16 x)) mod 65535 = 0 \<and> ntoh16 x \<noteq> 0xFFFF"
    have "unat (ntoh16 x) \<noteq> 65535" using r word_unat_eq_iff [of "ntoh16 x" "0xFFFF"] unfolding top by blast
    then have "unat (ntoh16 x) < 65535" using unat_bound [of "ntoh16 x"] by simp
    then have "unat (ntoh16 x) = unat c" using c r unfolding assms(1) by (elim conjE) (rule checksum_field_unique [of n])
    then show "ntoh16 x = c" by (simp add: word_unat_eq_iff)
  qed
qed

lemma mem16_load16_Cons: "mem16 (load16 (a # b # r)) = [a, b]"
  using mem16_load16 [of "[a, b]"] by (simp add: load16_def)

lemma mem32_load32_Cons: "mem32 (load32 (a # b # c # d # r)) = [a, b, c, d]"
proof -
  let ?w = "load32 (a # b # c # d # r)"
  have "ucast ?w = a" "ucast (drop_bit 8 ?w) = b" "ucast (drop_bit 16 ?w) = c" "ucast (drop_bit 24 ?w) = d"
    by (rule bit_word_eqI, auto simp: load32_def bit_simps nth_Cons' dest: bit_imp_le_length)+
  then show ?thesis by (simp add: mem32_def)
qed

lemma IHL_le: "unat (IPV4_GET_IHL h) \<le> 15"
proof -
  have "IPV4_GET_IHL h = take_bit 4 (version4_ihl4 h)"
    by (simp add: IPV4_GET_IHL_def take_bit_eq_mask mask_eq_exp_minus_1)
  then have "unat (IPV4_GET_IHL h) = unat (version4_ihl4 h) mod 16"
    by (simp add: take_bit_eq_mod unat_mod)
  then show ?thesis by simp
qed

lemma length_20:
  "length xs = 20 \<Longrightarrow> \<exists>a0 a1 a2 a3 a4 a5 a6 a7 a8 a9 b0 b1 b2 b3 b4 b5 b6 b7 b8 b9.
    xs = [a0, a1, a2, a3, a4, a5, a6, a7, a8, a9, b0, b1, b2, b3, b4, b5, b6, b7, b8, b9]"
  by (auto simp: numeral_eq_Suc length_Suc_conv)

lemma ipv4_header_bytes_read:
  assumes "20 \<le> length p"
  shows "ipv4_header_bytes (ipv4_header_read p) = take 20 p"
proof -
  have "length (take 20 p) = 20" using assms by simp
  from length_20 [OF this] obtain a0 a1 a2 a3 a4 a5 a6 a7 a8 a9 b0 b1 b2 b3 b4 b5 b6 b7 b8 b9
    where tk: "take 20 p = [a0, a1, a2, a3, a4, a5, a6, a7, a8, a9, b0, b1, b2, b3, b4, b5, b6, b7, b8, b9]"
    by blast
  define r where "r = drop 20 p"
  have p: "p = [a0, a1, a2, a3, a4, a5, a6, a7, a8, a9, b0, b1, b2, b3, b4, b5, b6, b7, b8, b9] @ r"
    unfolding r_def tk [symmetric] by simp
  show ?thesis
    unfolding tk unfolding p
    by (simp add: ipv4_header_bytes_def ipv4_header_read_def mem16_load16_Cons mem32_load32_Cons)
qed

text \<open>
  A received packet passes the IPv4 check exactly when its version is 4, its header and
  total length fit in each other and in the packet, its checksum field is not 0xFFFF and the
  16-bit words of its header, options included, add up to a multiple of 65535 (the
  verification rule of RFC 1071). The payload is then what follows the header, without
  anything the link padded.
\<close>

theorem ipv4_check_iff:
  "ipv4_check data = Some (h, payload) \<longleftrightarrow>
    (let hl = 4 * unat (IPV4_GET_IHL h); tl = unat (ntoh16 (total_length h)) in
     20 \<le> length data \<and> h = ipv4_header_read data \<and> IPV4_GET_VERSION h = 4
     \<and> 20 \<le> hl \<and> hl \<le> tl \<and> tl \<le> length data
     \<and> be_sum (take hl data) mod 65535 = 0 \<and> ntoh16 (checksum4 h) \<noteq> 0xFFFF
     \<and> payload = drop hl (take tl data))"
proof -
  define hl where "hl = 4 * unat (IPV4_GET_IHL h)"
  define tl where "tl = unat (ntoh16 (total_length h))"
  have sum: "checksum4 h = ipv4_checksum (h\<lparr>checksum4 := hton16 0\<rparr>) (bslice 20 (hl - 20) data)
      \<longleftrightarrow> be_sum (take hl data) mod 65535 = 0 \<and> ntoh16 (checksum4 h) \<noteq> 0xFFFF"
    if h: "h = ipv4_header_read data" and l: "20 \<le> hl" "hl \<le> length data" and v: "IPV4_GET_VERSION h = 4"
  proof -
    define z where "z = h\<lparr>checksum4 := hton16 0\<rparr>"
    define opts where "opts = bslice 20 (hl - 20) data"
    have "hl \<le> 60" using IHL_le [of h] by (simp add: hl_def)
    then have o: "even (length opts)" "length opts \<le> 40" using l by (simp_all add: opts_def hl_def)
    obtain t where t: "ipv4_checksum z opts = hton16 (ucast (NOT (checksum_fold t)))"
        "unat t = be_sum (ipv4_header_bytes z @ opts)"
      using ipv4_header_sum [OF o] by blast
    have "h\<lparr>checksum4 := hton16 (ntoh16 (checksum4 h))\<rparr> = h" by (simp add: ntoh16_def hton16_def)
    then have s: "be_sum (ipv4_header_bytes h @ opts) = unat (ntoh16 (checksum4 h)) + unat t"
      using ipv4_header_bytes_checksum [where h = h and x = "ntoh16 (checksum4 h)" and r = opts] t(2) by (simp add: z_def)
    have d: "take hl data = ipv4_header_bytes h @ opts"
      using l bslice_append [of 0 20 data "hl - 20"]
      by (simp add: h ipv4_header_bytes_read opts_def bslice_def)
    have "version4_ihl4 z \<noteq> 0" using v by (auto simp: z_def IPV4_GET_VERSION_def)
    then have "unat t \<noteq> 0" unfolding t(2) by (intro be_sum_pos) (simp_all add: ipv4_header_bytes_def)
    from checksum_accept_iff [OF refl this, of "checksum4 h"] show ?thesis
      unfolding z_def [symmetric] opts_def [symmetric] t(1) d s by (simp add: add.commute)
  qed
  show ?thesis
    unfolding hl_def [symmetric] tl_def [symmetric] Let_def
    using sum by (auto simp: ipv4_check_def Let_def hl_def tl_def bslice_def drop_take mult.commute)
qed
lemma unat_plus: "unat a + unat b < 2 ^ LENGTH('a) \<Longrightarrow> unat (a + b) = unat a + unat (b :: 'a::len word)"
  by (simp add: unat_word_ariths)

lemma summer_unat:
  assumes "even len" and "len \<le> length data" and "len \<le> 65536"
  shows "unat (udp_checksum_summer data len) = be_sum (take len data)
    \<and> be_sum (take len data) \<le> 65535 * 32768"
proof -
  have "(min (length data) len + 1) div 2 \<le> (65537::nat) div 2" using assms by (intro div_le_mono) simp
  then have b: "be_sum (take len data) \<le> 65535 * 32768"
    using be_sum_bound [of "take len data"] by simp
  then show ?thesis using assms by (simp add: udp_checksum_summer_def sum_be16_unat_even)
qed

lemma summer_all:
  "even (length xs) \<Longrightarrow> length xs \<le> 65536 \<Longrightarrow> unat (udp_checksum_summer xs (length xs)) = be_sum xs"
  using summer_unat [of "length xs" xs] by simp

lemma summer_2: "unat (udp_checksum_summer [a, b] 2) = be_sum [a, b]"
  using summer_all [of "[a, b]"] by (simp add: numeral_2_eq_2)

lemma last_byte_padded: "mem16 (hton16 (push_bit 8 (ucast b))) = [b, 0]"
proof -
  have "load16 [0, b] = push_bit 8 (ucast b)" by (simp add: load16_def)
  then have "hton16 (push_bit 8 (ucast b)) = load16 [b, 0]"
    using mem16_load16_Cons [of 0 b "[]"] by (simp add: hton16_def badvpn_reverse16_def)
  then show ?thesis by (simp add: mem16_load16_Cons)
qed

lemma payload_unat:
  assumes "length p \<le> 65535"
  shows "unat (udp_checksum_payload p (length p)) = be_sum p"
proof (cases "even (length p)")
  case True
  then show ?thesis using assms summer_all [of p] by (simp add: udp_checksum_payload_def)
next
  case False
  then have "p \<noteq> []" by auto
  then have p: "p = take (length p - 1) p @ [p ! (length p - 1)]"
    by (metis append_butlast_last_id butlast_conv_take last_conv_nth)
  have e: "even (length p - 1)" using False by simp
  have s: "unat (udp_checksum_summer p (length p - 1)) = be_sum (take (length p - 1) p)"
      "be_sum (take (length p - 1) p) \<le> 65535 * 32768"
    using summer_unat [OF e, of p] assms by simp_all
  have "be_sum [p ! (length p - 1), 0] \<le> 65535" using be_sum_bound [of "[p ! (length p - 1), 0]"] by simp
  then have "unat (udp_checksum_payload p (length p)) = be_sum (take (length p - 1) p) + be_sum [p ! (length p - 1), 0]"
    using False s assms summer_2 [of "p ! (length p - 1)" 0]
    by (simp add: udp_checksum_payload_def last_byte_padded odd_iff_mod_2_eq_one unat_plus)
  also have "\<dots> = be_sum (take (length p - 1) p @ [p ! (length p - 1)])"
    using e by (simp add: be_sum_append)
  finally show ?thesis using p by simp
qed

lemma udp_checksum_finish_value:
  assumes "t \<noteq> 0"
  shows "\<exists>x. udp_checksum_finish t = hton16 x \<and> (unat t + unat x) mod 65535 = 0 \<and> unat x < 65535"
proof -
  define x :: "16 word" where "x = ucast (NOT (checksum_fold t))"
  have "NOT (checksum_fold t) \<noteq> 0"
  proof
    assume "NOT (checksum_fold t) = 0"
    then have "checksum_fold t = - 1" by (metis bit.double_compl bit.compl_zero)
    moreover have "unat (- 1 :: 32 word) = 4294967295"
      by (simp add: unsigned_minus_1_eq_mask mask_eq_exp_minus_1)
    ultimately have "unat (checksum_fold t) = 4294967295" by (rule ssubst)
    moreover have "unat (checksum_fold t) < 65536" using checksum_fold_mod [of t] by blast
    ultimately show False by linarith
  qed
  then have "udp_checksum_finish t = hton16 x" by (simp add: udp_checksum_finish_def x_def)
  moreover have "(unat t + unat x) mod 65535 = 0" "unat x < 65535"
    by (rule checksum_field_value [OF assms x_def, THEN conjunct2, THEN conjunct2],
        rule checksum_field_value [OF assms x_def, THEN conjunct2, THEN conjunct1])
  ultimately show ?thesis by (intro exI conjI)
qed

lemma udp_header_bytes_checksum:
  "be_sum (udp_header_bytes (h\<lparr>udp_checksum_field := hton16 x\<rparr>))
    = unat x + be_sum (udp_header_bytes (h\<lparr>udp_checksum_field := hton16 0\<rparr>))"
  using be_sum_mem16 [of x "[]"] be_sum_mem16 [of 0 "[]"]
  by (simp add: udp_header_bytes_def be_sum_append)

lemma udp_sums:
  "unat (udp_checksum_summer (mem32 a) 4) = be_sum (mem32 a)" "be_sum (mem32 a) \<le> 131070"
  "unat (udp_checksum_summer (mem16 b) 2) = be_sum (mem16 b)" "be_sum (mem16 b) \<le> 65535"
  "unat (udp_checksum_summer (udp_header_bytes h) 8) = be_sum (udp_header_bytes h)"
  "be_sum (udp_header_bytes h) \<le> 262140"
  using summer_all [of "mem32 a"] be_sum_bound [of "mem32 a"] summer_all [of "mem16 b"] be_sum_bound [of "mem16 b"]
    summer_all [of "udp_header_bytes h"] be_sum_bound [of "udp_header_bytes h"]
  by (simp_all add: udp_wire.enc_length)

lemma mem16_const: "mem16 (hton16 17) = [0, 17]" "mem32 (hton32 17) = [0, 0, 0, 17]"
  by code_simp+

text \<open>The sum that the function for IPv4 folds is that of the bytes the checksum covers.\<close>

lemma udp_checksum_sum:
  assumes "length payload \<le> 65527"
  obtains t where "udp_checksum z payload src dst = udp_checksum_finish t" and "t \<noteq> 0"
    and "unat t = be_sum (mem32 src @ mem32 dst @ [0, 17] @ mem16 (hton16 (of_nat (8 + length payload))) @ udp_header_bytes z @ payload)"
proof -
  define l :: "16 word" where "l = hton16 (of_nat (8 + length payload))"
  define t where "t = udp_checksum_summer (mem32 src) 4 + udp_checksum_summer (mem32 dst) 4
    + udp_checksum_summer (mem16 (hton16 17)) 2 + udp_checksum_summer (mem16 l) 2
    + udp_checksum_summer (udp_header_bytes z) 8 + udp_checksum_payload payload (length payload)"
  have c: "udp_checksum z payload src dst = udp_checksum_finish t"
    using assms by (simp add: udp_checksum_def Let_def t_def l_def)
  have "(length payload + 1) div 2 \<le> (65528::nat) div 2" using assms by (intro div_le_mono) simp
  then have b: "be_sum payload \<le> 2147188740" using be_sum_bound [of payload] by simp
  have p: "unat (udp_checksum_payload payload (length payload)) = be_sum payload"
    using assms by (intro payload_unat) simp
  have t: "unat t = be_sum (mem32 src) + be_sum (mem32 dst) + be_sum (mem16 (hton16 17)) + be_sum (mem16 l)
      + be_sum (udp_header_bytes z) + be_sum payload"
    unfolding t_def using udp_sums(1,2) [of src] udp_sums(1,2) [of dst] udp_sums(3,4) [of l]
      udp_sums(3,4) [of "hton16 17"] udp_sums(5,6) [of z] b p
    by (simp add: unat_plus)
  have n: "t \<noteq> 0" using t by (auto simp: mem16_const)
  have "unat t = be_sum (mem32 src @ mem32 dst @ [0, 17] @ mem16 l @ udp_header_bytes z @ payload)"
    using t by (simp add: be_sum_append udp_wire.enc_length mem16_const)
  with c n show thesis using that by (simp add: l_def)
qed

text \<open>
  C21. The checksum the program puts into a UDP header for IPv4 satisfies the receiver's test:
  the 16-bit words of the pseudo header, of the UDP header carrying that checksum and of the
  payload add up to a multiple of 65535, for every payload a UDP datagram can carry.
\<close>

theorem udp_checksum_verifies:
  assumes "length payload \<le> 65527"
  shows "be_sum (mem32 src @ mem32 dst @ [0, 17] @ mem16 (hton16 (of_nat (8 + length payload)))
      @ udp_header_bytes (h\<lparr>udp_checksum_field :=
          udp_checksum (h\<lparr>udp_checksum_field := hton16 0\<rparr>) payload src dst\<rparr>) @ payload) mod 65535 = 0"
proof -
  define z where "z = h\<lparr>udp_checksum_field := hton16 0\<rparr>"
  define l :: "16 word" where "l = hton16 (of_nat (8 + length payload))"
  obtain t where t: "udp_checksum z payload src dst = udp_checksum_finish t" "t \<noteq> 0"
    "unat t = be_sum (mem32 src @ mem32 dst @ [0, 17] @ mem16 l @ udp_header_bytes z @ payload)"
    using udp_checksum_sum [OF assms, of z src dst] unfolding l_def by blast
  from udp_checksum_finish_value [OF t(2)]
  obtain x where x: "udp_checksum_finish t = hton16 x" "(unat t + unat x) mod 65535 = 0"
    by (elim exE conjE)
  have "be_sum (mem32 src @ mem32 dst @ [0, 17] @ mem16 l
      @ udp_header_bytes (h\<lparr>udp_checksum_field := hton16 x\<rparr>) @ payload) = unat t + unat x"
    using udp_header_bytes_checksum [where h = h and x = x] t(3)
    by (simp add: be_sum_append udp_wire.enc_length z_def)
  with x t(1) show ?thesis by (simp add: z_def l_def)
qed

definition dns_query_header :: udp_header where
  "dns_query_header = \<lparr>source_port = hton16 5353, dest_port = hton16 53, udp_length = hton16 11, udp_checksum_field = 0\<rparr>"

theorem udp_checksum_verifies_witness:
  "be_sum (mem32 0x0100007F @ mem32 0x0200007F @ [0, 17] @ mem16 (hton16 (of_nat (8 + length [1 :: byte, 2, 3])))
      @ udp_header_bytes (dns_query_header\<lparr>udp_checksum_field :=
          udp_checksum (dns_query_header\<lparr>udp_checksum_field := hton16 0\<rparr>)
            [1, 2, 3] 0x0100007F 0x0200007F\<rparr>) @ [1, 2, 3]) mod 65535 = 0"
proof (rule udp_checksum_verifies [where payload = "[1, 2, 3]" and h = dns_query_header])
  show "length [1 :: byte, 2, 3] \<le> 65527" by simp
qed

lemma hton16_unat_zero: "hton16 x = 0 \<longleftrightarrow> unat x = 0"
proof -
  have "hton16 x = hton16 0 \<longleftrightarrow> x = 0" by (metis ntoh16_hton16)
  moreover have "hton16 0 = 0" by code_simp
  ultimately show ?thesis by (simp add: unat_eq_zero)
qed

text \<open>
  C23. RFC 768 reserves a zero checksum field for "no checksum" and asks for 0xFFFF in its
  place. The test for zero looks at the 32-bit complement, whose high half is set, so it never holds: for every header and every payload
  a UDP datagram can carry, the function returns zero exactly when the 16-bit words it covers add up to a multiple of 65535, and
  it never returns 0xFFFF.
\<close>

theorem udp_checksum_emits_zero:
  assumes "length payload \<le> 65527"
  shows "(udp_checksum h payload src dst = 0 \<longleftrightarrow>
      be_sum (mem32 src @ mem32 dst @ [0, 17] @ mem16 (hton16 (of_nat (8 + length payload))) @ udp_header_bytes h @ payload) mod 65535 = 0)
    \<and> udp_checksum h payload src dst \<noteq> 0xFFFF"
proof -
  obtain t where t: "udp_checksum h payload src dst = udp_checksum_finish t" "t \<noteq> 0"
    "unat t = be_sum (mem32 src @ mem32 dst @ [0, 17] @ mem16 (hton16 (of_nat (8 + length payload))) @ udp_header_bytes h @ payload)"
    using udp_checksum_sum [OF assms, of h src dst] by blast
  from udp_checksum_finish_value [OF t(2)]
  obtain x where x: "udp_checksum_finish t = hton16 x" "(unat t + unat x) mod 65535 = 0" "unat x < 65535"
    by (elim exE conjE)
  have "unat x = 0 \<longleftrightarrow> unat t mod 65535 = 0"
    using x(2) checksum_field_unique [of "unat t" "unat x" 0] x(3) by auto
  moreover have "hton16 x \<noteq> 0xFFFF"
  proof
    assume "hton16 x = 0xFFFF"
    then have "x = ntoh16 0xFFFF" by (metis ntoh16_hton16)
    also have "\<dots> = 0xFFFF" by code_simp
    finally show False using x(3) by simp
  qed
  ultimately show ?thesis unfolding t(1) x(1) t(3) [symmetric] hton16_unat_zero by blast
qed

lemma demo_mems: "mem32 0 = [0, 0, 0, 0]" "mem16 0 = [0, 0]" "mem16 (hton16 8) = [0, 8]" "mem16 (hton16 0xFFE6) = [0xFF, 0xE6]"
  by code_simp+

theorem udp_checksum_emits_zero_witness:
  "udp_checksum \<lparr>source_port = hton16 0xFFE6, dest_port = 0, udp_length = 0, udp_checksum_field = 0\<rparr> [] 0 0 = 0"
proof -
  let ?h = "\<lparr>source_port = hton16 0xFFE6, dest_port = 0, udp_length = 0, udp_checksum_field = 0\<rparr>"
  have "be_sum (mem32 0 @ mem32 0 @ [0, 17] @ mem16 (hton16 (of_nat (8 + length ([] :: bytes)))) @ udp_header_bytes ?h @ []) mod 65535 = 0"
    by (simp add: udp_header_bytes_def demo_mems)
  then show ?thesis using udp_checksum_emits_zero [of "[]" ?h 0 0] by simp
qed

section \<open>Addresses are totally ordered\<close>

lemma memcmp_sym: "memcmp b a = - memcmp a b"
  by (induction a b rule: memcmp.induct) auto

lemma memcmp_asym: "memcmp a b < 0 \<Longrightarrow> \<not> memcmp b a < 0"
  using memcmp_sym [of a b] by simp

lemma memcmp_eq: "length a = length b \<Longrightarrow> memcmp a b = 0 \<longleftrightarrow> a = b"
  by (induction a b rule: memcmp.induct) (auto simp: word_uint_eq_iff)

lemma memcmp_trans:
  "length a = length b \<Longrightarrow> length b = length c \<Longrightarrow> memcmp a b < 0 \<Longrightarrow> memcmp b c < 0 \<Longrightarrow> memcmp a c < 0"
proof (induction a arbitrary: b c)
  case (Cons x a)
  then obtain y b' z c' where "b = y # b'" "c = z # c'" by (metis length_Suc_conv)
  then show ?case
    using Cons.prems Cons.IH [of b' c'] by (cases "x = y"; cases "y = z"; cases "x = z") simp_all
qed simp

lemma reverse32_reverse32 [simp]: "badvpn_reverse32 (badvpn_reverse32 x) = x"
proof -
  obtain a b c d where x: "mem32 x = [a, b, c, d]" by (simp add: mem32_def)
  then have "x = load32 [a, b, c, d]" using load32_mem32' [of x] by simp
  then show ?thesis using x mem32_load32_Cons [of d c b a "[]"] by (simp add: badvpn_reverse32_def)
qed

lemma ntoh_inj [simp]: "ntoh16 x = ntoh16 y \<longleftrightarrow> x = y" "ntoh32 a = ntoh32 b \<longleftrightarrow> a = b"
  by (metis ntoh16_def ntoh16_hton16, metis ntoh32_def hton32_def reverse32_reverse32)

interpretation addr_order: comparator BAddr_CompareOrder BAddr_wf
proof
  fix a b c :: BAddr
  assume wf: "BAddr_wf a" "BAddr_wf b"
  show "BAddr_CompareOrder b a = - BAddr_CompareOrder a b"
  proof -
    have v6: "BAddr_CompareOrder (BAddr_IPv6 i p) (BAddr_IPv6 j q)
        = - BAddr_CompareOrder (BAddr_IPv6 j q) (BAddr_IPv6 i p)" for i j p q
      by (simp add: BAddr_CompareOrder_def Let_def memcmp_sym [of i j] B_COMPARE_def)
    show ?thesis
      by (cases a; cases b; hypsubst)
        (rule v6 | simp add: BAddr_CompareOrder_def Let_def B_COMPARE_def)+
  qed
  show "BAddr_CompareOrder a b = 0 \<longleftrightarrow> a = b"
    using wf by (cases a; cases b) (auto simp: BAddr_CompareOrder_def Let_def memcmp_eq)
  assume "BAddr_wf c" "BAddr_CompareOrder a b < 0" "BAddr_CompareOrder b c < 0"
  with wf show "BAddr_CompareOrder a c < 0"
    by (cases a; cases b; cases c)
      (auto simp: BAddr_CompareOrder_def Let_def memcmp_eq intro: memcmp_trans dest: memcmp_asym split: if_splits)
qed

lemma BAddr_Compare_eq: "BAddr_wf a \<Longrightarrow> BAddr_wf b \<Longrightarrow> BAddr_Compare a b \<longleftrightarrow> a = b \<and> a \<noteq> BAddr_None"
  by (cases a; cases b) (auto simp: BAddr_Compare_def memcmp_eq)

text \<open>
  Comparing addresses by type, then network address, then port is a total order on the
  addresses a \<open>BAddr\<close> can hold, and agrees with the equality test the program uses.
\<close>

theorem BAddr_CompareOrder_linear:
  assumes "BAddr_wf a" and "BAddr_wf b" and "BAddr_wf c"
  shows "(BAddr_CompareOrder a b < 0 \<or> a = b \<or> BAddr_CompareOrder b a < 0)
    \<and> (BAddr_CompareOrder a b < 0 \<longrightarrow> \<not> BAddr_CompareOrder b a < 0)
    \<and> (BAddr_CompareOrder a b < 0 \<and> BAddr_CompareOrder b c < 0 \<longrightarrow> BAddr_CompareOrder a c < 0)
    \<and> (a \<noteq> BAddr_None \<longrightarrow> (BAddr_Compare a b \<longleftrightarrow> BAddr_CompareOrder a b = 0))"
  using addr_order.cmp_linear [OF assms(1,2)] addr_order.cmp_asym [OF assms(1,2)]
    addr_order.cmp_trans [OF assms] addr_order.cmp_eq [OF assms(1,2)] BAddr_Compare_eq [OF assms(1,2)]
  by (simp only: simp_thms) auto

theorem BAddr_CompareOrder_linear_witness:
  "BAddr_wf (BAddr_IPv4 5 6) \<and> BAddr_wf (BAddr_IPv6 (replicate 16 0) 6) \<and>
    (BAddr_CompareOrder (BAddr_IPv4 5 6) (BAddr_IPv6 (replicate 16 0) 6) < 0
     \<or> BAddr_IPv4 5 6 = BAddr_IPv6 (replicate 16 0) 6
     \<or> BAddr_CompareOrder (BAddr_IPv6 (replicate 16 0) 6) (BAddr_IPv4 5 6) < 0)"
  using BAddr_CompareOrder_linear [of "BAddr_IPv4 5 6" "BAddr_IPv6 (replicate 16 0) 6" BAddr_None]
  by (simp del: BAddr.inject)

end
