(* ===== verification/Tun_Device.thy ===== *)
theory Tun_Device
  imports Net_Proto Packet_Proto
begin

text \<open>
  The packet path of \<open>tun2socks/tun2socks.c\<close>: what happens to a packet read from the TUN
  device (\<open>device_read_handler_send\<close>, \<open>process_device_udp_packet\<close>, \<open>netif_input_func\<close>), to
  a packet lwIP sends (\<open>common_netif_output\<close>) and to a datagram the UDP relay returns
  (\<open>udpgw_client_handler_received\<close>); the UDP payload bound computed in \<open>main\<close>, the start-up
  of lwIP and the TCP timer.

  The TUN device, lwIP and the relay are the environment: a handler returns the calls it
  makes on them, in order.
\<close>

section \<open>protocol/udpgw\_proto.h\<close>

text \<open>Sizes of \<open>struct socks_udp_header\<close> and of the two address structs: 4, 6 and 18.\<close>

definition udpgw_compute_mtu :: "int \<Rightarrow> int" where
  "udpgw_compute_mtu dgram_mtu =
    (let bs = bsize_add (bsize_fromsize 4)
                (bsize_add (bsize_max (bsize_fromsize 6) (bsize_fromsize 18)) (bsize_fromint dgram_mtu))
     in case bsize_toint bs of None \<Rightarrow> -1 | Some s \<Rightarrow> s)"

section \<open>Configuration\<close>

text \<open>
  The options the packet path reads: whether \<open>udpgw_remote_server_addr\<close>, \<open>netif_ip6addr\<close>
  and \<open>dnsgw\<close> are set, the MTU of the device and the global \<open>udp_mtu\<close>.
\<close>

record tun_config =
  opt_udpgw :: bool
  opt_ip6addr :: bool
  opt_dnsgw :: bool
  BTap_GetMTU :: int
  udp_mtu :: int

text \<open>\<open>main\<close>: the largest UDP payload that can arrive; \<open>None\<close> when the relay cannot carry it.\<close>

definition main_udp_mtu :: "int \<Rightarrow> bool \<Rightarrow> int option" where
  "main_udp_mtu tap_mtu ip6addr =
    (let udp_mtu = tap_mtu - (20 + 8);
         udp_mtu = (if ip6addr then
             (let udp_ip6_mtu = tap_mtu - (40 + 8) in
              if udp_mtu < udp_ip6_mtu then udp_ip6_mtu else udp_mtu) else udp_mtu);
         udp_mtu = (if udp_mtu < 0 then 0 else udp_mtu);
         udpgw_mtu = udpgw_compute_mtu udp_mtu
     in if udpgw_mtu < 0 \<or> udpgw_mtu > int PACKETPROTO_MAXPAYLOAD then None else Some udp_mtu)"

section \<open>Packets from the device\<close>

text \<open>
  \<open>DnsHeader\<close> of \<open>SocksUdpGwClient.h\<close> has 12 bytes; its bit fields start at the low bit, so
  \<open>qr\<close> is bit 7 of byte 2 and \<open>rcode\<close> the low half of byte 3.
\<close>

definition is_dns_query :: "bytes \<Rightarrow> bool" where
  "is_dns_query data \<longleftrightarrow>
    (if length data < 12 then False
     else drop_bit 7 (data ! 2) = 0 \<and> data ! 3 AND 0x0F = 0
        \<and> load16 (drop 6 data) = 0 \<and> load16 (drop 8 data) = 0)"

text \<open>
  \<open>Some\<close>: the packet was submitted to the relay with these arguments and the function
  returned 1. \<open>None\<close>: it returned 0.
\<close>

definition process_udp4 :: "tun_config \<Rightarrow> bytes \<Rightarrow> (BAddr \<times> BAddr \<times> bool \<times> bytes) option" where
  "process_udp4 cfg data =
    (if length data < 20 \<or> data ! 9 \<noteq> IPV4_PROTOCOL_UDP then None
     else case ipv4_check data of None \<Rightarrow> None | Some (iph, data) \<Rightarrow>
       (case udp_check data of None \<Rightarrow> None | Some (udph, data) \<Rightarrow>
          (let checksum_in_packet = udp_checksum_field udph;
               udph = udph\<lparr>udp_checksum_field := 0\<rparr>;
               checksum_computed = udp_checksum udph data (source_address4 iph) (destination_address4 iph)
           in if checksum_in_packet \<noteq> checksum_computed then None
              else let is_dns = (opt_dnsgw cfg \<and> dest_port udph = hton16 53);
                       is_dns = (if is_dns then is_dns_query data else is_dns)
                   in Some (BAddr_IPv4 (source_address4 iph) (source_port udph),
                            BAddr_IPv4 (destination_address4 iph) (dest_port udph), is_dns, data))))"

definition process_udp6 :: "tun_config \<Rightarrow> bytes \<Rightarrow> (BAddr \<times> BAddr \<times> bool \<times> bytes) option" where
  "process_udp6 cfg data =
    (if \<not> opt_ip6addr cfg then None
     else if length data < 40 \<or> data ! 6 \<noteq> IPV6_NEXT_UDP then None
     else case ipv6_check data of None \<Rightarrow> None | Some (iph, data) \<Rightarrow>
       (case udp_check data of None \<Rightarrow> None | Some (udph, data) \<Rightarrow>
          (let checksum_in_packet = udp_checksum_field udph;
               udph = udph\<lparr>udp_checksum_field := 0\<rparr>;
               checksum_computed = udp_ip6_checksum udph data (source_address6 iph) (destination_address6 iph)
           in if checksum_in_packet \<noteq> checksum_computed then None
              else Some (BAddr_IPv6 (source_address6 iph) (source_port udph),
                         BAddr_IPv6 (destination_address6 iph) (dest_port udph), False, data))))"

definition process_device_udp_packet :: "tun_config \<Rightarrow> bytes \<Rightarrow> (BAddr \<times> BAddr \<times> bool \<times> bytes) option" where
  "process_device_udp_packet cfg data =
    (if \<not> opt_udpgw cfg then None
     else let ip_version = (if length data > 0 then drop_bit 4 (data ! 0) else 0);
              parsed = (if ip_version = 4 then process_udp4 cfg data
                        else if ip_version = 6 then process_udp6 cfg data else None)
       in case parsed of None \<Rightarrow> None | Some (local_addr, remote_addr, is_dns, data) \<Rightarrow>
         (if int (length data) > udp_mtu cfg then None else Some (local_addr, remote_addr, is_dns, data)))"

datatype device_call =
    Call_PacketPass_Done
  | Call_SubmitPacket BAddr BAddr bool bytes
  | Call_pbuf_alloc nat
  | Call_netif_input bytes
  | Call_pbuf_free
  | Call_ip_input bytes
  | Call_ip6_input bytes
  | Call_BTap_Send bytes

definition netif_input_func :: "tun_config \<Rightarrow> bytes \<Rightarrow> device_call" where
  "netif_input_func cfg p =
    (let ip_version = (if length p > 0 then drop_bit 4 (p ! 0) else 0) in
     if ip_version = 4 then Call_ip_input p
     else if ip_version = 6 \<and> opt_ip6addr cfg then Call_ip6_input p
     else Call_pbuf_free)"

text \<open>Whether \<open>pbuf_alloc\<close> succeeds and what the network interface returns are lwIP's answers.\<close>

definition device_read_handler_send :: "tun_config \<Rightarrow> bool \<Rightarrow> int \<Rightarrow> bytes \<Rightarrow> device_call list" where
  "device_read_handler_send cfg alloc_ok input_err data =
    Call_PacketPass_Done #
    (case process_device_udp_packet cfg data of
       Some (local_addr, remote_addr, is_dns, payload) \<Rightarrow> [Call_SubmitPacket local_addr remote_addr is_dns payload]
     | None \<Rightarrow>
        if length data > UINT16_MAX then []
        else if \<not> alloc_ok then [Call_pbuf_alloc (length data)]
        else [Call_pbuf_alloc (length data), Call_netif_input data]
          @ (if input_err \<noteq> 0 then [Call_pbuf_free] else []))"

section \<open>Packets to the device\<close>

text \<open>
  A pbuf chain is the list of its payloads. The result is the new contents of
  \<open>device_write_buf\<close> and the packet handed to \<open>BTap_Send\<close>, if any; the function always
  returns \<open>ERR_OK\<close>.
\<close>

fun netif_output_copy :: "int \<Rightarrow> bytes \<Rightarrow> nat \<Rightarrow> bytes list \<Rightarrow> bytes \<times> nat option" where
  "netif_output_copy mtu buf len [] = (buf, Some len)"
| "netif_output_copy mtu buf len (p # ps) =
    (if int (length p) > mtu - int len then (buf, None)
     else netif_output_copy mtu (blit buf len p) (len + length p) ps)"

definition common_netif_output :: "bool \<Rightarrow> int \<Rightarrow> bytes \<Rightarrow> bytes list \<Rightarrow> bytes \<times> bytes option" where
  "common_netif_output quitting mtu buf p =
    (if quitting then (buf, None)
     else if tl p = [] then
       (if int (length (hd p)) > mtu then (buf, None) else (buf, Some (hd p)))
     else case netif_output_copy mtu buf 0 p of
       (buf, None) \<Rightarrow> (buf, None)
     | (buf, Some len) \<Rightarrow> (buf, Some (take len buf)))"

text \<open>
  A datagram from the relay. \<open>Inl\<close>: the asserted precondition, equal address families, is
  violated. \<open>Inr\<close>: the new buffer and the packet sent, if any.
\<close>

datatype handler_fault = Fault_AddressTypes

definition build_ipv4_header :: "nat \<Rightarrow> 32 word \<Rightarrow> 32 word \<Rightarrow> ipv4_header" where
  "build_ipv4_header data_len src dst =
    (let iph = \<lparr>version4_ihl4 = IPV4_MAKE_VERSION_IHL 20, ds = 0,
                total_length = hton16 (of_nat (20 + 8 + data_len)), identification = hton16 0,
                flags3_fragmentoffset13 = hton16 0, ttl = 64, protocol = IPV4_PROTOCOL_UDP,
                checksum4 = hton16 0, source_address4 = src, destination_address4 = dst\<rparr>
     in iph\<lparr>checksum4 := ipv4_checksum iph []\<rparr>)"

definition build_ipv6_header :: "nat \<Rightarrow> bytes \<Rightarrow> bytes \<Rightarrow> ipv6_header" where
  "build_ipv6_header data_len src dst =
    \<lparr>version4_tc4 = push_bit 4 6, tc4_fl4 = 0, fl = hton16 0,
     payload_length = hton16 (of_nat (8 + data_len)), next_header = IPV6_NEXT_UDP, hop_limit = 64,
     source_address6 = src, destination_address6 = dst\<rparr>"

definition build_udp_header :: "16 word \<Rightarrow> 16 word \<Rightarrow> nat \<Rightarrow> udp_header" where
  "build_udp_header src_port dst_port data_len =
    \<lparr>source_port = src_port, dest_port = dst_port, udp_length = hton16 (of_nat (8 + data_len)),
     udp_checksum_field = hton16 0\<rparr>"

definition write_packet :: "bytes \<Rightarrow> bytes \<Rightarrow> bytes \<Rightarrow> bytes \<Rightarrow> bytes" where
  "write_packet buf iph udph data =
    blit (blit (blit buf 0 iph) (length iph) udph) (length iph + length udph) data"

definition udpgw_client_handler_received ::
  "tun_config \<Rightarrow> bytes \<Rightarrow> BAddr \<Rightarrow> BAddr \<Rightarrow> bytes \<Rightarrow> handler_fault + bytes \<times> bytes option" where
  "udpgw_client_handler_received cfg buf local_addr remote_addr data =
    (case (local_addr, remote_addr) of
       (BAddr_IPv4 local_ip local_port, BAddr_IPv4 remote_ip remote_port) \<Rightarrow>
         if length data > UINT16_MAX - 28 \<or> int (length data) > BTap_GetMTU cfg - 28 then Inr (buf, None)
         else let iph = build_ipv4_header (length data) remote_ip local_ip;
                  udph = build_udp_header remote_port local_port (length data);
                  udph = udph\<lparr>udp_checksum_field := udp_checksum udph data (source_address4 iph) (destination_address4 iph)\<rparr>;
                  buf = write_packet buf (ipv4_header_bytes iph) (udp_header_bytes udph) data
           in Inr (buf, Some (take (28 + length data) buf))
     | (BAddr_IPv6 local_ip local_port, BAddr_IPv6 remote_ip remote_port) \<Rightarrow>
         if \<not> opt_ip6addr cfg then Inr (buf, None)
         else if length data > UINT16_MAX - 8 \<or> int (length data) > BTap_GetMTU cfg - 48 then Inr (buf, None)
         else let iph = build_ipv6_header (length data) remote_ip local_ip;
                  udph = build_udp_header remote_port local_port (length data);
                  udph = udph\<lparr>udp_checksum_field := udp_ip6_checksum udph data (source_address6 iph) (destination_address6 iph)\<rparr>;
                  buf = write_packet buf (ipv6_header_bytes iph) (udp_header_bytes udph) data
           in Inr (buf, Some (take (48 + length data) buf))
     | _ \<Rightarrow> Inl Fault_AddressTypes)"

section \<open>Building and parsing are inverse\<close>

lemma take_write_packet:
  assumes "length iph + length udph + length data \<le> length buf"
  shows "take (length iph + length udph + length data) (write_packet buf iph udph data) = iph @ udph @ data"
    and "length (write_packet buf iph udph data) = length buf"
  using assms by (simp_all add: write_packet_def blit_def min_def)

lemma unat_ntoh_of_nat: "n < 65536 \<Longrightarrow> unat (ntoh16 (hton16 (of_nat n))) = n"
  by (simp add: unat_of_nat)

lemma udp_check_built:
  assumes "length data \<le> 65527" and "udp_length h = hton16 (of_nat (8 + length data))"
  shows "udp_check (udp_header_bytes h @ data) = Some (h, data)"
proof -
  have "unat (ntoh16 (udp_length h)) = 8 + length data"
    using assms unat_ntoh_of_nat [of "8 + length data"] by simp
  then show ?thesis
    using udp_wire.dec_enc [of h data] udp_wire.enc_length [of h]
    by (simp add: udp_check_def Let_def bslice_def)
qed

lemma ipv4_check_built:
  assumes "length p + 20 \<le> 65535" and h: "h = build_ipv4_header (length p - 8) src dst" and "8 \<le> length p"
  shows "ipv4_check (ipv4_header_bytes h @ p) = Some (h, p)"
proof -
  have l: "unat (ntoh16 (total_length h)) = 20 + length p"
    using assms unat_ntoh_of_nat [of "20 + length p"] by (simp add: build_ipv4_header_def Let_def)
  have v: "IPV4_GET_VERSION h = 4" "unat (IPV4_GET_IHL h) = 5"
    by (simp_all add: h build_ipv4_header_def Let_def IPV4_GET_VERSION_def IPV4_GET_IHL_def IPV4_MAKE_VERSION_IHL_def)
  have c: "checksum4 h = ipv4_checksum (h\<lparr>checksum4 := hton16 0\<rparr>) []"
    by (simp add: h build_ipv4_header_def Let_def)
  show ?thesis
    using l v c ipv4_wire.dec_enc [of h p] ipv4_wire.enc_length [of h]
    by (simp add: ipv4_check_def Let_def bslice_def)
qed

lemma ipv6_check_built:
  assumes "length p \<le> 65535" and h: "h = build_ipv6_header (length p - 8) src dst" and "8 \<le> length p"
    and "length src = 16" and "length dst = 16"
  shows "ipv6_check (ipv6_header_bytes h @ p) = Some (h, p)"
proof -
  have l: "unat (ntoh16 (payload_length h)) = length p"
    using assms unat_ntoh_of_nat [of "length p"] by (simp add: build_ipv6_header_def)
  have v: "drop_bit 4 (version4_tc4 h) = 6" by (simp add: h build_ipv6_header_def)
  have "length (source_address6 h) = 16 \<and> length (destination_address6 h) = 16"
    using assms by (simp add: build_ipv6_header_def)
  then show ?thesis
    using l v ipv6_wire.dec_enc [of h p] ipv6_wire.enc_length [of h]
    by (simp add: ipv6_check_def Let_def bslice_def)
qed


lemma process_udp4_built:
  assumes "length data \<le> 65507" and iph: "iph = build_ipv4_header (length data) src dst"
    and udph: "udph = build_udp_header sport dport (length data)"
    and pkt: "pkt = ipv4_header_bytes iph
      @ udp_header_bytes (udph\<lparr>udp_checksum_field := udp_checksum udph data src dst\<rparr>) @ data"
  shows "\<exists>dns. process_udp4 cfg pkt = Some (BAddr_IPv4 src sport, BAddr_IPv4 dst dport, dns, data)
    \<and> drop_bit 4 (pkt ! 0) = 4 \<and> 0 < length pkt"
proof -
  define u where "u = udph\<lparr>udp_checksum_field := udp_checksum udph data src dst\<rparr>"
  have u0: "u\<lparr>udp_checksum_field := 0\<rparr> = udph"
    by (simp add: u_def udph build_udp_header_def hton16_def badvpn_reverse16_def mem16_def load16_def)
  have l: "length (ipv4_header_bytes iph) = 20" "length (udp_header_bytes u) = 8"
    by (simp_all add: ipv4_wire.enc_length udp_wire.enc_length)
  have "ipv4_check pkt = Some (iph, udp_header_bytes u @ data)"
    unfolding pkt u_def [symmetric]
    by (rule ipv4_check_built [of _ _ src dst]) (use assms(1) l in \<open>simp_all add: iph\<close>)
  moreover have "udp_check (udp_header_bytes u @ data) = Some (u, data)"
    by (rule udp_check_built) (use assms(1) in \<open>simp_all add: u_def udph build_udp_header_def\<close>)
  moreover have "pkt ! 9 = 17" "drop_bit 4 (pkt ! 0) = 4" "28 \<le> length pkt"
    using l by (simp_all add: pkt u_def [symmetric] nth_append)
      (simp_all add: iph ipv4_header_bytes_def build_ipv4_header_def Let_def nth_append nth_Cons' IPV4_MAKE_VERSION_IHL_def)
  moreover have "source_address4 iph = src" "destination_address4 iph = dst"
    by (simp_all add: iph build_ipv4_header_def Let_def)
  moreover have "udp_checksum_field u = udp_checksum udph data src dst" by (simp add: u_def)
  moreover have "source_port udph = sport" "dest_port udph = dport" by (simp_all add: udph build_udp_header_def)
  ultimately show ?thesis
    by (auto simp: process_udp4_def Let_def u0)
qed

lemma process_udp6_built:
  assumes "length data \<le> 65527" and iph: "iph = build_ipv6_header (length data) src dst"
    and udph: "udph = build_udp_header sport dport (length data)"
    and pkt: "pkt = ipv6_header_bytes iph
      @ udp_header_bytes (udph\<lparr>udp_checksum_field := udp_ip6_checksum udph data src dst\<rparr>) @ data"
    and a: "length src = 16" "length dst = 16" and "opt_ip6addr cfg"
  shows "process_udp6 cfg pkt = Some (BAddr_IPv6 src sport, BAddr_IPv6 dst dport, False, data)
    \<and> drop_bit 4 (pkt ! 0) = 6 \<and> 0 < length pkt"
proof -
  define u where "u = udph\<lparr>udp_checksum_field := udp_ip6_checksum udph data src dst\<rparr>"
  have u0: "u\<lparr>udp_checksum_field := 0\<rparr> = udph"
    by (simp add: u_def udph build_udp_header_def hton16_def badvpn_reverse16_def mem16_def load16_def)
  have s: "source_address6 iph = src" "destination_address6 iph = dst"
    by (simp_all add: iph build_ipv6_header_def)
  then have l: "length (ipv6_header_bytes iph) = 40" "length (udp_header_bytes u) = 8"
    using a by (simp_all add: ipv6_wire.enc_length udp_wire.enc_length)
  have "ipv6_check pkt = Some (iph, udp_header_bytes u @ data)"
    unfolding pkt u_def [symmetric]
    by (rule ipv6_check_built [of _ _ src dst]) (use assms(1) l a in \<open>simp_all add: iph\<close>)
  moreover have "udp_check (udp_header_bytes u @ data) = Some (u, data)"
    by (rule udp_check_built) (use assms(1) in \<open>simp_all add: u_def udph build_udp_header_def\<close>)
  moreover have "pkt ! 6 = 17" "drop_bit 4 (pkt ! 0) = 6" "48 \<le> length pkt"
    using l by (simp_all add: pkt u_def [symmetric] nth_append)
      (simp_all add: iph ipv6_header_bytes_def build_ipv6_header_def nth_append nth_Cons')
  moreover have "udp_checksum_field u = udp_ip6_checksum udph data src dst" by (simp add: u_def)
  moreover have "source_port udph = sport" "dest_port udph = dport" by (simp_all add: udph build_udp_header_def)
  ultimately show ?thesis using s \<open>opt_ip6addr cfg\<close>
    by (auto simp: process_udp6_def Let_def u0)
qed

lemma handler_received_ipv4:
  assumes "opt_udpgw cfg" and "int (length data) \<le> udp_mtu cfg"
    and "int (length buf) = BTap_GetMTU cfg"
    and "udpgw_client_handler_received cfg buf (BAddr_IPv4 lip lport) (BAddr_IPv4 rip rport) data = Inr (buf', Some pkt)"
  shows "(\<exists>dns. process_device_udp_packet cfg pkt = Some (BAddr_IPv4 rip rport, BAddr_IPv4 lip lport, dns, data))
    \<and> int (length pkt) \<le> BTap_GetMTU cfg \<and> length buf' = length buf"
proof -
  define iph where "iph = build_ipv4_header (length data) rip lip"
  define udph where "udph = build_udp_header rport lport (length data)"
  define u where "u = udph\<lparr>udp_checksum_field := udp_checksum udph data rip lip\<rparr>"
  have sz: "length data \<le> 65507" "int (length data) \<le> BTap_GetMTU cfg - 28"
    using assms(4) by (auto simp: udpgw_client_handler_received_def split: if_splits)
  have l: "length (ipv4_header_bytes iph) = 20" "length (udp_header_bytes u) = 8"
    by (simp_all add: ipv4_wire.enc_length udp_wire.enc_length)
  have "source_address4 iph = rip" "destination_address4 iph = lip"
    by (simp_all add: iph_def build_ipv4_header_def Let_def)
  then have "buf' = write_packet buf (ipv4_header_bytes iph) (udp_header_bytes u) data"
      "pkt = take (28 + length data) buf'"
    using assms(4) sz
    by (auto simp: udpgw_client_handler_received_def Let_def iph_def udph_def u_def split: if_splits)
  moreover have "28 + length data \<le> length buf" using sz assms(3) by linarith
  ultimately have p: "pkt = ipv4_header_bytes iph @ udp_header_bytes u @ data" "length buf' = length buf"
    using take_write_packet [of "ipv4_header_bytes iph" "udp_header_bytes u" data buf] l by simp_all
  from process_udp4_built [OF sz(1) iph_def udph_def p(1) [unfolded u_def], of cfg]
  show ?thesis
    using assms(1,2) p l sz
    by (auto simp: process_device_udp_packet_def)
qed

lemma handler_received_ipv6:
  assumes "opt_udpgw cfg" and "int (length data) \<le> udp_mtu cfg"
    and "int (length buf) = BTap_GetMTU cfg"
    and "udpgw_client_handler_received cfg buf (BAddr_IPv6 lip lport) (BAddr_IPv6 rip rport) data = Inr (buf', Some pkt)"
    and a: "length rip = 16" "length lip = 16"
  shows "(\<exists>dns. process_device_udp_packet cfg pkt = Some (BAddr_IPv6 rip rport, BAddr_IPv6 lip lport, dns, data))
    \<and> int (length pkt) \<le> BTap_GetMTU cfg \<and> length buf' = length buf"
proof -
  define iph where "iph = build_ipv6_header (length data) rip lip"
  define udph where "udph = build_udp_header rport lport (length data)"
  define u where "u = udph\<lparr>udp_checksum_field := udp_ip6_checksum udph data rip lip\<rparr>"
  have sz: "length data \<le> 65527" "int (length data) \<le> BTap_GetMTU cfg - 48" "opt_ip6addr cfg"
    using assms(4) by (auto simp: udpgw_client_handler_received_def split: if_splits)
  have s: "source_address6 iph = rip" "destination_address6 iph = lip"
    by (simp_all add: iph_def build_ipv6_header_def)
  then have l: "length (ipv6_header_bytes iph) = 40" "length (udp_header_bytes u) = 8"
    using a by (simp_all add: ipv6_wire.enc_length udp_wire.enc_length)
  have "buf' = write_packet buf (ipv6_header_bytes iph) (udp_header_bytes u) data"
      "pkt = take (48 + length data) buf'"
    using assms(4) sz s
    by (auto simp: udpgw_client_handler_received_def Let_def iph_def udph_def u_def split: if_splits)
  moreover have "48 + length data \<le> length buf" using sz assms(3) by linarith
  ultimately have p: "pkt = ipv6_header_bytes iph @ udp_header_bytes u @ data" "length buf' = length buf"
    using take_write_packet [of "ipv6_header_bytes iph" "udp_header_bytes u" data buf] l by simp_all
  from process_udp6_built [OF sz(1) iph_def udph_def p(1) [unfolded u_def] a sz(3)]
  show ?thesis
    using assms(1,2) p l sz
    by (auto simp: process_device_udp_packet_def)
qed

text \<open>
  C20. A datagram from the relay that is written to the device is a well-formed IP packet that
  fits the device: the program's own parser reads back exactly the two addresses (the remote
  one as source) and the payload, the checksums being right, for IPv4 and IPv6; the write
  buffer keeps its size.
\<close>

theorem relayed_datagram_parses_back:
  assumes "opt_udpgw cfg" and "int (length data) \<le> udp_mtu cfg"
    and "BAddr_wf local_addr" and "BAddr_wf remote_addr"
    and "int (length buf) = BTap_GetMTU cfg"
    and "udpgw_client_handler_received cfg buf local_addr remote_addr data = Inr (buf', Some pkt)"
  shows "(\<exists>dns. process_device_udp_packet cfg pkt = Some (remote_addr, local_addr, dns, data))
    \<and> int (length pkt) \<le> BTap_GetMTU cfg \<and> length buf' = length buf"
proof -
  consider (v4) lip lport rip rport where "local_addr = BAddr_IPv4 lip lport" "remote_addr = BAddr_IPv4 rip rport"
    | (v6) lip lport rip rport where "local_addr = BAddr_IPv6 lip lport" "remote_addr = BAddr_IPv6 rip rport"
    using assms(6) by (cases local_addr; cases remote_addr) (simp_all add: udpgw_client_handler_received_def)
  then show ?thesis
  proof cases
    case v4
    show ?thesis using assms(6) unfolding v4 by (rule handler_received_ipv4 [OF assms(1,2,5)])
  next
    case v6
    show ?thesis using assms(6) unfolding v6
      by (rule handler_received_ipv6 [OF assms(1,2,5)]) (use assms(3,4) v6 in simp_all)
  qed
qed

definition home_config :: tun_config where
  "home_config = \<lparr>opt_udpgw = True, opt_ip6addr = False, opt_dnsgw = True, BTap_GetMTU = 40, udp_mtu = 12\<rparr>"

theorem relayed_datagram_parses_back_witness:
  "\<exists>buf' pkt dns. udpgw_client_handler_received home_config (replicate 40 0) (BAddr_IPv4 5 6) (BAddr_IPv4 7 8) [1, 2]
      = Inr (buf', Some pkt)
    \<and> process_device_udp_packet home_config pkt = Some (BAddr_IPv4 7 8, BAddr_IPv4 5 6, dns, [1, 2])"
proof -
  obtain buf' pkt where r: "udpgw_client_handler_received home_config (replicate 40 0) (BAddr_IPv4 5 6) (BAddr_IPv4 7 8) [1, 2]
      = Inr (buf', Some pkt)"
    by (simp add: udpgw_client_handler_received_def home_config_def Let_def)
  with relayed_datagram_parses_back [of home_config "[1, 2]" "BAddr_IPv4 5 6" "BAddr_IPv4 7 8" "replicate 40 0" buf' pkt]
  show ?thesis by (auto simp: home_config_def)
qed

section \<open>Bounds\<close>

lemma check_payload_bounds:
  "ipv4_check data = Some (h, p) \<Longrightarrow> length p + 20 \<le> length data"
  "ipv6_check data = Some (h', p) \<Longrightarrow> length p + 40 \<le> length data"
  "udp_check data = Some (h'', p) \<Longrightarrow> length p + 8 \<le> length data"
  by (auto simp: ipv4_check_def ipv6_check_def udp_check_def Let_def split: if_splits)

lemma process_udp_payload_bounds:
  "process_udp4 cfg data = Some (l, r, d, p) \<Longrightarrow> length p + 28 \<le> length data"
  "process_udp6 cfg data = Some (l, r, d, p) \<Longrightarrow> length p + 48 \<le> length data"
  by (auto simp: process_udp4_def process_udp6_def Let_def split: if_splits option.splits dest!: check_payload_bounds)

lemma udpgw_compute_mtu_value:
  assumes "0 \<le> m" and "m \<le> 65535"
  shows "udpgw_compute_mtu m = m + 22"
proof -
  have "m mod (int SIZE_MAX + 1) = m" using assms by (intro mod_pos_pos_trivial) simp_all
  then have "bsize_fromint m = \<lparr>is_overflow = False, bsize_value = nat m\<rparr>"
    using assms by (simp add: bsize_fromint_def)
  moreover have "nat m \<le> 65535" using assms by simp
  ultimately show ?thesis using assms(1)
    by (simp add: udpgw_compute_mtu_def bsize_add_def bsize_max_def bsize_fromsize_def bsize_toint_def)
qed

lemma main_udp_mtu_value: "main_udp_mtu mtu ip6 = Some m \<Longrightarrow> m = max 0 (mtu - 28)"
  by (auto simp: main_udp_mtu_def Let_def split: if_splits)

text \<open>
  With the payload bound \<open>main\<close> computes, no UDP packet the device can deliver is refused
  for its size: what the IPv4 or IPv6 parser accepts is always submitted to the relay.
\<close>

theorem device_udp_payload_fits:
  assumes "main_udp_mtu mtu ip6 = Some (udp_mtu cfg)" and "int (length data) \<le> mtu"
  shows "process_device_udp_packet cfg data =
    (if \<not> opt_udpgw cfg \<or> data = [] then None
     else if drop_bit 4 (data ! 0) = 4 then process_udp4 cfg data
     else if drop_bit 4 (data ! 0) = 6 then process_udp6 cfg data else None)"
  using main_udp_mtu_value [OF assms(1)] assms(2)
  by (auto simp: process_device_udp_packet_def Let_def split: option.splits dest: process_udp_payload_bounds)

theorem device_udp_payload_fits_witness:
  "main_udp_mtu 1500 True = Some 1472 \<and>
   process_device_udp_packet (home_config\<lparr>udp_mtu := 1472\<rparr>) [0x45, 0, 0]
     = process_udp4 (home_config\<lparr>udp_mtu := 1472\<rparr>) [0x45, 0, 0]"
proof -
  have "main_udp_mtu 1500 True = Some 1472"
    by (simp add: main_udp_mtu_def udpgw_compute_mtu_value PACKETPROTO_MAXPAYLOAD_def)
  with device_udp_payload_fits [of 1500 True "home_config\<lparr>udp_mtu := 1472\<rparr>" "[0x45, 0, 0]"]
  show ?thesis by (simp add: home_config_def)
qed

lemma netif_output_copy_spec:
  assumes "int len \<le> mtu" and "int (length buf) = mtu"
  shows "(let total = len + length (concat ps) in
    case netif_output_copy mtu buf len ps of
      (buf', None) \<Rightarrow> int total > mtu \<and> length buf' = length buf
    | (buf', Some n) \<Rightarrow> int total \<le> mtu \<and> n = total \<and> length buf' = length buf
        \<and> take n buf' = take len buf @ concat ps)"
  using assms
proof (induction ps arbitrary: buf len)
  case (Cons p ps)
  show ?case
  proof (cases "int (length p) > mtu - int len")
    case False
    then have fit: "len + length p \<le> length buf" using Cons.prems by linarith
    then have "take (len + length p) (blit buf len p) = take len buf @ p" "length (blit buf len p) = length buf"
      by (simp_all add: blit_def)
    with False Cons.prems Cons.IH [of "len + length p" "blit buf len p"] show ?thesis
      by (simp add: Let_def add.assoc split: prod.splits option.splits)
  qed (use Cons.prems in simp)
qed simp

text \<open>
  A packet lwIP sends is handed to the device exactly as lwIP chained it whenever it fits
  the device, whether in one piece or in several, and is dropped otherwise; the copy never
  leaves the write buffer.
\<close>

theorem netif_output_sends_whole_packet:
  assumes "p \<noteq> []" and "0 \<le> mtu" and "int (length buf) = mtu"
  shows "snd (common_netif_output quitting mtu buf p)
      = (if quitting \<or> int (length (concat p)) > mtu then None else Some (concat p))
    \<and> length (fst (common_netif_output quitting mtu buf p)) = length buf"
proof (cases "tl p = []")
  case True
  then have "concat p = hd p" using assms(1) by (cases p) auto
  with True show ?thesis by (auto simp: common_netif_output_def)
next
  case False
  then show ?thesis
    using netif_output_copy_spec [of 0 mtu buf p] assms
    by (auto simp: common_netif_output_def Let_def split: prod.splits option.splits)
qed

theorem netif_output_sends_whole_packet_witness:
  "snd (common_netif_output False 8 (replicate 8 0) [[1, 2], [3], [4, 5]]) = Some [1, 2, 3, 4, 5]"
  using netif_output_sends_whole_packet [of "[[1, 2], [3], [4, 5]]" 8 "replicate 8 0" False] by simp

end
