(* ===== verification/Socks_Client.thy ===== *)
theory Socks_Client
  imports Net_Proto
begin

text \<open>
  The SOCKS5 client \<open>socksclient/BSocksClient.c\<close> with the message formats of
  \<open>misc/socks_proto.h\<close>.

  The object is a state machine driven by the connector, the connection and the two control
  interfaces. Its state holds the fields of \<open>BSocksClient\<close>, which of its sub-objects are
  initialised, the outstanding send and receive, and the bytes exchanged so far. As in
  \<open>Tcp_Client\<close>, the flag \<open>sfault\<close> records a failed assertion, a read or write outside the
  buffer, a second outstanding operation or the release of something that is not there.

  The theorems: no behaviour of server and network sets the flag; the client reports that it is
  up only after exactly the prescribed messages in both directions; with a server that follows
  the protocol every run is finite and ends up; freeing releases everything in every state.
\<close>

section \<open>Messages\<close>

abbreviation (input) SOCKS_VERSION :: byte where "SOCKS_VERSION \<equiv> 5"
abbreviation (input) SOCKS_CMD_CONNECT :: byte where "SOCKS_CMD_CONNECT \<equiv> 1"
abbreviation (input) SOCKS_ATYP_IPV4 :: byte where "SOCKS_ATYP_IPV4 \<equiv> 1"
abbreviation (input) SOCKS_ATYP_IPV6 :: byte where "SOCKS_ATYP_IPV6 \<equiv> 4"
abbreviation (input) SOCKS_REP_SUCCEEDED :: byte where "SOCKS_REP_SUCCEEDED \<equiv> 0"

text \<open>\<open>struct BSocksClient_auth_info\<close>: no authentication, or user name and password.\<close>

datatype auth_info = Auth_None | Auth_Password bytes bytes

fun auth_type :: "auth_info \<Rightarrow> byte" where
  "auth_type Auth_None = 0"
| "auth_type (Auth_Password u p) = 2"

definition BSocksClient_auth_none :: auth_info where
  "BSocksClient_auth_none = Auth_None"

definition BSocksClient_auth_password :: "bytes \<Rightarrow> bytes \<Rightarrow> auth_info" where
  "BSocksClient_auth_password username password = Auth_Password username password"

section \<open>State\<close>

datatype socks_state =
    STATE_CONNECTING
  | STATE_SENDING_HELLO
  | STATE_SENT_HELLO
  | STATE_SENDING_PASSWORD
  | STATE_SENT_PASSWORD
  | STATE_SENDING_REQUEST
  | STATE_SENT_REQUEST
  | STATE_RECEIVED_REPLY_HEADER
  | STATE_UP

datatype socks_event = BSOCKSCLIENT_EVENT_ERROR | BSOCKSCLIENT_EVENT_UP | BSOCKSCLIENT_EVENT_ERROR_CLOSED

datatype con_event = BCONNECTION_EVENT_ERROR | BCONNECTION_EVENT_RECVCLOSED

record BSocksClient =
  auth_infos :: "auth_info list"
  dest_addr :: BAddr
  state :: socks_state
  buffer :: "bytes option"
  recv_dest :: nat
  recv_len :: nat
  recv_total :: nat
  connector_live :: bool
  con_live :: bool
  control_io :: bool
  up_io :: bool
  sending :: "nat option"
  receiving :: "(nat \<times> nat) option"
  events :: "socks_event list"
  sent :: bytes
  received :: bytes
  sfault :: bool

definition S_ASSERT :: "bool \<Rightarrow> BSocksClient \<Rightarrow> BSocksClient" where
  "S_ASSERT b o' = o'\<lparr>sfault := sfault o' \<or> \<not> b\<rparr>"

definition report_error :: "socks_event \<Rightarrow> BSocksClient \<Rightarrow> BSocksClient" where
  "report_error e o' = o'\<lparr>events := events o' @ [e]\<rparr>"

definition init_control_io :: "BSocksClient \<Rightarrow> BSocksClient" where
  "init_control_io o' = (S_ASSERT (con_live o' \<and> \<not> control_io o' \<and> \<not> up_io o') o')
     \<lparr>control_io := True, sending := None, receiving := None\<rparr>"

definition free_control_io :: "BSocksClient \<Rightarrow> BSocksClient" where
  "free_control_io o' = (S_ASSERT (con_live o' \<and> control_io o') o')\<lparr>control_io := False, sending := None, receiving := None\<rparr>"

definition init_up_io :: "BSocksClient \<Rightarrow> BSocksClient" where
  "init_up_io o' = (S_ASSERT (con_live o' \<and> \<not> control_io o' \<and> \<not> up_io o') o')\<lparr>up_io := True\<rparr>"

definition free_up_io :: "BSocksClient \<Rightarrow> BSocksClient" where
  "free_up_io o' = (S_ASSERT (con_live o' \<and> up_io o') o')\<lparr>up_io := False\<rparr>"

text \<open>
  \<open>BRealloc\<close> fails or returns memory of the requested size: it is an argument, with
  \<open>malloc_ok\<close> as its contract. The buffer must not be in use by an outstanding send or receive.
\<close>

definition reserve_buffer :: "bsize_t \<Rightarrow> (nat \<Rightarrow> bytes option) \<Rightarrow> BSocksClient \<Rightarrow> BSocksClient \<times> bool" where
  "reserve_buffer bs mem o' =
    (if is_overflow bs then (o', False)
     else let o' = S_ASSERT (sending o' = None \<and> receiving o' = None) o' in
       case mem (bsize_value bs) of None \<Rightarrow> (o', False) | Some m \<Rightarrow> (o'\<lparr>buffer := Some m\<rparr>, True))"

definition write_buffer :: "nat \<Rightarrow> bytes \<Rightarrow> BSocksClient \<Rightarrow> BSocksClient" where
  "write_buffer off data o' =
    (case buffer o' of
       None \<Rightarrow> S_ASSERT False o'
     | Some m \<Rightarrow> (S_ASSERT (off + length data \<le> length m) o')\<lparr>buffer := Some (blit m off data)\<rparr>)"

definition send_buffer :: "nat \<Rightarrow> BSocksClient \<Rightarrow> BSocksClient" where
  "send_buffer n o' =
    (S_ASSERT (control_io o' \<and> sending o' = None \<and> (\<exists>m. buffer o' = Some m \<and> n \<le> length m)) o')\<lparr>sending := Some n\<rparr>"

definition do_receive :: "BSocksClient \<Rightarrow> BSocksClient" where
  "do_receive o' =
    (S_ASSERT (recv_len o' < recv_total o' \<and> control_io o' \<and> receiving o' = None) o')
      \<lparr>receiving := Some (recv_dest o' + recv_len o', recv_total o' - recv_len o')\<rparr>"

definition start_receive :: "nat \<Rightarrow> nat \<Rightarrow> BSocksClient \<Rightarrow> BSocksClient" where
  "start_receive dest tot o' =
    do_receive ((S_ASSERT (tot > 0) o')\<lparr>recv_dest := dest, recv_len := 0, recv_total := tot\<rparr>)"

section \<open>Handlers\<close>

definition connector_handler :: "bool \<Rightarrow> bool \<Rightarrow> (nat \<Rightarrow> bytes option) \<Rightarrow> BSocksClient \<Rightarrow> BSocksClient" where
  "connector_handler is_error con_ok mem o' =
    (let o' = S_ASSERT (state o' = STATE_CONNECTING) o' in
     if is_error then report_error BSOCKSCLIENT_EVENT_ERROR o'
     else if \<not> con_ok then report_error BSOCKSCLIENT_EVENT_ERROR o'
     else
      let o' = init_control_io (o'\<lparr>con_live := True\<rparr>);
          num = length (auth_infos o');
          fail1 = (\<lambda>o'. report_error BSOCKSCLIENT_EVENT_ERROR ((free_control_io o')\<lparr>con_live := False\<rparr>))
      in if num = 0 \<or> num > 255 then fail1 o'
         else
          let size = bsize_add (bsize_fromsize 2) (bsize_mul (bsize_fromsize num) (bsize_fromsize 1));
              (o', ok) = reserve_buffer size mem o'
          in if \<not> ok then fail1 o'
             else
              let o' = write_buffer 0 [SOCKS_VERSION, of_nat num] o';
                  o' = foldl (\<lambda>o' i. write_buffer (2 + i) [auth_type (auth_infos o' ! i)] o') o' [0..<num];
                  o' = send_buffer (bsize_value size) o'
              in o'\<lparr>state := STATE_SENDING_HELLO\<rparr>)"

definition connection_handler :: "con_event \<Rightarrow> BSocksClient \<Rightarrow> BSocksClient" where
  "connection_handler event o' =
    (let o' = S_ASSERT (state o' \<noteq> STATE_CONNECTING) o' in
     if state o' = STATE_UP \<and> event = BCONNECTION_EVENT_RECVCLOSED
     then report_error BSOCKSCLIENT_EVENT_ERROR_CLOSED o'
     else report_error BSOCKSCLIENT_EVENT_ERROR o')"

definition auth_finished :: "(nat \<Rightarrow> bytes option) \<Rightarrow> BSocksClient \<Rightarrow> BSocksClient" where
  "auth_finished mem o' =
    (let size = (case dest_addr o' of
           BAddr_IPv4 _ _ \<Rightarrow> bsize_add (bsize_fromsize 4) (bsize_fromsize 6)
         | BAddr_IPv6 _ _ \<Rightarrow> bsize_add (bsize_fromsize 4) (bsize_fromsize 18)
         | BAddr_None \<Rightarrow> bsize_fromsize 4);
         (o', ok) = reserve_buffer size mem o'
     in if \<not> ok then report_error BSOCKSCLIENT_EVENT_ERROR o'
        else
         let (o', atyp) = (case dest_addr o' of
               BAddr_IPv4 ip port \<Rightarrow> (write_buffer 4 (mem32 ip @ mem16 port) o', SOCKS_ATYP_IPV4)
             | BAddr_IPv6 ip port \<Rightarrow> (write_buffer 4 (ip @ mem16 port) o', SOCKS_ATYP_IPV6)
             | BAddr_None \<Rightarrow> (S_ASSERT False o', 0));
             o' = write_buffer 0 [SOCKS_VERSION, SOCKS_CMD_CONNECT, 0, atyp] o';
             o' = send_buffer (bsize_value size) o'
         in o'\<lparr>state := STATE_SENDING_REQUEST\<rparr>)"

definition send_password :: "bytes \<Rightarrow> bytes \<Rightarrow> (nat \<Rightarrow> bytes option) \<Rightarrow> BSocksClient \<Rightarrow> BSocksClient" where
  "send_password username password mem o' =
    (if length username = 0 \<or> length username > 255 \<or> length password = 0 \<or> length password > 255
     then report_error BSOCKSCLIENT_EVENT_ERROR o'
     else
      let size = bsize_fromsize (1 + 1 + length username + 1 + length password);
          (o', ok) = reserve_buffer size mem o'
      in if \<not> ok then report_error BSOCKSCLIENT_EVENT_ERROR o'
         else
          let o' = write_buffer 0 [1, of_nat (length username)] o';
              o' = write_buffer 2 username o';
              o' = write_buffer (2 + length username) [of_nat (length password)] o';
              o' = write_buffer (3 + length username) password o';
              o' = send_buffer (bsize_value size) o'
          in o'\<lparr>state := STATE_SENDING_PASSWORD\<rparr>)"

definition received_hello :: "(nat \<Rightarrow> bytes option) \<Rightarrow> BSocksClient \<Rightarrow> BSocksClient" where
  "received_hello mem o' =
    (let imsg = the (buffer o') in
     if imsg ! 0 \<noteq> SOCKS_VERSION then report_error BSOCKSCLIENT_EVENT_ERROR o'
     else case find (\<lambda>ai. auth_type ai = imsg ! 1) (auth_infos o') of
       None \<Rightarrow> report_error BSOCKSCLIENT_EVENT_ERROR o'
     | Some Auth_None \<Rightarrow> auth_finished mem o'
     | Some (Auth_Password u p) \<Rightarrow> send_password u p mem o')"

definition received_reply_header :: "BSocksClient \<Rightarrow> BSocksClient" where
  "received_reply_header o' =
    (let imsg = the (buffer o') in
     if imsg ! 0 \<noteq> SOCKS_VERSION then report_error BSOCKSCLIENT_EVENT_ERROR o'
     else if imsg ! 1 \<noteq> SOCKS_REP_SUCCEEDED then report_error BSOCKSCLIENT_EVENT_ERROR o'
     else if imsg ! 3 = SOCKS_ATYP_IPV4 then (start_receive 4 6 o')\<lparr>state := STATE_RECEIVED_REPLY_HEADER\<rparr>
     else if imsg ! 3 = SOCKS_ATYP_IPV6 then (start_receive 4 18 o')\<lparr>state := STATE_RECEIVED_REPLY_HEADER\<rparr>
     else report_error BSOCKSCLIENT_EVENT_ERROR o')"

definition received_password_reply :: "(nat \<Rightarrow> bytes option) \<Rightarrow> BSocksClient \<Rightarrow> BSocksClient" where
  "received_password_reply mem o' =
    (let b = the (buffer o') in
     if b ! 0 \<noteq> 1 then report_error BSOCKSCLIENT_EVENT_ERROR o'
     else if b ! 1 \<noteq> 0 then report_error BSOCKSCLIENT_EVENT_ERROR o'
     else auth_finished mem o')"

definition received_reply_rest :: "BSocksClient \<Rightarrow> BSocksClient" where
  "received_reply_rest o' =
    (let o' = o'\<lparr>buffer := None\<rparr>;
         o' = free_control_io o';
         o' = init_up_io o';
         o' = o'\<lparr>state := STATE_UP\<rparr>
     in o'\<lparr>events := events o' @ [BSOCKSCLIENT_EVENT_UP]\<rparr>)"

definition recv_handler_done :: "(nat \<Rightarrow> bytes option) \<Rightarrow> nat \<Rightarrow> BSocksClient \<Rightarrow> BSocksClient" where
  "recv_handler_done mem data_len o' =
    (let o' = S_ASSERT (data_len \<le> recv_total o' - recv_len o') o';
         o' = o'\<lparr>recv_len := recv_len o' + data_len\<rparr>
     in if recv_len o' < recv_total o' then do_receive o'
        else case state o' of
          STATE_SENT_HELLO \<Rightarrow> received_hello mem o'
        | STATE_SENT_REQUEST \<Rightarrow> received_reply_header o'
        | STATE_SENT_PASSWORD \<Rightarrow> received_password_reply mem o'
        | STATE_RECEIVED_REPLY_HEADER \<Rightarrow> received_reply_rest o'
        | _ \<Rightarrow> S_ASSERT False o')"

definition send_handler_done :: "(nat \<Rightarrow> bytes option) \<Rightarrow> BSocksClient \<Rightarrow> BSocksClient" where
  "send_handler_done mem o' =
    (let o' = S_ASSERT (buffer o' \<noteq> None) o' in
     case state o' of
       STATE_SENDING_HELLO \<Rightarrow>
        (let size = bsize_fromsize 2; (o', ok) = reserve_buffer size mem o' in
         if \<not> ok then report_error BSOCKSCLIENT_EVENT_ERROR o'
         else (start_receive 0 (bsize_value size) o')\<lparr>state := STATE_SENT_HELLO\<rparr>)
     | STATE_SENDING_REQUEST \<Rightarrow>
        (let size = bsize_add (bsize_fromsize 4) (bsize_max (bsize_fromsize 6) (bsize_fromsize 18));
             (o', ok) = reserve_buffer size mem o' in
         if \<not> ok then report_error BSOCKSCLIENT_EVENT_ERROR o'
         else (start_receive 0 4 o')\<lparr>state := STATE_SENT_REQUEST\<rparr>)
     | STATE_SENDING_PASSWORD \<Rightarrow>
        (let size = bsize_fromsize 2; (o', ok) = reserve_buffer size mem o' in
         if \<not> ok then report_error BSOCKSCLIENT_EVENT_ERROR o'
         else (start_receive 0 (bsize_value size) o')\<lparr>state := STATE_SENT_PASSWORD\<rparr>)
     | _ \<Rightarrow> S_ASSERT False o')"

text \<open>
  \<open>BSocksClient_Init\<close>; \<open>None\<close> when the connector cannot be initialised. The code keeps a pointer to the array of authentication methods; here it is
  its value, so the model is of clients whose array is not overwritten while they exist.
\<close>

definition BSocksClient_Init :: "bool \<Rightarrow> auth_info list \<Rightarrow> BAddr \<Rightarrow> BSocksClient option" where
  "BSocksClient_Init connector_ok auths dest =
    (if \<not> connector_ok then None
     else Some \<lparr>auth_infos = auths, dest_addr = dest, state = STATE_CONNECTING, buffer = None,
       recv_dest = 0, recv_len = 0, recv_total = 0, connector_live = True, con_live = False,
       control_io = False, up_io = False, sending = None, receiving = None, events = [],
       sent = [], received = [], sfault = False\<rparr>)"

definition BSocksClient_Free :: "BSocksClient \<Rightarrow> BSocksClient" where
  "BSocksClient_Free o' =
    (let o' = (if state o' \<noteq> STATE_CONNECTING then
           let o' = (if state o' = STATE_UP then free_up_io o' else free_control_io o')
           in (S_ASSERT (con_live o') o')\<lparr>con_live := False\<rparr>
         else o');
         o' = (S_ASSERT (connector_live o') o')\<lparr>connector_live := False\<rparr>
     in o'\<lparr>buffer := None\<rparr>)"

section \<open>What the handlers write and read\<close>

definition hello_msg :: "auth_info list \<Rightarrow> bytes" where
  "hello_msg auths = [SOCKS_VERSION, of_nat (length auths)] @ map auth_type auths"

definition password_msg :: "bytes \<Rightarrow> bytes \<Rightarrow> bytes" where
  "password_msg u p = [1, of_nat (length u)] @ u @ [of_nat (length p)] @ p"

fun socks_addr :: "BAddr \<Rightarrow> bytes" where
  "socks_addr BAddr_None = []"
| "socks_addr (BAddr_IPv4 ip port) = SOCKS_ATYP_IPV4 # mem32 ip @ mem16 port"
| "socks_addr (BAddr_IPv6 ip port) = SOCKS_ATYP_IPV6 # ip @ mem16 port"

fun dest_ok :: "BAddr \<Rightarrow> bool" where
  "dest_ok BAddr_None = False"
| "dest_ok (BAddr_IPv4 ip port) = True"
| "dest_ok (BAddr_IPv6 ip port) = (length ip = 16)"

definition request_msg :: "BAddr \<Rightarrow> bytes" where
  "request_msg dest = [SOCKS_VERSION, SOCKS_CMD_CONNECT, 0] @ socks_addr dest"

lemma S_ASSERT_True [simp]: "b \<Longrightarrow> S_ASSERT b o' = o'"
  by (simp add: S_ASSERT_def)

text \<open>A write right behind what is in the buffer, and a write at its start.\<close>

lemma write_buffer_append:
  assumes "buffer o' = Some (xs @ r)" and "length ys \<le> length r" and "off = length xs"
  shows "write_buffer off ys o' = o'\<lparr>buffer := Some (xs @ ys @ drop (length ys) r)\<rparr>"
  using assms by (simp add: write_buffer_def blit_def)

lemma write_buffer_start:
  "buffer o' = Some m \<Longrightarrow> length ys \<le> length m \<Longrightarrow>
   write_buffer 0 ys o' = o'\<lparr>buffer := Some (ys @ drop (length ys) m)\<rparr>"
  using write_buffer_append [of o' "[]" m ys 0] by simp

lemma write_methods:
  assumes "buffer o' = Some (hdr @ m)" and "length hdr = 2" and "n \<le> length m" and "n \<le> length (auth_infos o')"
  shows "foldl (\<lambda>o' i. write_buffer (2 + i) [auth_type (auth_infos o' ! i)] o') o' [0..<n]
    = o'\<lparr>buffer := Some (hdr @ map auth_type (take n (auth_infos o')) @ drop n m)\<rparr>"
  using assms(3,4)
proof (induction n)
  case 0
  then show ?case using assms(1) by simp
next
  case (Suc n)
  let ?o = "o'\<lparr>buffer := Some (hdr @ map auth_type (take n (auth_infos o')) @ drop n m)\<rparr>"
  have "write_buffer (2 + n) [auth_type (auth_infos o' ! n)] ?o
     = ?o\<lparr>buffer := Some ((hdr @ map auth_type (take n (auth_infos o'))) @ [auth_type (auth_infos o' ! n)]
          @ drop (length [auth_type (auth_infos o' ! n)]) (drop n m))\<rparr>"
    using Suc.prems assms(2) by (intro write_buffer_append) auto
  with Suc show ?case by (simp add: take_Suc_conv_app_nth)
qed

definition idle :: "BSocksClient \<Rightarrow> bool" where
  "idle o' \<longleftrightarrow> sending o' = None \<and> receiving o' = None"

lemma reserve_idle:
  "idle o' \<Longrightarrow> \<not> is_overflow bs \<Longrightarrow> reserve_buffer bs mem o'
    = (case mem (bsize_value bs) of None \<Rightarrow> (o', False) | Some m \<Rightarrow> (o'\<lparr>buffer := Some m\<rparr>, True))"
  by (simp add: reserve_buffer_def idle_def Let_def split: option.split)

lemma auth_finished_eq:
  assumes "malloc_ok mem" and "idle o'" and "control_io o'" and "dest_ok (dest_addr o')"
  shows "auth_finished mem o' =
    (if mem (length (request_msg (dest_addr o'))) = None then report_error BSOCKSCLIENT_EVENT_ERROR o'
     else o'\<lparr>buffer := Some (request_msg (dest_addr o')),
        sending := Some (length (request_msg (dest_addr o'))), state := STATE_SENDING_REQUEST\<rparr>)"
proof (cases "dest_addr o'")
  case (BAddr_IPv4 ip port)
  show ?thesis
    using assms BAddr_IPv4
    by (auto simp: auth_finished_def reserve_idle bsize_add_def bsize_fromsize_def request_msg_def malloc_ok_def
        write_buffer_def blit_def send_buffer_def idle_def Let_def split: option.split)
next
  case (BAddr_IPv6 ip port)
  show ?thesis
    using assms BAddr_IPv6
    by (auto simp: auth_finished_def reserve_idle bsize_add_def bsize_fromsize_def request_msg_def malloc_ok_def
        write_buffer_def blit_def send_buffer_def idle_def Let_def split: option.split)
qed (use assms in simp)

lemma send_password_eq:
  assumes "malloc_ok mem" and "idle o'" and "control_io o'"
  shows "send_password u p mem o' =
    (if length u \<in> {1..255} \<and> length p \<in> {1..255} \<and> mem (length (password_msg u p)) \<noteq> None
     then o'\<lparr>buffer := Some (password_msg u p), sending := Some (length (password_msg u p)),
        state := STATE_SENDING_PASSWORD\<rparr>
     else report_error BSOCKSCLIENT_EVENT_ERROR o')"
proof (cases "length u \<in> {1..255} \<and> length p \<in> {1..255}")
  case True
  let ?n = "length (password_msg u p)"
  have n: "?n = 1 + 1 + length u + 1 + length p" by (simp add: password_msg_def)
  show ?thesis
  proof (cases "mem ?n")
    case None
    then show ?thesis using True assms
      by (simp add: send_password_def reserve_idle bsize_fromsize_def n)
  next
    case (Some m)
    then have m: "length m = ?n" using assms(1) by (simp add: malloc_ok_def)
    let ?u = "[1, of_nat (length u)] :: bytes" and ?p = "[of_nat (length p)] :: bytes"
    have w1: "write_buffer 0 ?u (o'\<lparr>buffer := Some m\<rparr>) = o'\<lparr>buffer := Some (?u @ drop 2 m)\<rparr>"
      using m by (subst write_buffer_start) (auto simp: n numeral_2_eq_2)
    have w2: "write_buffer 2 u (o'\<lparr>buffer := Some (?u @ drop 2 m)\<rparr>)
        = o'\<lparr>buffer := Some ((?u @ u) @ drop (2 + length u) m)\<rparr>"
      using m by (subst write_buffer_append [where xs = ?u and r = "drop 2 m"]) (auto simp: n)
    have w3: "write_buffer (2 + length u) ?p (o'\<lparr>buffer := Some ((?u @ u) @ drop (2 + length u) m)\<rparr>)
        = o'\<lparr>buffer := Some ((?u @ u @ ?p) @ drop (3 + length u) m)\<rparr>"
      using m by (subst write_buffer_append [where xs = "?u @ u" and r = "drop (2 + length u) m"]) (auto simp: n numeral_3_eq_3)
    have w4: "write_buffer (3 + length u) p (o'\<lparr>buffer := Some ((?u @ u @ ?p) @ drop (3 + length u) m)\<rparr>)
        = o'\<lparr>buffer := Some (password_msg u p)\<rparr>"
      using m by (subst write_buffer_append [where xs = "?u @ u @ ?p" and r = "drop (3 + length u) m"])
        (auto simp: n password_msg_def)
    have "write_buffer (3 + length u) p (write_buffer (2 + length u) ?p (write_buffer 2 u
        (write_buffer 0 ?u (o'\<lparr>buffer := Some m\<rparr>)))) = o'\<lparr>buffer := Some (password_msg u p)\<rparr>"
      by (simp only: w1 w2 w3 w4)
    moreover have "u \<noteq> []" and "p \<noteq> []" using True by auto
    ultimately show ?thesis
      using True assms Some
      by (simp add: send_password_def reserve_idle bsize_fromsize_def n Let_def send_buffer_def idle_def)
  qed
next
  case False
  then have "length u = 0 \<or> length u > 255 \<or> length p = 0 \<or> length p > 255"
    by (auto simp: not_le)
  then show ?thesis using False by (auto simp: send_password_def)
qed

lemma undo_control [simp]:
  "\<not> control_io o' \<Longrightarrow> \<not> con_live o' \<Longrightarrow>
   o'\<lparr>control_io := False, sending := a, receiving := b, con_live := False\<rparr> = o'\<lparr>sending := a, receiving := b\<rparr>"
  by (cases o') simp

lemma connector_handler_eq:
  assumes "malloc_ok mem" and "state o' = STATE_CONNECTING" and "\<not> control_io o'" and "\<not> up_io o'"
    and "\<not> con_live o'"
  shows "connector_handler is_error con_ok mem o' =
    (if is_error \<or> \<not> con_ok then report_error BSOCKSCLIENT_EVENT_ERROR o'
     else if length (auth_infos o') \<in> {1..255} \<and> mem (length (hello_msg (auth_infos o'))) \<noteq> None
     then o'\<lparr>con_live := True, control_io := True, receiving := None,
        buffer := Some (hello_msg (auth_infos o')), sending := Some (length (hello_msg (auth_infos o'))),
        state := STATE_SENDING_HELLO\<rparr>
     else report_error BSOCKSCLIENT_EVENT_ERROR (o'\<lparr>sending := None, receiving := None\<rparr>))"
proof (cases "is_error \<or> \<not> con_ok \<or> length (auth_infos o') \<notin> {1..255}")
  case True
  then have "is_error \<or> \<not> con_ok \<or> length (auth_infos o') = 0 \<or> length (auth_infos o') > 255"
    by (auto simp: not_le)
  then show ?thesis using assms True
    by (auto simp: connector_handler_def init_control_io_def free_control_io_def Let_def)
next
  case False
  let ?a = "auth_infos o'" and ?n = "length (hello_msg (auth_infos o'))"
  have n: "?n = 2 + length ?a" by (simp add: hello_msg_def)
  from False have a: "?a \<noteq> []" and "length ?a \<le> 255" by auto
  then have sz: "bsize_add (bsize_fromsize 2) (bsize_mul (bsize_fromsize (length ?a)) (bsize_fromsize 1))
      = \<lparr>is_overflow = False, bsize_value = ?n\<rparr>"
    by (simp add: bsize_add_def bsize_mul_def bsize_fromsize_def n Suc_le_eq div_greater_zero_iff)
  let ?o = "o'\<lparr>con_live := True, control_io := True, sending := None, receiving := None\<rparr>"
  show ?thesis
  proof (cases "mem ?n")
    case None
    with False assms a sz show ?thesis
      by (simp add: connector_handler_def init_control_io_def free_control_io_def Let_def reserve_idle idle_def)
  next
    case (Some m)
    then have m: "length m = ?n" using assms(1) by (simp add: malloc_ok_def)
    let ?h = "[SOCKS_VERSION, of_nat (length ?a)] :: bytes"
    have w1: "write_buffer 0 ?h (?o\<lparr>buffer := Some m\<rparr>) = ?o\<lparr>buffer := Some (?h @ drop 2 m)\<rparr>"
      using m by (subst write_buffer_start) (auto simp: n numeral_2_eq_2)
    have w2: "foldl (\<lambda>o' i. write_buffer (2 + i) [auth_type (auth_infos o' ! i)] o')
          (?o\<lparr>buffer := Some (?h @ drop 2 m)\<rparr>) [0..<length ?a]
        = ?o\<lparr>buffer := Some (hello_msg ?a)\<rparr>"
      using m by (subst write_methods [where hdr = ?h and m = "drop 2 m"]) (auto simp: n hello_msg_def)
    show ?thesis
      using False assms Some a sz w1 w2 \<open>length ?a \<le> 255\<close>
      by (simp add: connector_handler_def init_control_io_def Let_def reserve_idle idle_def send_buffer_def Suc_le_eq
          del: foldl_conv_fold)
  qed
qed


section \<open>Runs\<close>

definition failed :: "BSocksClient \<Rightarrow> bool" where
  "failed o' \<longleftrightarrow> BSOCKSCLIENT_EVENT_ERROR \<in> set (events o') \<or> BSOCKSCLIENT_EVENT_ERROR_CLOSED \<in> set (events o')"

text \<open>What the connection does with the buffer when it completes a send or a receive.\<close>

definition complete_send :: "BSocksClient \<Rightarrow> BSocksClient" where
  "complete_send o' = o'\<lparr>sent := sent o' @ take (the (sending o')) (the (buffer o')), sending := None\<rparr>"

definition complete_recv :: "bytes \<Rightarrow> BSocksClient \<Rightarrow> BSocksClient" where
  "complete_recv data o' = (case buffer o' of
      None \<Rightarrow> S_ASSERT False o'
    | Some m \<Rightarrow> (S_ASSERT (fst (the (receiving o')) + length data \<le> length m) o')
        \<lparr>buffer := Some (blit m (fst (the (receiving o'))) data), received := received o' @ data, receiving := None\<rparr>)"

inductive sstep :: "BSocksClient \<Rightarrow> BSocksClient \<Rightarrow> bool" where
  connector: "\<not> failed s \<Longrightarrow> state s = STATE_CONNECTING \<Longrightarrow> malloc_ok mem \<Longrightarrow>
    sstep s (connector_handler is_error con_ok mem s)"
| connection: "\<not> failed s \<Longrightarrow> con_live s \<Longrightarrow> sstep s (connection_handler event s)"
| send_done: "\<not> failed s \<Longrightarrow> sending s \<noteq> None \<Longrightarrow> malloc_ok mem \<Longrightarrow>
    sstep s (send_handler_done mem (complete_send s))"
| recv_done: "\<not> failed s \<Longrightarrow> receiving s = Some (off, n) \<Longrightarrow> data \<noteq> [] \<Longrightarrow> length data \<le> n \<Longrightarrow> malloc_ok mem \<Longrightarrow>
    sstep s (recv_handler_done mem (length data) (complete_recv data s))"

definition sinit :: "auth_info list \<Rightarrow> BAddr \<Rightarrow> BSocksClient \<Rightarrow> bool" where
  "sinit auths dest s \<longleftrightarrow> dest_ok dest \<and> BSocksClient_Init True auths dest = Some s"

section \<open>Invariant\<close>

text \<open>The authentication part of the dialogue: what was sent and what was received.\<close>

inductive auth_exchange :: "auth_info list \<Rightarrow> bytes \<Rightarrow> bytes \<Rightarrow> bool" for auths where
  no_auth: "Auth_None \<in> set auths \<Longrightarrow> auth_exchange auths [] [SOCKS_VERSION, 0]"
| with_password: "find (\<lambda>ai. auth_type ai = 2) auths = Some (Auth_Password u p) \<Longrightarrow>
    length u \<in> {1..255} \<Longrightarrow> length p \<in> {1..255} \<Longrightarrow>
    auth_exchange auths (password_msg u p) [SOCKS_VERSION, 2, 1, 0]"

definition offers_password :: "auth_info list \<Rightarrow> bytes \<Rightarrow> bool" where
  "offers_password auths msg \<longleftrightarrow> (\<exists>u p. find (\<lambda>ai. auth_type ai = 2) auths = Some (Auth_Password u p)
     \<and> length u \<in> {1..255} \<and> length p \<in> {1..255} \<and> msg = password_msg u p)"

definition addr_len :: "byte \<Rightarrow> nat" where
  "addr_len atyp = (if atyp = SOCKS_ATYP_IPV4 then 6 else 18)"

text \<open>The shape of the buffer and the outstanding operation while a message is sent or received.\<close>

definition sending_msg :: "bytes \<Rightarrow> BSocksClient \<Rightarrow> bool" where
  "sending_msg msg o' \<longleftrightarrow> buffer o' = Some msg \<and> sending o' = Some (length msg) \<and> receiving o' = None"

definition receiving_msg :: "nat \<Rightarrow> nat \<Rightarrow> nat \<Rightarrow> BSocksClient \<Rightarrow> bool" where
  "receiving_msg cap dest tot o' \<longleftrightarrow> (\<exists>m. buffer o' = Some m \<and> length m = cap) \<and> dest + tot \<le> cap
     \<and> recv_dest o' = dest \<and> recv_total o' = tot \<and> recv_len o' < tot
     \<and> receiving o' = Some (dest + recv_len o', tot - recv_len o') \<and> sending o' = None"

definition got :: "BSocksClient \<Rightarrow> bytes" where
  "got o' = bslice (recv_dest o') (recv_len o') (the (buffer o'))"

fun protocol :: "socks_state \<Rightarrow> BSocksClient \<Rightarrow> bool" where
  "protocol STATE_CONNECTING o' = (buffer o' = None \<and> idle o' \<and> sent o' = [] \<and> received o' = [])"
| "protocol STATE_SENDING_HELLO o' =
    (sending_msg (hello_msg (auth_infos o')) o' \<and> sent o' = [] \<and> received o' = [])"
| "protocol STATE_SENT_HELLO o' =
    (receiving_msg 2 0 2 o' \<and> sent o' = hello_msg (auth_infos o') \<and> received o' = got o')"
| "protocol STATE_SENDING_PASSWORD o' =
    (\<exists>msg. offers_password (auth_infos o') msg \<and> sending_msg msg o'
      \<and> sent o' = hello_msg (auth_infos o') \<and> received o' = [SOCKS_VERSION, 2])"
| "protocol STATE_SENT_PASSWORD o' =
    (\<exists>msg. offers_password (auth_infos o') msg \<and> receiving_msg 2 0 2 o'
      \<and> sent o' = hello_msg (auth_infos o') @ msg \<and> received o' = [SOCKS_VERSION, 2] @ got o')"
| "protocol STATE_SENDING_REQUEST o' =
    (\<exists>a r. auth_exchange (auth_infos o') a r \<and> sending_msg (request_msg (dest_addr o')) o'
      \<and> sent o' = hello_msg (auth_infos o') @ a \<and> received o' = r)"
| "protocol STATE_SENT_REQUEST o' =
    (\<exists>a r. auth_exchange (auth_infos o') a r \<and> receiving_msg 22 0 4 o'
      \<and> sent o' = hello_msg (auth_infos o') @ a @ request_msg (dest_addr o') \<and> received o' = r @ got o')"
| "protocol STATE_RECEIVED_REPLY_HEADER o' =
    (\<exists>a r rsv atyp. auth_exchange (auth_infos o') a r \<and> atyp \<in> {SOCKS_ATYP_IPV4, SOCKS_ATYP_IPV6}
      \<and> receiving_msg 22 4 (addr_len atyp) o'
      \<and> sent o' = hello_msg (auth_infos o') @ a @ request_msg (dest_addr o')
      \<and> received o' = r @ [SOCKS_VERSION, SOCKS_REP_SUCCEEDED, rsv, atyp] @ got o')"
| "protocol STATE_UP o' =
    (buffer o' = None \<and> idle o' \<and> (\<exists>a r rsv atyp addr. auth_exchange (auth_infos o') a r
      \<and> atyp \<in> {SOCKS_ATYP_IPV4, SOCKS_ATYP_IPV6} \<and> length addr = addr_len atyp
      \<and> sent o' = hello_msg (auth_infos o') @ a @ request_msg (dest_addr o')
      \<and> received o' = r @ [SOCKS_VERSION, SOCKS_REP_SUCCEEDED, rsv, atyp] @ addr))"

definition resources :: "BSocksClient \<Rightarrow> bool" where
  "resources o' \<longleftrightarrow> \<not> sfault o' \<and> connector_live o' \<and> dest_ok (dest_addr o')
     \<and> (con_live o' \<longleftrightarrow> state o' \<noteq> STATE_CONNECTING)
     \<and> (control_io o' \<longleftrightarrow> state o' \<noteq> STATE_CONNECTING \<and> state o' \<noteq> STATE_UP)
     \<and> (up_io o' \<longleftrightarrow> state o' = STATE_UP)"

definition up_events :: "BSocksClient \<Rightarrow> socks_event list" where
  "up_events o' = (if state o' = STATE_UP then [BSOCKSCLIENT_EVENT_UP] else [])"

definition sinv :: "auth_info list \<Rightarrow> BAddr \<Rightarrow> BSocksClient \<Rightarrow> bool" where
  "sinv auths dest o' \<longleftrightarrow> auth_infos o' = auths \<and> dest_addr o' = dest \<and> resources o'
     \<and> (events o' = up_events o' \<and> protocol (state o') o'
        \<or> (\<exists>e. e \<noteq> BSOCKSCLIENT_EVENT_UP \<and> (e = BSOCKSCLIENT_EVENT_ERROR \<or> state o' = STATE_UP)
            \<and> events o' = up_events o' @ [e])
          \<and> (state o' = STATE_UP \<longrightarrow> protocol STATE_UP o'))"

lemma not_failed_events:
  "sinv auths dest s \<Longrightarrow> \<not> failed s \<Longrightarrow> events s = up_events s \<and> protocol (state s) s"
  by (auto simp: sinv_def failed_def) (metis socks_event.exhaust)+

lemma fail_inv:
  "resources s \<Longrightarrow> events s = up_events s \<Longrightarrow> e \<noteq> BSOCKSCLIENT_EVENT_UP \<Longrightarrow>
   e = BSOCKSCLIENT_EVENT_ERROR \<or> state s = STATE_UP \<Longrightarrow> state s \<noteq> STATE_UP \<or> protocol STATE_UP s \<Longrightarrow>
   auth_infos s = auths \<Longrightarrow> dest_addr s = dest \<Longrightarrow> sinv auths dest (report_error e s)"
  by (auto simp: sinv_def report_error_def resources_def up_events_def idle_def)

lemma sinv_connector:
  assumes "sinv auths dest s" and "\<not> failed s" and "state s = STATE_CONNECTING" and "malloc_ok mem"
  shows "sinv auths dest (connector_handler is_error con_ok mem s)"
proof -
  note p = not_failed_events [OF assms(1,2)]
  have r: "resources s" "auth_infos s = auths" "dest_addr s = dest" using assms(1) by (auto simp: sinv_def)
  show ?thesis
    using r p assms(3,4) unfolding resources_def
    apply (subst connector_handler_eq)
         apply (auto simp: resources_def up_events_def intro!: fail_inv)
    apply (auto simp: sinv_def resources_def up_events_def sending_msg_def)
    done
qed

lemma sinv_connection:
  assumes "sinv auths dest s" and "\<not> failed s" and "con_live s"
  shows "sinv auths dest (connection_handler event s)"
proof -
  note p = not_failed_events [OF assms(1,2)]
  have r: "resources s" "auth_infos s = auths" "dest_addr s = dest" using assms(1) by (auto simp: sinv_def)
  show ?thesis
    using r p assms(3) by (auto simp: connection_handler_def Let_def resources_def intro!: fail_inv)
qed


lemma start_receive_eq:
  "0 < tot \<Longrightarrow> control_io o' \<Longrightarrow> receiving o' = None \<Longrightarrow> start_receive dest tot o'
    = o'\<lparr>recv_dest := dest, recv_len := 0, recv_total := tot, receiving := Some (dest, tot)\<rparr>"
  by (simp add: start_receive_def do_receive_def)

definition await_reply :: "nat \<Rightarrow> nat \<Rightarrow> socks_state \<Rightarrow> bytes \<Rightarrow> BSocksClient \<Rightarrow> BSocksClient" where
  "await_reply dest tot st m o' = o'\<lparr>buffer := Some m, recv_dest := dest, recv_len := 0, recv_total := tot,
     receiving := Some (dest, tot), state := st\<rparr>"

lemma send_handler_done_eq:
  assumes "malloc_ok mem" and "idle o'" and "control_io o'" and "buffer o' \<noteq> None"
  shows "state o' = STATE_SENDING_HELLO \<Longrightarrow> send_handler_done mem o' =
      (case mem 2 of None \<Rightarrow> report_error BSOCKSCLIENT_EVENT_ERROR o' | Some m \<Rightarrow> await_reply 0 2 STATE_SENT_HELLO m o')"
    and "state o' = STATE_SENDING_PASSWORD \<Longrightarrow> send_handler_done mem o' =
      (case mem 2 of None \<Rightarrow> report_error BSOCKSCLIENT_EVENT_ERROR o' | Some m \<Rightarrow> await_reply 0 2 STATE_SENT_PASSWORD m o')"
    and "state o' = STATE_SENDING_REQUEST \<Longrightarrow> send_handler_done mem o' =
      (case mem 22 of None \<Rightarrow> report_error BSOCKSCLIENT_EVENT_ERROR o' | Some m \<Rightarrow> await_reply 0 4 STATE_SENT_REQUEST m o')"
  using assms
  by (auto simp: send_handler_done_def reserve_idle bsize_fromsize_def bsize_add_def bsize_max_def start_receive_eq
      await_reply_def idle_def split: option.split)

lemma complete_send_simps [simp]:
  "sending (complete_send s) = None" "receiving (complete_send s) = receiving s"
  "buffer (complete_send s) = buffer s" "state (complete_send s) = state s"
  "control_io (complete_send s) = control_io s" "auth_infos (complete_send s) = auth_infos s"
  "dest_addr (complete_send s) = dest_addr s" "events (complete_send s) = events s"
  "received (complete_send s) = received s" "resources (complete_send s) = resources s"
  "up_events (complete_send s) = up_events s" "sfault (complete_send s) = sfault s"
  "connector_live (complete_send s) = connector_live s" "con_live (complete_send s) = con_live s"
  "up_io (complete_send s) = up_io s"
  "sent (complete_send s) = sent s @ take (the (sending s)) (the (buffer s))"
  by (simp_all add: complete_send_def resources_def up_events_def)

lemma sinv_intro:
  "auth_infos s = auths \<Longrightarrow> dest_addr s = dest \<Longrightarrow> resources s \<Longrightarrow> events s = up_events s \<Longrightarrow> protocol (state s) s \<Longrightarrow>
   sinv auths dest s"
  by (simp add: sinv_def)

lemma sending_states:
  "resources s \<Longrightarrow> protocol (state s) s \<Longrightarrow> sending s \<noteq> None \<Longrightarrow>
   receiving s = None \<and> buffer s \<noteq> None \<and> control_io s \<and>
   state s \<in> {STATE_SENDING_HELLO, STATE_SENDING_PASSWORD, STATE_SENDING_REQUEST}"
  by (cases "state s") (auto simp: sending_msg_def receiving_msg_def resources_def idle_def)

lemma sinv_send_done:
  assumes "sinv auths dest s" and "\<not> failed s" and "sending s \<noteq> None" and "malloc_ok mem"
  shows "sinv auths dest (send_handler_done mem (complete_send s))"
proof -
  let ?c = "complete_send s"
  from not_failed_events [OF assms(1,2)] have e: "events s = up_events s" and p: "protocol (state s) s" by auto
  have r: "resources s" "auth_infos s = auths" "dest_addr s = dest" using assms(1) by (auto simp: sinv_def)
  note st = sending_states [OF r(1) p assms(3)]
  then have i: "idle ?c" "control_io ?c" "buffer ?c \<noteq> None" by (auto simp: idle_def)
  note eq = send_handler_done_eq [OF assms(4) i]
  have len: "mem n = Some m \<Longrightarrow> length m = n" for n m using assms(4) by (simp add: malloc_ok_def)
  have fail: "sinv auths dest (report_error BSOCKSCLIENT_EVENT_ERROR ?c)"
    using r e st by (intro fail_inv) auto
  have await: "sinv auths dest (await_reply d t st' m ?c)"
    if "protocol st' (await_reply d t st' m ?c)" "st' \<noteq> STATE_CONNECTING" "st' \<noteq> STATE_UP" for d t st' m
    using that r e st by (intro sinv_intro) (auto simp: await_reply_def resources_def up_events_def)
  from st consider "state s = STATE_SENDING_HELLO" | "state s = STATE_SENDING_PASSWORD" | "state s = STATE_SENDING_REQUEST"
    by blast
  then show ?thesis
  proof cases
    case 1
    then show ?thesis using p fail len
      by (auto simp: eq split: option.split intro!: await)
        (auto simp: await_reply_def receiving_msg_def sending_msg_def got_def)
  next
    case 2
    then show ?thesis using p fail len
      by (auto simp: eq split: option.split intro!: await)
        (auto simp: await_reply_def receiving_msg_def sending_msg_def got_def)
  next
    case 3
    then show ?thesis using p fail len
      by (auto simp: eq split: option.split intro!: await)
        (auto simp: await_reply_def receiving_msg_def sending_msg_def got_def)
  qed
qed


text \<open>Completing a receive extends what was got so far.\<close>

lemma receiving_states:
  "resources s \<Longrightarrow> protocol (state s) s \<Longrightarrow> receiving s \<noteq> None \<Longrightarrow> control_io s \<and> (\<exists>cap dest tot. receiving_msg cap dest tot s) \<and>
   state s \<in> {STATE_SENT_HELLO, STATE_SENT_PASSWORD, STATE_SENT_REQUEST, STATE_RECEIVED_REPLY_HEADER}"
  by (cases "state s") (auto simp: sending_msg_def resources_def idle_def)

definition after_recv :: "bytes \<Rightarrow> BSocksClient \<Rightarrow> BSocksClient" where
  "after_recv data s = (complete_recv data s)\<lparr>recv_len := recv_len s + length data\<rparr>"

lemma after_recv_simps:
  assumes "receiving_msg cap dest tot s" and "length data \<le> tot - recv_len s"
  shows "sending (after_recv data s) = None" "receiving (after_recv data s) = None"
    "\<exists>m. buffer (after_recv data s) = Some m \<and> length m = cap"
    "state (after_recv data s) = state s"
    "control_io (after_recv data s) = control_io s" "auth_infos (after_recv data s) = auth_infos s"
    "dest_addr (after_recv data s) = dest_addr s" "events (after_recv data s) = events s"
    "sent (after_recv data s) = sent s" "resources (after_recv data s) = resources s"
    "up_events (after_recv data s) = up_events s" "sfault (after_recv data s) = sfault s"
    "connector_live (after_recv data s) = connector_live s" "con_live (after_recv data s) = con_live s"
    "up_io (after_recv data s) = up_io s" "received (after_recv data s) = received s @ data"
    "recv_dest (after_recv data s) = dest" "recv_total (after_recv data s) = tot"
    "recv_len (after_recv data s) = recv_len s + length data"
    "got (after_recv data s) = got s @ data"
    "got (after_recv data s) = bslice dest (recv_len s + length data) (the (buffer (after_recv data s)))"
  using assms
  by (auto simp: after_recv_def complete_recv_def receiving_msg_def resources_def up_events_def got_def bslice_blit_extend)

lemma recv_handler_done_eq:
  assumes "receiving_msg cap dest tot s" and "length data \<le> tot - recv_len s" and "control_io s"
  shows "recv_handler_done mem (length data) (complete_recv data s) =
    (if recv_len s + length data < tot
     then (after_recv data s)\<lparr>receiving := Some (dest + (recv_len s + length data), tot - (recv_len s + length data))\<rparr>
     else case state s of
          STATE_SENT_HELLO \<Rightarrow> received_hello mem (after_recv data s)
        | STATE_SENT_REQUEST \<Rightarrow> received_reply_header (after_recv data s)
        | STATE_SENT_PASSWORD \<Rightarrow> received_password_reply mem (after_recv data s)
        | STATE_RECEIVED_REPLY_HEADER \<Rightarrow> received_reply_rest (after_recv data s)
        | _ \<Rightarrow> S_ASSERT False (after_recv data s))"
proof -
  have c: "recv_total (complete_recv data s) = tot" "recv_len (complete_recv data s) = recv_len s"
    "state (complete_recv data s) = state s"
    using assms(1) by (auto simp: complete_recv_def receiving_msg_def S_ASSERT_def split: option.split)
  have a: "(complete_recv data s)\<lparr>recv_len := recv_len s + length data\<rparr> = after_recv data s"
    by (simp add: after_recv_def)
  show ?thesis
    unfolding recv_handler_done_def Let_def c S_ASSERT_True [OF assms(2)] a
    using assms after_recv_simps [OF assms(1,2)] by (simp add: do_receive_def)
qed


text \<open>What each completed message leads to.\<close>

lemma find_auth_none: "find (\<lambda>ai. auth_type ai = x) auths = Some Auth_None \<Longrightarrow> x = 0 \<and> Auth_None \<in> set auths"
  by (induction auths) (auto split: if_splits)

lemma find_auth_password: "find (\<lambda>ai. auth_type ai = x) auths = Some (Auth_Password u p) \<Longrightarrow> x = 2"
  by (induction auths) (auto split: if_splits)

lemma two_bytes: "length m = 2 \<Longrightarrow> m = [m ! 0, m ! 1]"
  by (cases m; cases "tl m") auto

lemma sinv_auth_finished:
  assumes "resources s" and "auth_infos s = auths" and "dest_addr s = dest" and "events s = []" and "idle s"
    and "control_io s" and "malloc_ok mem" and "auth_exchange auths a r"
    and "sent s = hello_msg auths @ a" and "received s = r"
  shows "sinv auths dest (auth_finished mem s)"
proof -
  have eq: "auth_finished mem s = (if mem (length (request_msg (dest_addr s))) = None then report_error BSOCKSCLIENT_EVENT_ERROR s
     else s\<lparr>buffer := Some (request_msg (dest_addr s)),
        sending := Some (length (request_msg (dest_addr s))), state := STATE_SENDING_REQUEST\<rparr>)"
    using assms by (intro auth_finished_eq) (auto simp: resources_def)
  have up: "state s \<noteq> STATE_UP" "con_live s" "\<not> up_io s" using assms(1,6) by (auto simp: resources_def)
  have "sinv auths dest (report_error BSOCKSCLIENT_EVENT_ERROR s)"
    using assms up by (intro fail_inv) (auto simp: up_events_def)
  then show ?thesis
    using assms up unfolding eq
    by (auto simp: up_events_def resources_def sending_msg_def idle_def sinv_def [of _ _ "_\<lparr>state := _\<rparr>"])
qed

lemma sinv_received_hello:
  assumes "resources s" and "auth_infos s = auths" and "dest_addr s = dest" and "events s = []" and "idle s"
    and "control_io s" and "malloc_ok mem" and "buffer s = Some m" and "length m = 2"
    and "sent s = hello_msg auths" and "received s = m"
  shows "sinv auths dest (received_hello mem s)"
proof -
  have up: "state s \<noteq> STATE_UP" using assms(1,6) by (auto simp: resources_def)
  have fail: "sinv auths dest (report_error BSOCKSCLIENT_EVENT_ERROR s)"
    using assms up by (intro fail_inv) (auto simp: up_events_def)
  show ?thesis
  proof (cases "m ! 0 = SOCKS_VERSION")
    case False
    then show ?thesis using fail assms by (simp add: received_hello_def)
  next
    case ver: True
    show ?thesis
    proof (cases "find (\<lambda>ai. auth_type ai = m ! 1) auths")
      case None
      then show ?thesis using fail assms by (simp add: received_hello_def)
    next
      case (Some ai)
      note m = two_bytes [OF assms(9)]
      show ?thesis
      proof (cases ai)
        case Auth_None
        with Some find_auth_none [of "m ! 1" auths] have "m ! 1 = 0" "Auth_None \<in> set auths" by auto
        moreover from this m ver have "m = [SOCKS_VERSION, 0]" by simp
        ultimately have "sinv auths dest (auth_finished mem s)"
          using assms by (intro sinv_auth_finished [where a = "[]" and r = m]) (auto intro: no_auth)
        then show ?thesis using Some Auth_None ver assms by (simp add: received_hello_def)
      next
        case (Auth_Password u p)
        with Some find_auth_password [of "m ! 1" auths] have x: "m ! 1 = 2" by auto
        with m ver have mm: "m = [SOCKS_VERSION, 2]" by simp
        have "sinv auths dest (send_password u p mem s)"
        proof (cases "length u \<in> {1..255} \<and> length p \<in> {1..255} \<and> mem (length (password_msg u p)) \<noteq> None")
          case True
          then have "offers_password auths (password_msg u p)"
            using Some Auth_Password x unfolding offers_password_def by (intro exI [of _ u] exI [of _ p]) simp
          with True assms(1-7,10,11) mm up show ?thesis
            by (simp add: send_password_eq sinv_def up_events_def resources_def sending_msg_def idle_def)
        next
          case False
          with assms(5-7) fail show ?thesis by (simp only: send_password_eq if_False)
        qed
        then show ?thesis using Some Auth_Password ver assms by (simp add: received_hello_def)
      qed
    qed
  qed
qed

lemma sinv_received_password_reply:
  assumes "resources s" and "auth_infos s = auths" and "dest_addr s = dest" and "events s = []" and "idle s"
    and "control_io s" and "malloc_ok mem" and "buffer s = Some m" and "length m = 2"
    and "sent s = hello_msg auths @ msg" and "received s = [SOCKS_VERSION, 2] @ m" and "offers_password auths msg"
  shows "sinv auths dest (received_password_reply mem s)"
proof -
  have up: "state s \<noteq> STATE_UP" using assms(1,6) by (auto simp: resources_def)
  have fail: "sinv auths dest (report_error BSOCKSCLIENT_EVENT_ERROR s)"
    using assms up by (intro fail_inv) (auto simp: up_events_def)
  have "sinv auths dest (auth_finished mem s)" if "m ! 0 = 1" "m ! 1 = 0"
  proof (rule sinv_auth_finished [where a = msg and r = "[SOCKS_VERSION, 2] @ m"])
    have "m = [1, 0]" using two_bytes [OF assms(9)] that by simp
    then show "auth_exchange auths msg ([SOCKS_VERSION, 2] @ m)"
      using assms(12) by (auto simp: offers_password_def intro: with_password)
  qed (use assms in auto)
  with fail show ?thesis using assms by (simp add: received_password_reply_def)
qed

lemma sinv_received_reply_header:
  assumes "resources s" and "auth_infos s = auths" and "dest_addr s = dest" and "events s = []" and "idle s"
    and "control_io s" and "buffer s = Some m" and "length m = 22" and "auth_exchange auths a r"
    and "sent s = hello_msg auths @ a @ request_msg dest" and "received s = r @ bslice 0 4 m"
  shows "sinv auths dest (received_reply_header s)"
proof -
  have up: "state s \<noteq> STATE_UP" "con_live s" "\<not> up_io s" using assms(1,6) by (auto simp: resources_def)
  have fail: "sinv auths dest (report_error BSOCKSCLIENT_EVENT_ERROR s)"
    using assms up by (intro fail_inv) (auto simp: up_events_def)
  have hdr: "bslice 0 4 m = [m ! 0, m ! 1, m ! 2, m ! 3]"
    using assms(8) by (auto simp: bslice_def list_eq_iff_nth_eq less_Suc_eq numeral_eq_Suc)
  have "sinv auths dest ((start_receive 4 (addr_len (m ! 3)) s)\<lparr>state := STATE_RECEIVED_REPLY_HEADER\<rparr>)"
    if v: "m ! 0 = SOCKS_VERSION" "m ! 1 = SOCKS_REP_SUCCEEDED" "m ! 3 \<in> {SOCKS_ATYP_IPV4, SOCKS_ATYP_IPV6}"
  proof -
    have "0 < addr_len (m ! 3)" "4 + addr_len (m ! 3) \<le> 22" by (auto simp: addr_len_def)
    moreover have "received s = r @ [SOCKS_VERSION, SOCKS_REP_SUCCEEDED, m ! 2, m ! 3]"
      using v hdr assms(11) by simp
    ultimately show ?thesis
      using assms(1-10) up v(3)
      by (simp add: start_receive_eq idle_def sinv_def resources_def up_events_def receiving_msg_def got_def)
  qed
  with fail show ?thesis using assms(7) by (auto simp: received_reply_header_def addr_len_def)
qed


lemma sinv_received_reply_rest:
  assumes "resources s" and "auth_infos s = auths" and "dest_addr s = dest" and "events s = []" and "control_io s"
    and "auth_exchange auths a r" and "atyp \<in> {SOCKS_ATYP_IPV4, SOCKS_ATYP_IPV6}" and "length addr = addr_len atyp"
    and "sent s = hello_msg auths @ a @ request_msg dest"
    and "received s = r @ [SOCKS_VERSION, SOCKS_REP_SUCCEEDED, rsv, atyp] @ addr"
  shows "sinv auths dest (received_reply_rest s)"
proof -
  have up: "state s \<noteq> STATE_UP" "con_live s" "\<not> up_io s" using assms(1,5) by (auto simp: resources_def)
  have p: "protocol STATE_UP (received_reply_rest s)"
    unfolding protocol.simps
    by (intro conjI exI [of _ a] exI [of _ r] exI [of _ rsv] exI [of _ atyp] exI [of _ addr])
      (use assms up in \<open>simp_all add: received_reply_rest_def Let_def free_control_io_def init_up_io_def idle_def\<close>)
  have st: "state (received_reply_rest s) = STATE_UP" by (simp add: received_reply_rest_def Let_def)
  show ?thesis
    using assms(1-5) up st
    by (intro sinv_intro, simp_all add: p del: protocol.simps)
      (simp_all add: received_reply_rest_def Let_def free_control_io_def init_up_io_def resources_def up_events_def)
qed

lemma protocol_headerE:
  assumes "protocol STATE_RECEIVED_REPLY_HEADER s"
  obtains a r rsv atyp where "auth_exchange (auth_infos s) a r" "atyp \<in> {SOCKS_ATYP_IPV4, SOCKS_ATYP_IPV6}"
    "receiving_msg 22 4 (addr_len atyp) s" "sent s = hello_msg (auth_infos s) @ a @ request_msg (dest_addr s)"
    "received s = r @ [SOCKS_VERSION, SOCKS_REP_SUCCEEDED, rsv, atyp] @ got s"
  using assms by (simp only: protocol.simps) (elim exE conjE, rule that)

lemma receiving_msg_unique:
  "receiving_msg cap d tot s \<Longrightarrow> receiving_msg cap' d' tot' s \<Longrightarrow> cap' = cap \<and> d' = d \<and> tot' = tot"
  by (auto simp: receiving_msg_def)

lemma protocol_more:
  assumes p: "protocol st s" and st: "st \<in> {STATE_SENT_HELLO, STATE_SENT_PASSWORD, STATE_SENT_REQUEST, STATE_RECEIVED_REPLY_HEADER}"
    and keep: "\<And>cap d tot. receiving_msg cap d tot s \<Longrightarrow> receiving_msg cap d tot b"
    and more: "got b = got s @ data" "received b = received s @ data"
    and same: "sent b = sent s" "auth_infos b = auth_infos s" "dest_addr b = dest_addr s"
  shows "protocol st b"
proof -
  from st consider "st = STATE_SENT_HELLO" | "st = STATE_SENT_PASSWORD" | "st = STATE_SENT_REQUEST"
      | "st = STATE_RECEIVED_REPLY_HEADER" by blast
  then show ?thesis
  proof cases
    case 4
    from p [unfolded 4] obtain a r rsv atyp where "auth_exchange (auth_infos s) a r" "atyp \<in> {SOCKS_ATYP_IPV4, SOCKS_ATYP_IPV6}"
      "receiving_msg 22 4 (addr_len atyp) s" "sent s = hello_msg (auth_infos s) @ a @ request_msg (dest_addr s)"
      "received s = r @ [SOCKS_VERSION, SOCKS_REP_SUCCEEDED, rsv, atyp] @ got s"
      by (rule protocol_headerE)
    then show ?thesis unfolding 4 protocol.simps same more
      by (intro exI [of _ a] exI [of _ r] exI [of _ rsv] exI [of _ atyp]) (auto intro: keep)
  qed (use p in \<open>auto simp: same more intro: keep\<close>)
qed

lemma sinv_recv_done:
  assumes inv: "sinv auths dest s" and nf: "\<not> failed s" and rcv: "receiving s = Some (off, n)"
    and data: "data \<noteq> []" "length data \<le> n" and mem: "malloc_ok mem"
  shows "sinv auths dest (recv_handler_done mem (length data) (complete_recv data s))"
proof -
  from not_failed_events [OF inv nf] have e: "events s = up_events s" and p: "protocol (state s) s" by auto
  have r: "resources s" "auth_infos s = auths" "dest_addr s = dest" using inv by (auto simp: sinv_def)
  from receiving_states [OF r(1) p] rcv obtain cap d tot where c: "control_io s" and m: "receiving_msg cap d tot s"
    and st: "state s \<in> {STATE_SENT_HELLO, STATE_SENT_PASSWORD, STATE_SENT_REQUEST, STATE_RECEIVED_REPLY_HEADER}"
    by auto
  from m rcv data have l: "length data \<le> tot - recv_len s" by (auto simp: receiving_msg_def)
  let ?a = "after_recv data s"
  note a = after_recv_simps [OF m l]
  note eq = recv_handler_done_eq [OF m l c]
  have ev: "events s = []" using e st by (auto simp: up_events_def)
  have i: "idle ?a" "events ?a = []" "control_io ?a" "resources ?a" "auth_infos ?a = auths" "dest_addr ?a = dest"
    using a r c ev by (auto simp: idle_def)
  show ?thesis
  proof (cases "recv_len s + length data < tot")
    case True
    let ?b = "?a\<lparr>receiving := Some (d + (recv_len s + length data), tot - (recv_len s + length data))\<rparr>"
    have keep: "receiving_msg cap' d' tot' s \<Longrightarrow> receiving_msg cap' d' tot' ?b" for cap' d' tot'
      using a m True unfolding receiving_msg_def by auto
    have "got ?b = got s @ data" using a(20) by (simp add: got_def)
    then have "protocol (state s) ?b"
      using a by (intro protocol_more [OF p st keep]) simp_all
    then have "protocol (state ?b) ?b" using a(4) by simp
    moreover have "resources ?b" using i(4) by (simp add: resources_def)
    moreover have "up_events ?b = []" using a st by (auto simp: up_events_def)
    ultimately have "sinv auths dest ?b"
      using i(2,5,6) by (intro sinv_intro) simp_all
    then show ?thesis using True by (simp add: eq)
  next
    case False
    then have full: "recv_len s + length data = tot" using l m by (auto simp: receiving_msg_def)
    obtain mm where mm: "buffer ?a = Some mm" "length mm = cap" using a(3) by blast
    have g: "got s @ data = bslice d tot mm" using a(20,21) full mm by simp
    from st consider "state s = STATE_SENT_HELLO" | "state s = STATE_SENT_PASSWORD" | "state s = STATE_SENT_REQUEST"
      | "state s = STATE_RECEIVED_REPLY_HEADER" by blast
    then show ?thesis
    proof cases
      case 1
      with p receiving_msg_unique [OF m] have "cap = 2" "d = 0" "tot = 2" by fastforce+
      with g mm have "got s @ data = mm" using bslice_all [of mm] by simp
      then have "sinv auths dest (received_hello mem ?a)"
        using 1 p r i mm a mem \<open>cap = 2\<close> by (intro sinv_received_hello [where m = mm]) auto
      then show ?thesis using False 1 by (simp add: eq)
    next
      case 2
      with p receiving_msg_unique [OF m] have "cap = 2" "d = 0" "tot = 2" by fastforce+
      with g mm have g': "got s @ data = mm" using bslice_all [of mm] by simp
      from 2 p obtain msg where "offers_password (auth_infos s) msg" "sent s = hello_msg (auth_infos s) @ msg"
        "received s = [SOCKS_VERSION, 2] @ got s" by auto
      then have "sinv auths dest (received_password_reply mem ?a)"
        using 2 r i mm a mem \<open>cap = 2\<close> g' by (intro sinv_received_password_reply [where m = mm and msg = msg]) auto
      then show ?thesis using False 2 by (simp add: eq)
    next
      case 3
      with p receiving_msg_unique [OF m] have cap: "cap = 22" "d = 0" "tot = 4" by fastforce+
      from 3 p obtain a' r' where "auth_exchange (auth_infos s) a' r'"
        "sent s = hello_msg (auth_infos s) @ a' @ request_msg (dest_addr s)" "received s = r' @ got s" by auto
      then have "sinv auths dest (received_reply_header ?a)"
        using 3 r i mm a cap g by (intro sinv_received_reply_header [where m = mm and a = a' and r = r']) auto
      then show ?thesis using False 3 by (simp add: eq)
    next
      case 4
      from p [unfolded 4] obtain a' r' rsv atyp where x: "auth_exchange (auth_infos s) a' r'" "atyp \<in> {SOCKS_ATYP_IPV4, SOCKS_ATYP_IPV6}"
        "receiving_msg 22 4 (addr_len atyp) s" "sent s = hello_msg (auth_infos s) @ a' @ request_msg (dest_addr s)"
        "received s = r' @ [SOCKS_VERSION, SOCKS_REP_SUCCEEDED, rsv, atyp] @ got s"
        by (rule protocol_headerE)
      with receiving_msg_unique [OF x(3) m] have cap: "cap = 22" "d = 4" "tot = addr_len atyp" by auto
      then have len: "length (got s @ data) = addr_len atyp" unfolding g using mm by (auto simp: addr_len_def)
      have "sinv auths dest (received_reply_rest ?a)"
        by (rule sinv_received_reply_rest [where a = a' and r = r' and rsv = rsv and atyp = atyp and addr = "got s @ data"])
          (use x r i a len in simp_all)
      then show ?thesis using False 4 by (simp add: eq)
    qed
  qed
qed


lemma sinv_start: "sinit auths dest s \<Longrightarrow> sinv auths dest s"
  by (auto simp: sinit_def BSocksClient_Init_def sinv_def resources_def up_events_def idle_def)

lemma sinv_step: "sinv auths dest s \<Longrightarrow> sstep s t \<Longrightarrow> sinv auths dest t"
  by (erule sstep.cases) (auto intro: sinv_connector sinv_connection sinv_send_done sinv_recv_done)

interpretation socks: invariant_system "sinit auths dest" sstep "sinv auths dest" for auths dest
  by unfold_locales (auto intro: sinv_start sinv_step)

section \<open>A server that follows the protocol\<close>

definition serves :: "auth_info list \<Rightarrow> bytes \<Rightarrow> bool" where
  "serves auths stream \<longleftrightarrow> length auths \<in> {1..255} \<and> (\<exists>a r rsv atyp addr. auth_exchange auths a r
     \<and> atyp \<in> {SOCKS_ATYP_IPV4, SOCKS_ATYP_IPV6} \<and> length addr = addr_len atyp
     \<and> stream = r @ [SOCKS_VERSION, SOCKS_REP_SUCCEEDED, rsv, atyp] @ addr)"

inductive gstep :: "(nat \<Rightarrow> bytes option) \<Rightarrow> bytes \<Rightarrow> BSocksClient \<Rightarrow> BSocksClient \<Rightarrow> bool" for mem stream where
  g_connect: "state s = STATE_CONNECTING \<Longrightarrow> gstep mem stream s (connector_handler False True mem s)"
| g_send: "sending s \<noteq> None \<Longrightarrow> gstep mem stream s (send_handler_done mem (complete_send s))"
| g_recv: "receiving s = Some (off, n) \<Longrightarrow> data \<noteq> [] \<Longrightarrow> length data \<le> n \<Longrightarrow> stream = received s @ data @ rest \<Longrightarrow>
    gstep mem stream s (recv_handler_done mem (length data) (complete_recv data s))"

fun rank :: "socks_state \<Rightarrow> nat" where
  "rank STATE_CONNECTING = 8" | "rank STATE_SENDING_HELLO = 7" | "rank STATE_SENT_HELLO = 6"
| "rank STATE_SENDING_PASSWORD = 5" | "rank STATE_SENT_PASSWORD = 4" | "rank STATE_SENDING_REQUEST = 3"
| "rank STATE_SENT_REQUEST = 2" | "rank STATE_RECEIVED_REPLY_HEADER = 1" | "rank STATE_UP = 0"

definition todo :: "bytes \<Rightarrow> BSocksClient \<Rightarrow> nat" where
  "todo stream s = rank (state s) + (length stream - length (received s))"

definition ginv :: "auth_info list \<Rightarrow> BAddr \<Rightarrow> bytes \<Rightarrow> BSocksClient \<Rightarrow> bool" where
  "ginv auths dest stream s \<longleftrightarrow> sinv auths dest s \<and> \<not> failed s \<and> (\<exists>rest. stream = received s @ rest)"

lemma auth_exchange_second:
  "auth_exchange auths a r \<Longrightarrow> auth_exchange auths a' r' \<Longrightarrow> r @ x = r' @ y \<Longrightarrow> r' = r \<and> x = y"
  by (elim auth_exchange.cases) auto

text \<open>How a received message of a conforming server is taken.\<close>

lemma failed_update [simp]:
  "failed (s\<lparr>buffer := b\<rparr>) = failed s" "failed (s\<lparr>sending := c\<rparr>) = failed s" "failed (s\<lparr>state := st\<rparr>) = failed s"
  "failed (s\<lparr>receiving := d\<rparr>) = failed s" "failed (s\<lparr>recv_dest := e\<rparr>) = failed s" "failed (s\<lparr>recv_len := f\<rparr>) = failed s"
  "failed (s\<lparr>recv_total := f\<rparr>) = failed s" "failed (s\<lparr>con_live := g\<rparr>) = failed s" "failed (s\<lparr>control_io := g\<rparr>) = failed s"
  "failed (s\<lparr>up_io := g\<rparr>) = failed s" "failed (S_ASSERT h s) = failed s" "failed (complete_send s) = failed s"
  by (simp_all add: failed_def S_ASSERT_def complete_send_def)

lemma failed_after_recv: "receiving_msg cap d tot s \<Longrightarrow> length data \<le> tot - recv_len s \<Longrightarrow> failed (after_recv data s) = failed s"
  using after_recv_simps(8) by (simp add: failed_def)

lemma find_Auth_None: "Auth_None \<in> set auths \<Longrightarrow> find (\<lambda>ai. auth_type ai = 0) auths = Some Auth_None"
proof (induction auths)
  case (Cons ai auths)
  then show ?case by (cases ai) auto
qed simp

lemma good_auth_finished:
  assumes "malloc_ok mem" and "\<And>n. mem n \<noteq> None" and "idle s" and "control_io s" and "dest_ok (dest_addr s)"
  shows "state (auth_finished mem s) = STATE_SENDING_REQUEST" "failed (auth_finished mem s) = failed s"
    "received (auth_finished mem s) = received s"
  using auth_finished_eq [OF assms(1,3-5)] assms(2) by simp_all

lemma good_hello:
  assumes "malloc_ok mem" and "\<And>n. mem n \<noteq> None" and "idle s" and "control_io s" and "dest_ok (dest_addr s)"
    and "buffer s = Some m" and "length m = 2" and "auth_exchange (auth_infos s) a r" and "m @ y = r @ z"
  shows "state (received_hello mem s) \<in> {STATE_SENDING_REQUEST, STATE_SENDING_PASSWORD}
    \<and> failed (received_hello mem s) = failed s \<and> received (received_hello mem s) = received s"
proof -
  obtain b c where bc: "m = [b, c]" using two_bytes [OF assms(7)] by blast
  from assms(8) show ?thesis
  proof cases
  case no_auth
  then have "m = [SOCKS_VERSION, 0]" using assms(9) bc by simp
  then have "received_hello mem s = auth_finished mem s"
    using find_Auth_None no_auth assms(6) by (simp add: received_hello_def)
  then show ?thesis using good_auth_finished [OF assms(1-5)] by simp
next
  case (with_password u p)
  then have "m = [SOCKS_VERSION, 2]" using assms(9) bc by simp
  then have "received_hello mem s = send_password u p mem s"
    using with_password assms(6) by (simp add: received_hello_def)
  then show ?thesis using send_password_eq [OF assms(1,3,4), of u p] with_password assms(2) by simp
qed
qed

lemma good_password_reply:
  assumes "malloc_ok mem" and "\<And>n. mem n \<noteq> None" and "idle s" and "control_io s" and "dest_ok (dest_addr s)"
    and "buffer s = Some m" and "length m = 2" and "auth_exchange (auth_infos s) a r" and "[SOCKS_VERSION, 2] @ m @ y = r @ z"
  shows "state (received_password_reply mem s) = STATE_SENDING_REQUEST
    \<and> failed (received_password_reply mem s) = failed s \<and> received (received_password_reply mem s) = received s"
proof -
  obtain b c where bc: "m = [b, c]" using two_bytes [OF assms(7)] by blast
  from assms(8) show ?thesis
  proof cases
  case no_auth
  then show ?thesis using assms(9) by simp
next
  case (with_password u p)
  then have "m = [1, 0]" using assms(9) bc by simp
  then have "received_password_reply mem s = auth_finished mem s"
    using assms(6) by (simp add: received_password_reply_def)
  then show ?thesis using good_auth_finished [OF assms(1-5)] by simp
qed
qed


lemma good_reply_header:
  assumes "idle s" and "control_io s" and "buffer s = Some m" and "length m = 22"
    and "bslice 0 4 m = [SOCKS_VERSION, SOCKS_REP_SUCCEEDED, rsv, atyp]" and "atyp \<in> {SOCKS_ATYP_IPV4, SOCKS_ATYP_IPV6}"
  shows "state (received_reply_header s) = STATE_RECEIVED_REPLY_HEADER
    \<and> failed (received_reply_header s) = failed s \<and> received (received_reply_header s) = received s"
proof -
  have "m ! 0 = SOCKS_VERSION" "m ! 1 = SOCKS_REP_SUCCEEDED" "m ! 3 = atyp"
    using arg_cong [OF assms(5), of "\<lambda>l. l ! 0"] arg_cong [OF assms(5), of "\<lambda>l. l ! 1"]
      arg_cong [OF assms(5), of "\<lambda>l. l ! 3"] assms(4) by (simp_all add: bslice_def)
  then show ?thesis using assms by (auto simp: received_reply_header_def start_receive_eq idle_def)
qed

lemma good_recv:
  assumes g: "ginv auths dest stream s" and sv: "serves auths stream"
    and rcv: "receiving s = Some (off, n)" and data: "data \<noteq> []" "length data \<le> n"
    and str: "stream = received s @ data @ rest" and mem: "malloc_ok mem" "\<And>n. mem n \<noteq> None"
  shows "(let t = recv_handler_done mem (length data) (complete_recv data s) in
    \<not> failed t \<and> rank (state t) \<le> rank (state s) \<and> received t = received s @ data)"
proof -
  from g have inv: "sinv auths dest s" and nf: "\<not> failed s" by (auto simp: ginv_def)
  from not_failed_events [OF inv nf] have p: "protocol (state s) s" by auto
  have r: "resources s" "auth_infos s = auths" "dest_addr s = dest" using inv by (auto simp: sinv_def)
  from receiving_states [OF r(1) p] rcv obtain cap d tot where c: "control_io s" and m: "receiving_msg cap d tot s"
    and st: "state s \<in> {STATE_SENT_HELLO, STATE_SENT_PASSWORD, STATE_SENT_REQUEST, STATE_RECEIVED_REPLY_HEADER}"
    by auto
  from m rcv data have l: "length data \<le> tot - recv_len s" by (auto simp: receiving_msg_def)
  let ?a = "after_recv data s"
  note a = after_recv_simps [OF m l] failed_after_recv [OF m l]
  note eq = recv_handler_done_eq [OF m l c]
  from sv obtain aa rr rsv atyp addr where sv': "auth_exchange auths aa rr" "atyp \<in> {SOCKS_ATYP_IPV4, SOCKS_ATYP_IPV6}"
    "stream = rr @ [SOCKS_VERSION, SOCKS_REP_SUCCEEDED, rsv, atyp] @ addr" unfolding serves_def by (elim exE conjE) (rule that)
  have i: "idle ?a" "control_io ?a" "dest_ok (dest_addr ?a)"
    using a r c by (auto simp: idle_def resources_def)
  have ea: "auth_exchange (auth_infos ?a) aa rr" using a(6) r(2) sv'(1) by simp
  show ?thesis
  proof (cases "recv_len s + length data < tot")
    case True
    then show ?thesis using a nf by (simp add: eq Let_def)
  next
    case False
    then have full: "recv_len s + length data = tot" using l m by (auto simp: receiving_msg_def)
    obtain mm where mm: "buffer ?a = Some mm" "length mm = cap" using a(3) by blast
    have gd: "got s @ data = bslice d tot mm" using a(20,21) full mm by simp
    from st consider "state s = STATE_SENT_HELLO" | "state s = STATE_SENT_PASSWORD" | "state s = STATE_SENT_REQUEST"
      | "state s = STATE_RECEIVED_REPLY_HEADER" by blast
    then show ?thesis
    proof cases
      case 1
      with p receiving_msg_unique [OF m] have two: "cap = 2" "d = 0" "tot = 2" by fastforce+
      with gd mm have "got s @ data = mm" using bslice_all [of mm] by simp
      with 1 p str sv'(3) have "mm @ rest = rr @ [SOCKS_VERSION, SOCKS_REP_SUCCEEDED, rsv, atyp] @ addr" by auto
      from good_hello [OF mem i mm(1) _ ea this] mm two show ?thesis
        using False 1 a nf by (auto simp: eq Let_def)
    next
      case 2
      with p receiving_msg_unique [OF m] have two: "cap = 2" "d = 0" "tot = 2" by fastforce+
      with gd mm have "got s @ data = mm" using bslice_all [of mm] by simp
      with 2 p str sv'(3) have "[SOCKS_VERSION, 2] @ mm @ rest = rr @ [SOCKS_VERSION, SOCKS_REP_SUCCEEDED, rsv, atyp] @ addr" by auto
      from good_password_reply [OF mem i mm(1) _ ea this] mm two show ?thesis
        using False 2 a nf by (auto simp: eq Let_def)
    next
      case 3
      with p receiving_msg_unique [OF m] have cap: "cap = 22" "d = 0" "tot = 4" by fastforce+
      from 3 p obtain a' r' where x: "auth_exchange (auth_infos s) a' r'" "received s = r' @ got s" by auto
      with str sv'(3) have "rr @ [SOCKS_VERSION, SOCKS_REP_SUCCEEDED, rsv, atyp] @ addr = r' @ (got s @ data) @ rest" by simp
      with auth_exchange_second [OF sv'(1) x(1) [unfolded r(2)] this]
      have "[SOCKS_VERSION, SOCKS_REP_SUCCEEDED, rsv, atyp] @ addr = bslice 0 4 mm @ rest" using gd cap by simp
      moreover have "length (bslice 0 4 mm) = 4" using mm cap by simp
      ultimately have "bslice 0 4 mm = [SOCKS_VERSION, SOCKS_REP_SUCCEEDED, rsv, atyp]"
        using append_eq_append_conv [of "[SOCKS_VERSION, SOCKS_REP_SUCCEEDED, rsv, atyp]" "bslice 0 4 mm" addr rest] by simp
      from good_reply_header [OF i(1,2) mm(1) _ this sv'(2)] mm cap show ?thesis
        using False 3 a nf by (auto simp: eq Let_def)
    next
      case 4
      have "\<not> failed (received_reply_rest ?a)"
        using a nf by (simp add: received_reply_rest_def Let_def free_control_io_def init_up_io_def failed_def S_ASSERT_def)
      moreover have "received (received_reply_rest ?a) = received ?a" "state (received_reply_rest ?a) = STATE_UP"
        by (simp_all add: received_reply_rest_def Let_def free_control_io_def init_up_io_def S_ASSERT_def)
      ultimately show ?thesis using False 4 a by (simp add: eq Let_def)
    qed
  qed
qed


definition environment :: "auth_info list \<Rightarrow> bytes \<Rightarrow> (nat \<Rightarrow> bytes option) \<Rightarrow> bool" where
  "environment auths stream mem \<longleftrightarrow> serves auths stream \<and> malloc_ok mem \<and> (\<forall>n. mem n \<noteq> None)"

definition good_start :: "auth_info list \<Rightarrow> BAddr \<Rightarrow> bytes \<Rightarrow> (nat \<Rightarrow> bytes option) \<Rightarrow> BSocksClient \<Rightarrow> bool" where
  "good_start auths dest stream mem s \<longleftrightarrow> environment auths stream mem \<and> sinit auths dest s"

definition good_inv :: "auth_info list \<Rightarrow> BAddr \<Rightarrow> bytes \<Rightarrow> (nat \<Rightarrow> bytes option) \<Rightarrow> BSocksClient \<Rightarrow> bool" where
  "good_inv auths dest stream mem s \<longleftrightarrow> environment auths stream mem \<and> ginv auths dest stream s"

lemma good_connect:
  assumes "good_inv auths dest stream mem s" and "state s = STATE_CONNECTING"
  shows "let t = connector_handler False True mem s in
    \<not> failed t \<and> state t = STATE_SENDING_HELLO \<and> received t = received s"
proof -
  from assms have r: "resources s" "auth_infos s = auths" "\<not> failed s" and m: "malloc_ok mem" "\<And>n. mem n \<noteq> None"
    and len: "length auths \<in> {1..255}"
    by (auto simp: good_inv_def ginv_def sinv_def environment_def serves_def)
  from r(1) assms(2) have "\<not> control_io s" "\<not> up_io s" "\<not> con_live s" by (auto simp: resources_def)
  from connector_handler_eq [OF m(1) assms(2) this, of False True] len m(2) r
  show ?thesis by (simp add: Let_def)
qed

lemma good_send:
  assumes "good_inv auths dest stream mem s" and "sending s \<noteq> None"
  shows "let t = send_handler_done mem (complete_send s) in
    \<not> failed t \<and> rank (state t) < rank (state s) \<and> received t = received s"
proof -
  let ?c = "complete_send s"
  from assms(1) have inv: "sinv auths dest s" and nf: "\<not> failed s" and m: "malloc_ok mem" "\<And>n. mem n \<noteq> None"
    by (auto simp: good_inv_def ginv_def environment_def)
  from not_failed_events [OF inv nf] have p: "protocol (state s) s" by auto
  have r: "resources s" using inv by (auto simp: sinv_def)
  note st = sending_states [OF r p assms(2)]
  then have i: "idle ?c" "control_io ?c" "buffer ?c \<noteq> None" by (auto simp: idle_def)
  note eq = send_handler_done_eq [OF m(1) i]
  from m(2) [of 2] m(2) [of 22] obtain x y where "mem 2 = Some x" "mem 22 = Some y" by blast
  with st nf show ?thesis by (auto simp: eq Let_def await_reply_def)
qed

lemma good_step_facts:
  assumes "good_inv auths dest stream mem s" and "gstep mem stream s t"
  shows "sstep s t \<and> \<not> failed t \<and> (\<exists>rest. stream = received t @ rest) \<and> todo stream t < todo stream s"
proof -
  from assms(1) have nf: "\<not> failed s" and g: "ginv auths dest stream s" and sv: "serves auths stream"
    and m: "malloc_ok mem" "\<And>n. mem n \<noteq> None" and pre: "\<exists>rest. stream = received s @ rest"
    by (auto simp: good_inv_def ginv_def environment_def)
  from assms(2) show ?thesis
  proof cases
    case g_connect
    with good_connect [OF assms(1)] nf m(1) pre show ?thesis
      by (auto simp: Let_def todo_def intro: sstep.connector)
  next
    case g_send
    with good_send [OF assms(1)] nf m(1) pre show ?thesis
      by (auto simp: Let_def todo_def intro: sstep.send_done)
  next
    case (g_recv off n data rest)
    from good_recv [OF g sv g_recv(2-5) m] g_recv have "\<not> failed t" "rank (state t) \<le> rank (state s)" "received t = received s @ data"
      by (auto simp: Let_def)
    moreover have "sstep s t" unfolding g_recv(1) using nf m(1) g_recv by (intro sstep.recv_done)
    ultimately show ?thesis using g_recv(3,5) by (cases data) (auto simp: todo_def)
  qed
qed

interpretation good: terminating_system "good_start auths dest stream mem" "gstep mem stream" "good_inv auths dest stream mem"
    "todo stream" for auths dest stream mem
proof unfold_locales
  show "good_start auths dest stream mem s \<Longrightarrow> good_inv auths dest stream mem s" for s
    using sinv_start [of auths dest s]
    by (auto simp: good_start_def good_inv_def ginv_def sinit_def BSocksClient_Init_def failed_def)
  show "good_inv auths dest stream mem t" if "good_inv auths dest stream mem s" "gstep mem stream s t" for s t
    using good_step_facts [OF that] that(1) sinv_step [of auths dest s t] by (auto simp: good_inv_def ginv_def)
  show "todo stream t < todo stream s" if "good_inv auths dest stream mem s" "gstep mem stream s t" for s t
    using good_step_facts [OF that] by simp
qed

text \<open>While a reply is awaited, the server still has bytes of it to send.\<close>

lemma good_more_to_come:
  assumes "good_inv auths dest stream mem s" and "receiving s \<noteq> None"
  shows "length (received s) < length stream"
proof -
  from assms(1) have inv: "sinv auths dest s" and nf: "\<not> failed s" and sv: "serves auths stream"
    by (auto simp: good_inv_def ginv_def environment_def)
  from assms(1) obtain rest where str: "stream = received s @ rest" by (auto simp: good_inv_def ginv_def)
  from not_failed_events [OF inv nf] have p: "protocol (state s) s" by auto
  have r: "resources s" "auth_infos s = auths" using inv by (auto simp: sinv_def)
  from receiving_states [OF r(1) p assms(2)] obtain cap d tot where m: "receiving_msg cap d tot s"
    and st: "state s \<in> {STATE_SENT_HELLO, STATE_SENT_PASSWORD, STATE_SENT_REQUEST, STATE_RECEIVED_REPLY_HEADER}"
    by auto
  have g: "length (got s) < tot" using m by (auto simp: receiving_msg_def got_def)
  from sv obtain aa rr rsv atyp addr where sv': "auth_exchange auths aa rr" "length addr = addr_len atyp"
    "stream = rr @ [SOCKS_VERSION, SOCKS_REP_SUCCEEDED, rsv, atyp] @ addr" unfolding serves_def by (elim exE conjE) (rule that)
  from st consider "state s = STATE_SENT_HELLO" | "state s = STATE_SENT_PASSWORD" | "state s = STATE_SENT_REQUEST"
      | "state s = STATE_RECEIVED_REPLY_HEADER" by blast
  then show ?thesis
  proof cases
    case 1
    with p receiving_msg_unique [OF m] have "tot = 2" "received s = got s" by fastforce+
    with g sv'(3) show ?thesis by simp
  next
    case 2
    with p receiving_msg_unique [OF m] have x: "tot = 2" "received s = [SOCKS_VERSION, 2] @ got s" by fastforce+
    from sv'(1) show ?thesis
    proof cases
      case no_auth
      then show ?thesis using str sv'(3) x by simp
    qed (use g sv'(3) x in simp)
  next
    case 3
    from 3 p obtain a' r' where x: "auth_exchange auths a' r'" "received s = r' @ got s" "receiving_msg 22 0 4 s" using r(2) by auto
    have "r' = rr" using auth_exchange_second [OF sv'(1) x(1)] str sv'(3) x(2) by simp
    with g receiving_msg_unique [OF m x(3)] x(2) sv'(3) show ?thesis by simp
  next
    case 4
    from p [unfolded 4] obtain a' r' rsv' atyp' where x: "auth_exchange (auth_infos s) a' r'"
      "receiving_msg 22 4 (addr_len atyp') s" "received s = r' @ [SOCKS_VERSION, SOCKS_REP_SUCCEEDED, rsv', atyp'] @ got s"
      by (rule protocol_headerE)
    have "rr @ [SOCKS_VERSION, SOCKS_REP_SUCCEEDED, rsv, atyp] @ addr
      = r' @ [SOCKS_VERSION, SOCKS_REP_SUCCEEDED, rsv', atyp'] @ got s @ rest"
      using str sv'(3) x(3) by simp
    with auth_exchange_second [OF sv'(1) x(1) [unfolded r(2)] this] have "r' = rr" "atyp' = atyp" by auto
    with g receiving_msg_unique [OF m x(2)] x(3) sv'(2,3) show ?thesis by simp
  qed
qed

lemma good_stuck_up:
  assumes g: "good_inv auths dest stream mem s" and stuck: "\<forall>t. \<not> gstep mem stream s t"
  shows "state s = STATE_UP"
proof (rule ccontr)
  assume up: "state s \<noteq> STATE_UP"
  from g have inv: "sinv auths dest s" and nf: "\<not> failed s" by (auto simp: good_inv_def ginv_def)
  from not_failed_events [OF inv nf] have p: "protocol (state s) s" by auto
  have "state s \<noteq> STATE_CONNECTING" using stuck g_connect by blast
  moreover have "sending s = None" using stuck g_send by blast
  ultimately obtain off n where rcv: "receiving s = Some (off, n)" and n: "0 < n"
    using p up by (cases "state s") (auto simp: sending_msg_def receiving_msg_def)
  from g obtain rest where "stream = received s @ rest" by (auto simp: good_inv_def ginv_def)
  moreover from this good_more_to_come [OF g] rcv obtain b rest' where "rest = b # rest'" by (cases rest) auto
  ultimately have "stream = received s @ [b] @ rest'" by simp
  from g_recv [OF rcv _ _ this, of mem] stuck n show False by simp
qed


lemma good_up_received:
  assumes g: "good_inv auths dest stream mem s" and up: "state s = STATE_UP"
  shows "received s = stream \<and> events s = [BSOCKSCLIENT_EVENT_UP]"
proof -
  from g have inv: "sinv auths dest s" and nf: "\<not> failed s" and sv: "serves auths stream"
    by (auto simp: good_inv_def ginv_def environment_def)
  from not_failed_events [OF inv nf] up have p: "protocol STATE_UP s" and e: "events s = [BSOCKSCLIENT_EVENT_UP]"
    by (auto simp: up_events_def)
  have r: "auth_infos s = auths" using inv by (auto simp: sinv_def)
  from p obtain a' r' rsv' atyp' addr' where x: "auth_exchange auths a' r'" "length addr' = addr_len atyp'"
    "received s = r' @ [SOCKS_VERSION, SOCKS_REP_SUCCEEDED, rsv', atyp'] @ addr'"
    unfolding protocol.simps r by (elim exE conjE) (rule that)
  from sv obtain aa rr rsv atyp addr where y: "auth_exchange auths aa rr" "length addr = addr_len atyp"
    "stream = rr @ [SOCKS_VERSION, SOCKS_REP_SUCCEEDED, rsv, atyp] @ addr" unfolding serves_def by (elim exE conjE) (rule that)
  from g obtain rest where "stream = received s @ rest" by (auto simp: good_inv_def ginv_def)
  with x(3) y(3) have "rr @ [SOCKS_VERSION, SOCKS_REP_SUCCEEDED, rsv, atyp] @ addr
      = r' @ [SOCKS_VERSION, SOCKS_REP_SUCCEEDED, rsv', atyp'] @ addr' @ rest" by simp
  with auth_exchange_second [OF y(1) x(1) this] have "r' = rr" "rsv' = rsv" "atyp' = atyp" "addr = addr' @ rest" by auto
  with x y e show ?thesis by simp
qed

lemma good_reach_sstep:
  assumes "good_start auths dest stream mem s" and "steps_n (gstep mem stream) n s t"
  shows "reach (sinit auths dest) sstep t \<and> good_inv auths dest stream mem t"
  using assms(2,1)
proof (induction rule: steps_n.induct)
  case (steps_0 s)
  then show ?case using good.inv_start by (auto simp: good_start_def intro: reach_start)
next
  case (steps_Suc n s t u)
  then show ?case using good_step_facts [of auths dest stream mem t u] good.inv_step by (blast intro: reach_step)
qed

section \<open>Properties\<close>

text \<open>
  C24. Whatever the server, the network and the allocator do, no assertion of \<open>BSocksClient.c\<close>
  fails, no access leaves the buffer and no second send or receive is started; in every
  reachable state \<open>BSocksClient_Free\<close> releases the connection, its interfaces, the connector
  and the buffer, and releases nothing that is not there.
\<close>

theorem socks_client_never_faults:
  assumes "reach (sinit auths dest) sstep s"
  shows "let t = BSocksClient_Free s in \<not> sfault s \<and> \<not> sfault t \<and> \<not> connector_live t \<and> \<not> con_live t
    \<and> \<not> control_io t \<and> \<not> up_io t \<and> buffer t = None"
proof -
  have "resources s" using socks.reach_inv [OF assms] by (simp add: sinv_def)
  then show ?thesis
    by (auto simp: BSocksClient_Free_def Let_def resources_def free_up_io_def free_control_io_def)
qed

definition example_client :: BSocksClient where
  "example_client = the (BSocksClient_Init True [Auth_None] (BAddr_IPv4 1 2))"

lemma example_start: "sinit [Auth_None] (BAddr_IPv4 1 2) example_client"
  by (simp add: sinit_def example_client_def BSocksClient_Init_def)

lemma malloc_ok_zeros: "malloc_ok (\<lambda>n. Some (replicate n (0::byte)))"
  by (simp add: malloc_ok_def)

lemma example_serves: "serves [Auth_None] [5, 0, 5, 0, 0, 1, 0, 0, 0, 0, 0, 0]"
  unfolding serves_def
  by (intro conjI exI [of _ "[]"] exI [of _ "[5, 0]"] exI [of _ 0] exI [of _ 1] exI [of _ "[0, 0, 0, 0, 0, 0]"])
    (simp_all add: no_auth addr_len_def)

abbreviation (input) example_stream :: bytes where
  "example_stream \<equiv> [5, 0, 5, 0, 0, 1, 0, 0, 0, 0, 0, 0]"

abbreviation (input) example_mem :: "nat \<Rightarrow> bytes option" where
  "example_mem \<equiv> (\<lambda>n. Some (replicate n 0))"

lemma example_good: "good_start [Auth_None] (BAddr_IPv4 1 2) example_stream example_mem example_client"
  using example_start example_serves malloc_ok_zeros by (simp add: good_start_def environment_def)

theorem socks_client_never_faults_witness:
  "let s = connector_handler False True example_mem example_client; t = BSocksClient_Free s in
    state s = STATE_SENDING_HELLO \<and> buffer s = Some [5, 1, 0] \<and> \<not> sfault s \<and> \<not> sfault t \<and> \<not> con_live t \<and> \<not> control_io t
      \<and> buffer t = None"
proof -
  have "sstep example_client (connector_handler False True example_mem example_client)"
    by (rule sstep.connector) (simp_all add: malloc_ok_zeros example_client_def BSocksClient_Init_def failed_def)
  from socks_client_never_faults [OF reach_step [OF reach_start [where init = "sinit [Auth_None] (BAddr_IPv4 1 2)" and step = sstep, OF example_start] this]]
  show ?thesis
    by (simp add: Let_def connector_handler_eq malloc_ok_zeros example_client_def BSocksClient_Init_def hello_msg_def)
qed

text \<open>
  C25. The client reports that it is up only after the whole dialogue: it has sent exactly the
  method list, the password message if the server chose that method, and the request for the
  destination; and it has received exactly the server's choice, a positive password reply, and a
  successful reply with its address. So the first byte left in the connection belongs to the
  relayed stream.
\<close>

theorem socks_up_after_handshake:
  assumes "reach (sinit auths dest) sstep s" and "BSOCKSCLIENT_EVENT_UP \<in> set (events s)"
  shows "\<exists>a r rsv atyp addr. auth_exchange auths a r
    \<and> sent s = hello_msg auths @ a @ request_msg dest
    \<and> received s = r @ [SOCKS_VERSION, SOCKS_REP_SUCCEEDED, rsv, atyp] @ addr
    \<and> (atyp = SOCKS_ATYP_IPV4 \<and> length addr = 6 \<or> atyp = SOCKS_ATYP_IPV6 \<and> length addr = 18)"
proof -
  have inv: "sinv auths dest s" using socks.reach_inv [OF assms(1)] .
  have "state s = STATE_UP"
    using inv assms(2) by (auto simp: sinv_def up_events_def split: if_splits)
  then have "protocol STATE_UP s" and "auth_infos s = auths" and "dest_addr s = dest" using inv by (auto simp: sinv_def)
  then show ?thesis by (fastforce simp: addr_len_def)
qed

lemma example_up:
  "\<exists>n t. steps_n (gstep example_mem example_stream) n example_client t \<and> good_inv [Auth_None] (BAddr_IPv4 1 2) example_stream example_mem t
    \<and> state t = STATE_UP \<and> reach (sinit [Auth_None] (BAddr_IPv4 1 2)) sstep t"
proof -
  from good.run_to_end [OF good.inv_start [OF example_good]] obtain n t
    where t: "steps_n (gstep example_mem example_stream) n example_client t" "\<forall>u. \<not> gstep example_mem example_stream t u" by blast
  with good_reach_sstep [OF example_good t(1)] good_stuck_up show ?thesis by blast
qed

theorem socks_up_after_handshake_witness:
  "\<exists>s. reach (sinit [Auth_None] (BAddr_IPv4 1 2)) sstep s \<and> BSOCKSCLIENT_EVENT_UP \<in> set (events s)
    \<and> (\<exists>a r. auth_exchange [Auth_None] a r \<and> sent s = hello_msg [Auth_None] @ a @ request_msg (BAddr_IPv4 1 2))"
proof -
  from example_up obtain n t where t: "good_inv [Auth_None] (BAddr_IPv4 1 2) example_stream example_mem t"
    "state t = STATE_UP" "reach (sinit [Auth_None] (BAddr_IPv4 1 2)) sstep t" by blast
  from good_up_received [OF t(1,2)] have "BSOCKSCLIENT_EVENT_UP \<in> set (events t)" by simp
  with socks_up_after_handshake [OF t(3)] t(3) show ?thesis by blast
qed

text \<open>
  C26. With a server that follows the protocol and memory available, every run of the client has
  at most \<open>8 + length stream\<close> steps, however the server's bytes are split, and can be continued to
  one that ends up, having reported nothing but that and consumed exactly the server's bytes.
\<close>

theorem socks_conforming_server_up:
  assumes "good_start auths dest stream mem s" and "steps_n (gstep mem stream) n s t"
  shows "n \<le> 8 + length stream \<and> (\<exists>k u. steps_n (gstep mem stream) k t u \<and> (\<forall>v. \<not> gstep mem stream u v))
    \<and> ((\<forall>v. \<not> gstep mem stream t v) \<longrightarrow>
        state t = STATE_UP \<and> events t = [BSOCKSCLIENT_EVENT_UP] \<and> received t = stream)"
proof -
  have inv: "good_inv auths dest stream mem t" using good_reach_sstep [OF assms] by simp
  have "todo stream s = 8 + length stream"
    using assms(1) by (auto simp: good_start_def sinit_def BSocksClient_Init_def todo_def)
  with good.steps_bounded [OF assms(2) good.inv_start [OF assms(1)]] have "n \<le> 8 + length stream" by simp
  with good.run_to_end [OF inv] good_stuck_up [OF inv] good_up_received [OF inv] show ?thesis by blast
qed

theorem socks_conforming_server_up_witness:
  "\<exists>n t. n \<le> 20 \<and> steps_n (gstep example_mem example_stream) n example_client t \<and> state t = STATE_UP
    \<and> events t = [BSOCKSCLIENT_EVENT_UP] \<and> received t = example_stream"
proof -
  from good.run_to_end [OF good.inv_start [OF example_good]] obtain n t
    where t: "steps_n (gstep example_mem example_stream) n example_client t" "\<forall>u. \<not> gstep example_mem example_stream t u" by blast
  from socks_conforming_server_up [OF example_good t(1)] t show ?thesis by (intro exI [of _ n] exI [of _ t]) simp
qed

text \<open>
  C27. The user's handler is called in one of five ways only: never, with an error, with up, or with
  up and then an error or the end of the connection. In particular up comes at most once, nothing
  follows an error, and the end of the connection is reported only to a user that was told up,
  which is what \<open>client_socks_handler\<close> asserts.
\<close>

theorem socks_events_order:
  assumes "reach (sinit auths dest) sstep s"
  shows "events s \<in> {[], [BSOCKSCLIENT_EVENT_ERROR], [BSOCKSCLIENT_EVENT_UP],
      [BSOCKSCLIENT_EVENT_UP, BSOCKSCLIENT_EVENT_ERROR], [BSOCKSCLIENT_EVENT_UP, BSOCKSCLIENT_EVENT_ERROR_CLOSED]}
    \<and> (BSOCKSCLIENT_EVENT_UP \<in> set (events s) \<longleftrightarrow> up_io s)"
proof -
  have inv: "sinv auths dest s" using socks.reach_inv [OF assms] .
  have "e \<noteq> BSOCKSCLIENT_EVENT_UP \<Longrightarrow> e = BSOCKSCLIENT_EVENT_ERROR \<or> e = BSOCKSCLIENT_EVENT_ERROR_CLOSED" for e
    by (cases e) auto
  with inv show ?thesis
    unfolding sinv_def resources_def up_events_def by (auto simp del: protocol.simps split: if_splits)
qed

theorem socks_events_order_witness:
  "events (connector_handler True True example_mem example_client)
    \<in> {[], [BSOCKSCLIENT_EVENT_ERROR], [BSOCKSCLIENT_EVENT_UP],
      [BSOCKSCLIENT_EVENT_UP, BSOCKSCLIENT_EVENT_ERROR], [BSOCKSCLIENT_EVENT_UP, BSOCKSCLIENT_EVENT_ERROR_CLOSED]}"
proof -
  have "sstep example_client (connector_handler True True example_mem example_client)"
    by (rule sstep.connector) (simp_all add: malloc_ok_zeros example_client_def BSocksClient_Init_def failed_def)
  from socks_events_order [OF reach_step [OF reach_start [where init = "sinit [Auth_None] (BAddr_IPv4 1 2)" and step = sstep, OF example_start] this]]
  show ?thesis by blast
qed

end
