(* ===== verification/Startup.thy ===== *)
theory Startup
  imports Tun_Device Socks_Client
begin

text \<open>
  Start-up and shut-down of \<open>tun2socks/tun2socks.c\<close> as built for Android: the command line
  (\<open>parse_arguments\<close>, \<open>process_arguments\<close>, \<open>misc/loglevel.h\<close>), the initialisation ladder and
  clean-up of \<open>main\<close>, the job that starts lwIP and the TCP timer.

  The lemmas show what an accepted command line guarantees, that a command line written from
  a set of options is read back as those options, that \<open>main\<close> releases what it acquired in
  reverse order on every path, and that lwIP's slow timers run on every fourth tick.
\<close>

section \<open>Numbers on the command line\<close>

text \<open>
  \<open>strtol (s, \&end, 10)\<close> and \<open>atoi\<close>: the value and the rest of the string; without a digit,
  0 and the whole string. A value out of range is undefined for \<open>atoi\<close>; here values are not
  bounded.
\<close>

definition is_space :: "char \<Rightarrow> bool" where
  "is_space c \<longleftrightarrow> c \<in> {CHR '' '', CHR 0x09, CHR 0x0A, CHR 0x0B, CHR 0x0C, CHR 0x0D}"

definition is_digit :: "char \<Rightarrow> bool" where
  "is_digit c \<longleftrightarrow> 48 \<le> (of_char c :: nat) \<and> (of_char c :: nat) \<le> 57"

fun digits_value :: "int \<Rightarrow> string \<Rightarrow> int \<times> string" where
  "digits_value acc (c # cs) =
    (if is_digit c then digits_value (acc * 10 + (of_char c - 48)) cs else (acc, c # cs))"
| "digits_value acc [] = (acc, [])"

definition strtol10 :: "string \<Rightarrow> int \<times> string" where
  "strtol10 s =
    (let t = dropWhile is_space s;
         (sign, t) = (case t of c # cs \<Rightarrow> if c = CHR ''-'' then (-1, cs) else if c = CHR ''+'' then (1, cs) else (1, t)
                      | [] \<Rightarrow> (1, t))
     in case t of
          c # cs \<Rightarrow> if is_digit c then (let (v, r) = digits_value 0 t in (sign * v, r)) else (0, s)
        | [] \<Rightarrow> (0, s))"

definition atoi :: "string \<Rightarrow> int" where
  "atoi s = fst (strtol10 s)"

definition parse_loglevel :: "string \<Rightarrow> int" where
  "parse_loglevel str =
    (if str = ''none'' then 0 else if str = ''error'' then 1 else if str = ''warning'' then 2
     else if str = ''notice'' then 3 else if str = ''info'' then 4 else if str = ''debug'' then 5
     else let (res, endptr) = strtol10 str in
       if str \<noteq> '''' \<and> endptr = '''' \<and> res \<ge> 0 \<and> res \<le> 5 then res else -1)"

section \<open>Options\<close>

datatype logger = LOGGER_STDOUT | LOGGER_SYSLOG

record options =
  opt_help :: bool
  opt_version :: bool
  logger :: logger
  logger_syslog_facility :: string
  logger_syslog_ident :: string
  loglevel :: int
  loglevels :: "int list"
  tun_mtu :: int
  fake_proc :: bool
  sock_path :: "string option"
  pid :: "string option"
  opt_dnsgw_addr :: "string option"
  opt_netif_ipaddr :: "string option"
  opt_netif_netmask :: "string option"
  opt_netif_ip6addr :: "string option"
  opt_socks_server_addr :: "string option"
  username :: "string option"
  password :: "string option"
  password_file :: "string option"
  append_source_to_username :: bool
  opt_udpgw_remote_server_addr :: "string option"
  udpgw_max_connections :: int
  udpgw_connection_buffer_size :: int
  udpgw_transparent_dns :: bool

text \<open>
  The defaults. \<open>dnsgw\<close> is not assigned: the global starts as \<open>NULL\<close>. The number of log
  channels is that of the generated \<open>blog_channels_defines.h\<close>.
\<close>

abbreviation (input) BLOG_NUM_CHANNELS :: nat where "BLOG_NUM_CHANNELS \<equiv> 147"

definition default_options :: "string \<Rightarrow> options" where
  "default_options argv0 = \<lparr>opt_help = False, opt_version = False, logger = LOGGER_STDOUT,
     logger_syslog_facility = ''daemon'', logger_syslog_ident = argv0,
     loglevel = -1, loglevels = replicate BLOG_NUM_CHANNELS (-1), tun_mtu = 1500, fake_proc = False,
     sock_path = None, pid = None, opt_dnsgw_addr = None, opt_netif_ipaddr = None,
     opt_netif_netmask = None, opt_netif_ip6addr = None, opt_socks_server_addr = None,
     username = None, password = None, password_file = None, append_source_to_username = False,
     opt_udpgw_remote_server_addr = None, udpgw_max_connections = 256,
     udpgw_connection_buffer_size = 8, udpgw_transparent_dns = False\<rparr>"

text \<open>
  One iteration of the loop: the new options and how many further arguments were consumed,
  or \<open>None\<close> for a wrong or missing argument. The channel table
  (\<open>BLogGlobal_GetChannelByName\<close>, generated) is a parameter. The first function holds the
  options up to \<open>--pid\<close>, the second the rest.
\<close>

definition parse_option_net :: "options \<Rightarrow> string \<Rightarrow> string list \<Rightarrow> (options \<times> nat) option" where
  "parse_option_net opts arg rest =
    (let arg2 = hd rest; missing = (rest = []) in
     if arg = ''--netif-ipaddr'' then
       (if missing then None else Some (opts\<lparr>opt_netif_ipaddr := Some arg2\<rparr>, 1))
     else if arg = ''--netif-netmask'' then
       (if missing then None else Some (opts\<lparr>opt_netif_netmask := Some arg2\<rparr>, 1))
     else if arg = ''--netif-ip6addr'' then
       (if missing then None else Some (opts\<lparr>opt_netif_ip6addr := Some arg2\<rparr>, 1))
     else if arg = ''--socks-server-addr'' then
       (if missing then None else Some (opts\<lparr>opt_socks_server_addr := Some arg2\<rparr>, 1))
     else if arg = ''--username'' then
       (if missing then None else Some (opts\<lparr>username := Some arg2\<rparr>, 1))
     else if arg = ''--password'' then
       (if missing then None else Some (opts\<lparr>password := Some arg2\<rparr>, 1))
     else if arg = ''--password-file'' then
       (if missing then None else Some (opts\<lparr>password_file := Some arg2\<rparr>, 1))
     else if arg = ''--append-source-to-username'' then
       Some (opts\<lparr>append_source_to_username := True\<rparr>, 0)
     else if arg = ''--enable-udprelay'' then
       Some (opts\<lparr>opt_udpgw_remote_server_addr := Some ''0.0.0.0:0''\<rparr>, 0)
     else if arg = ''--udprelay-max-connections'' then
       (if missing then None
        else let n = atoi arg2 in
          if n \<le> 0 then None else Some (opts\<lparr>udpgw_max_connections := n\<rparr>, 1))
     else None)"

definition parse_option :: "(string \<Rightarrow> int) \<Rightarrow> options \<Rightarrow> string \<Rightarrow> string list \<Rightarrow> (options \<times> nat) option" where
  "parse_option channel_by_name opts arg rest =
    (let arg2 = hd rest; missing = (rest = []) in
     if arg = ''--help'' then Some (opts\<lparr>opt_help := True\<rparr>, 0)
     else if arg = ''--version'' then Some (opts\<lparr>opt_version := True\<rparr>, 0)
     else if arg = ''--logger'' then
       (if missing then None
        else if arg2 = ''stdout'' then Some (opts\<lparr>logger := LOGGER_STDOUT\<rparr>, 1)
        else if arg2 = ''syslog'' then Some (opts\<lparr>logger := LOGGER_SYSLOG\<rparr>, 1)
        else None)
     else if arg = ''--syslog-facility'' then
       (if missing then None else Some (opts\<lparr>logger_syslog_facility := arg2\<rparr>, 1))
     else if arg = ''--syslog-ident'' then
       (if missing then None else Some (opts\<lparr>logger_syslog_ident := arg2\<rparr>, 1))
     else if arg = ''--loglevel'' then
       (if missing then None
        else let l = parse_loglevel arg2 in if l < 0 then None else Some (opts\<lparr>loglevel := l\<rparr>, 1))
     else if arg = ''--channel-loglevel'' then
       (if length rest < 2 then None
        else let channel = channel_by_name arg2; l = parse_loglevel (rest ! 1) in
          if channel < 0 then None else if l < 0 then None
          else Some (opts\<lparr>loglevels := (loglevels opts)[nat channel := l]\<rparr>, 2))
     else if arg = ''--fake-proc'' then Some (opts\<lparr>fake_proc := True\<rparr>, 0)
     else if arg = ''--tunmtu'' then
       (if missing then None
        else let n = atoi arg2 in if n \<le> 0 then None else Some (opts\<lparr>tun_mtu := n\<rparr>, 1))
     else if arg = ''--dnsgw'' then
       (if missing then None else Some (opts\<lparr>opt_dnsgw_addr := Some arg2\<rparr>, 1))
     else if arg = ''--sock-path'' then
       (if missing then None else Some (opts\<lparr>sock_path := Some arg2\<rparr>, 1))
     else if arg = ''--pid'' then
       (if missing then None else Some (opts\<lparr>pid := Some arg2\<rparr>, 1))
     else parse_option_net opts arg rest)"

fun parse_loop :: "(string \<Rightarrow> int) \<Rightarrow> options \<Rightarrow> string list \<Rightarrow> options option" where
  "parse_loop channel_by_name opts [] = Some opts"
| "parse_loop channel_by_name opts (arg # rest) =
    (case parse_option channel_by_name opts arg rest of
       None \<Rightarrow> None
     | Some (opts, consumed) \<Rightarrow> parse_loop channel_by_name opts (drop consumed rest))"

text \<open>The checks after the loop.\<close>

definition options_complete :: "options \<Rightarrow> bool" where
  "options_complete opts =
    (if opt_help opts \<or> opt_version opts then True
     else if opt_netif_ipaddr opts = None then False
     else if opt_socks_server_addr opts = None then False
     else if username opts \<noteq> None then
       (if password opts = None \<and> password_file opts = None then False
        else if password opts \<noteq> None \<and> password_file opts \<noteq> None then False
        else True)
     else True)"

definition parse_arguments :: "(string \<Rightarrow> int) \<Rightarrow> string list \<Rightarrow> options option" where
  "parse_arguments channel_by_name argv =
    (if argv = [] then None
     else case parse_loop channel_by_name (default_options (hd argv)) (tl argv) of
       None \<Rightarrow> None
     | Some opts \<Rightarrow> if options_complete opts then Some opts else None)"

section \<open>process\_arguments\<close>

text \<open>
  Address parsing and resolution (\<open>BIPAddr_Resolve\<close>, \<open>BAddr_Parse2\<close> with the system resolver,
  \<open>ipaddr6_parse_ipv6_addr\<close>) and reading the password file are parameters. An address is
  \<open>BAddr\<close>; \<open>BIPAddr_Resolve\<close> yields one with port 0.
\<close>

record resolver =
  BIPAddr_Resolve :: "string \<Rightarrow> BAddr option"
  BAddr_Parse2 :: "string \<Rightarrow> BAddr option"
  ipaddr6_parse :: "string \<Rightarrow> bytes option"
  read_file :: "string \<Rightarrow> bytes option"
  string_bytes :: "string \<Rightarrow> bytes"

record settings =
  netif_ipaddr :: BAddr
  netif_ip6addr :: "bytes option"
  socks_server_addr :: BAddr
  socks_auth_info :: "auth_info list"
  udpgw_remote_server_addr :: "BAddr option"
  dnsgw :: "BAddr option"

definition process_auth :: "resolver \<Rightarrow> options \<Rightarrow> auth_info list option" where
  "process_auth R opts =
    (case username opts of
       None \<Rightarrow> Some [Auth_None]
     | Some user \<Rightarrow>
        (case password opts of
           Some pw \<Rightarrow> Some [Auth_None, Auth_Password (string_bytes R user) (string_bytes R pw)]
         | None \<Rightarrow>
            (case read_file R (the (password_file opts)) of
               None \<Rightarrow> None
             | Some contents \<Rightarrow> Some [Auth_None, Auth_Password (string_bytes R user) contents])))"

text \<open>\<open>Inl\<close> carries the log message of the failing step.\<close>

definition process_arguments :: "resolver \<Rightarrow> options \<Rightarrow> string + settings" where
  "process_arguments R opts =
    (case BIPAddr_Resolve R (the (opt_netif_ipaddr opts)) of
       None \<Rightarrow> Inl ''netif ipaddr: BIPAddr_Resolve failed''
     | Some ip \<Rightarrow>
    if BAddr_type ip \<noteq> 1 then Inl ''netif ipaddr: must be an IPv4 address''
    else let ip6 = map_option (ipaddr6_parse R) (opt_netif_ip6addr opts) in
    if ip6 = Some None then Inl ''netif ip6addr: incorrect''
    else (case BAddr_Parse2 R (the (opt_socks_server_addr opts)) of
       None \<Rightarrow> Inl ''socks server addr: BAddr_Parse2 failed''
     | Some socks \<Rightarrow>
    (case process_auth R opts of
       None \<Rightarrow> Inl ''failed to read password file''
     | Some auth \<Rightarrow>
    let udpgw = map_option (BAddr_Parse2 R) (opt_udpgw_remote_server_addr opts) in
    if udpgw = Some None then Inl ''udprelay server addr: BAddr_Parse2 failed''
    else let dns = map_option (BAddr_Parse2 R) (opt_dnsgw_addr opts) in
    if dns = Some None then Inl ''dnsgw addr: BAddr_Parse2 failed''
    else if dns \<noteq> None \<and> BAddr_type (the (the dns)) \<noteq> 1 then Inl ''dnsgw addr: must be an IPv4 address''
    else Inr \<lparr>netif_ipaddr = ip, netif_ip6addr = Option.bind ip6 id, socks_server_addr = socks,
              socks_auth_info = auth, udpgw_remote_server_addr = Option.bind udpgw id,
              dnsgw = Option.bind dns id\<rparr>)))"

section \<open>main\<close>

text \<open>
  The resources of \<open>main\<close>, with the descriptor of the TUN device that \<open>wait_for_fd\<close> returns and the contents of the password file that
  \<open>process_arguments\<close> reads.
\<close>

datatype resource =
    R_Log | R_TunFd | R_Password | R_Reactor | R_Signal | R_Device | R_ReadInterface | R_ReadBuffer | R_Udpgw
  | R_LwipInitJob | R_WriteBuffer | R_TcpTimer

datatype main_call =
    M_Acquire resource
  | M_Release resource
  | M_ReactorExec
  | M_MurderClients
  | M_CloseListeners
  | M_RemoveNetif
  | M_TcpRemoveAll
  | M_DebugObjectGlobal_Finish

record main_env =
  env_args :: "options option"
  env_syslog_ok :: bool
  env_fd :: int
  env_network_ok :: bool
  env_password_read :: bool
  env_process_ok :: bool
  env_reactor_ok :: bool
  env_signal_ok :: bool
  env_tap_ok :: bool
  env_readbuf_ok :: bool
  env_udpgw_ok :: bool
  env_writebuf_ok :: bool
  env_have_netif :: bool

definition main_fail0 :: "main_call list" where
  "main_fail0 = [M_DebugObjectGlobal_Finish]"

text \<open>\<open>pw\<close>: there is something to free at \<open>password_file_contents\<close>; freeing the null pointer does nothing.\<close>

definition main_fail1 :: "bool \<Rightarrow> main_call list" where
  "main_fail1 pw = (if pw then [M_Release R_Password] else []) @ [M_Release R_Log] @ main_fail0"

definition main_fail2 :: "bool \<Rightarrow> main_call list" where
  "main_fail2 pw = M_Release R_Reactor # main_fail1 pw"

definition main_fail3 :: "bool \<Rightarrow> main_call list" where
  "main_fail3 pw = M_Release R_Signal # main_fail2 pw"

definition main_fail4 :: "bool \<Rightarrow> main_call list" where
  "main_fail4 pw = [M_Release R_ReadInterface, M_Release R_Device] @ main_fail3 pw"

definition main_fail4a :: "bool \<Rightarrow> main_call list" where
  "main_fail4a pw = M_Release R_ReadBuffer # main_fail4 pw"

definition main_fail5 :: "bool \<Rightarrow> options \<Rightarrow> main_call list" where
  "main_fail5 pw opts = M_Release R_LwipInitJob #
    (if opt_udpgw_remote_server_addr opts \<noteq> None then [M_Release R_Udpgw] else []) @ main_fail4a pw"

text \<open>From entering the event loop to the end.\<close>

definition main_run :: "bool \<Rightarrow> main_env \<Rightarrow> options \<Rightarrow> main_call list" where
  "main_run pw env opts = [M_ReactorExec, M_MurderClients, M_CloseListeners]
    @ (if env_have_netif env then [M_RemoveNetif] else [])
    @ [M_TcpRemoveAll, M_Release R_TcpTimer, M_Release R_WriteBuffer] @ main_fail5 pw opts"

definition main_init_udpgw :: "bool \<Rightarrow> main_env \<Rightarrow> options \<Rightarrow> main_call list" where
  "main_init_udpgw pw env opts =
    (let rest = (M_Acquire R_LwipInitJob #
           (if \<not> env_writebuf_ok env then main_fail5 pw opts
            else [M_Acquire R_WriteBuffer, M_Acquire R_TcpTimer] @ main_run pw env opts))
     in if opt_udpgw_remote_server_addr opts \<noteq> None then
          (if main_udp_mtu (tun_mtu opts) (opt_netif_ip6addr opts \<noteq> None) = None then main_fail4a pw
           else if \<not> env_udpgw_ok env then main_fail4a pw
           else M_Acquire R_Udpgw # rest)
        else rest)"

text \<open>
  From \<open>wait_for_fd\<close> on. The device made from the descriptor (\<open>BTAP_INIT_FD\<close>) does not own it. \<open>process_arguments\<close> may have read the password file and
  fail later. With \<open>--pid\<close> this is the child process.
\<close>

definition main_init :: "main_env \<Rightarrow> options \<Rightarrow> main_call list" where
  "main_init env opts =
    (if env_fd env = -1 then main_fail1 False
     else M_Acquire R_TunFd #
      (if \<not> env_network_ok env then main_fail1 False
       else
        let pw = (username opts \<noteq> None \<and> password opts = None \<and> env_password_read env) in
        (if pw then [M_Acquire R_Password] else []) @
        (if \<not> env_process_ok env then main_fail1 pw
         else if \<not> env_reactor_ok env then main_fail1 pw
         else M_Acquire R_Reactor #
          (if \<not> env_signal_ok env then main_fail2 pw
           else M_Acquire R_Signal #
            (if \<not> env_tap_ok env then main_fail3 pw
             else [M_Acquire R_Device, M_Acquire R_ReadInterface] @
              (if \<not> env_readbuf_ok env then main_fail4 pw
               else M_Acquire R_ReadBuffer # main_init_udpgw pw env opts))))))"

text \<open>The exit status and the calls.\<close>

definition main :: "main_env \<Rightarrow> int \<times> main_call list" where
  "main env =
    (case env_args env of
       None \<Rightarrow> (1, main_fail0)
     | Some opts \<Rightarrow>
        if opt_help opts then (0, [])
        else if opt_version opts then (0, [])
        else if logger opts = LOGGER_SYSLOG \<and> \<not> env_syslog_ok env then (1, main_fail0)
        else (1, M_Acquire R_Log # main_init env opts))"

section \<open>lwIP start-up and timer\<close>

datatype listener_id = Listener4 | Listener6

datatype lwip_call =
    L_lwip_init
  | L_netif_add
  | L_netif_configure
  | L_netif_ip6_addr_set
  | L_tcp_new listener_id
  | L_tcp_bind_to_netif listener_id
  | L_tcp_close listener_id
  | L_tcp_listen listener_id
  | L_tcp_accept listener_id
  | L_BReactor_Quit

text \<open>
  Creating one listener: \<open>tcp_new_ip_type\<close>, \<open>tcp_bind_to_netif\<close>, \<open>tcp_bind_netif\<close>,
  \<open>tcp_listen\<close>, \<open>tcp_accept\<close>. The result says whether it is listening.
\<close>

record listener_env =
  new_ok :: bool
  bind_ok :: bool
  listen_ok :: bool

definition init_listener :: "listener_id \<Rightarrow> listener_env \<Rightarrow> bool \<times> lwip_call list" where
  "init_listener l e =
    (if \<not> new_ok e then (False, [L_tcp_new l])
     else if \<not> bind_ok e then (False, [L_tcp_new l, L_tcp_bind_to_netif l, L_tcp_close l])
     else if \<not> listen_ok e then (False, [L_tcp_new l, L_tcp_bind_to_netif l, L_tcp_listen l, L_tcp_close l])
     else (True, [L_tcp_new l, L_tcp_bind_to_netif l, L_tcp_listen l, L_tcp_accept l]))"

record lwip_state =
  have_netif :: bool
  listener :: bool
  listener_ip6 :: bool
  quitting :: bool
  lwip_calls :: "lwip_call list"

text \<open>\<open>BReactor_Quit\<close> makes the event loop return.\<close>

definition terminate :: "lwip_state \<Rightarrow> lwip_state" where
  "terminate s = s\<lparr>quitting := True, lwip_calls := lwip_calls s @ [L_BReactor_Quit]\<rparr>"

definition signal_handler :: "lwip_state \<Rightarrow> lwip_state" where
  "signal_handler s = terminate s"

definition device_error_handler :: "lwip_state \<Rightarrow> lwip_state" where
  "device_error_handler s = terminate s"

definition lwip_fail :: "lwip_state \<Rightarrow> lwip_state" where
  "lwip_fail s = (if \<not> quitting s then terminate s else s)"

definition lwip_init_job_hadler ::
  "bool \<Rightarrow> bool \<Rightarrow> listener_env \<Rightarrow> listener_env \<Rightarrow> lwip_state \<Rightarrow> lwip_state" where
  "lwip_init_job_hadler ip6addr netif_ok e4 e6 s =
    (let s = s\<lparr>lwip_calls := lwip_calls s @ [L_lwip_init, L_netif_add]\<rparr> in
     if \<not> netif_ok then lwip_fail s
     else
      let s = s\<lparr>have_netif := True, lwip_calls := lwip_calls s @ [L_netif_configure]
            @ (if ip6addr then [L_netif_ip6_addr_set] else [])\<rparr>;
          (ok4, calls4) = init_listener Listener4 e4;
          s = s\<lparr>listener := ok4, lwip_calls := lwip_calls s @ calls4\<rparr>
      in if \<not> ok4 then lwip_fail s
         else if \<not> ip6addr then s
         else let (ok6, calls6) = init_listener Listener6 e6;
                  s = s\<lparr>listener_ip6 := ok6, lwip_calls := lwip_calls s @ calls6\<rparr>
           in if \<not> ok6 then lwip_fail s else s)"

datatype timer_call = T_SetTimer | T_tcp_tmr | T_ip_reass_tmr | T_nd6_tmr | T_ip6_reass_tmr

definition tcp_timer_handler :: "nat \<Rightarrow> nat \<times> timer_call list" where
  "tcp_timer_handler tcp_timer_mod4 =
    (let tcp_timer_mod4 = (tcp_timer_mod4 + 1) mod 4 in
     (tcp_timer_mod4, [T_SetTimer, T_tcp_tmr]
        @ (if tcp_timer_mod4 = 0 then [T_ip_reass_tmr, T_nd6_tmr, T_ip6_reass_tmr] else [])))"

section \<open>Accepted command lines\<close>

definition options_valid :: "options \<Rightarrow> bool" where
  "options_valid opts \<longleftrightarrow> tun_mtu opts > 0 \<and> udpgw_max_connections opts > 0
    \<and> -1 \<le> loglevel opts \<and> loglevel opts \<le> 5
    \<and> length (loglevels opts) = BLOG_NUM_CHANNELS \<and> (\<forall>l \<in> set (loglevels opts). -1 \<le> l \<and> l \<le> 5)
    \<and> udpgw_connection_buffer_size opts = 8 \<and> opt_udpgw_remote_server_addr opts \<in> {None, Some ''0.0.0.0:0''}"

lemma parse_loglevel_range: "parse_loglevel str = -1 \<or> (0 \<le> parse_loglevel str \<and> parse_loglevel str \<le> 5)"
  by (simp add: parse_loglevel_def split: prod.splits)

text \<open>A branch on the option's name, without the name.\<close>

lemma name_branchE:
  fixes a b :: string
  assumes "(if a = b then x else y) = Some z" and "x = Some z \<Longrightarrow> P" and "y = Some z \<Longrightarrow> P"
  shows P
  using assms by (auto split: if_splits)

lemma set_update_valid:
  "\<forall>l \<in> set xs. P l \<Longrightarrow> P v \<Longrightarrow> \<forall>l \<in> set (xs[i := v]). P l"
  using set_update_subset_insert [of xs i v] by blast

lemma valid_frame:
  "options_valid (opts\<lparr>opt_help := b\<rparr>) = options_valid opts"
  "options_valid (opts\<lparr>opt_version := b\<rparr>) = options_valid opts"
  "options_valid (opts\<lparr>logger := lg\<rparr>) = options_valid opts"
  "options_valid (opts\<lparr>logger_syslog_facility := s\<rparr>) = options_valid opts"
  "options_valid (opts\<lparr>logger_syslog_ident := s\<rparr>) = options_valid opts"
  "options_valid (opts\<lparr>fake_proc := b\<rparr>) = options_valid opts"
  "options_valid (opts\<lparr>opt_dnsgw_addr := a\<rparr>) = options_valid opts"
  "options_valid (opts\<lparr>sock_path := a\<rparr>) = options_valid opts"
  "options_valid (opts\<lparr>pid := a\<rparr>) = options_valid opts"
  "options_valid (opts\<lparr>opt_netif_ipaddr := a\<rparr>) = options_valid opts"
  "options_valid (opts\<lparr>opt_netif_netmask := a\<rparr>) = options_valid opts"
  "options_valid (opts\<lparr>opt_netif_ip6addr := a\<rparr>) = options_valid opts"
  "options_valid (opts\<lparr>opt_socks_server_addr := a\<rparr>) = options_valid opts"
  "options_valid (opts\<lparr>username := a\<rparr>) = options_valid opts"
  "options_valid (opts\<lparr>password := a\<rparr>) = options_valid opts"
  "options_valid (opts\<lparr>password_file := a\<rparr>) = options_valid opts"
  "options_valid (opts\<lparr>append_source_to_username := b\<rparr>) = options_valid opts"
  "options_valid opts \<Longrightarrow> options_valid (opts\<lparr>opt_udpgw_remote_server_addr := Some ''0.0.0.0:0''\<rparr>)"
  "options_valid opts \<Longrightarrow> 0 < n \<Longrightarrow> options_valid (opts\<lparr>udpgw_max_connections := n\<rparr>)"
  "options_valid opts \<Longrightarrow> 0 < n \<Longrightarrow> options_valid (opts\<lparr>tun_mtu := n\<rparr>)"
  by (simp_all add: options_valid_def)

lemma valid_loglevel:
  assumes "options_valid opts" and "0 \<le> parse_loglevel str"
  shows "options_valid (opts\<lparr>loglevel := parse_loglevel str\<rparr>)"
    and "options_valid (opts\<lparr>loglevels := (loglevels opts)[i := parse_loglevel str]\<rparr>)"
proof -
  have r: "- 1 \<le> parse_loglevel str \<and> parse_loglevel str \<le> 5"
    using parse_loglevel_range [of str] assms(2) by linarith
  then show "options_valid (opts\<lparr>loglevel := parse_loglevel str\<rparr>)"
    using assms(1) by (simp add: options_valid_def)
  have "\<forall>l \<in> set ((loglevels opts)[i := parse_loglevel str]). - 1 \<le> l \<and> l \<le> 5"
    by (rule set_update_valid) (use r assms(1) in \<open>simp_all add: options_valid_def\<close>)
  then show "options_valid (opts\<lparr>loglevels := (loglevels opts)[i := parse_loglevel str]\<rparr>)"
    using assms(1) by (simp add: options_valid_def)
qed

lemma parse_option_net_valid:
  "parse_option_net opts arg rest = Some (opts', k) \<Longrightarrow> options_valid opts \<Longrightarrow> options_valid opts'"
  unfolding parse_option_net_def Let_def
  by (elim name_branchE; clarsimp simp: valid_frame split: if_split_asm)

lemma parse_option_valid:
  assumes "parse_option chan opts arg rest = Some (opts', k)" and "options_valid opts"
  shows "options_valid opts'"
  using assms(1) unfolding parse_option_def Let_def
  by (elim name_branchE)
    (rule parse_option_net_valid [OF _ assms(2)], assumption |
      clarsimp simp: valid_frame valid_loglevel assms(2) split: if_split_asm)+

lemma parse_loop_valid:
  "parse_loop chan opts args = Some opts' \<Longrightarrow> options_valid opts \<Longrightarrow> options_valid opts'"
proof (induction chan opts args rule: parse_loop.induct)
  case (2 chan opts arg rest)
  then obtain o1 k where o: "parse_option chan opts arg rest = Some (o1, k)"
      "parse_loop chan o1 (drop k rest) = Some opts'"
    by (auto split: option.splits)
  show ?case
    by (rule "2.IH" [OF o(1) refl o(2)], rule parse_option_valid [OF o(1)], rule "2.prems"(2))
qed simp

text \<open>
  A command line the program goes on with gives a positive MTU and connection limit, log
  levels in range for every channel, and unless only help or the version was asked for an
  interface address, a proxy address and exactly one source for the password of a user.
\<close>

theorem accepted_options_valid:
  assumes "parse_arguments chan argv = Some opts"
  shows "options_valid opts \<and> (opt_help opts \<or> opt_version opts \<or>
    opt_netif_ipaddr opts \<noteq> None \<and> opt_socks_server_addr opts \<noteq> None
    \<and> (username opts \<noteq> None \<longrightarrow> (password opts = None) \<noteq> (password_file opts = None)))"
proof -
  have "parse_loop chan (default_options (hd argv)) (tl argv) = Some opts" and c: "options_complete opts"
    using assms by (auto simp: parse_arguments_def split: if_splits option.splits)
  moreover have "options_valid (default_options (hd argv))"
    by (simp add: options_valid_def default_options_def)
  ultimately show ?thesis using parse_loop_valid c by (auto simp: options_complete_def split: if_splits)
qed

theorem accepted_options_valid_witness:
  "options_valid ((default_options ''tun2socks'')\<lparr>opt_version := True\<rparr>)"
proof -
  have "parse_arguments (\<lambda>_. -1) [''tun2socks'', ''--version''] = Some ((default_options ''tun2socks'')\<lparr>opt_version := True\<rparr>)"
    by (simp add: parse_arguments_def parse_option_def options_complete_def)
  from accepted_options_valid [OF this] show ?thesis by (rule conjunct1)
qed

section \<open>The command line of the Android service\<close>

text \<open>
  The argument vector \<open>VpnService.kt\<close> starts the program with; the addresses are interpolated
  strings there.
\<close>

definition vpn_service_command :: "string \<Rightarrow> string \<Rightarrow> string \<Rightarrow> bool \<Rightarrow> string list" where
  "vpn_service_command exe proxy dns ipv6 =
    [exe, ''--netif-ipaddr'', ''172.19.0.2'', ''--socks-server-addr'', proxy, ''--tunmtu'', ''1500'',
     ''--sock-path'', ''sock_path'', ''--dnsgw'', dns, ''--loglevel'', ''warning'']
    @ (if ipv6 then [''--netif-ip6addr'', ''fdfe:dcba:9876::2''] else []) @ [''--enable-udprelay'']"

text \<open>
  The command line the Android service builds is accepted and means what the service
  intends: the interface and proxy addresses, the 1500 byte MTU, the socket path, the DNS
  gateway and the UDP relay are set, IPv6 exactly if asked for, everything else is default.
\<close>

theorem vpn_service_command_accepted:
  "parse_arguments chan (vpn_service_command exe proxy dns ipv6) =
    Some ((default_options exe)\<lparr>opt_netif_ipaddr := Some ''172.19.0.2'', opt_socks_server_addr := Some proxy,
      tun_mtu := 1500, sock_path := Some ''sock_path'', opt_dnsgw_addr := Some dns, loglevel := 2,
      opt_netif_ip6addr := (if ipv6 then Some ''fdfe:dcba:9876::2'' else None),
      opt_udpgw_remote_server_addr := Some ''0.0.0.0:0''\<rparr>)"
proof -
  have "atoi ''1500'' = 1500"
    by (simp add: atoi_def strtol10_def is_space_def is_digit_def)
  moreover have "parse_loglevel ''warning'' = 2" by (simp add: parse_loglevel_def)
  ultimately show ?thesis
    by (cases ipv6)
      (simp_all add: parse_arguments_def vpn_service_command_def parse_option_def parse_option_net_def
        options_complete_def default_options_def)
qed

text \<open>
  The help text lists \<open>--tunfd\<close>, but a command line that uses it is refused.
\<close>

lemma tunfd_option_refused:
  "parse_arguments chan [exe, ''--tunfd'', fd] = None"
  by (simp add: parse_arguments_def parse_option_def parse_option_net_def)

section \<open>Release in reverse order\<close>

fun acquired :: "main_call list \<Rightarrow> resource list" where
  "acquired (M_Acquire r # cs) = r # acquired cs"
| "acquired (_ # cs) = acquired cs"
| "acquired [] = []"

fun released :: "main_call list \<Rightarrow> resource list" where
  "released (M_Release r # cs) = r # released cs"
| "released (_ # cs) = released cs"
| "released [] = []"

text \<open>No acquisition follows a release.\<close>

fun phased :: "main_call list \<Rightarrow> bool" where
  "phased (M_Release r # cs) \<longleftrightarrow> acquired cs = []"
| "phased (_ # cs) \<longleftrightarrow> phased cs"
| "phased [] \<longleftrightarrow> True"

lemmas main_defs = main_init_def main_init_udpgw_def main_run_def main_fail0_def main_fail1_def
  main_fail2_def main_fail3_def main_fail4_def main_fail4a_def main_fail5_def

text \<open>
  C22. Whichever step of the start-up fails, and when the event loop ends, \<open>main\<close> releases
  the resources it had acquired, each once and in reverse order, after the last
  acquisition, with one exception: the descriptor of the TUN device, acquired whenever the program gets past \<open>wait_for_fd\<close>, is never closed.
\<close>

theorem main_releases_in_reverse:
  "released (snd (main env)) = rev (filter (\<lambda>r. r \<noteq> R_TunFd) (acquired (snd (main env)))) \<and> phased (snd (main env))
    \<and> distinct (acquired (snd (main env)))
    \<and> (R_TunFd \<in> set (acquired (snd (main env))) \<longleftrightarrow> R_Log \<in> set (acquired (snd (main env))) \<and> env_fd env \<noteq> -1)"
  by (cases "env_args env") (simp_all add: main_def main_defs Let_def)

section \<open>lwIP start-up and timer\<close>

text \<open>
  The start-up job either leaves the program listening on every configured address family
  or asks it to terminate; no listening socket is lost: every one it creates is closed again
  or becomes a listener.
\<close>

theorem lwip_init_listens_or_terminates:
  assumes "s = \<lparr>have_netif = False, listener = False, listener_ip6 = False, quitting = False, lwip_calls = []\<rparr>"
    and "s' = lwip_init_job_hadler ip6addr netif_ok e4 e6 s"
  shows "(quitting s' \<or> have_netif s' \<and> listener s' \<and> (listener_ip6 s' \<longleftrightarrow> ip6addr))
    \<and> (\<forall>l e. e = (case l of Listener4 \<Rightarrow> e4 | Listener6 \<Rightarrow> e6) \<longrightarrow> new_ok e \<longrightarrow>
        L_tcp_new l \<in> set (lwip_calls s') \<longrightarrow>
        (L_tcp_close l \<in> set (lwip_calls s')) \<noteq> (case l of Listener4 \<Rightarrow> listener s' | Listener6 \<Rightarrow> listener_ip6 s'))"
  by (auto simp: assms lwip_init_job_hadler_def init_listener_def lwip_fail_def terminate_def Let_def
      split: listener_id.splits)


theorem lwip_init_listens_or_terminates_witness:
  "\<exists>s'. quitting s' \<and> L_tcp_close Listener6 \<in> set (lwip_calls s') \<and> listener s' \<and> \<not> listener_ip6 s'
    \<and> s' = lwip_init_job_hadler True True \<lparr>new_ok = True, bind_ok = True, listen_ok = True\<rparr>
        \<lparr>new_ok = True, bind_ok = False, listen_ok = True\<rparr>
        \<lparr>have_netif = False, listener = False, listener_ip6 = False, quitting = False, lwip_calls = []\<rparr>"
  using lwip_init_listens_or_terminates [OF refl refl, of True True
      "\<lparr>new_ok = True, bind_ok = True, listen_ok = True\<rparr>" "\<lparr>new_ok = True, bind_ok = False, listen_ok = True\<rparr>"]
  by (simp add: lwip_init_job_hadler_def init_listener_def lwip_fail_def terminate_def)

fun timer_ticks :: "nat \<Rightarrow> nat \<Rightarrow> nat \<times> timer_call list" where
  "timer_ticks m 0 = (m, [])"
| "timer_ticks m (Suc n) =
    (let (m1, c1) = tcp_timer_handler m; (m2, c2) = timer_ticks m1 n in (m2, c1 @ c2))"

lemma timer_ticks_count:
  assumes "m < 4"
  shows "count_list (snd (timer_ticks m n)) T_tcp_tmr = n
    \<and> count_list (snd (timer_ticks m n)) T_ip_reass_tmr = (m + n) div 4
    \<and> count_list (snd (timer_ticks m n)) T_nd6_tmr = (m + n) div 4
    \<and> count_list (snd (timer_ticks m n)) T_ip6_reass_tmr = (m + n) div 4"
  using assms
proof (induction n arbitrary: m)
  case (Suc n)
  have "(m + 1) mod 4 < 4" by simp
  from Suc.IH [OF this] Suc.prems show ?case
    by (cases "m = 3") (simp_all add: tcp_timer_handler_def Let_def split_beta)
qed simp

text \<open>
  In any run of \<open>n\<close> timer ticks from start-up lwIP's TCP timer runs \<open>n\<close> times and each of
  its slow timers once for every four ticks.
\<close>

theorem slow_timers_every_fourth_tick:
  "count_list (snd (timer_ticks 0 n)) T_tcp_tmr = n
    \<and> count_list (snd (timer_ticks 0 n)) T_ip_reass_tmr = n div 4
    \<and> count_list (snd (timer_ticks 0 n)) T_nd6_tmr = n div 4
    \<and> count_list (snd (timer_ticks 0 n)) T_ip6_reass_tmr = n div 4"
  using timer_ticks_count [of 0 n] by simp

end
