(* ===== verification/Tcp_Client.thy ===== *)
theory Tcp_Client
  imports Tun_Device Socks_Client
begin

text \<open>
  The TCP relay of \<open>tun2socks/tun2socks.c\<close>: \<open>struct tcp_client\<close> and the functions from
  \<open>listener_accept_func\<close> to \<open>client_sent_func\<close>.

  A client joins an lwIP connection (the pcb) and a SOCKS connection. lwIP and the SOCKS client
  are the environment: what lwIP answers is a record of functions on an abstract pcb, and every
  call in either direction is appended to a trace. An assertion of the source, the use of a
  freed object and the write through a dangling \<open>dead_t\<close> pointer set the flag \<open>fault\<close>; the
  main theorem is that no behaviour of the environment can set it. Further theorems say that
  no byte is lost, duplicated or reordered in either direction, that the receive window keeps
  the buffer from overflowing and that the callbacks return \<open>ERR_ABRT\<close> exactly when they
  aborted the pcb.
\<close>

section \<open>State\<close>

type_synonym err_t = int

abbreviation (input) ERR_OK :: err_t where "ERR_OK \<equiv> 0"
abbreviation (input) ERR_MEM :: err_t where "ERR_MEM \<equiv> -1"
abbreviation (input) ERR_ABRT :: err_t where "ERR_ABRT \<equiv> -13"

text \<open>lwIP's default window, four segments of the configured 1460 bytes.\<close>

abbreviation (input) TCP_WND :: nat where "TCP_WND \<equiv> 5840"
abbreviation (input) CLIENT_SOCKS_RECV_BUF_SIZE :: nat where "CLIENT_SOCKS_RECV_BUF_SIZE \<equiv> 8192"

text \<open>The answers of lwIP on a pcb of type \<open>'p\<close>.\<close>

record 'p lwip =
  tcp_sndbuf :: "'p \<Rightarrow> nat"
  tcp_write :: "'p \<Rightarrow> bytes \<Rightarrow> err_t \<times> 'p"
  tcp_output :: "'p \<Rightarrow> err_t \<times> 'p"
  tcp_close :: "'p \<Rightarrow> err_t \<times> 'p"
  tcp_recved :: "'p \<Rightarrow> nat \<Rightarrow> 'p"

record 'p tcp_client =
  aborted :: bool
  dead_aborted :: "nat option"
  local_addr :: BAddr
  remote_addr :: BAddr
  pcb :: 'p
  client_closed :: bool
  buf :: bytes
  buf_used :: nat
  socks_username :: "string option"
  socks_up :: bool
  socks_closed :: bool
  socks_recv_buf :: bytes
  socks_recv_buf_used :: int
  socks_recv_buf_sent :: int
  socks_recv_waiting :: bool
  socks_recv_tcp_pending :: int

text \<open>Environment events (\<open>Ev\<close>) and calls the program makes (\<open>Do\<close>), in order of time.\<close>

datatype event =
    Ev_ClientData bytes
  | Ev_ClientFin
  | Ev_ClientErr
  | Ev_ClientAcked nat
  | Ev_SocksUp
  | Ev_SocksError
  | Ev_SocksClosed
  | Ev_SocksAccepted bytes
  | Ev_SocksData bytes
  | Ev_Murder
  | Do_tcp_write bytes
  | Do_tcp_recved nat
  | Do_tcp_close err_t
  | Do_tcp_abort
  | Do_socks_send bytes
  | Do_socks_recv
  | Do_socks_free
  | Do_free

text \<open>
  \<open>misc/dead.h\<close>: a callback's local variable \<open>badvpn__dead\<close>, its saved \<open>badvpn__prev_ptr\<close>
  and, for stating properties, the length of the trace when the callback began.
\<close>

record dead_frame =
  frame_id :: nat
  killed :: int
  prev_ptr :: "nat option"
  began :: nat

text \<open>
  Besides the client: whether it is allocated, lwIP's and the SOCKS client's view of it
  (liveness, registered callbacks, outstanding send and receive), the running callback, whether
  it is inside \<open>SYNC_COMMIT\<close>, and what the last callback returned.
\<close>

record 'p world =
  client :: "'p tcp_client"
  allocated :: bool
  num_clients :: int
  pcb_live :: bool
  cb_err :: bool
  cb_recv :: bool
  cb_sent :: bool
  socks_live :: bool
  socks_sending :: "bytes option"
  socks_receiving :: bool
  frame :: "dead_frame option"
  frames_made :: nat
  in_sync :: bool
  ret :: "err_t option"
  fault :: bool
  trace :: "event list"

section \<open>Primitives\<close>

definition ASSERT :: "bool \<Rightarrow> 'p world \<Rightarrow> 'p world" where
  "ASSERT b w = w\<lparr>fault := fault w \<or> \<not> b\<rparr>"

definition log_event :: "event \<Rightarrow> 'p world \<Rightarrow> 'p world" where
  "log_event e w = w\<lparr>trace := trace w @ [e]\<rparr>"

definition with_client :: "('p tcp_client \<Rightarrow> 'p tcp_client) \<Rightarrow> 'p world \<Rightarrow> 'p world" where
  "with_client f w = ASSERT (allocated w) (w\<lparr>client := f (client w)\<rparr>)"

definition DEAD_ENTER :: "'p world \<Rightarrow> 'p world" where
  "DEAD_ENTER w =
    (let w = ASSERT (frame w = None) w;
         w = w\<lparr>frame := Some \<lparr>frame_id = frames_made w, killed = 0,
               prev_ptr = dead_aborted (client w), began = length (trace w)\<rparr>\<rparr>;
         w = with_client (\<lambda>c. c\<lparr>dead_aborted := Some (frames_made w)\<rparr>) w
     in w\<lparr>frames_made := frames_made w + 1\<rparr>)"

definition DEAD_KILL_WITH :: "int \<Rightarrow> 'p world \<Rightarrow> 'p world" where
  "DEAD_KILL_WITH v w =
    (case dead_aborted (client w) of
       None \<Rightarrow> w
     | Some i \<Rightarrow>
        (case frame w of
           Some f \<Rightarrow> if frame_id f = i then w\<lparr>frame := Some (f\<lparr>killed := v\<rparr>)\<rparr> else ASSERT False w
         | None \<Rightarrow> ASSERT False w))"

text \<open>The local variable disappears with the callback; a saved pointer would point to no frame.\<close>

definition DEAD_LEAVE2 :: "'p world \<Rightarrow> 'p world" where
  "DEAD_LEAVE2 w =
    (case frame w of
       None \<Rightarrow> ASSERT False w
     | Some f \<Rightarrow>
        (let w = (if killed f = 0 then with_client (\<lambda>c. c\<lparr>dead_aborted := prev_ptr f\<rparr>) w else w);
             w = ASSERT (prev_ptr f = None) w
         in w\<lparr>frame := None\<rparr>))"

definition set_callbacks :: "bool \<Rightarrow> bool \<Rightarrow> bool \<Rightarrow> 'p world \<Rightarrow> 'p world" where
  "set_callbacks e r s w = ASSERT (pcb_live w) (w\<lparr>cb_err := e, cb_recv := r, cb_sent := s\<rparr>)"

section \<open>Closing\<close>

definition client_abort_pcb :: "'p world \<Rightarrow> 'p world" where
  "client_abort_pcb w =
    (let w = ASSERT (allocated w \<and> \<not> aborted (client w)) w;
         w = ASSERT (pcb_live w \<and> \<not> cb_err w) w;
         w = log_event Do_tcp_abort (w\<lparr>pcb_live := False\<rparr>);
         w = with_client (\<lambda>c. c\<lparr>aborted := True\<rparr>) w
     in DEAD_KILL_WITH 1 w)"

definition client_dealloc :: "'p world \<Rightarrow> 'p world" where
  "client_dealloc w =
    (let w = ASSERT (allocated w \<and> client_closed (client w)) w;
         w = ASSERT (socks_closed (client w)) w;
         w = ASSERT (num_clients w > 0) w;
         w = w\<lparr>num_clients := num_clients w - 1\<rparr>;
         w = (if \<not> aborted (client w) then DEAD_KILL_WITH (-1) w else w)
     in log_event Do_free (w\<lparr>allocated := False\<rparr>))"

definition BSocksClient_Free_call :: "'p world \<Rightarrow> 'p world" where
  "BSocksClient_Free_call w =
    log_event Do_socks_free (ASSERT (socks_live w) (w\<lparr>socks_live := False, socks_sending := None, socks_receiving := False\<rparr>))"

text \<open>\<open>tcp_err\<close>, \<open>tcp_recv\<close>, \<open>tcp_sent\<close> with \<open>NULL\<close>, then \<open>tcp_close\<close> with its fallback.\<close>

definition client_close_pcb :: "'p lwip \<Rightarrow> 'p world \<Rightarrow> 'p world" where
  "client_close_pcb lw w =
    (let w = set_callbacks False False False w;
         w = ASSERT (pcb_live w) w;
         (err, p) = tcp_close lw (pcb (client w));
         w = log_event (Do_tcp_close err) (with_client (\<lambda>c. c\<lparr>pcb := p\<rparr>) w)
     in if err \<noteq> ERR_OK then client_abort_pcb w else w\<lparr>pcb_live := False\<rparr>)"

text \<open>
  The three functions call each other; the order on calls is that freeing SOCKS for an open
  client is above freeing the client, which is above handling a freed client.
\<close>

definition client_mark_closed :: "'p world \<Rightarrow> 'p world" where
  "client_mark_closed w = with_client (\<lambda>c. c\<lparr>client_closed := True\<rparr>) (ASSERT (allocated w \<and> \<not> client_closed (client w)) w)"

definition client_stop_socks :: "'p world \<Rightarrow> 'p world" where
  "client_stop_socks w =
    (let w = ASSERT (allocated w \<and> \<not> socks_closed (client w)) w;
         w = (if socks_up (client w) \<and> \<not> client_closed (client w)
              then set_callbacks (cb_err w) False (cb_sent w) w else w);
         w = BSocksClient_Free_call w
     in with_client (\<lambda>c. c\<lparr>socks_closed := True\<rparr>) w)"

lemma sel_ASSERT [simp]:
  "client (ASSERT b w) = client w"
  "allocated (ASSERT b w) = allocated w"
  "num_clients (ASSERT b w) = num_clients w"
  "pcb_live (ASSERT b w) = pcb_live w"
  "cb_err (ASSERT b w) = cb_err w"
  "cb_recv (ASSERT b w) = cb_recv w"
  "cb_sent (ASSERT b w) = cb_sent w"
  "socks_live (ASSERT b w) = socks_live w"
  "socks_sending (ASSERT b w) = socks_sending w"
  "socks_receiving (ASSERT b w) = socks_receiving w"
  "frame (ASSERT b w) = frame w"
  "frames_made (ASSERT b w) = frames_made w"
  "in_sync (ASSERT b w) = in_sync w"
  "ret (ASSERT b w) = ret w"
  "fault (ASSERT b w) = (fault w \<or> \<not> b)"
  "trace (ASSERT b w) = trace w"
  by (simp_all add: ASSERT_def)

lemma sel_log_event [simp]:
  "client (log_event e w) = client w"
  "allocated (log_event e w) = allocated w"
  "num_clients (log_event e w) = num_clients w"
  "pcb_live (log_event e w) = pcb_live w"
  "cb_err (log_event e w) = cb_err w"
  "cb_recv (log_event e w) = cb_recv w"
  "cb_sent (log_event e w) = cb_sent w"
  "socks_live (log_event e w) = socks_live w"
  "socks_sending (log_event e w) = socks_sending w"
  "socks_receiving (log_event e w) = socks_receiving w"
  "frame (log_event e w) = frame w"
  "frames_made (log_event e w) = frames_made w"
  "in_sync (log_event e w) = in_sync w"
  "ret (log_event e w) = ret w"
  "fault (log_event e w) = fault w"
  "trace (log_event e w) = trace w @ [e]"
  by (simp_all add: log_event_def)

lemma sel_with_client [simp]:
  "client (with_client g w) = g (client w)"
  "allocated (with_client g w) = allocated w"
  "num_clients (with_client g w) = num_clients w"
  "pcb_live (with_client g w) = pcb_live w"
  "cb_err (with_client g w) = cb_err w"
  "cb_recv (with_client g w) = cb_recv w"
  "cb_sent (with_client g w) = cb_sent w"
  "socks_live (with_client g w) = socks_live w"
  "socks_sending (with_client g w) = socks_sending w"
  "socks_receiving (with_client g w) = socks_receiving w"
  "frame (with_client g w) = frame w"
  "frames_made (with_client g w) = frames_made w"
  "in_sync (with_client g w) = in_sync w"
  "ret (with_client g w) = ret w"
  "fault (with_client g w) = (fault w \<or> \<not> allocated w)"
  "trace (with_client g w) = trace w"
  by (simp_all add: with_client_def)

lemma sel_set_callbacks [simp]:
  "client (set_callbacks e r s w) = client w"
  "allocated (set_callbacks e r s w) = allocated w"
  "num_clients (set_callbacks e r s w) = num_clients w"
  "pcb_live (set_callbacks e r s w) = pcb_live w"
  "cb_err (set_callbacks e r s w) = e"
  "cb_recv (set_callbacks e r s w) = r"
  "cb_sent (set_callbacks e r s w) = s"
  "socks_live (set_callbacks e r s w) = socks_live w"
  "socks_sending (set_callbacks e r s w) = socks_sending w"
  "socks_receiving (set_callbacks e r s w) = socks_receiving w"
  "frame (set_callbacks e r s w) = frame w"
  "frames_made (set_callbacks e r s w) = frames_made w"
  "in_sync (set_callbacks e r s w) = in_sync w"
  "ret (set_callbacks e r s w) = ret w"
  "fault (set_callbacks e r s w) = (fault w \<or> \<not> pcb_live w)"
  "trace (set_callbacks e r s w) = trace w"
  by (simp_all add: set_callbacks_def)

lemma sel_socks_free [simp]:
  "client (BSocksClient_Free_call w) = client w"
  "allocated (BSocksClient_Free_call w) = allocated w"
  "num_clients (BSocksClient_Free_call w) = num_clients w"
  "pcb_live (BSocksClient_Free_call w) = pcb_live w"
  "cb_err (BSocksClient_Free_call w) = cb_err w"
  "cb_recv (BSocksClient_Free_call w) = cb_recv w"
  "cb_sent (BSocksClient_Free_call w) = cb_sent w"
  "socks_live (BSocksClient_Free_call w) = False"
  "socks_sending (BSocksClient_Free_call w) = None"
  "socks_receiving (BSocksClient_Free_call w) = False"
  "frame (BSocksClient_Free_call w) = frame w"
  "frames_made (BSocksClient_Free_call w) = frames_made w"
  "in_sync (BSocksClient_Free_call w) = in_sync w"
  "ret (BSocksClient_Free_call w) = ret w"
  "fault (BSocksClient_Free_call w) = (fault w \<or> \<not> socks_live w)"
  "trace (BSocksClient_Free_call w) = trace w @ [Do_socks_free]"
  by (simp_all add: BSocksClient_Free_call_def)

lemma ASSERT_True [simp]: "b \<Longrightarrow> ASSERT b w = w"
  by (simp add: ASSERT_def)

lemma client_kill [simp]: "client (DEAD_KILL_WITH v w) = client w"
  by (simp add: DEAD_KILL_WITH_def split: option.splits)

lemma sel_mark_closed [simp]:
  "client (client_mark_closed w) = (client w)\<lparr>client_closed := True\<rparr>"
  "allocated (client_mark_closed w) = allocated w"
  "num_clients (client_mark_closed w) = num_clients w"
  "pcb_live (client_mark_closed w) = pcb_live w"
  "cb_err (client_mark_closed w) = cb_err w"
  "cb_recv (client_mark_closed w) = cb_recv w"
  "cb_sent (client_mark_closed w) = cb_sent w"
  "socks_live (client_mark_closed w) = socks_live w"
  "socks_sending (client_mark_closed w) = socks_sending w"
  "socks_receiving (client_mark_closed w) = socks_receiving w"
  "frame (client_mark_closed w) = frame w"
  "frames_made (client_mark_closed w) = frames_made w"
  "in_sync (client_mark_closed w) = in_sync w"
  "ret (client_mark_closed w) = ret w"
  "fault (client_mark_closed w) = (fault w \<or> \<not> (allocated w \<and> \<not> client_closed (client w)))"
  "trace (client_mark_closed w) = trace w"
  by (auto simp: client_mark_closed_def)

lemma sel_stop_socks [simp]:
  "client (client_stop_socks w) = (client w)\<lparr>socks_closed := True\<rparr>"
  "allocated (client_stop_socks w) = allocated w"
  "num_clients (client_stop_socks w) = num_clients w"
  "pcb_live (client_stop_socks w) = pcb_live w"
  "cb_err (client_stop_socks w) = cb_err w"
  "cb_recv (client_stop_socks w) = (cb_recv w \<and> \<not> (socks_up (client w) \<and> \<not> client_closed (client w)))"
  "cb_sent (client_stop_socks w) = cb_sent w"
  "socks_live (client_stop_socks w) = False"
  "socks_sending (client_stop_socks w) = None"
  "socks_receiving (client_stop_socks w) = False"
  "frame (client_stop_socks w) = frame w"
  "frames_made (client_stop_socks w) = frames_made w"
  "in_sync (client_stop_socks w) = in_sync w"
  "ret (client_stop_socks w) = ret w"
  "fault (client_stop_socks w) = (fault w \<or> \<not> allocated w \<or> socks_closed (client w) \<or> socks_up (client w) \<and> \<not> client_closed (client w) \<and> \<not> pcb_live w \<or> \<not> socks_live w)"
  "trace (client_stop_socks w) = trace w @ [Do_socks_free]"
  by (auto simp: client_stop_socks_def Let_def)

function client_handle_freed_client :: "'p lwip \<Rightarrow> 'p world \<Rightarrow> 'p world"
  and client_free_client :: "'p lwip \<Rightarrow> 'p world \<Rightarrow> 'p world"
  and client_free_socks :: "'p lwip \<Rightarrow> 'p world \<Rightarrow> 'p world" where
  "client_handle_freed_client lw w =
    (let w = client_mark_closed w in
     if buf_used (client w) > 0 \<and> \<not> socks_closed (client w) then w
     else if \<not> socks_closed (client w) then client_free_socks lw w
     else client_dealloc w)"
| "client_free_client lw w =
    client_handle_freed_client lw (client_close_pcb lw (ASSERT (allocated w \<and> \<not> client_closed (client w)) w))"
| "client_free_socks lw w =
    (let w = client_stop_socks w; c = client w in
     if socks_up c \<and> (socks_recv_buf_used c \<ge> 0 \<or> socks_recv_tcp_pending c > 0) \<and> \<not> client_closed c then w
     else if \<not> client_closed c then client_free_client lw w
     else client_dealloc w)"
  by pat_completeness auto
termination
  by (relation "measure (\<lambda>x. case x of Inl (lw, w) \<Rightarrow> 1
      | Inr (Inl (lw, w)) \<Rightarrow> 2
      | Inr (Inr (lw, w)) \<Rightarrow> if client_closed (client w) then 0 else 3)") auto

declare client_handle_freed_client.simps [simp del] client_free_client.simps [simp del]
  client_free_socks.simps [simp del]

definition client_abort_client :: "'p lwip \<Rightarrow> 'p world \<Rightarrow> 'p world" where
  "client_abort_client lw w =
    (let w = ASSERT (allocated w \<and> \<not> client_closed (client w)) w;
         w = set_callbacks False False False w;
         w = client_abort_pcb w
     in client_handle_freed_client lw w)"

definition client_murder :: "'p world \<Rightarrow> 'p world" where
  "client_murder w =
    (let w = (if \<not> client_closed (client w)
              then with_client (\<lambda>c. c\<lparr>client_closed := True\<rparr>) (client_abort_pcb (set_callbacks False False False w))
              else w);
         w = (if \<not> socks_closed (client w)
              then with_client (\<lambda>c. c\<lparr>socks_closed := True\<rparr>) (BSocksClient_Free_call w)
              else w)
     in client_dealloc w)"

section \<open>From the client to SOCKS\<close>

definition callback_leave :: "'p world \<Rightarrow> 'p world" where
  "callback_leave w =
    (let k = (case frame w of Some f \<Rightarrow> killed f | None \<Rightarrow> 0);
         w = DEAD_LEAVE2 w
     in w\<lparr>in_sync := False, ret := Some (if k > 0 then ERR_ABRT else ERR_OK)\<rparr>)"

text \<open>\<open>StreamPassInterface_Sender_Send\<close> with the used part of the buffer.\<close>

definition socks_send_buf :: "'p world \<Rightarrow> 'p world" where
  "socks_send_buf w =
    (let d = take (buf_used (client w)) (buf (client w)) in
     log_event (Do_socks_send d)
       (ASSERT (socks_live w \<and> socks_sending w = None \<and> d \<noteq> []) (w\<lparr>socks_sending := Some d\<rparr>)))"

definition client_send_to_socks :: "'p world \<Rightarrow> 'p world" where
  "client_send_to_socks w =
    (let w = ASSERT (allocated w \<and> \<not> socks_closed (client w)) w;
         w = ASSERT (socks_up (client w)) w;
         w = ASSERT (buf_used (client w) > 0) w
     in socks_send_buf w)"

definition client_err_func :: "'p lwip \<Rightarrow> 'p world \<Rightarrow> 'p world" where
  "client_err_func lw w =
    client_handle_freed_client lw (ASSERT (allocated w \<and> \<not> client_closed (client w)) w)"

text \<open>
  The pbuf is its contents, \<open>None\<close> the null pointer of a closed connection. On the path with
  \<open>SYNC_COMMIT\<close> the function stops there; \<open>callback_leave\<close> is what follows.
\<close>

definition client_recv_func :: "'p lwip \<Rightarrow> bytes option \<Rightarrow> 'p world \<Rightarrow> 'p world" where
  "client_recv_func lw p w =
    (let w = ASSERT (allocated w \<and> \<not> client_closed (client w)) w;
         w = DEAD_ENTER w
     in case p of
       None \<Rightarrow> callback_leave (client_free_client lw w)
     | Some data \<Rightarrow>
        (let w = ASSERT (length data > 0) w in
         if length data > TCP_WND - buf_used (client w) then (DEAD_LEAVE2 w)\<lparr>ret := Some ERR_MEM\<rparr>
         else
          let w = with_client (\<lambda>c. c\<lparr>buf := blit (buf c) (buf_used c) data, buf_used := buf_used c + length data\<rparr>) w
          in if buf_used (client w) = length data \<and> socks_up (client w)
             then (let w = ASSERT (\<not> socks_closed (client w)) w in (client_send_to_socks w)\<lparr>in_sync := True\<rparr>)
             else callback_leave w))"

definition client_socks_send_handler_done :: "'p lwip \<Rightarrow> nat \<Rightarrow> 'p world \<Rightarrow> 'p world" where
  "client_socks_send_handler_done lw data_len w =
    (let w = ASSERT (allocated w \<and> \<not> socks_closed (client w)) w;
         w = ASSERT (socks_up (client w)) w;
         w = ASSERT (buf_used (client w) > 0) w;
         w = ASSERT (data_len > 0) w;
         w = ASSERT (data_len \<le> buf_used (client w)) w;
         w = with_client (\<lambda>c. c\<lparr>buf := blit (buf c) 0 (bslice data_len (buf_used c - data_len) (buf c)),
               buf_used := buf_used c - data_len\<rparr>) w;
         w = (if \<not> client_closed (client w)
              then log_event (Do_tcp_recved data_len)
                 (ASSERT (pcb_live w) (with_client (\<lambda>c. c\<lparr>pcb := tcp_recved lw (pcb c) data_len\<rparr>) w))
              else w)
     in if buf_used (client w) > 0 then socks_send_buf w
        else if client_closed (client w) then client_free_socks lw w
        else w)"

section \<open>From SOCKS to the client\<close>

definition client_socks_recv_initiate :: "'p world \<Rightarrow> 'p world" where
  "client_socks_recv_initiate w =
    (let w = ASSERT (allocated w \<and> \<not> client_closed (client w)) w;
         w = ASSERT (\<not> socks_closed (client w)) w;
         w = ASSERT (socks_up (client w)) w;
         w = ASSERT (socks_recv_buf_used (client w) = -1) w
     in log_event Do_socks_recv (ASSERT (socks_live w \<and> \<not> socks_receiving w) (w\<lparr>socks_receiving := True\<rparr>)))"

text \<open>
  One round of the loop of \<open>client_socks_recv_send_out\<close>. A negative amount cannot arise unless
  an assertion was violated before; it counts as a fault.
\<close>

datatype write_result = Write_Break | Write_Abort | Write_Done

definition send_out_write :: "'p lwip \<Rightarrow> 'p world \<Rightarrow> 'p world \<times> write_result" where
  "send_out_write lw w =
    (let c = client w;
         to_write = min (socks_recv_buf_used c - socks_recv_buf_sent c) (int (tcp_sndbuf lw (pcb c)))
     in if to_write = 0 then (w, Write_Break)
        else if to_write < 0 then (ASSERT False w, Write_Break)
        else
         let data = bslice (nat (socks_recv_buf_sent c)) (nat to_write) (socks_recv_buf c);
             (err, p) = tcp_write lw (pcb c) data;
             w = ASSERT (pcb_live w) (with_client (\<lambda>c. c\<lparr>pcb := p\<rparr>) w)
         in if err \<noteq> ERR_OK then
              (if err = ERR_MEM then (w, Write_Break) else (client_abort_client lw w, Write_Abort))
            else
             (log_event (Do_tcp_write data) (with_client (\<lambda>c. c\<lparr>socks_recv_buf_sent := socks_recv_buf_sent c + to_write,
                socks_recv_tcp_pending := socks_recv_tcp_pending c + to_write\<rparr>) w), Write_Done))"

lemma send_out_write_progress:
  assumes "send_out_write lw w = (w', Write_Done)"
  shows "socks_recv_buf_sent (client w) < socks_recv_buf_sent (client w')
    \<and> socks_recv_buf_used (client w') = socks_recv_buf_used (client w)"
  using assms by (auto simp: send_out_write_def Let_def split: if_splits prod.splits)

text \<open>The loop; the flag says whether the client was aborted.\<close>

function send_out_loop :: "'p lwip \<Rightarrow> 'p world \<Rightarrow> 'p world \<times> bool" where
  "send_out_loop lw w =
    (case send_out_write lw w of
       (w', Write_Abort) \<Rightarrow> (w', True)
     | (w', Write_Break) \<Rightarrow> (w', False)
     | (w', Write_Done) \<Rightarrow>
        if socks_recv_buf_sent (client w') < socks_recv_buf_used (client w')
        then send_out_loop lw w' else (w', False))"
  by pat_completeness auto
termination
proof (relation "measure (\<lambda>(lw, w). nat (socks_recv_buf_used (client w) - socks_recv_buf_sent (client w)))")
  fix lw :: "'p lwip" and w w' y
  assume "(w', y) = send_out_write lw w" "y = Write_Done"
    "socks_recv_buf_sent (client w') < socks_recv_buf_used (client w')"
  with send_out_write_progress [of lw w w']
  show "((lw, w'), lw, w) \<in> measure (\<lambda>(lw, w). nat (socks_recv_buf_used (client w) - socks_recv_buf_sent (client w)))"
    by simp
qed simp

declare send_out_loop.simps [simp del]

text \<open>The flag says whether the function returned -1.\<close>

definition client_socks_recv_send_out :: "'p lwip \<Rightarrow> 'p world \<Rightarrow> 'p world \<times> bool" where
  "client_socks_recv_send_out lw w =
    (let c = client w;
         w = ASSERT (allocated w \<and> \<not> client_closed c) w;
         w = ASSERT (socks_up c) w;
         w = ASSERT (socks_recv_buf_used c > 0) w;
         w = ASSERT (socks_recv_buf_sent c < socks_recv_buf_used c) w;
         w = ASSERT (\<not> socks_recv_waiting c) w;
         (w, stop) = send_out_loop lw w
     in if stop then (w, True)
        else
         let (err, p) = tcp_output lw (pcb (client w));
             w = ASSERT (pcb_live w) (with_client (\<lambda>c. c\<lparr>pcb := p\<rparr>) w);
             c = client w
         in if err \<noteq> ERR_OK then (client_abort_client lw w, True)
            else if socks_recv_buf_sent c < socks_recv_buf_used c then
              (if socks_recv_tcp_pending c = 0 then (client_abort_client lw w, True)
               else (with_client (\<lambda>c. c\<lparr>socks_recv_waiting := True\<rparr>) w, False))
            else (with_client (\<lambda>c. c\<lparr>socks_recv_buf_used := -1\<rparr>) w, False))"

definition client_socks_recv_handler_done :: "'p lwip \<Rightarrow> nat \<Rightarrow> 'p world \<Rightarrow> 'p world" where
  "client_socks_recv_handler_done lw data_len w =
    (let c = client w;
         w = ASSERT (allocated w \<and> data_len > 0) w;
         w = ASSERT (data_len \<le> CLIENT_SOCKS_RECV_BUF_SIZE) w;
         w = ASSERT (\<not> socks_closed c) w;
         w = ASSERT (socks_up c) w;
         w = ASSERT (socks_recv_buf_used c = -1) w
     in if client_closed c then w
        else
         let w = with_client (\<lambda>c. c\<lparr>socks_recv_buf_used := int data_len, socks_recv_buf_sent := 0,
                   socks_recv_waiting := False\<rparr>) w;
             (w, stop) = client_socks_recv_send_out lw w
         in if stop then w
            else
             let w = ASSERT (allocated w) w in
             if socks_recv_buf_used (client w) = -1 then client_socks_recv_initiate w else w)"

definition client_sent_func :: "'p lwip \<Rightarrow> nat \<Rightarrow> 'p world \<Rightarrow> 'p world" where
  "client_sent_func lw len w =
    (let c = client w;
         w = ASSERT (allocated w \<and> \<not> client_closed c) w;
         w = ASSERT (socks_up c) w;
         w = ASSERT (len > 0) w;
         w = ASSERT (int len \<le> socks_recv_tcp_pending c) w;
         w = DEAD_ENTER w;
         w = with_client (\<lambda>c. c\<lparr>socks_recv_tcp_pending := socks_recv_tcp_pending c - int len\<rparr>) w;
         c = client w
     in if socks_recv_buf_used c > 0 then
          let w = ASSERT (socks_recv_waiting c) w;
              w = ASSERT (socks_recv_buf_sent c < socks_recv_buf_used c) w;
              w = with_client (\<lambda>c. c\<lparr>socks_recv_waiting := False\<rparr>) w;
              (w, stop) = client_socks_recv_send_out lw w
          in if stop then callback_leave w
             else
              let w = ASSERT (allocated w \<and> socks_recv_tcp_pending (client w) > 0) w in
              if socks_recv_buf_used (client w) = -1 \<and> \<not> socks_closed (client w)
              then (client_socks_recv_initiate w)\<lparr>in_sync := True\<rparr>
              else callback_leave w
        else if socks_closed c \<and> socks_recv_tcp_pending c = 0 then callback_leave (client_free_client lw w)
        else callback_leave w)"

section \<open>SOCKS events and accepting\<close>

definition client_socks_handler :: "'p lwip \<Rightarrow> socks_event \<Rightarrow> 'p world \<Rightarrow> 'p world" where
  "client_socks_handler lw event w =
    (let w = ASSERT (allocated w \<and> \<not> socks_closed (client w)) w in
     case event of
       BSOCKSCLIENT_EVENT_ERROR \<Rightarrow> client_free_socks lw w
     | BSOCKSCLIENT_EVENT_UP \<Rightarrow>
        (let w = ASSERT (\<not> socks_up (client w)) w;
             w = with_client (\<lambda>c. c\<lparr>socks_recv_buf_used := -1, socks_recv_tcp_pending := 0\<rparr>) w;
             w = (if \<not> client_closed (client w) then set_callbacks (cb_err w) (cb_recv w) True w else w);
             w = with_client (\<lambda>c. c\<lparr>socks_up := True\<rparr>) w;
             w = (if buf_used (client w) > 0 then client_send_to_socks w else w)
         in if \<not> client_closed (client w) then client_socks_recv_initiate w else w)
     | BSOCKSCLIENT_EVENT_ERROR_CLOSED \<Rightarrow> client_free_socks lw (ASSERT (socks_up (client w)) w))"

text \<open>\<open>ip_addr_t\<close> and \<open>baddr_from_lwip\<close>.\<close>

datatype lwip_ip = Ip4 "32 word" | Ip6 bytes

definition baddr_from_lwip :: "lwip_ip \<Rightarrow> 16 word \<Rightarrow> BAddr" where
  "baddr_from_lwip ip port_hostorder =
    (case ip of Ip6 a \<Rightarrow> BAddr_IPv6 a (hton16 port_hostorder) | Ip4 a \<Rightarrow> BAddr_IPv4 a (hton16 port_hostorder))"

text \<open>
  What the listener gets and how the calls it makes answer: \<open>accept_mem\<close> is the allocated
  struct (\<open>None\<close> when \<open>malloc\<close> fails), whose fields hold whatever the memory held;
  \<open>accept_username\<close> is what \<open>concat_strings\<close> returns when the source address is to be
  appended to the user name, \<open>None\<close> in the outer option when it is not.
\<close>

record 'p accept_env =
  accept_mem :: "'p tcp_client option"
  accept_local :: "lwip_ip \<times> 16 word"
  accept_remote :: "lwip_ip \<times> 16 word"
  accept_username :: "string option option"
  accept_socks_ok :: bool

definition listener_accept_func :: "'p accept_env \<Rightarrow> 'p \<Rightarrow> 'p world \<Rightarrow> 'p world" where
  "listener_accept_func e newpcb w =
    (case accept_mem e of
       None \<Rightarrow> w\<lparr>ret := Some ERR_MEM\<rparr>
     | Some c \<Rightarrow>
        if accept_username e = Some None then w\<lparr>ret := Some ERR_MEM\<rparr>
        else if \<not> accept_socks_ok e then w\<lparr>ret := Some ERR_MEM\<rparr>
        else
         let c = c\<lparr>socks_username := (case accept_username e of Some u \<Rightarrow> u | None \<Rightarrow> None),
                   local_addr := baddr_from_lwip (fst (accept_local e)) (snd (accept_local e)),
                   remote_addr := baddr_from_lwip (fst (accept_remote e)) (snd (accept_remote e)),
                   aborted := False, dead_aborted := None, pcb := newpcb, client_closed := False,
                   buf_used := 0, socks_up := False, socks_closed := False\<rparr>;
             w = w\<lparr>client := c, allocated := True, num_clients := num_clients w + 1,
                   socks_live := True, socks_sending := None, socks_receiving := False\<rparr>;
             w = set_callbacks True True False w;
             w = DEAD_ENTER w
         in w\<lparr>in_sync := True\<rparr>)"

section \<open>The environment\<close>

text \<open>What the trace says about the two directions.\<close>

definition from_client :: "event list \<Rightarrow> bytes" where
  "from_client t = concat (map (\<lambda>e. case e of Ev_ClientData d \<Rightarrow> d | _ \<Rightarrow> []) t)"

definition to_socks :: "event list \<Rightarrow> bytes" where
  "to_socks t = concat (map (\<lambda>e. case e of Ev_SocksAccepted d \<Rightarrow> d | _ \<Rightarrow> []) t)"

definition from_socks :: "event list \<Rightarrow> bytes" where
  "from_socks t = concat (map (\<lambda>e. case e of Ev_SocksData d \<Rightarrow> d | _ \<Rightarrow> []) t)"

definition to_client :: "event list \<Rightarrow> bytes" where
  "to_client t = concat (map (\<lambda>e. case e of Do_tcp_write d \<Rightarrow> d | _ \<Rightarrow> []) t)"

definition recved :: "event list \<Rightarrow> nat" where
  "recved t = sum_list (map (\<lambda>e. case e of Do_tcp_recved n \<Rightarrow> n | _ \<Rightarrow> 0) t)"

definition acked :: "event list \<Rightarrow> nat" where
  "acked t = sum_list (map (\<lambda>e. case e of Ev_ClientAcked n \<Rightarrow> n | _ \<Rightarrow> 0) t)"

text \<open>
  What can end a direction before all its data are through. The SOCKS connection is gone when it reported an error or was closed,
  the client when it reset the connection or closed its side of it (a FIN makes the relay close the pcb at once, for both directions), or when the program aborted
  the pcb; both when the program shuts down.
\<close>

definition socks_gone :: "event list \<Rightarrow> bool" where
  "socks_gone t \<longleftrightarrow> Ev_SocksError \<in> set t \<or> Ev_SocksClosed \<in> set t \<or> Ev_Murder \<in> set t"

definition client_gone :: "event list \<Rightarrow> bool" where
  "client_gone t \<longleftrightarrow> Ev_ClientErr \<in> set t \<or> Ev_ClientFin \<in> set t \<or> Do_tcp_abort \<in> set t \<or> Ev_Murder \<in> set t"

lemma trace_append [simp]:
  "from_client (t @ u) = from_client t @ from_client u" "to_socks (t @ u) = to_socks t @ to_socks u"
  "from_socks (t @ u) = from_socks t @ from_socks u" "to_client (t @ u) = to_client t @ to_client u"
  "recved (t @ u) = recved t + recved u" "acked (t @ u) = acked t + acked u"
  "socks_gone (t @ u) \<longleftrightarrow> socks_gone t \<or> socks_gone u"
  "client_gone (t @ u) \<longleftrightarrow> client_gone t \<or> client_gone u"
  by (auto simp: from_client_def to_socks_def from_socks_def to_client_def recved_def acked_def
      socks_gone_def client_gone_def)

lemma trace_Cons [simp]:
  "from_client (e # t) = (case e of Ev_ClientData d \<Rightarrow> d | _ \<Rightarrow> []) @ from_client t"
  "to_socks (e # t) = (case e of Ev_SocksAccepted d \<Rightarrow> d | _ \<Rightarrow> []) @ to_socks t"
  "from_socks (e # t) = (case e of Ev_SocksData d \<Rightarrow> d | _ \<Rightarrow> []) @ from_socks t"
  "to_client (e # t) = (case e of Do_tcp_write d \<Rightarrow> d | _ \<Rightarrow> []) @ to_client t"
  "recved (e # t) = (case e of Do_tcp_recved n \<Rightarrow> n | _ \<Rightarrow> 0) + recved t"
  "acked (e # t) = (case e of Ev_ClientAcked n \<Rightarrow> n | _ \<Rightarrow> 0) + acked t"
  "socks_gone (e # t) \<longleftrightarrow> e = Ev_SocksError \<or> e = Ev_SocksClosed \<or> e = Ev_Murder \<or> socks_gone t"
  "client_gone (e # t) \<longleftrightarrow> e = Ev_ClientErr \<or> e = Ev_ClientFin \<or> e = Do_tcp_abort \<or> e = Ev_Murder \<or> client_gone t"
  by (auto simp: from_client_def to_socks_def from_socks_def to_client_def recved_def acked_def
      socks_gone_def client_gone_def)

lemma trace_Nil [simp]:
  "from_client [] = []" "to_socks [] = []" "from_socks [] = []" "to_client [] = []" "recved [] = 0" "acked [] = 0"
  "\<not> socks_gone []" "\<not> client_gone []"
  by (simp_all add: from_client_def to_socks_def from_socks_def to_client_def recved_def acked_def
      socks_gone_def client_gone_def)

text \<open>
  A step is one call of lwIP or of the SOCKS client, or the end of \<open>SYNC_COMMIT\<close>. The guards
  are what these two promise, in terms of what they know: a callback is called while it is
  registered and none is running, data stays within the window the program opened, only data
  written before is acknowledged; a send completes with what is in the buffer then, a receive
  after its data was stored. The guards do not say that the client still exists.
\<close>

inductive tstep :: "'p lwip \<Rightarrow> 'p world \<Rightarrow> 'p world \<Rightarrow> bool" for lw where
  step_data: "\<lbrakk>frame w = None; pcb_live w; cb_recv w; data \<noteq> [];
     length (from_client (trace w)) + length data \<le> TCP_WND + recved (trace w)\<rbrakk>
   \<Longrightarrow> tstep lw w (client_recv_func lw (Some data) (log_event (Ev_ClientData data) w))"
| step_fin: "\<lbrakk>frame w = None; pcb_live w; cb_recv w\<rbrakk>
   \<Longrightarrow> tstep lw w (client_recv_func lw None (log_event Ev_ClientFin w))"
| step_err: "\<lbrakk>frame w = None; pcb_live w; cb_err w\<rbrakk>
   \<Longrightarrow> tstep lw w (client_err_func lw (log_event Ev_ClientErr
        (w\<lparr>pcb_live := False, cb_err := False, cb_recv := False, cb_sent := False\<rparr>)))"
| step_sent: "\<lbrakk>frame w = None; pcb_live w; cb_sent w; 0 < n; n \<le> 65535;
     acked (trace w) + n \<le> length (to_client (trace w))\<rbrakk>
   \<Longrightarrow> tstep lw w (client_sent_func lw n (log_event (Ev_ClientAcked n) w))"
| step_socks_up: "\<lbrakk>socks_live w; Ev_SocksUp \<notin> set (trace w)\<rbrakk>
   \<Longrightarrow> tstep lw w (client_socks_handler lw BSOCKSCLIENT_EVENT_UP (log_event Ev_SocksUp w))"
| step_socks_error: "\<lbrakk>socks_live w\<rbrakk>
   \<Longrightarrow> tstep lw w (client_socks_handler lw BSOCKSCLIENT_EVENT_ERROR (log_event Ev_SocksError w))"
| step_socks_closed: "\<lbrakk>socks_live w; Ev_SocksUp \<in> set (trace w)\<rbrakk>
   \<Longrightarrow> tstep lw w (client_socks_handler lw BSOCKSCLIENT_EVENT_ERROR_CLOSED (log_event Ev_SocksClosed w))"
| step_send_done: "\<lbrakk>socks_sending w = Some d; 0 < n; n \<le> length d\<rbrakk>
   \<Longrightarrow> tstep lw w (client_socks_send_handler_done lw n
        (log_event (Ev_SocksAccepted (take n (buf (client w)))) (w\<lparr>socks_sending := None\<rparr>)))"
| step_recv_done: "\<lbrakk>socks_receiving w; data \<noteq> []; length data \<le> CLIENT_SOCKS_RECV_BUF_SIZE\<rbrakk>
   \<Longrightarrow> tstep lw w (client_socks_recv_handler_done lw (length data)
        (with_client (\<lambda>c. c\<lparr>socks_recv_buf := blit (socks_recv_buf c) 0 data\<rparr>)
          (log_event (Ev_SocksData data) (w\<lparr>socks_receiving := False\<rparr>))))"
| step_leave: "in_sync w \<Longrightarrow> tstep lw w (callback_leave w)"
| step_murder: "\<lbrakk>frame w = None; allocated w\<rbrakk> \<Longrightarrow> tstep lw w (client_murder (log_event Ev_Murder w))"

text \<open>A fresh connection is handed to the listener.\<close>

definition fresh_world :: "'p world \<Rightarrow> bool" where
  "fresh_world w \<longleftrightarrow> \<not> allocated w \<and> num_clients w \<ge> 0 \<and> pcb_live w \<and> \<not> cb_err w \<and> \<not> cb_recv w \<and> \<not> cb_sent w
    \<and> \<not> socks_live w \<and> socks_sending w = None \<and> \<not> socks_receiving w \<and> frame w = None \<and> \<not> in_sync w
    \<and> \<not> fault w \<and> trace w = []"

definition accept_env_ok :: "'p accept_env \<Rightarrow> bool" where
  "accept_env_ok e \<longleftrightarrow> (\<forall>c. accept_mem e = Some c \<longrightarrow>
    length (buf c) = TCP_WND \<and> length (socks_recv_buf c) = CLIENT_SOCKS_RECV_BUF_SIZE)"

definition accepted :: "'p world \<Rightarrow> bool" where
  "accepted w \<longleftrightarrow> (\<exists>e p w0. fresh_world w0 \<and> accept_env_ok e \<and> w = listener_accept_func e p w0)"

section \<open>The invariant\<close>

definition frame_ok :: "dead_frame option \<Rightarrow> bool \<Rightarrow> nat option \<Rightarrow> bool \<Rightarrow> event list \<Rightarrow> bool" where
  "frame_ok fr alloc dead ab t \<longleftrightarrow>
    (case fr of
       None \<Rightarrow> alloc \<longrightarrow> dead = None \<or> ab
     | Some f \<Rightarrow> prev_ptr f = None \<and> began f \<le> length t
        \<and> (killed f = 1 \<longleftrightarrow> Do_tcp_abort \<in> set (drop (began f) t))
        \<and> (if alloc then killed f = 0 \<and> dead = Some (frame_id f) \<and> \<not> ab \<or> killed f = 1 \<and> ab
           else killed f = 1 \<or> killed f = -1))"

definition frame_inv :: "'p world \<Rightarrow> bool" where
  "frame_inv w \<longleftrightarrow> frame_ok (frame w) (allocated w) (dead_aborted (client w)) (aborted (client w)) (trace w)"

definition buffers_inv :: "'p world \<Rightarrow> bool" where
  "buffers_inv w \<longleftrightarrow> (let c = client w in
    length (buf c) = TCP_WND \<and> buf_used c \<le> TCP_WND \<and> length (socks_recv_buf c) = CLIENT_SOCKS_RECV_BUF_SIZE
    \<and> from_client (trace w) = to_socks (trace w) @ take (buf_used c) (buf c)
    \<and> (\<not> client_closed c \<longrightarrow> recved (trace w) = length (to_socks (trace w)))
    \<and> (socks_up c \<longleftrightarrow> Ev_SocksUp \<in> set (trace w))
    \<and> (\<exists>r. from_socks (trace w) = to_client (trace w) @ r)
    \<and> (\<not> socks_up c \<longrightarrow> from_socks (trace w) = [] \<and> to_client (trace w) = [] \<and> acked (trace w) = 0))"

definition sending_inv :: "'p world \<Rightarrow> bool" where
  "sending_inv w \<longleftrightarrow> (let c = client w in
    socks_live w = (\<not> socks_closed c)
    \<and> ((socks_sending w \<noteq> None) \<longleftrightarrow> socks_up c \<and> \<not> socks_closed c \<and> buf_used c > 0)
    \<and> (\<forall>d. socks_sending w = Some d \<longrightarrow> d \<noteq> [] \<and> length d \<le> buf_used c \<and> take (length d) (buf c) = d)
    \<and> (socks_receiving w \<longrightarrow> socks_up c \<and> \<not> socks_closed c \<and> socks_recv_buf_used c = -1))"

definition receiving_inv :: "'p world \<Rightarrow> bool" where
  "receiving_inv w \<longleftrightarrow> (let c = client w in
    \<not> client_closed c \<and> socks_up c \<longrightarrow>
      (socks_recv_buf_used c = -1 \<and> from_socks (trace w) = to_client (trace w)
       \<or> 0 \<le> socks_recv_buf_sent c \<and> socks_recv_buf_sent c < socks_recv_buf_used c
         \<and> socks_recv_buf_used c \<le> int CLIENT_SOCKS_RECV_BUF_SIZE
         \<and> from_socks (trace w) = to_client (trace w)
             @ bslice (nat (socks_recv_buf_sent c)) (nat (socks_recv_buf_used c - socks_recv_buf_sent c)) (socks_recv_buf c))
      \<and> socks_recv_tcp_pending c = int (length (to_client (trace w))) - int (acked (trace w))
      \<and> acked (trace w) \<le> length (to_client (trace w)))"

text \<open>Between callbacks: waiting for acknowledgements when data is left, receiving otherwise.\<close>

definition idle_inv :: "'p world \<Rightarrow> bool" where
  "idle_inv w \<longleftrightarrow> (let c = client w in
    \<not> client_closed c \<and> socks_up c \<longrightarrow>
      (socks_recv_buf_used c \<noteq> -1 \<longrightarrow> socks_recv_waiting c \<and> socks_recv_tcp_pending c > 0)
      \<and> (\<not> socks_closed c \<longrightarrow> socks_receiving w = (socks_recv_buf_used c = -1)))"

definition pcb_inv :: "'p world \<Rightarrow> bool" where
  "pcb_inv w \<longleftrightarrow> (let c = client w in
    pcb_live w = (\<not> client_closed c) \<and> cb_err w = (\<not> client_closed c)
    \<and> cb_recv w = (\<not> client_closed c \<and> \<not> socks_closed c) \<and> cb_sent w = (\<not> client_closed c \<and> socks_up c)
    \<and> (aborted c \<longrightarrow> client_closed c))"

definition closing_inv :: "'p world \<Rightarrow> bool" where
  "closing_inv w \<longleftrightarrow> (let c = client w in
    (socks_closed c \<longrightarrow> socks_up c \<and> \<not> client_closed c \<and> (socks_recv_buf_used c \<ge> 0 \<or> socks_recv_tcp_pending c > 0)
      \<and> socks_gone (trace w))
    \<and> (client_closed c \<longrightarrow> buf_used c > 0 \<and> client_gone (trace w)))"

definition ended_inv :: "'p world \<Rightarrow> bool" where
  "ended_inv w \<longleftrightarrow> \<not> cb_err w \<and> \<not> cb_recv w \<and> \<not> cb_sent w \<and> \<not> socks_live w \<and> socks_sending w = None \<and> \<not> socks_receiving w
    \<and> (\<exists>r. from_client (trace w) = to_socks (trace w) @ r) \<and> (\<exists>r. from_socks (trace w) = to_client (trace w) @ r)
    \<and> (\<not> socks_gone (trace w) \<longrightarrow> to_socks (trace w) = from_client (trace w))
    \<and> (\<not> client_gone (trace w) \<longrightarrow> to_client (trace w) = from_socks (trace w)
        \<and> acked (trace w) = length (to_client (trace w)))"

definition core_inv :: "'p world \<Rightarrow> bool" where
  "core_inv w \<longleftrightarrow> \<not> fault w \<and> frame_inv w \<and> num_clients w \<ge> 0
    \<and> (if allocated w then
         num_clients w > 0 \<and> buffers_inv w \<and> sending_inv w \<and> receiving_inv w \<and> idle_inv w \<and> pcb_inv w \<and> closing_inv w
       else ended_inv w)"

definition winv :: "'p world \<Rightarrow> bool" where
  "winv w \<longleftrightarrow> core_inv w \<and> (in_sync w \<longleftrightarrow> frame w \<noteq> None)"

section \<open>Callback frames are kept by the inner functions\<close>

lemma kill_frames [simp]:
  "frame (DEAD_KILL_WITH v w) = None \<longleftrightarrow> frame w = None" "in_sync (DEAD_KILL_WITH v w) = in_sync w"
  by (simp_all add: DEAD_KILL_WITH_def split: option.splits)

lemma close_frames [simp]:
  "frame (client_abort_pcb w) = None \<longleftrightarrow> frame w = None" "in_sync (client_abort_pcb w) = in_sync w"
  "frame (client_dealloc w) = None \<longleftrightarrow> frame w = None" "in_sync (client_dealloc w) = in_sync w"
  by (simp_all add: client_abort_pcb_def client_dealloc_def Let_def)

lemma close_pcb_frames [simp]:
  "frame (client_close_pcb lw w) = None \<longleftrightarrow> frame w = None" "in_sync (client_close_pcb lw w) = in_sync w"
  by (simp_all add: client_close_pcb_def Let_def split_beta)

lemma free_frames:
  "(frame (client_handle_freed_client lw w) = None \<longleftrightarrow> frame w = None) \<and> in_sync (client_handle_freed_client lw w) = in_sync w"
  "(frame (client_free_client lw w) = None \<longleftrightarrow> frame w = None) \<and> in_sync (client_free_client lw w) = in_sync w"
  "(frame (client_free_socks lw w) = None \<longleftrightarrow> frame w = None) \<and> in_sync (client_free_socks lw w) = in_sync w"
proof (induction lw w and lw w and lw w
    rule: client_handle_freed_client_client_free_client_client_free_socks.induct)
  case (1 lw w)
  then show ?case by (subst (1 2) client_handle_freed_client.simps) (simp add: Let_def)
next
  case (2 lw w)
  then show ?case by (subst (1 2) client_free_client.simps) (simp add: Let_def)
next
  case (3 lw w)
  then show ?case by (subst (1 2) client_free_socks.simps) (simp add: Let_def)
qed

lemmas free_frames_simps [simp] = free_frames [THEN conjunct1] free_frames [THEN conjunct2]

lemma abort_client_frames [simp]:
  "frame (client_abort_client lw w) = None \<longleftrightarrow> frame w = None" "in_sync (client_abort_client lw w) = in_sync w"
  by (simp_all add: client_abort_client_def Let_def)

lemma send_out_write_frames:
  "send_out_write lw w = (w', r) \<Longrightarrow> (frame w' = None \<longleftrightarrow> frame w = None) \<and> in_sync w' = in_sync w"
  by (auto simp: send_out_write_def Let_def split: if_splits prod.splits)

lemma send_out_loop_frames:
  "(frame (fst (send_out_loop lw w)) = None \<longleftrightarrow> frame w = None) \<and> in_sync (fst (send_out_loop lw w)) = in_sync w"
proof (induction lw w rule: send_out_loop.induct)
  case (1 lw w)
  obtain w' r where s: "send_out_write lw w = (w', r)" by fastforce
  then show ?case
    using send_out_write_frames [OF s] "1.IH" [OF s [symmetric]]
    by (cases r) (simp_all add: send_out_loop.simps [of lw w])
qed

lemmas send_out_loop_frames_simps [simp] = send_out_loop_frames [THEN conjunct1] send_out_loop_frames [THEN conjunct2]

lemma send_out_frames [simp]:
  "frame (fst (client_socks_recv_send_out lw w)) = None \<longleftrightarrow> frame w = None"
  "in_sync (fst (client_socks_recv_send_out lw w)) = in_sync w"
  by (simp_all add: client_socks_recv_send_out_def Let_def split_beta)

lemma handler_frames [simp]:
  "frame (client_send_to_socks w) = frame w" "in_sync (client_send_to_socks w) = in_sync w"
  "frame (socks_send_buf w) = frame w" "in_sync (socks_send_buf w) = in_sync w"
  "frame (client_socks_recv_initiate w) = frame w" "in_sync (client_socks_recv_initiate w) = in_sync w"
  by (simp_all add: client_send_to_socks_def socks_send_buf_def client_socks_recv_initiate_def Let_def)

section \<open>The closing functions establish the invariant\<close>

lemma frame_ok_log [simp]:
  "frame_ok fr al d a t \<Longrightarrow> Do_tcp_abort \<notin> set u \<Longrightarrow> frame_ok fr al d a (t @ u)"
  by (auto simp: frame_ok_def split: option.splits)

lemma frame_ok_abort:
  "frame_ok fr True d False t \<Longrightarrow> frame_ok (map_option (\<lambda>f. f\<lparr>killed := 1\<rparr>) fr) True d True (t @ [Do_tcp_abort])"
  by (auto simp: frame_ok_def split: option.splits)

lemma frame_ok_freed:
  "frame_ok fr True d False t \<Longrightarrow> frame_ok (map_option (\<lambda>f. f\<lparr>killed := - 1\<rparr>) fr) False d' a' t"
  "frame_ok fr True d True t \<Longrightarrow> frame_ok fr False d' a' t"
  by (auto simp: frame_ok_def split: option.splits)

lemma kill_exact:
  assumes "frame_ok (frame w) True (dead_aborted (client w)) False t"
  shows "DEAD_KILL_WITH v w = w\<lparr>frame := map_option (\<lambda>f. f\<lparr>killed := v\<rparr>) (frame w)\<rparr>"
  using assms by (cases "frame w") (auto simp: frame_ok_def DEAD_KILL_WITH_def)

lemma dealloc_core:
  assumes "allocated w" "client_closed (client w)" "socks_closed (client w)" "\<not> fault w" "frame_inv w"
    "num_clients w > 0" "ended_inv w"
  shows "core_inv (client_dealloc w)"
proof -
  have f: "frame_ok (frame w) True (dead_aborted (client w)) (aborted (client w)) (trace w)"
    using assms by (simp add: frame_inv_def)
  show ?thesis
    using assms f
    by (cases "aborted (client w)")
      (simp_all add: core_inv_def client_dealloc_def Let_def frame_inv_def ended_inv_def frame_ok_freed
        kill_exact [where t = "trace w"])
qed

text \<open>The client's pcb is gone; nothing else has changed.\<close>

definition pcb_gone :: "'p world \<Rightarrow> bool" where
  "pcb_gone w \<longleftrightarrow> allocated w \<and> \<not> fault w \<and> frame_inv w \<and> num_clients w > 0 \<and> \<not> client_closed (client w)
    \<and> \<not> pcb_live w \<and> \<not> cb_err w \<and> \<not> cb_recv w \<and> \<not> cb_sent w \<and> buffers_inv w \<and> sending_inv w
    \<and> (socks_closed (client w) \<longrightarrow> socks_gone (trace w))
    \<and> (client_gone (trace w) \<or> socks_closed (client w) \<and> to_client (trace w) = from_socks (trace w)
        \<and> acked (trace w) = length (to_client (trace w)))"

lemma handle_freed_core:
  assumes "pcb_gone w"
  shows "core_inv (client_handle_freed_client lw w)"
proof -
  let ?m = "client_mark_closed w"
  let ?s = "client_stop_socks ?m"
  note g = assms [unfolded pcb_gone_def]
  consider (wait) "buf_used (client w) > 0" "\<not> socks_closed (client w)"
    | (socks) "buf_used (client w) = 0" "\<not> socks_closed (client w)"
    | (both) "socks_closed (client w)" by blast
  then show ?thesis
  proof cases
    case wait
    then have "client_handle_freed_client lw w = ?m"
      by (simp add: client_handle_freed_client.simps [of lw w] Let_def)
    moreover have "core_inv ?m" using g wait
      by (clarsimp simp: core_inv_def frame_inv_def buffers_inv_def sending_inv_def
          receiving_inv_def idle_inv_def pcb_inv_def closing_inv_def Let_def)
    ultimately show ?thesis by simp
  next
    case socks
    then have "client_handle_freed_client lw w = client_dealloc ?s"
      by (simp add: client_handle_freed_client.simps [of lw w] client_free_socks.simps Let_def)
    moreover have "core_inv (client_dealloc ?s)"
      using g socks
      by (intro dealloc_core) (auto simp: frame_inv_def
          buffers_inv_def sending_inv_def ended_inv_def Let_def)
    ultimately show ?thesis by simp
  next
    case both
    then have "client_handle_freed_client lw w = client_dealloc ?m"
      by (simp add: client_handle_freed_client.simps [of lw w] Let_def)
    moreover have "core_inv (client_dealloc ?m)"
      using g both
      by (intro dealloc_core) (auto simp: frame_inv_def
          buffers_inv_def sending_inv_def ended_inv_def Let_def)
    ultimately show ?thesis by simp
  qed
qed

text \<open>An open pcb that is about to be closed or aborted.\<close>

definition pcb_open :: "'p world \<Rightarrow> bool" where
  "pcb_open w \<longleftrightarrow> allocated w \<and> \<not> fault w \<and> frame_inv w \<and> num_clients w > 0 \<and> \<not> client_closed (client w)
    \<and> \<not> aborted (client w) \<and> pcb_live w \<and> buffers_inv w \<and> sending_inv w
    \<and> (socks_closed (client w) \<longrightarrow> socks_gone (trace w))"

lemma abort_pcb_gone:
  assumes "pcb_open w" "\<not> cb_err w" "\<not> cb_recv w" "\<not> cb_sent w"
  shows "pcb_gone (client_abort_pcb w)"
proof -
  have f: "frame_ok (frame w) True (dead_aborted (client w)) False (trace w)"
    using assms by (clarsimp simp: pcb_open_def frame_inv_def)
  then show ?thesis
    using assms frame_ok_abort [OF f]
    by (simp add: client_abort_pcb_def Let_def kill_exact [where t = "trace w"])
      (clarsimp simp: pcb_open_def pcb_gone_def frame_inv_def buffers_inv_def sending_inv_def Let_def)
qed

lemma close_pcb_gone:
  assumes "pcb_open w"
    and "client_gone (trace w) \<or> socks_closed (client w) \<and> to_client (trace w) = from_socks (trace w)
        \<and> acked (trace w) = length (to_client (trace w))"
  shows "pcb_gone (client_close_pcb lw w)"
proof -
  obtain err p where t: "tcp_close lw (pcb (client w)) = (err, p)" by fastforce
  define u where "u = log_event (Do_tcp_close err)
      (with_client (\<lambda>c. c\<lparr>pcb := p\<rparr>) (ASSERT (pcb_live w) (set_callbacks False False False w)))"
  have u: "pcb_open u" "\<not> cb_err u" "\<not> cb_recv u" "\<not> cb_sent u"
    using assms(1) unfolding u_def
    by (auto simp: pcb_open_def frame_inv_def buffers_inv_def sending_inv_def Let_def)
  have e: "client_close_pcb lw w = (if err \<noteq> ERR_OK then client_abort_pcb u else u\<lparr>pcb_live := False\<rparr>)"
    using t by (simp add: client_close_pcb_def Let_def u_def)
  show ?thesis
  proof (cases "err = ERR_OK")
    case True
    moreover have "pcb_gone (u\<lparr>pcb_live := False\<rparr>)"
      using u assms(2) by (auto simp: pcb_open_def pcb_gone_def u_def frame_inv_def buffers_inv_def
          sending_inv_def Let_def)
    ultimately show ?thesis using e by simp
  next
    case False
    then show ?thesis using e abort_pcb_gone [OF u] by simp
  qed
qed

lemma free_client_core:
  assumes "pcb_open w"
    and "client_gone (trace w) \<or> socks_closed (client w) \<and> to_client (trace w) = from_socks (trace w)
        \<and> acked (trace w) = length (to_client (trace w))"
  shows "core_inv (client_free_client lw w)"
proof -
  have "allocated w \<and> \<not> client_closed (client w)" using assms(1) by (simp add: pcb_open_def)
  then show ?thesis
    using handle_freed_core [OF close_pcb_gone [OF assms]] by (simp add: client_free_client.simps)
qed

lemma abort_client_core:
  assumes "pcb_open w"
  shows "core_inv (client_abort_client lw w)"
proof -
  have "pcb_open (set_callbacks False False False w)"
    using assms by (auto simp: pcb_open_def frame_inv_def buffers_inv_def sending_inv_def)
  from abort_pcb_gone [OF this] have "pcb_gone (client_abort_pcb (set_callbacks False False False w))"
    by simp
  with assms show ?thesis by (simp add: client_abort_client_def Let_def handle_freed_core pcb_open_def)
qed

lemma free_socks_core:
  assumes "allocated w" "\<not> fault w" "frame_inv w" "num_clients w > 0" "buffers_inv w" "sending_inv w"
    "receiving_inv w" "idle_inv w" "pcb_inv w" "\<not> socks_closed (client w)"
    and cl: "client_closed (client w) \<Longrightarrow> client_gone (trace w) \<and> (socks_gone (trace w) \<or> buf_used (client w) = 0)"
    and op: "\<not> client_closed (client w) \<Longrightarrow> socks_gone (trace w)"
  shows "core_inv (client_free_socks lw w)"
proof -
  let ?s = "client_stop_socks w"
  let ?c = "client ?s"
  consider (wait) "socks_up ?c \<and> (socks_recv_buf_used ?c \<ge> 0 \<or> socks_recv_tcp_pending ?c > 0) \<and> \<not> client_closed ?c"
    | (free) "\<not> client_closed ?c" "\<not> (socks_up ?c \<and> (socks_recv_buf_used ?c \<ge> 0 \<or> socks_recv_tcp_pending ?c > 0))"
    | (both) "client_closed ?c" by blast
  then show ?thesis
  proof cases
    case wait
    then have "client_free_socks lw w = ?s" by (simp add: client_free_socks.simps [of lw w] Let_def)
    moreover have "core_inv ?s" using wait assms
      by (auto simp: core_inv_def frame_inv_def buffers_inv_def sending_inv_def
          receiving_inv_def idle_inv_def pcb_inv_def closing_inv_def Let_def)
    ultimately show ?thesis by simp
  next
    case free
    then have e: "client_free_socks lw w = client_free_client lw ?s"
      by (auto simp: client_free_socks.simps [of lw w] Let_def)
    have o: "pcb_open ?s" using free assms
      by (auto simp: pcb_open_def frame_inv_def buffers_inv_def sending_inv_def
          pcb_inv_def Let_def)
    have "to_client (trace ?s) = from_socks (trace ?s) \<and> acked (trace ?s) = length (to_client (trace ?s))
        \<and> socks_closed ?c"
      using free assms
      by (auto simp: buffers_inv_def receiving_inv_def Let_def)
    then show ?thesis unfolding e by (intro free_client_core [OF o]) auto
  next
    case both
    then have "client_free_socks lw w = client_dealloc ?s"
      by (simp add: client_free_socks.simps [of lw w] Let_def)
    moreover have "core_inv (client_dealloc ?s)"
      using both assms
      by (intro dealloc_core) (auto simp: frame_inv_def
          buffers_inv_def sending_inv_def ended_inv_def pcb_inv_def Let_def)
    ultimately show ?thesis by simp
  qed
qed

section \<open>Queueing data for the client\<close>

definition queueing :: "'p world \<Rightarrow> bool" where
  "queueing w \<longleftrightarrow> pcb_open w \<and> cb_err w \<and> cb_recv w = (\<not> socks_closed (client w)) \<and> cb_sent w \<and> socks_up (client w)
    \<and> 0 \<le> socks_recv_buf_sent (client w) \<and> socks_recv_buf_sent (client w) \<le> socks_recv_buf_used (client w)
    \<and> 0 < socks_recv_buf_used (client w) \<and> socks_recv_buf_used (client w) \<le> int CLIENT_SOCKS_RECV_BUF_SIZE
    \<and> from_socks (trace w) = to_client (trace w) @ bslice (nat (socks_recv_buf_sent (client w)))
        (nat (socks_recv_buf_used (client w) - socks_recv_buf_sent (client w))) (socks_recv_buf (client w))
    \<and> socks_recv_tcp_pending (client w) = int (length (to_client (trace w))) - int (acked (trace w))
    \<and> acked (trace w) \<le> length (to_client (trace w))"

lemma queueing_open: "queueing w \<Longrightarrow> pcb_open w"
  by (simp add: queueing_def)

text \<open>What queueing leaves alone, and that all it does is move bytes to the pending ones.\<close>

definition queued_more :: "'p world \<Rightarrow> 'p world \<Rightarrow> bool" where
  "queued_more w w' \<longleftrightarrow> socks_recv_buf_used (client w') = socks_recv_buf_used (client w)
    \<and> socks_recv_waiting (client w') = socks_recv_waiting (client w) \<and> socks_receiving w' = socks_receiving w
    \<and> socks_closed (client w') = socks_closed (client w)
    \<and> socks_recv_buf_sent (client w) \<le> socks_recv_buf_sent (client w')
    \<and> socks_recv_tcp_pending (client w') - socks_recv_buf_sent (client w')
        = socks_recv_tcp_pending (client w) - socks_recv_buf_sent (client w)"

lemma queued_more_trans: "queued_more u v \<Longrightarrow> queued_more v w \<Longrightarrow> queued_more u w"
  by (simp add: queued_more_def)

lemma queueing_pcb:
  "queueing w \<Longrightarrow> queueing (with_client (\<lambda>c. c\<lparr>pcb := p\<rparr>) w)
    \<and> queued_more w (with_client (\<lambda>c. c\<lparr>pcb := p\<rparr>) w)"
  by (clarsimp simp: queueing_def pcb_open_def frame_inv_def buffers_inv_def sending_inv_def queued_more_def Let_def)

lemma bslice_split:
  assumes "k \<le> n"
  shows "bslice off n xs = bslice off k xs @ bslice (off + k) (n - k) xs"
  using assms bslice_append [of off k xs "n - k"] by simp

lemma queueing_written:
  assumes "queueing w" and "0 < k" and "int k \<le> socks_recv_buf_used (client w) - socks_recv_buf_sent (client w)"
    and "data = bslice (nat (socks_recv_buf_sent (client w))) k (socks_recv_buf (client w))"
    and "w' = log_event (Do_tcp_write data) (with_client (\<lambda>c. c\<lparr>socks_recv_buf_sent := socks_recv_buf_sent c + int k,
                socks_recv_tcp_pending := socks_recv_tcp_pending c + int k\<rparr>) w)"
  shows "queueing w' \<and> queued_more w w'"
proof -
  let ?c = "client w"
  have "0 \<le> socks_recv_buf_sent ?c" "0 \<le> socks_recv_buf_used ?c" using assms(1) by (simp_all add: queueing_def)
  then obtain a b where a: "socks_recv_buf_sent ?c = int a" and b: "socks_recv_buf_used ?c = int b"
    by (meson nonneg_int_cases)
  have l: "length (socks_recv_buf ?c) = CLIENT_SOCKS_RECV_BUF_SIZE" "b \<le> CLIENT_SOCKS_RECV_BUF_SIZE" "a + k \<le> b"
    using assms a b by (auto simp: queueing_def pcb_open_def buffers_inv_def Let_def)
  have d: "length data = k" using assms(4) a l by simp
  have "from_socks (trace w) = to_client (trace w) @ data @ bslice (a + k) (b - a - k) (socks_recv_buf ?c)"
    using assms(1,4) a b l bslice_split [of k "b - a" a "socks_recv_buf ?c"]
    by (clarsimp simp: queueing_def nat_diff_distrib simp flip: of_nat_diff)
  moreover have "nat (int b - int a - int k) = b - a - k" "nat (int a + int k) = a + k" by simp_all
  ultimately show ?thesis
    using assms(1) d a b l unfolding assms(5)
    by (clarsimp simp: queueing_def pcb_open_def frame_inv_def buffers_inv_def sending_inv_def queued_more_def Let_def
        nat_diff_distrib nat_add_distrib) metis
qed

lemma send_out_write_inv:
  assumes "queueing w" and "send_out_write lw w = (w', r)"
    and "socks_recv_buf_sent (client w) < socks_recv_buf_used (client w)"
  shows "if r = Write_Abort then core_inv w' else queueing w' \<and> queued_more w w'"
proof -
  let ?c = "client w"
  define k where "k = min (socks_recv_buf_used ?c - socks_recv_buf_sent ?c) (int (tcp_sndbuf lw (pcb ?c)))"
  obtain err p where t: "tcp_write lw (pcb ?c) (bslice (nat (socks_recv_buf_sent ?c)) (nat k) (socks_recv_buf ?c)) = (err, p)"
    by fastforce
  have k: "k \<ge> 0" "k \<le> socks_recv_buf_used ?c - socks_recv_buf_sent ?c" using assms(3) by (auto simp: k_def)
  have live: "pcb_live w" using assms(1) by (simp add: queueing_def pcb_open_def)
  have e: "send_out_write lw w =
      (let v = with_client (\<lambda>c. c\<lparr>pcb := p\<rparr>) w in
       if k = 0 then (w, Write_Break)
       else if err \<noteq> ERR_OK then (if err = ERR_MEM then (v, Write_Break) else (client_abort_client lw v, Write_Abort))
       else (log_event (Do_tcp_write (bslice (nat (socks_recv_buf_sent ?c)) (nat k) (socks_recv_buf ?c)))
          (with_client (\<lambda>c. c\<lparr>socks_recv_buf_sent := socks_recv_buf_sent c + k,
            socks_recv_tcp_pending := socks_recv_tcp_pending c + k\<rparr>) v), Write_Done))"
    using k live by (simp add: send_out_write_def Let_def k_def [symmetric] t)
  note p = queueing_pcb [OF assms(1), of p]
  consider "k = 0" | "k > 0" "err = ERR_OK" | "k > 0" "err = ERR_MEM" | "k > 0" "err \<noteq> ERR_OK" "err \<noteq> ERR_MEM"
    using k by linarith
  then show ?thesis
  proof cases
    case 1
    then show ?thesis using assms by (auto simp: e Let_def queued_more_def)
  next
    case 2
    then have w': "r = Write_Done" "w' = log_event (Do_tcp_write (bslice (nat (socks_recv_buf_sent ?c)) (nat k) (socks_recv_buf ?c)))
        (with_client (\<lambda>c. c\<lparr>socks_recv_buf_sent := socks_recv_buf_sent c + int (nat k),
            socks_recv_tcp_pending := socks_recv_tcp_pending c + int (nat k)\<rparr>) (with_client (\<lambda>c. c\<lparr>pcb := p\<rparr>) w))"
      using assms(2) k by (auto simp: e Let_def)
    have "queueing w' \<and> queued_more (with_client (\<lambda>c. c\<lparr>pcb := p\<rparr>) w) w'"
      using p 2 k w' by (intro queueing_written [where k = "nat k"]) auto
    then show ?thesis using p w' queued_more_trans by auto
  next
    case 3
    then have "r = Write_Break" "w' = with_client (\<lambda>c. c\<lparr>pcb := p\<rparr>) w"
      using assms(2) k by (auto simp: e Let_def)
    then show ?thesis using p by simp
  next
    case 4
    then have "r = Write_Abort" "w' = client_abort_client lw (with_client (\<lambda>c. c\<lparr>pcb := p\<rparr>) w)"
      using assms(2) k by (auto simp: e Let_def)
    then show ?thesis using p by (simp add: abort_client_core queueing_open)
  qed
qed

lemma send_out_loop_inv:
  assumes "queueing w" and "socks_recv_buf_sent (client w) < socks_recv_buf_used (client w)"
    and "send_out_loop lw w = (w', stop)"
  shows "if stop then core_inv w' else queueing w' \<and> queued_more w w'"
  using assms
proof (induction lw w arbitrary: w' stop rule: send_out_loop.induct)
  case (1 lw w)
  obtain v r where v: "send_out_write lw w = (v, r)" by fastforce
  note i = send_out_write_inv [OF "1.prems"(1) v "1.prems"(2)]
  show ?case
  proof (cases "r = Write_Done \<and> socks_recv_buf_sent (client v) < socks_recv_buf_used (client v)")
    case True
    then have "send_out_loop lw v = (w', stop)" using "1.prems"(3) v by (simp add: send_out_loop.simps [of lw w])
    with "1.IH" [OF v [symmetric]] True i queued_more_trans show ?thesis by (auto split: if_splits)
  next
    case False
    then show ?thesis using "1.prems"(3) v i by (cases r) (auto simp: send_out_loop.simps [of lw w])
  qed
qed

definition queued_out :: "'p world \<Rightarrow> 'p world \<Rightarrow> bool" where
  "queued_out w w' \<longleftrightarrow> pcb_open w' \<and> cb_err w' \<and> cb_recv w' = (\<not> socks_closed (client w')) \<and> cb_sent w'
    \<and> socks_up (client w') \<and> receiving_inv w' \<and> socks_recv_tcp_pending (client w') > 0
    \<and> (socks_recv_buf_used (client w') \<noteq> -1 \<longrightarrow> socks_recv_waiting (client w'))
    \<and> socks_receiving w' = socks_receiving w \<and> socks_closed (client w') = socks_closed (client w)"

lemma send_out_inv:
  assumes "queueing w" and "socks_recv_buf_sent (client w) < socks_recv_buf_used (client w)"
    and "\<not> socks_recv_waiting (client w)" and r: "client_socks_recv_send_out lw w = (w', stop)"
  shows "if stop then core_inv w' else queued_out w w'"
proof -
  obtain v stop1 where v: "send_out_loop lw w = (v, stop1)" by fastforce
  note i = send_out_loop_inv [OF assms(1,2) v]
  have e: "client_socks_recv_send_out lw w =
     (if stop1 then (v, True)
      else let (err, p) = tcp_output lw (pcb (client v));
               u = ASSERT (pcb_live v) (with_client (\<lambda>c. c\<lparr>pcb := p\<rparr>) v)
           in if err \<noteq> ERR_OK then (client_abort_client lw u, True)
              else if socks_recv_buf_sent (client u) < socks_recv_buf_used (client u) then
                (if socks_recv_tcp_pending (client u) = 0 then (client_abort_client lw u, True)
                 else (with_client (\<lambda>c. c\<lparr>socks_recv_waiting := True\<rparr>) u, False))
              else (with_client (\<lambda>c. c\<lparr>socks_recv_buf_used := -1\<rparr>) u, False))"
    using assms(1-3) v by (simp add: client_socks_recv_send_out_def Let_def queueing_def pcb_open_def)
  show ?thesis
  proof (cases stop1)
    case True
    then show ?thesis using r e i by simp
  next
    case False
    obtain err p where t: "tcp_output lw (pcb (client v)) = (err, p)" by fastforce
    define u where "u = with_client (\<lambda>c. c\<lparr>pcb := p\<rparr>) v"
    have q: "queueing u" "queued_more w u"
      using i False queueing_pcb [of v p] queued_more_trans by (auto simp: u_def)
    have live: "pcb_live v" using i False by (simp add: queueing_def pcb_open_def)
    have ab: "core_inv (client_abort_client lw u)" using q by (simp add: abort_client_core queueing_open)
    have more: "socks_recv_tcp_pending (client u) \<ge> 0"
        "socks_recv_buf_sent (client u) \<ge> socks_recv_buf_used (client u) \<Longrightarrow> socks_recv_tcp_pending (client u) > 0"
      using q assms(1,2) by (auto simp: queueing_def queued_more_def)
    consider "err \<noteq> ERR_OK" | "err = ERR_OK" "socks_recv_buf_sent (client u) < socks_recv_buf_used (client u)"
      | "err = ERR_OK" "socks_recv_buf_sent (client u) \<ge> socks_recv_buf_used (client u)" by linarith
    then show ?thesis
    proof cases
      case 1
      then show ?thesis using r e t False ab live by (simp add: Let_def u_def)
    next
      case 2
      then have "(w', stop) = (if socks_recv_tcp_pending (client u) = 0 then (client_abort_client lw u, True)
          else (with_client (\<lambda>c. c\<lparr>socks_recv_waiting := True\<rparr>) u, False))"
        using r e t False live by (auto simp: Let_def u_def split: if_splits)
      then show ?thesis using ab q more 2
        by (clarsimp simp: queueing_def queued_more_def queued_out_def pcb_open_def frame_inv_def buffers_inv_def
            sending_inv_def receiving_inv_def Let_def split: if_splits)
    next
      case 3
      then have "w' = with_client (\<lambda>c. c\<lparr>socks_recv_buf_used := -1\<rparr>) u" "\<not> stop"
        using r e t False live by (simp_all add: Let_def u_def)
      then show ?thesis using q more 3
        by (clarsimp simp: queueing_def queued_more_def queued_out_def pcb_open_def frame_inv_def buffers_inv_def
            sending_inv_def receiving_inv_def Let_def)
    qed
  qed
qed

lemma queued_out_idle:
  assumes "queued_out w w'" and "socks_closed (client w') \<or> (socks_receiving w' \<longleftrightarrow> socks_recv_buf_used (client w') = -1)"
  shows "core_inv w'"
  using assms
  by (clarsimp simp: queued_out_def core_inv_def pcb_open_def idle_inv_def pcb_inv_def closing_inv_def Let_def)

lemma core_openD:
  assumes "core_inv w" and "allocated w"
  shows "\<not> fault w" "frame_inv w" "num_clients w > 0" "buffers_inv w" "sending_inv w" "receiving_inv w"
    "idle_inv w" "pcb_inv w" "closing_inv w"
  using assms by (simp_all add: core_inv_def)

lemma core_openI:
  assumes "allocated w" "\<not> fault w" "frame_inv w" "num_clients w > 0" "buffers_inv w" "sending_inv w" "receiving_inv w"
    "idle_inv w" "pcb_inv w" "closing_inv w"
  shows "core_inv w"
  using assms by (simp add: core_inv_def)

lemma initiate_core:
  assumes "allocated u" "\<not> fault u" "frame_inv u" "num_clients u > 0" "buffers_inv u" "sending_inv u" "receiving_inv u"
    "pcb_inv u" "closing_inv u" "\<not> client_closed (client u)" "socks_up (client u)" "\<not> socks_closed (client u)"
    "\<not> socks_receiving u" "socks_recv_buf_used (client u) = -1"
  shows "core_inv (client_socks_recv_initiate u)"
proof -
  have e: "client_socks_recv_initiate u = log_event Do_socks_recv (u\<lparr>socks_receiving := True\<rparr>)"
    using assms by (simp add: client_socks_recv_initiate_def Let_def sending_inv_def)
  show ?thesis unfolding e
  proof (rule core_openI)
    show "frame_inv (log_event Do_socks_recv (u\<lparr>socks_receiving := True\<rparr>))" using assms(3) by (simp add: frame_inv_def)
    show "buffers_inv (log_event Do_socks_recv (u\<lparr>socks_receiving := True\<rparr>))"
      using assms(5) by (simp add: buffers_inv_def Let_def)
    show "sending_inv (log_event Do_socks_recv (u\<lparr>socks_receiving := True\<rparr>))"
      using assms(6,11-14) by (simp add: sending_inv_def Let_def)
    show "receiving_inv (log_event Do_socks_recv (u\<lparr>socks_receiving := True\<rparr>))"
      using assms(7) by (simp add: receiving_inv_def Let_def)
    show "idle_inv (log_event Do_socks_recv (u\<lparr>socks_receiving := True\<rparr>))"
      using assms(14) by (simp add: idle_inv_def Let_def)
    show "pcb_inv (log_event Do_socks_recv (u\<lparr>socks_receiving := True\<rparr>))" using assms(8) by (simp add: pcb_inv_def Let_def)
    show "closing_inv (log_event Do_socks_recv (u\<lparr>socks_receiving := True\<rparr>))"
      using assms(9) by (simp add: closing_inv_def Let_def)
  qed (use assms in simp_all)
qed

lemma queued_out_initiate:
  assumes "queued_out w w'" and "\<not> socks_closed (client w')" and "\<not> socks_receiving w'"
    and "socks_recv_buf_used (client w') = -1"
  shows "core_inv (client_socks_recv_initiate w')"
  using assms by (intro initiate_core) (simp_all add: queued_out_def pcb_open_def pcb_inv_def closing_inv_def Let_def)

section \<open>When a callback began\<close>

definition began_of :: "'p world \<Rightarrow> nat option" where
  "began_of w = map_option began (frame w)"

lemma began_prims [simp]:
  "began_of (ASSERT b w) = began_of w" "began_of (log_event e w) = began_of w" "began_of (with_client f w) = began_of w"
  "began_of (set_callbacks e1 r1 s1 w) = began_of w" "began_of (BSocksClient_Free_call w) = began_of w"
  "began_of (client_mark_closed w) = began_of w" "began_of (client_stop_socks w) = began_of w"
  "began_of (w\<lparr>pcb_live := b1\<rparr>) = began_of w" "began_of (w\<lparr>num_clients := k\<rparr>) = began_of w"
  "began_of (w\<lparr>allocated := b2\<rparr>) = began_of w"
  by (simp_all add: began_of_def)

lemma began_kill [simp]: "began_of (DEAD_KILL_WITH v w) = began_of w"
  by (simp add: began_of_def DEAD_KILL_WITH_def split: option.splits)

lemma began_close [simp]:
  "began_of (client_abort_pcb w) = began_of w" "began_of (client_dealloc w) = began_of w"
  "began_of (client_close_pcb lw w) = began_of w"
  by (simp_all add: client_abort_pcb_def client_dealloc_def client_close_pcb_def Let_def split_beta)

lemma began_free:
  "began_of (client_handle_freed_client lw w) = began_of w"
  "began_of (client_free_client lw w) = began_of w"
  "began_of (client_free_socks lw w) = began_of w"
proof (induction lw w and lw w and lw w
    rule: client_handle_freed_client_client_free_client_client_free_socks.induct)
  case (1 lw w)
  then show ?case by (subst client_handle_freed_client.simps) (simp add: Let_def)
next
  case (2 lw w)
  then show ?case by (subst client_free_client.simps) (simp add: Let_def)
next
  case (3 lw w)
  then show ?case by (subst client_free_socks.simps) (simp add: Let_def)
qed

lemma began_abort_client [simp]: "began_of (client_abort_client lw w) = began_of w"
  by (simp add: client_abort_client_def Let_def began_free)

lemma began_send_out_write: "send_out_write lw w = (w', r) \<Longrightarrow> began_of w' = began_of w"
  by (auto simp: send_out_write_def Let_def split: if_splits prod.splits)

lemma began_send_out_loop: "began_of (fst (send_out_loop lw w)) = began_of w"
proof (induction lw w rule: send_out_loop.induct)
  case (1 lw w)
  obtain w' r where s: "send_out_write lw w = (w', r)" by fastforce
  then show ?case
    using began_send_out_write [OF s] "1.IH" [OF s [symmetric]]
    by (cases r) (simp_all add: send_out_loop.simps [of lw w])
qed

lemma began_send_out [simp]: "began_of (fst (client_socks_recv_send_out lw w)) = began_of w"
  by (simp add: client_socks_recv_send_out_def Let_def split_beta began_send_out_loop)

lemma leave_ret:
  assumes "core_inv y" and "began_of y = Some b"
  shows "ret (callback_leave y) = Some ERR_ABRT \<longleftrightarrow> Do_tcp_abort \<in> set (drop b (trace (callback_leave y)))"
proof -
  obtain f where f: "frame y = Some f" "began f = b" using assms(2) by (auto simp: began_of_def)
  then have "killed f = 1 \<longleftrightarrow> Do_tcp_abort \<in> set (drop b (trace y))" and "killed f \<in> {0, 1, -1}"
    using assms(1) by (auto simp: core_inv_def frame_inv_def frame_ok_def split: if_splits)
  moreover have "trace (callback_leave y) = trace y" "ret (callback_leave y) = Some (if killed f > 0 then ERR_ABRT else ERR_OK)"
    using f by (simp_all add: callback_leave_def DEAD_LEAVE2_def Let_def)
  ultimately show ?thesis by auto
qed

section \<open>Every step keeps the invariant\<close>

lemmas inv_defs = core_inv_def frame_inv_def buffers_inv_def sending_inv_def receiving_inv_def idle_inv_def
  pcb_inv_def closing_inv_def Let_def

text \<open>Entering and leaving a callback.\<close>

lemma enter_sel [simp]:
  "client (DEAD_ENTER w) = (client w)\<lparr>dead_aborted := Some (frames_made w)\<rparr>"
  "allocated (DEAD_ENTER w) = allocated w" "num_clients (DEAD_ENTER w) = num_clients w"
  "pcb_live (DEAD_ENTER w) = pcb_live w" "cb_err (DEAD_ENTER w) = cb_err w"
  "cb_recv (DEAD_ENTER w) = cb_recv w" "cb_sent (DEAD_ENTER w) = cb_sent w"
  "socks_live (DEAD_ENTER w) = socks_live w" "socks_sending (DEAD_ENTER w) = socks_sending w"
  "socks_receiving (DEAD_ENTER w) = socks_receiving w" "in_sync (DEAD_ENTER w) = in_sync w"
  "trace (DEAD_ENTER w) = trace w"
  "fault (DEAD_ENTER w) = (fault w \<or> frame w \<noteq> None \<or> \<not> allocated w)"
  "frame (DEAD_ENTER w) = Some \<lparr>frame_id = frames_made w, killed = 0, prev_ptr = dead_aborted (client w),
     began = length (trace w)\<rparr>"
  by (simp_all add: DEAD_ENTER_def Let_def)

lemma enter_frame_ok:
  "dead_aborted (client w) = None \<Longrightarrow> allocated w \<Longrightarrow> \<not> aborted (client w) \<Longrightarrow> frame_inv (DEAD_ENTER w)"
  by (simp add: frame_inv_def frame_ok_def)

lemma leave_winv:
  assumes "core_inv w" and "frame w \<noteq> None"
  shows "winv (callback_leave w)"
proof -
  obtain f where f: "frame w = Some f" using assms(2) by blast
  have fr: "frame_ok (Some f) (allocated w) (dead_aborted (client w)) (aborted (client w)) (trace w)" and nf: "\<not> fault w"
    using assms(1) f by (simp_all add: core_inv_def frame_inv_def)
  define v where "v = (if killed f = 0 then with_client (\<lambda>c. c\<lparr>dead_aborted := None\<rparr>) w else w)"
  have e: "callback_leave w = v\<lparr>frame := None, in_sync := False, ret := Some (if killed f > 0 then ERR_ABRT else ERR_OK)\<rparr>"
    using fr f by (simp add: callback_leave_def DEAD_LEAVE2_def Let_def v_def frame_ok_def)
  have v: "allocated v = allocated w" "\<not> fault v" "num_clients v = num_clients w"
    using fr nf by (auto simp: v_def frame_ok_def split: if_splits)
  have "frame_inv (callback_leave w)" unfolding e using fr
    by (auto simp: v_def frame_inv_def frame_ok_def split: if_splits)
  moreover have "buffers_inv (callback_leave w) = buffers_inv w" "sending_inv (callback_leave w) = sending_inv w"
    "receiving_inv (callback_leave w) = receiving_inv w" "idle_inv (callback_leave w) = idle_inv w"
    "pcb_inv (callback_leave w) = pcb_inv w" "closing_inv (callback_leave w) = closing_inv w"
    "ended_inv (callback_leave w) = ended_inv w"
    unfolding e v_def
    by (simp_all add: buffers_inv_def sending_inv_def receiving_inv_def idle_inv_def pcb_inv_def closing_inv_def ended_inv_def Let_def)
  moreover have "in_sync (callback_leave w) = False" "frame (callback_leave w) = None" "fault (callback_leave w) = False"
    "allocated (callback_leave w) = allocated w" "num_clients (callback_leave w) = num_clients w"
    using e v by simp_all
  ultimately show ?thesis using assms(1) by (simp add: winv_def core_inv_def)
qed

text \<open>
  How a callback that began at position \<open>b\<close> of the trace ends a step: inside \<open>SYNC_COMMIT\<close>,
  or by leaving.
\<close>

definition callback_result :: "nat \<Rightarrow> 'p world \<Rightarrow> bool" where
  "callback_result b w' \<longleftrightarrow> (core_inv w' \<and> in_sync w' \<and> frame w' \<noteq> None)
    \<or> (\<exists>y. w' = callback_leave y \<and> core_inv y \<and> began_of y = Some b)"

lemma callback_resultI: "core_inv y \<Longrightarrow> began_of y = Some b \<Longrightarrow> callback_result b (callback_leave y)"
  by (auto simp: callback_result_def)

lemma callback_result_winv: "callback_result b w' \<Longrightarrow> winv w'"
  using leave_winv by (auto simp: callback_result_def winv_def began_of_def)

lemma callback_result_ret:
  assumes "callback_result b w'" and "frame w' = None"
  shows "ret w' = Some ERR_ABRT \<longleftrightarrow> Do_tcp_abort \<in> set (drop b (trace w'))"
  using assms leave_ret by (auto simp: callback_result_def)

lemma began_enter [simp]: "began_of (DEAD_ENTER w) = Some (length (trace w))"
  by (simp add: began_of_def)

lemma open_dead_none:
  assumes "core_inv w" and "allocated w" and "frame w = None" and "\<not> client_closed (client w)"
  shows "dead_aborted (client w) = None \<and> \<not> aborted (client w)"
  using assms by (auto simp: inv_defs frame_ok_def)

lemma callback_alive:
  assumes "core_inv w" and "cb_err w \<or> cb_recv w \<or> cb_sent w"
  shows "allocated w" and "\<not> client_closed (client w)" and "pcb_live w"
proof -
  show a: "allocated w" using assms by (auto simp: core_inv_def ended_inv_def split: if_splits)
  show "\<not> client_closed (client w)" "pcb_live w" using assms a by (auto simp: inv_defs)
qed

lemma step_fin_result:
  assumes "winv w" "frame w = None" "pcb_live w" "cb_recv w"
  shows "callback_result (length (trace w) + 1) (client_recv_func lw None (log_event Ev_ClientFin w))"
proof -
  have c: "core_inv w" and a: "allocated w" "\<not> client_closed (client w)"
    using assms callback_alive [of w] by (auto simp: winv_def)
  have d: "dead_aborted (client w) = None" "\<not> aborted (client w)" using open_dead_none [OF c a(1) assms(2) a(2)] by auto
  let ?e = "DEAD_ENTER (log_event Ev_ClientFin w)"
  have o: "pcb_open ?e"
    using core_openD [OF c a(1)] a d assms(2) enter_frame_ok [of "log_event Ev_ClientFin w"]
    by (simp add: pcb_open_def buffers_inv_def sending_inv_def pcb_inv_def closing_inv_def Let_def)
  have "core_inv (client_free_client lw ?e)" by (rule free_client_core [OF o]) simp
  then have "callback_result (length (trace w) + 1) (callback_leave (client_free_client lw ?e))"
    by (intro callback_resultI) (simp_all add: began_free)
  then show ?thesis using a by (simp add: client_recv_func_def Let_def)
qed

lemma step_err_winv:
  assumes "winv w" "frame w = None" "pcb_live w" "cb_err w"
  shows "winv (client_err_func lw (log_event Ev_ClientErr
        (w\<lparr>pcb_live := False, cb_err := False, cb_recv := False, cb_sent := False\<rparr>)))"
proof -
  have c: "core_inv w" and a: "allocated w" "\<not> client_closed (client w)"
    using assms callback_alive [of w] by (auto simp: winv_def)
  let ?v = "log_event Ev_ClientErr (w\<lparr>pcb_live := False, cb_err := False, cb_recv := False, cb_sent := False\<rparr>)"
  have "pcb_gone ?v" using core_openD [OF c a(1)] a
    by (simp add: pcb_gone_def frame_inv_def buffers_inv_def sending_inv_def closing_inv_def Let_def)
  from handle_freed_core [OF this, of lw] show ?thesis
    using a assms(1,2) by (simp add: client_err_func_def winv_def)
qed

lemma take_blit_append:
  "n + length d \<le> length b \<Longrightarrow> take (n + length d) (blit b n d) = take n b @ d"
  "k \<le> n \<Longrightarrow> n + length d \<le> length b \<Longrightarrow> take k (blit b n d) = take k b"
  by (simp_all add: blit_def)

lemma socks_send_buf_sel [simp]:
  "client (socks_send_buf w) = client w" "allocated (socks_send_buf w) = allocated w"
  "num_clients (socks_send_buf w) = num_clients w" "pcb_live (socks_send_buf w) = pcb_live w"
  "cb_err (socks_send_buf w) = cb_err w" "cb_recv (socks_send_buf w) = cb_recv w" "cb_sent (socks_send_buf w) = cb_sent w"
  "socks_live (socks_send_buf w) = socks_live w" "socks_receiving (socks_send_buf w) = socks_receiving w"
  "socks_sending (socks_send_buf w) = Some (take (buf_used (client w)) (buf (client w)))"
  "trace (socks_send_buf w) = trace w @ [Do_socks_send (take (buf_used (client w)) (buf (client w)))]"
  "fault (socks_send_buf w) = (fault w \<or> \<not> (socks_live w \<and> socks_sending w = None
     \<and> take (buf_used (client w)) (buf (client w)) \<noteq> []))"
  by (simp_all add: socks_send_buf_def Let_def)

lemma send_buf_parts:
  assumes "allocated w" "\<not> fault w" "frame_inv w" "buffers_inv w" "receiving_inv w"
    "pcb_inv w" "closing_inv w" "socks_live w" "socks_sending w = None"
    "socks_up (client w)" "\<not> socks_closed (client w)" "0 < buf_used (client w)"
    "socks_receiving w \<longrightarrow> socks_recv_buf_used (client w) = -1"
  shows "\<not> fault (socks_send_buf w)" "frame_inv (socks_send_buf w)" "buffers_inv (socks_send_buf w)"
    "sending_inv (socks_send_buf w)" "receiving_inv (socks_send_buf w)" "pcb_inv (socks_send_buf w)"
    "closing_inv (socks_send_buf w)"
proof -
  have l: "length (buf (client w)) = TCP_WND" "buf_used (client w) \<le> TCP_WND"
    using assms(4) by (simp_all add: buffers_inv_def Let_def)
  show "\<not> fault (socks_send_buf w)" using assms l by auto
  show "frame_inv (socks_send_buf w)" using assms(3) by (simp add: frame_inv_def)
  show "buffers_inv (socks_send_buf w)" using assms(4) by (simp add: buffers_inv_def Let_def)
  show "sending_inv (socks_send_buf w)" using assms(8-) l by (auto simp: sending_inv_def Let_def)
  show "receiving_inv (socks_send_buf w)" using assms(5) by (simp add: receiving_inv_def Let_def)
  show "pcb_inv (socks_send_buf w)" using assms(6) by (simp add: pcb_inv_def Let_def)
  show "closing_inv (socks_send_buf w)" using assms(7) by (simp add: closing_inv_def Let_def)
qed

lemma send_buf_core:
  assumes "allocated w" "\<not> fault w" "frame_inv w" "num_clients w > 0" "buffers_inv w" "receiving_inv w"
    "idle_inv w" "pcb_inv w" "closing_inv w" "socks_live w" "socks_sending w = None"
    "socks_up (client w)" "\<not> socks_closed (client w)" "0 < buf_used (client w)"
    "socks_receiving w \<longrightarrow> socks_recv_buf_used (client w) = -1"
  shows "core_inv (socks_send_buf w)"
proof (rule core_openI)
  show "idle_inv (socks_send_buf w)" using assms(7) by (simp add: idle_inv_def Let_def)
qed (use assms send_buf_parts [of w] in simp_all)

lemma core_in_sync [simp]: "core_inv (w\<lparr>in_sync := b\<rparr>) = core_inv w"
  by (simp add: core_inv_def frame_inv_def buffers_inv_def sending_inv_def receiving_inv_def
      idle_inv_def pcb_inv_def closing_inv_def ended_inv_def Let_def)

lemma step_data_result:
  assumes "winv w" "frame w = None" "pcb_live w" "cb_recv w" "data \<noteq> []"
    and win: "length (from_client (trace w)) + length data \<le> TCP_WND + recved (trace w)"
  shows "callback_result (length (trace w) + 1) (client_recv_func lw (Some data) (log_event (Ev_ClientData data) w))"
proof -
  have c: "core_inv w" and a: "allocated w" "\<not> client_closed (client w)"
    using assms callback_alive [of w] by (auto simp: winv_def)
  note o = core_openD [OF c a(1)]
  have d: "dead_aborted (client w) = None" "\<not> aborted (client w)" using open_dead_none [OF c a(1) assms(2) a(2)] by auto
  have sc: "\<not> socks_closed (client w)" using o(8) assms(4) by (simp add: pcb_inv_def Let_def)
  let ?n = "buf_used (client w)"
  have b: "length (buf (client w)) = TCP_WND" "?n \<le> TCP_WND" "length (from_client (trace w)) = recved (trace w) + ?n"
    using o(4) a by (simp_all add: buffers_inv_def Let_def)
  then have fit: "?n + length data \<le> TCP_WND" using win by linarith
  let ?e = "DEAD_ENTER (log_event (Ev_ClientData data) w)"
  define v where "v = with_client (\<lambda>c. c\<lparr>buf := blit (buf c) (buf_used c) data, buf_used := buf_used c + length data\<rparr>) ?e"
  have fv: "frame_inv v" "\<not> fault v" "allocated v" "frame v \<noteq> None"
    using enter_frame_ok [of "log_event (Ev_ClientData data) w"] a d o(1) assms(2) by (simp_all add: v_def frame_inv_def)
  have bv: "buffers_inv v"
    using o(4) b fit a by (simp add: v_def buffers_inv_def Let_def take_blit_append)
  have rest: "receiving_inv v" "idle_inv v" "pcb_inv v" "closing_inv v" "num_clients v > 0"
    subgoal using o(6) by (simp add: v_def receiving_inv_def Let_def)
    subgoal using o(7) by (simp add: v_def idle_inv_def Let_def)
    subgoal using o(8) by (simp add: v_def pcb_inv_def Let_def)
    subgoal using o(9) a by (simp add: v_def closing_inv_def Let_def)
    subgoal using o(3) by (simp add: v_def)
    done
  have e: "client_recv_func lw (Some data) (log_event (Ev_ClientData data) w) =
      (if ?n = 0 \<and> socks_up (client w) then (client_send_to_socks v)\<lparr>in_sync := True\<rparr> else callback_leave v)"
    using a assms(5) fit sc by (simp add: client_recv_func_def Let_def v_def)
  show ?thesis
  proof (cases "?n = 0 \<and> socks_up (client w)")
    case True
    have "socks_sending w = None" "socks_live w" using o(5) True sc by (simp_all add: sending_inv_def Let_def)
    then have s: "client_send_to_socks v = socks_send_buf v"
      using True a assms(5) sc by (simp add: client_send_to_socks_def Let_def v_def)
    have "core_inv (socks_send_buf v)"
      using fv bv rest True sc assms(5) o(5)
      by (intro send_buf_core) (auto simp: v_def sending_inv_def Let_def)
    then show ?thesis using e True s fv(4) by (simp add: callback_result_def)
  next
    case False
    have "sending_inv v"
      using o(5) False sc fit b
      by (auto simp: sending_inv_def Let_def v_def take_blit_append)
    then have "core_inv v" using fv bv rest by (intro core_openI) simp_all
    moreover have "began_of v = Some (length (trace w) + 1)" by (simp add: v_def)
    ultimately show ?thesis using e False callback_resultI by simp
  qed
qed

lemma socks_alive:
  assumes "core_inv w" and "socks_live w"
  shows "allocated w" and "\<not> socks_closed (client w)"
proof -
  show a: "allocated w" using assms by (auto simp: core_inv_def ended_inv_def split: if_splits)
  show "\<not> socks_closed (client w)" using core_openD(5) [OF assms(1) a] assms(2) by (simp add: sending_inv_def Let_def)
qed

text \<open>Recording an event that neither carries data nor reports progress.\<close>

lemma log_core:
  assumes "core_inv w" "allocated w" and "e \<in> {Ev_SocksError, Ev_SocksClosed, Ev_Murder}"
  shows "frame_inv (log_event e w)" "buffers_inv (log_event e w)" "sending_inv (log_event e w)"
    "receiving_inv (log_event e w)" "idle_inv (log_event e w)" "pcb_inv (log_event e w)" "closing_inv (log_event e w)"
proof -
  note o = core_openD [OF assms(1,2)]
  show "frame_inv (log_event e w)" using o(2) assms(3) by (auto simp: frame_inv_def)
  show "buffers_inv (log_event e w)" using o(4) assms(3) by (auto simp: buffers_inv_def Let_def)
  show "sending_inv (log_event e w)" using o(5) by (simp add: sending_inv_def Let_def)
  show "receiving_inv (log_event e w)" using o(6) assms(3) by (auto simp: receiving_inv_def Let_def)
  show "idle_inv (log_event e w)" using o(7) by (simp add: idle_inv_def Let_def)
  show "pcb_inv (log_event e w)" using o(8) by (simp add: pcb_inv_def Let_def)
  show "closing_inv (log_event e w)" using o(9) by (auto simp: closing_inv_def Let_def)
qed

lemma socks_down_winv:
  assumes "winv w" "socks_live w" "e = Ev_SocksError \<or> e = Ev_SocksClosed"
  shows "winv (client_free_socks lw (log_event e w))"
proof -
  have c: "core_inv w" using assms(1) by (simp add: winv_def)
  note a = socks_alive [OF c assms(2)]
  have e: "e \<in> {Ev_SocksError, Ev_SocksClosed, Ev_Murder}" using assms(3) by auto
  note l = log_core [OF c a(1) e] and o = core_openD [OF c a(1)]
  have "core_inv (client_free_socks lw (log_event e w))"
    by (rule free_socks_core) (use l o a assms(3) in \<open>auto simp: closing_inv_def Let_def\<close>)
  then show ?thesis using assms(1) by (simp add: winv_def)
qed

lemma step_socks_error_winv:
  assumes "winv w" "socks_live w"
  shows "winv (client_socks_handler lw BSOCKSCLIENT_EVENT_ERROR (log_event Ev_SocksError w))"
proof -
  have c: "core_inv w" using assms(1) by (simp add: winv_def)
  show ?thesis using socks_down_winv [OF assms] socks_alive [OF c assms(2)]
    by (simp add: client_socks_handler_def Let_def)
qed

lemma step_socks_closed_winv:
  assumes "winv w" "socks_live w" "Ev_SocksUp \<in> set (trace w)"
  shows "winv (client_socks_handler lw BSOCKSCLIENT_EVENT_ERROR_CLOSED (log_event Ev_SocksClosed w))"
proof -
  have c: "core_inv w" using assms(1) by (simp add: winv_def)
  note a = socks_alive [OF c assms(2)]
  have "socks_up (client w)" using core_openD(4) [OF c a(1)] assms(3) by (simp add: buffers_inv_def Let_def)
  then show ?thesis using socks_down_winv [OF assms(1,2)] a
    by (simp add: client_socks_handler_def Let_def)
qed

lemma step_leave_winv: "winv w \<Longrightarrow> in_sync w \<Longrightarrow> winv (callback_leave w)"
  by (rule leave_winv) (auto simp: winv_def)

text \<open>What is known after the first half of \<open>client_murder\<close>.\<close>

definition murdered :: "'p world \<Rightarrow> bool" where
  "murdered v \<longleftrightarrow> allocated v \<and> \<not> fault v \<and> frame_inv v \<and> num_clients v > 0 \<and> client_closed (client v)
    \<and> \<not> cb_err v \<and> \<not> cb_recv v \<and> \<not> cb_sent v \<and> buffers_inv v \<and> sending_inv v
    \<and> socks_gone (trace v) \<and> client_gone (trace v)"

lemma abort_pcb_trace [simp]: "trace (client_abort_pcb w) = trace w @ [Do_tcp_abort]"
  by (simp add: client_abort_pcb_def Let_def DEAD_KILL_WITH_def split: option.splits)

lemma murder_aborted:
  assumes "pcb_gone v" "socks_gone (trace v)" "client_gone (trace v)"
  shows "murdered (with_client (\<lambda>c. c\<lparr>client_closed := True\<rparr>) v)"
  using assms by (clarsimp simp: pcb_gone_def murdered_def frame_inv_def buffers_inv_def sending_inv_def Let_def)

lemma murdered_first:
  assumes "winv w" "frame w = None" "allocated w"
  defines "m \<equiv> log_event Ev_Murder w"
  shows "murdered (if \<not> client_closed (client m)
      then with_client (\<lambda>c. c\<lparr>client_closed := True\<rparr>) (client_abort_pcb (set_callbacks False False False m)) else m)"
proof -
  have c: "core_inv w" using assms(1) by (simp add: winv_def)
  note o = core_openD [OF c assms(3)] and l = log_core [OF c assms(3), of Ev_Murder, simplified, folded m_def]
  show ?thesis
  proof (cases "client_closed (client m)")
    case True
    then show ?thesis using o l assms(3) by (simp add: murdered_def m_def pcb_inv_def Let_def)
  next
    case False
    have "pcb_open (set_callbacks False False False m)"
      using False o l assms(3) by (simp add: pcb_open_def m_def pcb_inv_def frame_inv_def buffers_inv_def sending_inv_def Let_def)
    then have "pcb_gone (client_abort_pcb (set_callbacks False False False m))" by (intro abort_pcb_gone) simp_all
    from murder_aborted [OF this] False show ?thesis by (simp add: m_def)
  qed
qed

lemma step_murder_winv:
  assumes "winv w" "frame w = None" "allocated w"
  shows "winv (client_murder (log_event Ev_Murder w))"
proof -
  let ?w = "log_event Ev_Murder w"
  define v where "v = (if \<not> client_closed (client ?w)
      then with_client (\<lambda>c. c\<lparr>client_closed := True\<rparr>) (client_abort_pcb (set_callbacks False False False ?w)) else ?w)"
  define u where "u = (if \<not> socks_closed (client v)
      then with_client (\<lambda>c. c\<lparr>socks_closed := True\<rparr>) (BSocksClient_Free_call v) else v)"
  have v: "murdered v" unfolding v_def by (rule murdered_first [OF assms])
  have fr: "frame v = None" "in_sync v = in_sync w" using assms(2) by (simp_all add: v_def)
  have "core_inv (client_dealloc u)"
    by (rule dealloc_core)
      (use v in \<open>auto simp: u_def murdered_def frame_inv_def ended_inv_def buffers_inv_def sending_inv_def Let_def\<close>)
  moreover have "client_murder ?w = client_dealloc u" by (simp add: client_murder_def Let_def u_def v_def)
  ultimately show ?thesis using fr assms by (simp add: winv_def u_def)
qed

lemma send_done_unfold:
  assumes "allocated x" "\<not> socks_closed (client x)" "socks_up (client x)" "0 < buf_used (client x)"
    "0 < n" "n \<le> buf_used (client x)" "\<not> client_closed (client x) \<Longrightarrow> pcb_live x"
    and v: "v = with_client (\<lambda>c. c\<lparr>buf := blit (buf c) 0 (bslice n (buf_used c - n) (buf c)), buf_used := buf_used c - n\<rparr>) x"
    and u: "u = (if \<not> client_closed (client x)
      then log_event (Do_tcp_recved n) (with_client (\<lambda>c. c\<lparr>pcb := tcp_recved lw (pcb c) n\<rparr>) v) else v)"
  shows "client_socks_send_handler_done lw n x =
      (if buf_used (client x) - n > 0 then socks_send_buf u
       else if client_closed (client x) then client_free_socks lw u else u)"
proof (cases "client_closed (client x)")
  case True
  then have "u = v" by (simp add: u)
  with True assms(1-7) show ?thesis by (simp add: client_socks_send_handler_done_def v)
next
  case False
  then have u2: "u = log_event (Do_tcp_recved n) (with_client (\<lambda>c. c\<lparr>pcb := tcp_recved lw (pcb c) n\<rparr>) v)" by (simp add: u)
  have "ASSERT (pcb_live v) (with_client (\<lambda>c. c\<lparr>pcb := tcp_recved lw (pcb c) n\<rparr>) v)
      = with_client (\<lambda>c. c\<lparr>pcb := tcp_recved lw (pcb c) n\<rparr>) v" using False assms(7) by (simp add: v)
  with False assms(1-7) u2 show ?thesis by (simp add: client_socks_send_handler_done_def v)
qed

lemma step_send_done_winv:
  assumes "winv w" "socks_sending w = Some d" "0 < n" "n \<le> length d"
  shows "winv (client_socks_send_handler_done lw n
        (log_event (Ev_SocksAccepted (take n (buf (client w)))) (w\<lparr>socks_sending := None\<rparr>)))"
proof -
  have c: "core_inv w" and a: "allocated w"
    using assms(1,2) by (auto simp: winv_def core_inv_def ended_inv_def split: if_splits)
  note o = core_openD [OF c a]
  have s: "socks_up (client w)" "\<not> socks_closed (client w)" "socks_live w" "length d \<le> buf_used (client w)"
    "socks_receiving w \<longrightarrow> socks_recv_buf_used (client w) = -1"
    using o(5) assms(2) by (auto simp: sending_inv_def Let_def)
  let ?m = "buf_used (client w)"
  have b: "length (buf (client w)) = TCP_WND" "?m \<le> TCP_WND" "n \<le> ?m"
    using o(4) s assms(4) by (auto simp: buffers_inv_def Let_def)
  define v where "v = with_client (\<lambda>c. c\<lparr>buf := blit (buf c) 0 (bslice n (buf_used c - n) (buf c)),
               buf_used := buf_used c - n\<rparr>) (log_event (Ev_SocksAccepted (take n (buf (client w)))) (w\<lparr>socks_sending := None\<rparr>))"
  define u where "u = (if \<not> client_closed (client (log_event (Ev_SocksAccepted (take n (buf (client w)))) (w\<lparr>socks_sending := None\<rparr>)))
      then log_event (Do_tcp_recved n) (with_client (\<lambda>c. c\<lparr>pcb := tcp_recved lw (pcb c) n\<rparr>) v) else v)"
  have e: "client_socks_send_handler_done lw n
        (log_event (Ev_SocksAccepted (take n (buf (client w)))) (w\<lparr>socks_sending := None\<rparr>)) =
      (if ?m - n > 0 then socks_send_buf u else if client_closed (client w) then client_free_socks lw u else u)"
    using send_done_unfold [OF _ _ _ _ _ _ _ v_def u_def] a s b assms(3) o(8)
    by (simp add: pcb_inv_def Let_def)
  have tk: "take ?m (buf (client w)) = take n (buf (client w)) @ bslice n (?m - n) (buf (client w))"
    using b(3) by (metis bslice_def le_add_diff_inverse take_add)
  have "?m - n \<le> TCP_WND" using b by linarith
  then have bu: "buffers_inv u"
    using o(4) b a tk by (simp add: u_def v_def buffers_inv_def Let_def blit_def)
  have ru: "allocated u" "\<not> fault u" "frame_inv u" "num_clients u > 0" "receiving_inv u" "idle_inv u" "pcb_inv u"
    subgoal using a by (simp add: u_def v_def)
    subgoal using a o(1) by (simp add: u_def v_def)
    subgoal using o(2) by (simp add: u_def v_def frame_inv_def)
    subgoal using o(3) by (simp add: u_def v_def)
    subgoal using o(6) by (simp add: u_def v_def receiving_inv_def Let_def)
    subgoal using o(7) by (simp add: u_def v_def idle_inv_def Let_def)
    subgoal using o(8) by (auto simp: u_def v_def pcb_inv_def Let_def)
    done
  have su: "socks_live u" "socks_sending u = None" "socks_up (client u)" "\<not> socks_closed (client u)"
    "buf_used (client u) = ?m - n" "client_closed (client u) = client_closed (client w)"
    "socks_receiving u \<longrightarrow> socks_recv_buf_used (client u) = -1" "frame u = frame w" "in_sync u = in_sync w"
    using s by (simp_all add: u_def v_def)
  have "core_inv (if ?m - n > 0 then socks_send_buf u else if client_closed (client w) then client_free_socks lw u else u)"
  proof (cases "?m - n > 0")
    case True
    have "closing_inv u" using o(9) True s by (auto simp: u_def v_def closing_inv_def Let_def)
    with True show ?thesis using ru bu su by (simp add: send_buf_core)
  next
    case False
    have n: "sending_inv u" using su False by (simp add: sending_inv_def Let_def)
    show ?thesis
    proof (cases "client_closed (client w)")
      case True
      have f: "client_gone (trace u)" using o(9) True by (simp add: u_def v_def closing_inv_def Let_def)
      have "core_inv (client_free_socks lw u)"
        by (rule free_socks_core) (use ru bu su n f True False in simp_all)
      then show ?thesis using True False by simp
    next
      case open_client: False
      have "closing_inv u" using open_client s by (simp add: u_def v_def closing_inv_def Let_def)
      then show ?thesis using ru bu n False open_client by (simp add: core_openI)
    qed
  qed
  then show ?thesis unfolding e using assms(1) su by (simp add: winv_def del: not_None_eq)
qed


lemma store_data_bslice:
  "length d \<le> length b \<Longrightarrow> bslice 0 (length d) (blit b 0 d) = d"
  by simp

lemma recv_done_unfold:
  assumes "allocated x" "0 < n" "n \<le> CLIENT_SOCKS_RECV_BUF_SIZE" "\<not> socks_closed (client x)" "socks_up (client x)"
    "socks_recv_buf_used (client x) = -1" "\<not> client_closed (client x)"
    and q: "q = with_client (\<lambda>c. c\<lparr>socks_recv_buf_used := int n, socks_recv_buf_sent := 0, socks_recv_waiting := False\<rparr>) x"
    and r: "client_socks_recv_send_out lw q = (y, stop)"
  shows "client_socks_recv_handler_done lw n x =
    (if stop then y else let y = ASSERT (allocated y) y in
       if socks_recv_buf_used (client y) = -1 then client_socks_recv_initiate y else y)"
  using assms(1-7) r by (simp add: client_socks_recv_handler_done_def q)

lemma step_recv_done_winv:
  assumes "winv w" "socks_receiving w" "data \<noteq> []" "length data \<le> CLIENT_SOCKS_RECV_BUF_SIZE"
  shows "winv (client_socks_recv_handler_done lw (length data)
        (with_client (\<lambda>c. c\<lparr>socks_recv_buf := blit (socks_recv_buf c) 0 data\<rparr>)
          (log_event (Ev_SocksData data) (w\<lparr>socks_receiving := False\<rparr>))))"
proof -
  have c: "core_inv w" and a: "allocated w"
    using assms(1,2) by (auto simp: winv_def core_inv_def ended_inv_def split: if_splits)
  note o = core_openD [OF c a]
  have s: "socks_up (client w)" "\<not> socks_closed (client w)" "socks_recv_buf_used (client w) = -1"
    using o(5) assms(2) by (auto simp: sending_inv_def Let_def)
  have l: "length (socks_recv_buf (client w)) = CLIENT_SOCKS_RECV_BUF_SIZE"
    using o(4) by (simp add: buffers_inv_def Let_def)
  define x where "x = with_client (\<lambda>c. c\<lparr>socks_recv_buf := blit (socks_recv_buf c) 0 data\<rparr>)
          (log_event (Ev_SocksData data) (w\<lparr>socks_receiving := False\<rparr>))"
  have bx: "buffers_inv x"
    using o(4) l s assms(4) by (auto simp: x_def buffers_inv_def Let_def)
  have sx: "sending_inv x" using o(5) s by (simp add: x_def sending_inv_def Let_def)
  have x: "allocated x" "\<not> fault x" "frame_inv x" "num_clients x > 0" "frame x = frame w" "in_sync x = in_sync w"
    using a o(1-3) by (simp_all add: x_def frame_inv_def)
  show ?thesis
  proof (cases "client_closed (client w)")
    case True
    have "receiving_inv x" "idle_inv x" using True by (simp_all add: x_def receiving_inv_def idle_inv_def)
    moreover have "pcb_inv x" using o(8) by (simp add: x_def pcb_inv_def Let_def)
    moreover have "closing_inv x" using o(9) by (simp add: x_def closing_inv_def Let_def)
    ultimately have "core_inv x" using x bx sx by (intro core_openI)
    moreover have "client_socks_recv_handler_done lw (length data) x = x"
      using x(1) assms(3,4) s True by (simp add: client_socks_recv_handler_done_def x_def)
    ultimately show ?thesis using assms(1) x by (simp add: x_def [symmetric] winv_def)
  next
    case False
    define q where "q = with_client (\<lambda>c. c\<lparr>socks_recv_buf_used := int (length data), socks_recv_buf_sent := 0,
          socks_recv_waiting := False\<rparr>) x"
    obtain y stop where r: "client_socks_recv_send_out lw q = (y, stop)" by fastforce
    have e: "client_socks_recv_handler_done lw (length data) x =
        (if stop then y else let y = ASSERT (allocated y) y in
           if socks_recv_buf_used (client y) = -1 then client_socks_recv_initiate y else y)"
      by (rule recv_done_unfold [OF _ _ _ _ _ _ _ q_def r]) (use x(1) assms(3,4) s False in \<open>simp_all add: x_def\<close>)
    have "frame_inv q" "buffers_inv q" "sending_inv q"
      using x bx sx by (simp_all add: q_def frame_inv_def buffers_inv_def sending_inv_def Let_def x_def)
    moreover have "from_socks (trace w) = to_client (trace w)" "acked (trace w) \<le> length (to_client (trace w))"
        "socks_recv_tcp_pending (client w) = int (length (to_client (trace w))) - int (acked (trace w))"
      using o(6) s False by (auto simp: receiving_inv_def Let_def)
    ultimately have q: "queueing q"
      using x False s o(8) assms(3,4) l
      by (simp add: queueing_def pcb_open_def q_def x_def pcb_inv_def Let_def)
    have i: "if stop then core_inv y else queued_out q y"
      by (rule send_out_inv [OF q _ _ r]) (use assms(3) in \<open>simp_all add: q_def\<close>)
    have "frame q = frame w" "in_sync q = in_sync w" using x by (simp_all add: q_def)
    then have y: "frame y = None \<longleftrightarrow> frame w = None" "in_sync y = in_sync w"
      using send_out_frames [of lw q, unfolded r] by simp_all
    have nr: "\<not> socks_receiving q" "\<not> socks_closed (client q)" using s by (simp_all add: q_def x_def)
    have "core_inv (client_socks_recv_handler_done lw (length data) x)"
    proof (cases stop)
      case False
      then have q2: "queued_out q y" "allocated y" "\<not> socks_closed (client y)" "\<not> socks_receiving y"
        using i nr by (auto simp: queued_out_def pcb_open_def)
      then show ?thesis using False e queued_out_initiate [OF q2(1,3,4)] queued_out_idle [OF q2(1)] by (simp add: Let_def)
    qed (use e i in simp)
    then show ?thesis using e y assms(1) unfolding x_def [symmetric] by (auto simp: winv_def Let_def)
  qed
qed


lemma socks_up_unfold:
  assumes "allocated x" "\<not> socks_closed (client x)" "\<not> socks_up (client x)" "\<not> client_closed (client x) \<Longrightarrow> pcb_live x"
    and v: "v = with_client (\<lambda>c. c\<lparr>socks_up := True\<rparr>)
       (let x = with_client (\<lambda>c. c\<lparr>socks_recv_buf_used := -1, socks_recv_tcp_pending := 0\<rparr>) x in
        if \<not> client_closed (client x) then set_callbacks (cb_err x) (cb_recv x) True x else x)"
    and u: "u = (if buf_used (client x) > 0 then socks_send_buf v else v)"
  shows "client_socks_handler lw BSOCKSCLIENT_EVENT_UP x =
      (if \<not> client_closed (client x) then client_socks_recv_initiate u else u)"
  using assms(1-4) by (cases "client_closed (client x)"; cases "buf_used (client x) > 0")
    (simp_all add: client_socks_handler_def client_send_to_socks_def u v Let_def)

lemma step_socks_up_winv:
  assumes "winv w" "socks_live w" "Ev_SocksUp \<notin> set (trace w)"
  shows "winv (client_socks_handler lw BSOCKSCLIENT_EVENT_UP (log_event Ev_SocksUp w))"
proof -
  have c: "core_inv w" using assms(1) by (simp add: winv_def)
  note a = socks_alive [OF c assms(2)]
  note o = core_openD [OF c a(1)]
  have up: "\<not> socks_up (client w)" using o(4) assms(3) by (simp add: buffers_inv_def Let_def)
  let ?x = "log_event Ev_SocksUp w"
  define v where "v = with_client (\<lambda>c. c\<lparr>socks_up := True\<rparr>)
       (let x = with_client (\<lambda>c. c\<lparr>socks_recv_buf_used := -1, socks_recv_tcp_pending := 0\<rparr>) ?x in
        if \<not> client_closed (client x) then set_callbacks (cb_err x) (cb_recv x) True x else x)"
  define u where "u = (if buf_used (client ?x) > 0 then socks_send_buf v else v)"
  have e: "client_socks_handler lw BSOCKSCLIENT_EVENT_UP ?x = (if \<not> client_closed (client w) then client_socks_recv_initiate u else u)"
    using socks_up_unfold [OF _ _ _ _ v_def u_def] a up o(8) by (simp add: pcb_inv_def Let_def)
  have nr: "socks_sending w = None" "\<not> socks_receiving w" using o(5) up by (simp_all add: sending_inv_def Let_def)
  have data: "from_socks (trace w) = []" "to_client (trace w) = []" "acked (trace w) = 0"
    using o(4) up by (simp_all add: buffers_inv_def Let_def)
  have vv: "allocated v" "\<not> fault v" "frame_inv v" "num_clients v > 0" "buffers_inv v" "receiving_inv v" "pcb_inv v" "closing_inv v"
    subgoal using a by (simp add: v_def Let_def)
    subgoal using a o(1,8) by (simp add: v_def Let_def pcb_inv_def)
    subgoal using o(2) by (simp add: v_def frame_inv_def Let_def)
    subgoal using o(3) by (simp add: v_def Let_def)
    subgoal using o(4) data by (simp add: v_def buffers_inv_def Let_def)
    subgoal using data by (simp add: v_def receiving_inv_def Let_def)
    subgoal using o(8) a by (auto simp: v_def pcb_inv_def Let_def)
    subgoal using o(9) a by (simp add: v_def closing_inv_def Let_def)
    done
  have sv: "socks_live v" "socks_sending v = None" "\<not> socks_receiving v" "socks_up (client v)" "\<not> socks_closed (client v)"
    "buf_used (client v) = buf_used (client w)" "client_closed (client v) = client_closed (client w)"
    "socks_recv_buf_used (client v) = -1" "frame v = frame w" "in_sync v = in_sync w"
    using assms(2) nr a by (simp_all add: v_def Let_def)
  have "core_inv (if \<not> client_closed (client w) then client_socks_recv_initiate u else u)"
  proof (cases "buf_used (client w) > 0")
    case True
    then have u: "u = socks_send_buf v" by (simp add: u_def)
    show ?thesis
    proof (cases "client_closed (client w)")
      case True
      have "idle_inv v" using True sv by (simp add: idle_inv_def Let_def)
      then show ?thesis using True \<open>buf_used (client w) > 0\<close> vv sv by (simp add: u send_buf_core)
    next
      case False
      then show ?thesis using \<open>buf_used (client w) > 0\<close> vv sv send_buf_parts [of v] by (simp add: u initiate_core)
    qed
  next
    case False
    then have u: "u = v" and o2: "\<not> client_closed (client w)" using o(9) by (auto simp: u_def closing_inv_def Let_def)
    have "sending_inv v" using sv False by (simp add: sending_inv_def Let_def)
    then show ?thesis using o2 vv sv by (simp add: u initiate_core)
  qed
  then show ?thesis unfolding e using assms(1) sv by (simp add: winv_def u_def)
qed


lemma sent_func_unfold:
  assumes "allocated x" "\<not> client_closed (client x)" "socks_up (client x)" "0 < n" "int n \<le> socks_recv_tcp_pending (client x)"
    and v: "v = with_client (\<lambda>c. c\<lparr>socks_recv_tcp_pending := socks_recv_tcp_pending c - int n\<rparr>) (DEAD_ENTER x)"
  shows "client_sent_func lw n x =
    (if socks_recv_buf_used (client v) > 0 then
       let w = ASSERT (socks_recv_waiting (client v)) v;
           w = ASSERT (socks_recv_buf_sent (client v) < socks_recv_buf_used (client v)) w;
           w = with_client (\<lambda>c. c\<lparr>socks_recv_waiting := False\<rparr>) w;
           (w, stop) = client_socks_recv_send_out lw w
       in if stop then callback_leave w
          else let w = ASSERT (allocated w \<and> socks_recv_tcp_pending (client w) > 0) w in
            if socks_recv_buf_used (client w) = -1 \<and> \<not> socks_closed (client w)
            then (client_socks_recv_initiate w)\<lparr>in_sync := True\<rparr> else callback_leave w
     else if socks_closed (client v) \<and> socks_recv_tcp_pending (client v) = 0 then callback_leave (client_free_client lw v)
     else callback_leave v)"
  using assms(1-5) by (simp add: client_sent_func_def v Let_def)

lemma step_sent_result:
  assumes "winv w" "frame w = None" "pcb_live w" "cb_sent w" "0 < n" "acked (trace w) + n \<le> length (to_client (trace w))"
  shows "callback_result (length (trace w) + 1) (client_sent_func lw n (log_event (Ev_ClientAcked n) w))"
proof -
  have c: "core_inv w" and a: "allocated w" "\<not> client_closed (client w)"
    using assms callback_alive [of w] by (auto simp: winv_def)
  note o = core_openD [OF c a(1)]
  have d: "dead_aborted (client w) = None" "\<not> aborted (client w)" using open_dead_none [OF c a(1) assms(2) a(2)] by auto
  have up: "socks_up (client w)" using o(8) assms(4) by (simp add: pcb_inv_def Let_def)
  let ?x = "log_event (Ev_ClientAcked n) w"
  define v where "v = with_client (\<lambda>c. c\<lparr>socks_recv_tcp_pending := socks_recv_tcp_pending c - int n\<rparr>) (DEAD_ENTER ?x)"
  have pend: "socks_recv_tcp_pending (client w) = int (length (to_client (trace w))) - int (acked (trace w))"
    using o(6) a up by (simp add: receiving_inv_def Let_def)
  note e = sent_func_unfold [OF _ _ _ _ _ v_def, of lw, simplified, OF a up assms(5)]
  have vf: "allocated v" "\<not> fault v" "frame_inv v" "num_clients v > 0" "frame v \<noteq> None"
    using a d o(1,3) assms(2) enter_frame_ok [of ?x] by (simp_all add: v_def frame_inv_def)
  have vi: "buffers_inv v" "sending_inv v" "receiving_inv v" "pcb_inv v"
    subgoal using o(4) up a by (simp add: v_def buffers_inv_def Let_def)
    subgoal using o(5) by (simp add: v_def sending_inv_def Let_def)
    subgoal using o(6) assms(6) by (auto simp: v_def receiving_inv_def Let_def)
    subgoal using o(8) by (simp add: v_def pcb_inv_def Let_def)
    done
  have same: "socks_recv_buf_used (client v) = socks_recv_buf_used (client w)" "socks_closed (client v) = socks_closed (client w)"
    "socks_recv_waiting (client v) = socks_recv_waiting (client w)" "socks_receiving v = socks_receiving w"
    "socks_recv_buf_sent (client v) = socks_recv_buf_sent (client w)" "socks_up (client v)" "\<not> client_closed (client v)"
    "socks_gone (trace v) = socks_gone (trace w)" "\<not> aborted (client v)"
    using up a d by (simp_all add: v_def)
  have open_v: "pcb_open v"
    using vf vi same o(8,9) a by (simp add: pcb_open_def pcb_inv_def closing_inv_def Let_def)
  consider (more) "socks_recv_buf_used (client w) > 0"
    | (none) "socks_recv_buf_used (client w) = -1"
    using o(6) a up by (auto simp: receiving_inv_def Let_def)
  then show ?thesis
  proof cases
    case more
    have w: "socks_recv_waiting (client w)" "0 \<le> socks_recv_buf_sent (client w)"
      "socks_recv_buf_sent (client w) < socks_recv_buf_used (client w)"
      using more o(6,7) a up by (auto simp: receiving_inv_def idle_inv_def Let_def)
    define q where "q = with_client (\<lambda>c. c\<lparr>socks_recv_waiting := False\<rparr>) v"
    obtain y stop where r: "client_socks_recv_send_out lw q = (y, stop)" by fastforce
    have "pcb_open q" using open_v
      by (clarsimp simp: pcb_open_def q_def frame_inv_def buffers_inv_def sending_inv_def Let_def)
    then have q: "queueing q"
      using vi(3,4) same more w by (simp add: queueing_def q_def receiving_inv_def pcb_inv_def Let_def)
    have i: "if stop then core_inv y else queued_out q y"
      by (rule send_out_inv [OF q _ _ r]) (use w same in \<open>simp_all add: q_def\<close>)
    have bgy: "began_of y = Some (length (trace w) + 1)"
      using began_send_out [of lw q, unfolded r] by (simp add: q_def v_def)
    have fy: "frame y \<noteq> None" using send_out_frames [of lw q, unfolded r] vf(5) by (simp add: q_def del: not_None_eq)
    have e2: "client_sent_func lw n ?x = (if stop then callback_leave y
        else let w = ASSERT (allocated y \<and> socks_recv_tcp_pending (client y) > 0) y in
          if socks_recv_buf_used (client w) = -1 \<and> \<not> socks_closed (client w)
          then (client_socks_recv_initiate w)\<lparr>in_sync := True\<rparr> else callback_leave w)"
      using e more same w r pend assms(6) by (simp add: q_def)
    have nr: "\<not> socks_closed (client w) \<longrightarrow> \<not> socks_receiving w" using more o(7) a up by (simp add: idle_inv_def Let_def)
    show ?thesis
    proof (cases stop)
      case False
      then have qy: "queued_out q y" using i by simp
      then have y: "allocated y" "socks_recv_tcp_pending (client y) > 0" "socks_receiving y = socks_receiving w"
          "socks_closed (client y) = socks_closed (client w)"
        using same by (simp_all add: queued_out_def pcb_open_def q_def)
      show ?thesis
      proof (cases "socks_recv_buf_used (client y) = -1 \<and> \<not> socks_closed (client y)")
        case True
        then have "core_inv (client_socks_recv_initiate y)" using y nr by (intro queued_out_initiate [OF qy]) auto
        then show ?thesis using e2 False True y fy by (simp add: callback_result_def)
      next
        case c2: False
        then have "core_inv y" using y nr by (intro queued_out_idle [OF qy]) auto
        then show ?thesis using e2 False c2 y callback_resultI [OF _ bgy] by auto
      qed
    qed (use e2 i callback_resultI [OF _ bgy] in simp)
  next
    case none
    have eq: "from_socks (trace v) = to_client (trace v)" "socks_recv_tcp_pending (client v) = int (length (to_client (trace v))) - int (acked (trace v))"
      "acked (trace v) \<le> length (to_client (trace v))"
      using none vi(3) same by (auto simp: receiving_inv_def Let_def)
    show ?thesis
    proof (cases "socks_closed (client v) \<and> socks_recv_tcp_pending (client v) = 0")
      case True
      then have "core_inv (client_free_client lw v)" using eq by (intro free_client_core [OF open_v]) auto
      then have "callback_result (length (trace w) + 1) (callback_leave (client_free_client lw v))"
        by (intro callback_resultI) (simp_all add: began_free v_def)
      then show ?thesis using e none same True pend assms(6) by simp
    next
      case False
      have "idle_inv v" using none same o(7) a up by (simp add: idle_inv_def Let_def)
      moreover have "closing_inv v" using False same eq o(9) by (auto simp: closing_inv_def Let_def)
      ultimately have "core_inv v" using vf vi by (intro core_openI)
      then have "callback_result (length (trace w) + 1) (callback_leave v)"
        by (intro callback_resultI) (simp_all add: v_def)
      then show ?thesis using e none same False pend assms(6) by (auto split: if_splits)
    qed
  qed
qed


lemma accept_winv: "accepted w \<Longrightarrow> winv w"
proof -
  assume "accepted w"
  then obtain e p w0 where f: "fresh_world w0" and ok: "accept_env_ok e" and w: "w = listener_accept_func e p w0"
    by (auto simp: accepted_def)
  show "winv w"
  proof (cases "accept_mem e = None \<or> accept_username e = Some None \<or> \<not> accept_socks_ok e")
    case True
    then have "w = w0\<lparr>ret := Some ERR_MEM\<rparr>" using w by (auto simp: listener_accept_func_def split: option.splits)
    then show ?thesis using f by (simp add: winv_def core_inv_def fresh_world_def frame_inv_def frame_ok_def ended_inv_def)
  next
    case False
    then obtain c where c: "accept_mem e = Some c" "length (buf c) = TCP_WND" "length (socks_recv_buf c) = CLIENT_SOCKS_RECV_BUF_SIZE"
      using ok by (auto simp: accept_env_ok_def)
    define c2 where "c2 = c\<lparr>socks_username := (case accept_username e of Some u \<Rightarrow> u | None \<Rightarrow> None),
                   local_addr := baddr_from_lwip (fst (accept_local e)) (snd (accept_local e)),
                   remote_addr := baddr_from_lwip (fst (accept_remote e)) (snd (accept_remote e)),
                   aborted := False, dead_aborted := None, pcb := p, client_closed := False,
                   buf_used := 0, socks_up := False, socks_closed := False\<rparr>"
    define v where "v = set_callbacks True True False (w0\<lparr>client := c2, allocated := True, num_clients := num_clients w0 + 1,
                   socks_live := True, socks_sending := None, socks_receiving := False\<rparr>)"
    have e: "w = (DEAD_ENTER v)\<lparr>in_sync := True\<rparr>"
      using False c(1) w by (simp add: listener_accept_func_def Let_def v_def c2_def)
    have "frame_inv (DEAD_ENTER v)" by (rule enter_frame_ok) (simp_all add: v_def c2_def)
    then have "core_inv (DEAD_ENTER v)"
      using f c by (intro core_openI)
        (simp_all add: v_def c2_def fresh_world_def buffers_inv_def sending_inv_def receiving_inv_def idle_inv_def
          pcb_inv_def closing_inv_def Let_def)
    then show ?thesis by (simp add: e winv_def)
  qed
qed

lemma tstep_winv: "tstep lw w w' \<Longrightarrow> winv w \<Longrightarrow> winv w'"
  by (induction rule: tstep.induct)
    (blast intro: step_data_result [THEN callback_result_winv] step_fin_result [THEN callback_result_winv] step_err_winv
      step_sent_result [THEN callback_result_winv] step_socks_up_winv step_socks_error_winv
      step_socks_closed_winv step_send_done_winv step_recv_done_winv step_leave_winv step_murder_winv)+

interpretation relay: invariant_system accepted "tstep lw" winv for lw :: "'p lwip"
  by unfold_locales (auto intro: accept_winv tstep_winv)

text \<open>
  C1. Whatever lwIP and the SOCKS client do within their contracts, and in whatever order, no
  assertion of the source fails, no freed client, pcb or SOCKS client is used, the client is
  freed at most once and no flag is written through a dangling pointer.
\<close>

theorem tcp_relay_never_faults:
  assumes "reach accepted (tstep lw) w"
  shows "\<not> fault w"
  using relay.reach_inv [OF assms] by (simp add: winv_def core_inv_def)

lemma winv_prefixes:
  assumes "winv w"
  shows "\<exists>r. from_client (trace w) = to_socks (trace w) @ r" "\<exists>r. from_socks (trace w) = to_client (trace w) @ r"
  using assms by (auto simp: winv_def core_inv_def ended_inv_def buffers_inv_def Let_def split: if_splits)

text \<open>
  C2. At every moment the bytes handed to the SOCKS server are a prefix of the bytes received
  from the client, and the bytes queued for the client are a prefix of those received from the
  SOCKS server: nothing is lost in between, duplicated or reordered.
\<close>

theorem tcp_relay_preserves_order:
  assumes "reach accepted (tstep lw) w"
  shows "(\<exists>r. from_client (trace w) = to_socks (trace w) @ r) \<and> (\<exists>r. from_socks (trace w) = to_client (trace w) @ r)"
  using winv_prefixes [OF relay.reach_inv [OF assms]] by blast

text \<open>
  C3. When the relay of a connection has ended, everything the client sent has been accepted by the SOCKS connection, unless the SOCKS
  connection reported an error or was closed, or the program shut down; a client that closes or resets does not lose what it sent. And everything
  received from the SOCKS connection has been written to the client and acknowledged, unless the client closed its side (which ends
  both directions), was reset or aborted, or the program shut down.
\<close>

theorem tcp_relay_delivers_everything:
  assumes "reach accepted (tstep lw) w" and "\<not> allocated w"
  shows "(\<not> socks_gone (trace w) \<longrightarrow> to_socks (trace w) = from_client (trace w))
    \<and> (\<not> client_gone (trace w) \<longrightarrow> to_client (trace w) = from_socks (trace w)
        \<and> acked (trace w) = length (from_socks (trace w)))"
  using relay.reach_inv [OF assms(1)] assms(2) by (auto simp: winv_def core_inv_def ended_inv_def)

text \<open>
  C5. A client that is still there always has something to wait for. Either lwIP has it registered or the SOCKS connection is up or coming up.
  Data from the client that are buffered while the SOCKS connection is open are being sent, or the connection is still coming up.
  A client whose pcb is closed is kept only because such data are left; one whose SOCKS connection is closed only because the other side has still to acknowledge
  data written to it (data it sent before are dropped then). Data for the client that could not be written wait for an acknowledgement that is
  due, and when none are left a receive is in progress.
\<close>

theorem tcp_relay_never_stuck:
  assumes "reach accepted (tstep lw) w" and "allocated w"
  shows "(cb_err w \<or> socks_live w)
    \<and> (buf_used (client w) > 0 \<and> \<not> socks_closed (client w) \<longrightarrow> socks_sending w \<noteq> None \<or> socks_live w \<and> \<not> socks_up (client w))
    \<and> (client_closed (client w) \<longrightarrow> \<not> socks_closed (client w) \<and> buf_used (client w) > 0)
    \<and> (socks_closed (client w) \<longrightarrow> cb_sent w \<and> acked (trace w) < length (to_client (trace w)))
    \<and> (cb_sent w \<and> socks_recv_buf_used (client w) \<noteq> -1 \<longrightarrow> acked (trace w) < length (to_client (trace w)))
    \<and> (cb_sent w \<and> socks_live w \<and> socks_recv_buf_used (client w) = -1 \<longrightarrow> socks_receiving w)"
proof -
  have c: "core_inv w" using relay.reach_inv [OF assms(1)] by (simp add: winv_def)
  note o = core_openD [OF c assms(2)]
  have 1: "cb_err w \<or> socks_live w" using o(5,8,9) by (auto simp: sending_inv_def pcb_inv_def closing_inv_def Let_def)
  have 2: "buf_used (client w) > 0 \<and> \<not> socks_closed (client w) \<longrightarrow> socks_sending w \<noteq> None \<or> socks_live w \<and> \<not> socks_up (client w)"
    using o(5) by (auto simp: sending_inv_def Let_def)
  have 3: "client_closed (client w) \<longrightarrow> \<not> socks_closed (client w) \<and> buf_used (client w) > 0"
    using o(9) by (auto simp: closing_inv_def Let_def)
  have 4: "acked (trace w) < length (to_client (trace w))" if "cb_sent w" "socks_recv_buf_used (client w) \<noteq> -1"
    using that o(6,7,8) by (auto simp: receiving_inv_def idle_inv_def pcb_inv_def Let_def)
  have 5: "cb_sent w \<and> acked (trace w) < length (to_client (trace w))" if "socks_closed (client w)"
  proof -
    have s: "cb_sent w" "socks_recv_buf_used (client w) \<ge> 0 \<or> socks_recv_tcp_pending (client w) > 0"
      using that o(8,9) by (auto simp: pcb_inv_def closing_inv_def Let_def)
    then show ?thesis using 4 o(6,8) by (auto simp: receiving_inv_def pcb_inv_def Let_def)
  qed
  have 6: "socks_receiving w" if "cb_sent w" "socks_live w" "socks_recv_buf_used (client w) = -1"
    using that o(5,7,8) by (auto simp: sending_inv_def idle_inv_def pcb_inv_def Let_def)
  from 1 2 3 4 5 6 show ?thesis by blast
qed

text \<open>
  C6. Data that lwIP delivers within the window the program has opened always fits the client's
  buffer, and the bytes the program has confirmed to lwIP are exactly those the SOCKS server
  took: the branch for a full buffer is never taken.
\<close>

theorem tcp_window_bounds_buffer:
  assumes "reach accepted (tstep lw) w" and "cb_recv w"
    and "length (from_client (trace w)) + length data \<le> TCP_WND + recved (trace w)"
  shows "buf_used (client w) + length data \<le> TCP_WND \<and> recved (trace w) = length (to_socks (trace w))"
proof -
  have c: "core_inv w" using relay.reach_inv [OF assms(1)] by (simp add: winv_def)
  have a: "allocated w" "\<not> client_closed (client w)" using callback_alive [OF c] assms(2) by auto
  then show ?thesis using core_openD(4) [OF c a(1)] assms(3) by (simp add: buffers_inv_def Let_def)
qed


text \<open>The calls of a callback registered with lwIP, from its start or from the end of \<open>SYNC_COMMIT\<close>.\<close>

inductive callback_step :: "'p lwip \<Rightarrow> 'p world \<Rightarrow> nat \<Rightarrow> 'p world \<Rightarrow> bool" for lw where
  cb_data: "\<lbrakk>frame w = None; pcb_live w; cb_recv w; data \<noteq> [];
     length (from_client (trace w)) + length data \<le> TCP_WND + recved (trace w)\<rbrakk>
   \<Longrightarrow> callback_step lw w (length (trace w) + 1) (client_recv_func lw (Some data) (log_event (Ev_ClientData data) w))"
| cb_fin: "\<lbrakk>frame w = None; pcb_live w; cb_recv w\<rbrakk>
   \<Longrightarrow> callback_step lw w (length (trace w) + 1) (client_recv_func lw None (log_event Ev_ClientFin w))"
| cb_acked: "\<lbrakk>frame w = None; pcb_live w; cb_sent w; 0 < n; acked (trace w) + n \<le> length (to_client (trace w))\<rbrakk>
   \<Longrightarrow> callback_step lw w (length (trace w) + 1) (client_sent_func lw n (log_event (Ev_ClientAcked n) w))"
| cb_leave: "\<lbrakk>in_sync w; frame w = Some f\<rbrakk> \<Longrightarrow> callback_step lw w (began f) (callback_leave w)"

lemma callback_step_result: "callback_step lw w b w' \<Longrightarrow> winv w \<Longrightarrow> callback_result b w'"
proof (induction rule: callback_step.induct)
  case (cb_leave w f)
  then show ?case by (intro callback_resultI) (simp_all add: winv_def began_of_def)
qed (auto intro: step_data_result step_fin_result step_sent_result simp del: One_nat_def add_Suc_right)

text \<open>
  C4. A callback that lwIP called returns \<open>ERR_ABRT\<close> if and only if \<open>tcp_abort\<close> was called since
  it began, also when that happened inside \<open>SYNC_COMMIT\<close> and when the client has been freed.
\<close>

theorem callback_returns_abrt_iff_aborted:
  assumes "reach accepted (tstep lw) w" and "callback_step lw w b w'" and "frame w' = None"
  shows "ret w' = Some ERR_ABRT \<longleftrightarrow> Do_tcp_abort \<in> set (drop b (trace w'))"
  by (rule callback_result_ret [OF callback_step_result [OF assms(2) relay.reach_inv [OF assms(1)]] assms(3)])

section \<open>A concrete connection\<close>

text \<open>An lwIP that accepts everything, a client that connects, and one that closes at once.\<close>

definition demo_lwip :: "unit lwip" where
  "demo_lwip = \<lparr>tcp_sndbuf = (\<lambda>_. 100), tcp_write = (\<lambda>p d. (0, p)), tcp_output = (\<lambda>p. (0, p)),
     tcp_close = (\<lambda>p. (0, p)), tcp_recved = (\<lambda>p n. p)\<rparr>"

definition demo_mem :: "unit tcp_client" where
  "demo_mem = \<lparr>aborted = False, dead_aborted = None, local_addr = BAddr_None, remote_addr = BAddr_None, pcb = (),
     client_closed = False, buf = replicate TCP_WND 0, buf_used = 0, socks_username = None, socks_up = False,
     socks_closed = False, socks_recv_buf = replicate CLIENT_SOCKS_RECV_BUF_SIZE 0, socks_recv_buf_used = 0,
     socks_recv_buf_sent = 0, socks_recv_waiting = False, socks_recv_tcp_pending = 0\<rparr>"

definition demo_env :: "unit accept_env" where
  "demo_env = \<lparr>accept_mem = Some demo_mem, accept_local = (Ip4 1, 80), accept_remote = (Ip4 2, 4000),
     accept_username = None, accept_socks_ok = True\<rparr>"

definition demo_fresh :: "unit world" where
  "demo_fresh = \<lparr>client = demo_mem, allocated = False, num_clients = 0, pcb_live = True, cb_err = False, cb_recv = False,
     cb_sent = False, socks_live = False, socks_sending = None, socks_receiving = False, frame = None, frames_made = 0,
     in_sync = False, ret = None, fault = False, trace = []\<rparr>"

definition demo_connected :: "unit world" where
  "demo_connected = callback_leave (listener_accept_func demo_env () demo_fresh)"

definition demo_data :: "unit world" where
  "demo_data = client_recv_func demo_lwip (Some [1, 2, 3]) (log_event (Ev_ClientData [1, 2, 3]) demo_connected)"

definition demo_closed :: "unit world" where
  "demo_closed = client_recv_func demo_lwip None (log_event Ev_ClientFin demo_connected)"

lemma demo_accepted: "accepted (listener_accept_func demo_env () demo_fresh)"
proof -
  have "fresh_world demo_fresh" by (simp add: fresh_world_def demo_fresh_def)
  moreover have "accept_env_ok demo_env" by (simp add: accept_env_ok_def demo_env_def demo_mem_def)
  ultimately show ?thesis unfolding accepted_def by blast
qed

lemma demo_connected_sel:
  "frame demo_connected = None" "pcb_live demo_connected" "cb_recv demo_connected" "trace demo_connected = []"
  "allocated demo_connected" "in_sync (listener_accept_func demo_env () demo_fresh)"
  "buf_used (client demo_connected) = 0" "\<not> socks_up (client demo_connected)" "\<not> socks_closed (client demo_connected)"
  "\<not> client_closed (client demo_connected)" "\<not> aborted (client demo_connected)" "dead_aborted (client demo_connected) = None"
  by (simp_all add: demo_connected_def listener_accept_func_def demo_env_def Let_def callback_leave_def DEAD_LEAVE2_def
      demo_fresh_def demo_mem_def)

lemma reach_connected: "reach accepted (tstep demo_lwip) demo_connected"
  unfolding demo_connected_def
  by (rule reach_step, rule reach_start, rule demo_accepted, rule step_leave, rule demo_connected_sel)

lemma reach_data: "reach accepted (tstep demo_lwip) demo_data"
  unfolding demo_data_def
  by (rule reach_step [OF reach_connected], rule step_data) (simp_all add: demo_connected_sel)

lemma reach_closed: "reach accepted (tstep demo_lwip) demo_closed"
  unfolding demo_closed_def
  by (rule reach_step [OF reach_connected], rule step_fin) (simp_all add: demo_connected_sel)

lemma demo_closed_sel: "\<not> allocated demo_closed" "frame demo_closed = None"
  "trace demo_closed = [Ev_ClientFin, Do_tcp_close 0, Do_socks_free, Do_free]"
  by (simp_all add: demo_closed_def client_recv_func_def callback_leave_def DEAD_LEAVE2_def Let_def client_free_client.simps
      client_close_pcb_def demo_lwip_def client_handle_freed_client.simps client_free_socks.simps demo_connected_sel
      client_dealloc_def DEAD_KILL_WITH_def)

lemma demo_data_trace: "trace demo_data = [Ev_ClientData [1, 2, 3]]"
  by (simp add: demo_data_def client_recv_func_def Let_def demo_connected_sel callback_leave_def DEAD_LEAVE2_def)

theorem tcp_relay_never_faults_witness: "\<not> fault demo_data \<and> \<not> fault demo_closed"
  using tcp_relay_never_faults [OF reach_data] tcp_relay_never_faults [OF reach_closed] by simp

theorem tcp_relay_preserves_order_witness: "\<exists>r. [1, 2, 3] = to_socks (trace demo_data) @ r"
  using tcp_relay_preserves_order [OF reach_data] by (simp add: demo_data_trace)

text \<open>
  A connection that carries three bytes to the SOCKS server and two back, which the client acknowledges; then the client closes it,
  or the SOCKS server does.
\<close>

definition demo_up :: "unit world" where
  "demo_up = client_socks_handler demo_lwip BSOCKSCLIENT_EVENT_UP (log_event Ev_SocksUp demo_data)"

definition demo_sent :: "unit world" where
  "demo_sent = client_socks_send_handler_done demo_lwip 3
     (log_event (Ev_SocksAccepted (take 3 (buf (client demo_up)))) (demo_up\<lparr>socks_sending := None\<rparr>))"

definition demo_received :: "unit world" where
  "demo_received = client_socks_recv_handler_done demo_lwip (length [7 :: byte, 8])
     (with_client (\<lambda>c. c\<lparr>socks_recv_buf := blit (socks_recv_buf c) 0 [7, 8]\<rparr>)
       (log_event (Ev_SocksData [7, 8]) (demo_sent\<lparr>socks_receiving := False\<rparr>)))"

definition demo_acked :: "unit world" where
  "demo_acked = client_sent_func demo_lwip 2 (log_event (Ev_ClientAcked 2) demo_received)"

definition demo_fin :: "unit world" where
  "demo_fin = client_recv_func demo_lwip None (log_event Ev_ClientFin demo_acked)"

definition demo_ended :: "unit world" where
  "demo_ended = client_socks_handler demo_lwip BSOCKSCLIENT_EVENT_ERROR_CLOSED (log_event Ev_SocksClosed demo_acked)"

lemmas demo_ops = client_recv_func_def client_socks_handler_def client_send_to_socks_def socks_send_buf_def client_socks_recv_initiate_def
  client_socks_send_handler_done_def client_socks_recv_handler_done_def client_socks_recv_send_out_def send_out_loop.simps send_out_write_def
  client_sent_func_def DEAD_ENTER_def callback_leave_def DEAD_LEAVE2_def client_free_client.simps client_close_pcb_def
  client_handle_freed_client.simps client_free_socks.simps client_dealloc_def DEAD_KILL_WITH_def demo_lwip_def

lemma demo_data_sel:
  "frame demo_data = None" "pcb_live demo_data" "cb_recv demo_data" "allocated demo_data" "socks_live demo_data" "socks_sending demo_data = None"
  "\<not> socks_receiving demo_data" "buf_used (client demo_data) = 3" "buf (client demo_data) = blit (buf demo_mem) 0 [1, 2, 3]"
  "\<not> socks_up (client demo_data)" "\<not> socks_closed (client demo_data)" "\<not> client_closed (client demo_data)"
  "\<not> aborted (client demo_data)" "dead_aborted (client demo_data) = None"
  "socks_recv_buf (client demo_data) = replicate CLIENT_SOCKS_RECV_BUF_SIZE 0"
  by (simp_all add: demo_data_def demo_connected_def listener_accept_func_def demo_env_def demo_fresh_def demo_mem_def demo_ops Let_def)

lemma demo_up_sel:
  "frame demo_up = None" "pcb_live demo_up" "cb_recv demo_up" "cb_sent demo_up" "allocated demo_up" "socks_live demo_up"
  "socks_sending demo_up = Some (take 3 (blit (buf demo_mem) 0 [1, 2, 3]))"
  "socks_receiving demo_up" "buf_used (client demo_up) = 3" "buf (client demo_up) = blit (buf demo_mem) 0 [1, 2, 3]"
  "socks_up (client demo_up)" "\<not> socks_closed (client demo_up)" "\<not> client_closed (client demo_up)"
  "\<not> aborted (client demo_up)" "dead_aborted (client demo_up) = None" "socks_recv_buf_used (client demo_up) = -1"
  "socks_recv_tcp_pending (client demo_up) = 0" "socks_recv_buf (client demo_up) = replicate CLIENT_SOCKS_RECV_BUF_SIZE 0"
  by (simp_all add: demo_up_def demo_data_sel demo_ops Let_def)

lemma demo_sent_sel:
  "frame demo_sent = None" "pcb_live demo_sent" "cb_recv demo_sent" "cb_sent demo_sent" "allocated demo_sent" "socks_live demo_sent"
  "socks_sending demo_sent = None" "socks_receiving demo_sent" "buf_used (client demo_sent) = 0"
  "socks_up (client demo_sent)" "\<not> socks_closed (client demo_sent)" "\<not> client_closed (client demo_sent)"
  "\<not> aborted (client demo_sent)" "dead_aborted (client demo_sent) = None" "socks_recv_buf_used (client demo_sent) = -1"
  "socks_recv_tcp_pending (client demo_sent) = 0" "socks_recv_buf (client demo_sent) = replicate CLIENT_SOCKS_RECV_BUF_SIZE 0"
  by (simp_all add: demo_sent_def demo_up_sel demo_ops Let_def)

lemma demo_received_sel:
  "frame demo_received = None" "pcb_live demo_received" "cb_recv demo_received" "cb_sent demo_received" "allocated demo_received" "socks_live demo_received"
  "socks_sending demo_received = None" "socks_receiving demo_received" "buf_used (client demo_received) = 0"
  "socks_up (client demo_received)" "\<not> socks_closed (client demo_received)" "\<not> client_closed (client demo_received)"
  "\<not> aborted (client demo_received)" "dead_aborted (client demo_received) = None" "socks_recv_buf_used (client demo_received) = -1"
  "socks_recv_tcp_pending (client demo_received) = 2"
  by (simp_all add: demo_received_def demo_sent_sel demo_ops Let_def)

lemma demo_acked_sel:
  "frame demo_acked = None" "pcb_live demo_acked" "cb_recv demo_acked" "cb_sent demo_acked" "allocated demo_acked" "socks_live demo_acked"
  "socks_sending demo_acked = None" "socks_receiving demo_acked" "buf_used (client demo_acked) = 0"
  "socks_up (client demo_acked)" "\<not> socks_closed (client demo_acked)" "\<not> client_closed (client demo_acked)"
  "\<not> aborted (client demo_acked)" "dead_aborted (client demo_acked) = None" "socks_recv_buf_used (client demo_acked) = -1"
  "socks_recv_tcp_pending (client demo_acked) = 0"
  by (simp_all add: demo_acked_def demo_received_sel demo_ops Let_def)

lemma demo_bytes: "take 3 (blit (buf demo_mem) 0 [1, 2, 3]) = [1, 2, 3]"
  "bslice 0 2 (blit (replicate CLIENT_SOCKS_RECV_BUF_SIZE 0) 0 [7, 8]) = [7 :: byte, 8]"
  by (simp_all add: blit_def bslice_def)

lemma demo_traces:
  "trace demo_up = [Ev_ClientData [1, 2, 3], Ev_SocksUp, Do_socks_send [1, 2, 3], Do_socks_recv]"
  "trace demo_sent = trace demo_up @ [Ev_SocksAccepted [1, 2, 3], Do_tcp_recved 3]"
  "trace demo_received = trace demo_sent @ [Ev_SocksData [7, 8], Do_tcp_write [7, 8], Do_socks_recv]"
  "trace demo_acked = trace demo_received @ [Ev_ClientAcked 2]"
proof -
  show "trace demo_up = [Ev_ClientData [1, 2, 3], Ev_SocksUp, Do_socks_send [1, 2, 3], Do_socks_recv]"
    by (simp add: demo_up_def demo_data_sel demo_data_trace demo_ops Let_def demo_bytes)
  show "trace demo_sent = trace demo_up @ [Ev_SocksAccepted [1, 2, 3], Do_tcp_recved 3]"
    by (simp add: demo_sent_def demo_up_sel demo_ops Let_def demo_bytes)
  show "trace demo_received = trace demo_sent @ [Ev_SocksData [7, 8], Do_tcp_write [7, 8], Do_socks_recv]"
    by (simp add: demo_received_def demo_sent_sel demo_ops Let_def demo_bytes)
  show "trace demo_acked = trace demo_received @ [Ev_ClientAcked 2]"
    by (simp add: demo_acked_def demo_received_sel demo_ops Let_def)
qed

lemma reach_acked: "reach accepted (tstep demo_lwip) demo_acked"
proof -
  have 1: "tstep demo_lwip demo_data demo_up"
    unfolding demo_up_def by (rule step_socks_up) (simp_all add: demo_data_sel demo_data_trace)
  have 2: "tstep demo_lwip demo_up demo_sent"
    unfolding demo_sent_def by (rule step_send_done [OF demo_up_sel(7)]) (simp_all add: demo_bytes)
  have 3: "tstep demo_lwip demo_sent demo_received"
    unfolding demo_received_def by (rule step_recv_done) (simp_all add: demo_sent_sel)
  have 4: "tstep demo_lwip demo_received demo_acked"
    unfolding demo_acked_def by (rule step_sent) (simp_all add: demo_received_sel demo_traces)
  show ?thesis by (rule reach_step [OF reach_step [OF reach_step [OF reach_step [OF reach_data 1] 2] 3] 4])
qed

lemma demo_end_sel:
  "\<not> allocated demo_fin" "trace demo_fin = trace demo_acked @ [Ev_ClientFin, Do_tcp_close 0, Do_socks_free, Do_free]"
  "\<not> allocated demo_ended" "trace demo_ended = trace demo_acked @ [Ev_SocksClosed, Do_socks_free, Do_tcp_close 0, Do_free]"
  by (simp_all add: demo_fin_def demo_ended_def demo_acked_sel demo_ops Let_def)

lemma reach_ends: "reach accepted (tstep demo_lwip) demo_fin" "reach accepted (tstep demo_lwip) demo_ended"
proof -
  have "tstep demo_lwip demo_acked demo_fin"
    unfolding demo_fin_def by (rule step_fin) (simp_all add: demo_acked_sel)
  then show "reach accepted (tstep demo_lwip) demo_fin" by (rule reach_step [OF reach_acked])
  have "tstep demo_lwip demo_acked demo_ended"
    unfolding demo_ended_def by (rule step_socks_closed) (simp_all add: demo_acked_sel demo_traces)
  then show "reach accepted (tstep demo_lwip) demo_ended" by (rule reach_step [OF reach_acked])
qed

theorem tcp_relay_delivers_everything_witness:
  "to_socks (trace demo_fin) = [1, 2, 3] \<and> to_client (trace demo_ended) = [7, 8] \<and> acked (trace demo_ended) = 2"
  using tcp_relay_delivers_everything [OF reach_ends(1) demo_end_sel(1)] tcp_relay_delivers_everything [OF reach_ends(2) demo_end_sel(3)]
  by (simp add: demo_end_sel demo_traces)

theorem tcp_relay_never_stuck_witness:
  "buf_used (client demo_data) = 3 \<and> ((\<exists>data. socks_sending demo_data = Some data) \<or> socks_live demo_data \<and> \<not> socks_up (client demo_data))"
proof -
  have "socks_sending demo_data \<noteq> None \<or> socks_live demo_data \<and> \<not> socks_up (client demo_data)"
    using tcp_relay_never_stuck [OF reach_data demo_data_sel(4)] by (simp add: demo_data_sel(8,11))
  then show ?thesis by (auto simp: demo_data_sel(8))
qed

theorem tcp_window_bounds_buffer_witness:
  "buf_used (client demo_connected) + length [1 :: byte, 2, 3] \<le> TCP_WND"
  using tcp_window_bounds_buffer [OF reach_connected demo_connected_sel(3), of "[1, 2, 3]"] by (simp add: demo_connected_sel)

theorem callback_returns_abrt_iff_aborted_witness:
  "ret demo_closed = Some ERR_ABRT \<longleftrightarrow> Do_tcp_abort \<in> set (drop 1 (trace demo_closed))"
proof -
  have "callback_step demo_lwip demo_connected 1 demo_closed"
    using cb_fin [of demo_connected demo_lwip] by (simp add: demo_connected_sel demo_closed_def)
  from callback_returns_abrt_iff_aborted [OF reach_connected this demo_closed_sel(2)] show ?thesis .
qed

end
