(* ===== verification/Fair_Queue.thy ===== *)
theory Fair_Queue
  imports Prelude
begin

text \<open>
  The fair queue \<open>flow/PacketPassFairQueue.c\<close>, which lets several flows share one packet output.

  Flows are identified by their addresses. The tree of queued flows (\<open>structure/SAvl.h\<close>) is a
  list ordered by \<open>compare_flows\<close>; its first element is what \<open>Tree_GetFirst\<close> returns. Times are
  64-bit words, as in the code. Calls to the output, to the flows' inputs and to busy handlers
  are recorded in order in \<open>qtrace\<close>; \<open>qfault\<close> records a failed assertion.

  The theorems: no assertion fails and the queue is never idle while a packet waits; the
  handling of overflowing times keeps all differences between times exact; a queued packet is
  sent after a bounded number of other packets.
\<close>

section \<open>State\<close>

type_synonym u64 = "64 word"

abbreviation (input) FAIRQUEUE_MAX_TIME :: u64 where "FAIRQUEUE_MAX_TIME \<equiv> -1"

record PacketPassFairQueueFlow =
  ftime :: u64
  is_queued :: bool
  queued_data :: bytes
  handler_busy :: "nat option"

datatype qevent = QSend nat bytes | QDone nat | QBusy nat | QCancel nat

record PacketPassFairQueue =
  output_mtu :: nat
  use_cancel :: bool
  packet_weight :: nat
  sending_flow :: "nat option"
  sending_len :: nat
  previous_flow :: "nat option"
  queued_tree :: "nat list"
  flows_list :: "nat list"
  flow_of :: "nat \<Rightarrow> PacketPassFairQueueFlow"
  freeing :: bool
  schedule_job :: bool
  qtrace :: "qevent list"
  qfault :: bool

definition Q_ASSERT :: "bool \<Rightarrow> PacketPassFairQueue \<Rightarrow> PacketPassFairQueue" where
  "Q_ASSERT b m = m\<lparr>qfault := qfault m \<or> \<not> b\<rparr>"

definition qemit :: "qevent \<Rightarrow> PacketPassFairQueue \<Rightarrow> PacketPassFairQueue" where
  "qemit e m = m\<lparr>qtrace := qtrace m @ [e]\<rparr>"

definition set_flow :: "nat \<Rightarrow> PacketPassFairQueueFlow \<Rightarrow> PacketPassFairQueue \<Rightarrow> PacketPassFairQueue" where
  "set_flow f x m = m\<lparr>flow_of := (flow_of m)(f := x)\<rparr>"

abbreviation (input) time_of :: "PacketPassFairQueue \<Rightarrow> nat \<Rightarrow> u64" where
  "time_of m f \<equiv> ftime (flow_of m f)"

definition compare_flows :: "PacketPassFairQueue \<Rightarrow> nat \<Rightarrow> nat \<Rightarrow> int" where
  "compare_flows m f1 f2 =
    (let cmp = B_COMPARE (time_of m f1) (time_of m f2) in
     if cmp \<noteq> 0 then cmp else B_COMPARE f1 f2)"

section \<open>The tree of queued flows\<close>

definition Tree_GetFirst :: "PacketPassFairQueue \<Rightarrow> nat option" where
  "Tree_GetFirst m = (case queued_tree m of [] \<Rightarrow> None | f # _ \<Rightarrow> Some f)"

fun tree_insert :: "(nat \<Rightarrow> nat \<Rightarrow> int) \<Rightarrow> nat \<Rightarrow> nat list \<Rightarrow> nat list \<times> bool" where
  "tree_insert cmp f [] = ([f], True)"
| "tree_insert cmp f (g # gs) =
    (if cmp f g < 0 then (f # g # gs, True)
     else if cmp f g = 0 then (g # gs, False)
     else let (r, ok) = tree_insert cmp f gs in (g # r, ok))"

definition Tree_Insert :: "nat \<Rightarrow> PacketPassFairQueue \<Rightarrow> PacketPassFairQueue \<times> bool" where
  "Tree_Insert f m = (let (r, ok) = tree_insert (compare_flows m) f (queued_tree m) in (m\<lparr>queued_tree := r\<rparr>, ok))"

definition Tree_Remove :: "nat \<Rightarrow> PacketPassFairQueue \<Rightarrow> PacketPassFairQueue" where
  "Tree_Remove f m = (Q_ASSERT (f \<in> set (queued_tree m)) m)\<lparr>queued_tree := remove1 f (queued_tree m)\<rparr>"

section \<open>Operations\<close>

text \<open>\<open>get_current_time\<close>: its value, and the assertion it makes about the first flow of the tree.\<close>

definition get_current_time :: "PacketPassFairQueue \<Rightarrow> u64" where
  "get_current_time m =
    (case sending_flow m of
       Some f \<Rightarrow> time_of m f
     | None \<Rightarrow>
        (let (time, have_time) = (case Tree_GetFirst m of None \<Rightarrow> (0, False) | Some f \<Rightarrow> (time_of m f, True));
             (time, have_time) = (case previous_flow m of
                 None \<Rightarrow> (time, have_time)
               | Some p \<Rightarrow> if \<not> have_time \<or> time_of m p < time then (time_of m p, True) else (time, have_time))
         in if have_time then time else 0))"

definition get_current_time_asserts :: "PacketPassFairQueue \<Rightarrow> bool" where
  "get_current_time_asserts m \<longleftrightarrow> (case sending_flow m of
      Some f \<Rightarrow> True
    | None \<Rightarrow> (case Tree_GetFirst m of None \<Rightarrow> True | Some f \<Rightarrow> is_queued (flow_of m f)))"

definition subtract_time :: "nat \<Rightarrow> u64 \<Rightarrow> PacketPassFairQueue \<Rightarrow> nat \<Rightarrow> PacketPassFairQueue" where
  "subtract_time flow subtract m someflow =
    (if subtract > time_of m someflow \<and> someflow \<noteq> flow
     then set_flow someflow ((flow_of m someflow)\<lparr>ftime := 0\<rparr>) (Q_ASSERT (\<not> is_queued (flow_of m someflow)) m)
     else set_flow someflow ((flow_of m someflow)\<lparr>ftime := time_of m someflow - subtract\<rparr>) m)"

definition increment_sent_flow :: "nat \<Rightarrow> u64 \<Rightarrow> PacketPassFairQueue \<Rightarrow> PacketPassFairQueue" where
  "increment_sent_flow flow amount m =
    (let m = Q_ASSERT (amount \<le> FAIRQUEUE_MAX_TIME \<and> \<not> is_queued (flow_of m flow) \<and> sending_flow m = None) m;
         m = (if amount > FAIRQUEUE_MAX_TIME - time_of m flow then
           (let (subtract, m) = (case Tree_GetFirst m of
                None \<Rightarrow> (time_of m flow, m)
              | Some first \<Rightarrow> (time_of m first, Q_ASSERT (is_queued (flow_of m first)) m))
            in foldl (subtract_time flow subtract) m (flows_list m))
          else m)
     in set_flow flow ((flow_of m flow)\<lparr>ftime := time_of m flow + amount\<rparr>) m)"

definition schedule :: "PacketPassFairQueue \<Rightarrow> PacketPassFairQueue" where
  "schedule m =
    (let m = Q_ASSERT (sending_flow m = None \<and> previous_flow m = None \<and> \<not> freeing m \<and> queued_tree m \<noteq> []) m
     in case Tree_GetFirst m of
       None \<Rightarrow> m
     | Some qflow \<Rightarrow>
        (let m = Q_ASSERT (is_queued (flow_of m qflow)) m;
             m = Tree_Remove qflow m;
             m = set_flow qflow ((flow_of m qflow)\<lparr>is_queued := False\<rparr>) m;
             m = qemit (QSend qflow (queued_data (flow_of m qflow))) m
         in m\<lparr>sending_flow := Some qflow, sending_len := length (queued_data (flow_of m qflow))\<rparr>))"

definition schedule_job_handler :: "PacketPassFairQueue \<Rightarrow> PacketPassFairQueue" where
  "schedule_job_handler m =
    (let m = Q_ASSERT (sending_flow m = None \<and> \<not> freeing m) m;
         m = m\<lparr>previous_flow := None\<rparr>
     in if queued_tree m \<noteq> [] then schedule m else m)"

definition FairQueue_input_handler_send :: "nat \<Rightarrow> bytes \<Rightarrow> PacketPassFairQueue \<Rightarrow> PacketPassFairQueue" where
  "FairQueue_input_handler_send flow data m =
    (let m = Q_ASSERT (Some flow \<noteq> sending_flow m \<and> \<not> is_queued (flow_of m flow) \<and> \<not> freeing m) m;
         m = (if Some flow = previous_flow m then m\<lparr>previous_flow := None\<rparr>
              else set_flow flow ((flow_of m flow)\<lparr>ftime := max (time_of m flow) (get_current_time m)\<rparr>) (Q_ASSERT (get_current_time_asserts m) m));
         m = set_flow flow ((flow_of m flow)\<lparr>queued_data := data\<rparr>) m;
         (m, res) = Tree_Insert flow m;
         m = Q_ASSERT res m;
         m = set_flow flow ((flow_of m flow)\<lparr>is_queued := True\<rparr>) m
     in if sending_flow m = None \<and> \<not> schedule_job m then schedule m else m)"

definition FairQueue_output_handler_done :: "PacketPassFairQueue \<Rightarrow> PacketPassFairQueue" where
  "FairQueue_output_handler_done m =
    (let m = Q_ASSERT (previous_flow m = None \<and> \<not> schedule_job m \<and> \<not> freeing m) m
     in case sending_flow m of
       None \<Rightarrow> Q_ASSERT False m
     | Some flow \<Rightarrow>
        (let m = Q_ASSERT (\<not> is_queued (flow_of m flow)) m;
             m = m\<lparr>sending_flow := None\<rparr>;
             m = m\<lparr>previous_flow := Some flow\<rparr>;
             m = increment_sent_flow flow (of_nat (packet_weight m + sending_len m)) m;
             m = m\<lparr>schedule_job := True\<rparr>;
             m = qemit (QDone flow) m
         in case handler_busy (flow_of m flow) of
              None \<Rightarrow> m
            | Some h \<Rightarrow> qemit (QBusy h) (set_flow flow ((flow_of m flow)\<lparr>handler_busy := None\<rparr>) m)))"

text \<open>
  \<open>PacketPassFairQueue_Init\<close>: an output whose packets could overflow a time on their own is
  refused. The arguments are C integers, so the comparison is between integers.
\<close>

definition PacketPassFairQueue_Init :: "nat \<Rightarrow> bool \<Rightarrow> nat \<Rightarrow> PacketPassFairQueue option" where
  "PacketPassFairQueue_Init mtu cancel weight =
    (if \<not> (mtu \<le> unat FAIRQUEUE_MAX_TIME \<and> weight \<le> unat FAIRQUEUE_MAX_TIME - mtu) then None
     else Some \<lparr>output_mtu = mtu, use_cancel = cancel, packet_weight = weight, sending_flow = None,
       sending_len = 0, previous_flow = None, queued_tree = [], flows_list = [],
       flow_of = (\<lambda>_. \<lparr>ftime = 0, is_queued = False, queued_data = [], handler_busy = None\<rparr>),
       freeing = False, schedule_job = False, qtrace = [], qfault = False\<rparr>)"

definition PacketPassFairQueue_Free :: "PacketPassFairQueue \<Rightarrow> PacketPassFairQueue" where
  "PacketPassFairQueue_Free m =
    (Q_ASSERT (flows_list m = [] \<and> queued_tree m = [] \<and> previous_flow m = None \<and> sending_flow m = None) m)
      \<lparr>schedule_job := False\<rparr>"

definition PacketPassFairQueue_PrepareFree :: "PacketPassFairQueue \<Rightarrow> PacketPassFairQueue" where
  "PacketPassFairQueue_PrepareFree m = m\<lparr>freeing := True\<rparr>"

definition PacketPassFairQueue_GetMTU :: "PacketPassFairQueue \<Rightarrow> nat" where
  "PacketPassFairQueue_GetMTU m = output_mtu m"

definition PacketPassFairQueueFlow_Init :: "nat \<Rightarrow> PacketPassFairQueue \<Rightarrow> PacketPassFairQueue" where
  "PacketPassFairQueueFlow_Init flow m =
    (let m = Q_ASSERT (\<not> freeing m) m;
         m = set_flow flow ((flow_of m flow)\<lparr>handler_busy := None, ftime := 0\<rparr>) m;
         m = m\<lparr>flows_list := flows_list m @ [flow]\<rparr>
     in set_flow flow ((flow_of m flow)\<lparr>is_queued := False\<rparr>) m)"

definition PacketPassFairQueueFlow_Free :: "nat \<Rightarrow> PacketPassFairQueue \<Rightarrow> PacketPassFairQueue" where
  "PacketPassFairQueueFlow_Free flow m =
    (let m = Q_ASSERT (freeing m \<or> Some flow \<noteq> sending_flow m) m;
         m = (if Some flow = sending_flow m then m\<lparr>sending_flow := None\<rparr> else m);
         m = (if Some flow = previous_flow m then m\<lparr>previous_flow := None\<rparr> else m);
         m = (if is_queued (flow_of m flow) then Tree_Remove flow m else m)
     in (Q_ASSERT (flow \<in> set (flows_list m)) m)\<lparr>flows_list := remove1 flow (flows_list m)\<rparr>)"

definition PacketPassFairQueueFlow_AssertFree :: "nat \<Rightarrow> PacketPassFairQueue \<Rightarrow> PacketPassFairQueue" where
  "PacketPassFairQueueFlow_AssertFree flow m = Q_ASSERT (freeing m \<or> Some flow \<noteq> sending_flow m) m"

definition PacketPassFairQueueFlow_IsBusy :: "nat \<Rightarrow> PacketPassFairQueue \<Rightarrow> bool" where
  "PacketPassFairQueueFlow_IsBusy flow m \<longleftrightarrow> Some flow = sending_flow m"

definition PacketPassFairQueueFlow_RequestCancel :: "nat \<Rightarrow> PacketPassFairQueue \<Rightarrow> PacketPassFairQueue" where
  "PacketPassFairQueueFlow_RequestCancel flow m =
    qemit (QCancel flow) (Q_ASSERT (Some flow = sending_flow m \<and> use_cancel m \<and> \<not> freeing m \<and> \<not> schedule_job m) m)"

definition PacketPassFairQueueFlow_SetBusyHandler :: "nat \<Rightarrow> nat \<Rightarrow> PacketPassFairQueue \<Rightarrow> PacketPassFairQueue" where
  "PacketPassFairQueueFlow_SetBusyHandler flow handler m =
    set_flow flow ((flow_of m flow)\<lparr>handler_busy := Some handler\<rparr>) (Q_ASSERT (Some flow = sending_flow m \<and> \<not> freeing m) m)"

section \<open>Order of the tree\<close>

definition before :: "PacketPassFairQueue \<Rightarrow> nat \<Rightarrow> nat \<Rightarrow> bool" where
  "before m f g \<longleftrightarrow> time_of m f < time_of m g \<or> time_of m f = time_of m g \<and> f < g"

lemma compare_flows_before [simp]:
  "compare_flows m f g < 0 \<longleftrightarrow> before m f g" "compare_flows m f g = 0 \<longleftrightarrow> f = g"
  by (auto simp: compare_flows_def before_def B_COMPARE_def Let_def)

lemma before_total: "f \<noteq> g \<Longrightarrow> \<not> before m f g \<Longrightarrow> before m g f"
  by (cases "time_of m f" "time_of m g" rule: linorder_cases) (auto simp: before_def)

lemma before_trans: "before m f g \<Longrightarrow> before m g h \<Longrightarrow> before m f h"
  by (auto simp: before_def)

lemma before_le: "before m f g \<Longrightarrow> time_of m f \<le> time_of m g"
  by (auto simp: before_def)

lemma before_irrefl [simp]: "\<not> before m f f"
  by (simp add: before_def)

lemma tree_insert_sorted:
  assumes "sorted_wrt (before m) t" and "f \<notin> set t"
  shows "sorted_wrt (before m) (fst (tree_insert (compare_flows m) f t))
    \<and> set (fst (tree_insert (compare_flows m) f t)) = insert f (set t) \<and> snd (tree_insert (compare_flows m) f t)"
  using assms
proof (induction t)
  case (Cons g t)
  then show ?case
    by (auto simp: split_beta intro: before_trans before_total)
qed simp

section \<open>What the primitives change\<close>

lemma Q_ASSERT_True [simp]: "b \<Longrightarrow> Q_ASSERT b m = m"
  by (simp add: Q_ASSERT_def)

lemma set_flow_sel [simp]:
  "flow_of (set_flow f x m) = (flow_of m)(f := x)" "queued_tree (set_flow f x m) = queued_tree m"
  "flows_list (set_flow f x m) = flows_list m" "sending_flow (set_flow f x m) = sending_flow m"
  "previous_flow (set_flow f x m) = previous_flow m" "freeing (set_flow f x m) = freeing m"
  "schedule_job (set_flow f x m) = schedule_job m" "qtrace (set_flow f x m) = qtrace m"
  "qfault (set_flow f x m) = qfault m" "output_mtu (set_flow f x m) = output_mtu m"
  "packet_weight (set_flow f x m) = packet_weight m" "sending_len (set_flow f x m) = sending_len m"
  "use_cancel (set_flow f x m) = use_cancel m"
  by (simp_all add: set_flow_def)

lemma set_flow_over: "(set_flow f x m)\<lparr>flow_of := F\<rparr> = m\<lparr>flow_of := F\<rparr>"
  by (simp add: set_flow_def)

lemma qemit_sel [simp]:
  "flow_of (qemit e m) = flow_of m" "queued_tree (qemit e m) = queued_tree m"
  "flows_list (qemit e m) = flows_list m" "sending_flow (qemit e m) = sending_flow m"
  "previous_flow (qemit e m) = previous_flow m" "freeing (qemit e m) = freeing m"
  "schedule_job (qemit e m) = schedule_job m" "qtrace (qemit e m) = qtrace m @ [e]"
  "qfault (qemit e m) = qfault m" "output_mtu (qemit e m) = output_mtu m"
  "packet_weight (qemit e m) = packet_weight m" "sending_len (qemit e m) = sending_len m"
  "use_cancel (qemit e m) = use_cancel m"
  by (simp_all add: qemit_def)

definition less_time :: "nat \<Rightarrow> u64 \<Rightarrow> nat \<Rightarrow> PacketPassFairQueueFlow \<Rightarrow> PacketPassFairQueueFlow" where
  "less_time flow s g x = x\<lparr>ftime := if s > ftime x \<and> g \<noteq> flow then 0 else ftime x - s\<rparr>"

lemma subtract_all:
  assumes "distinct fs" and "\<And>g. g \<in> set fs \<Longrightarrow> g \<noteq> flow \<Longrightarrow> is_queued (flow_of m g) \<Longrightarrow> s \<le> time_of m g"
  shows "foldl (subtract_time flow s) m fs
    = m\<lparr>flow_of := (\<lambda>g. if g \<in> set fs then less_time flow s g (flow_of m g) else flow_of m g)\<rparr>"
  using assms
proof (induction fs arbitrary: m)
  case (Cons a fs)
  let ?m = "set_flow a (less_time flow s a (flow_of m a)) m"
  have e1: "subtract_time flow s m a = ?m"
    using Cons.prems(2) [of a]
    by (cases "is_queued (flow_of m a)") (auto simp: subtract_time_def less_time_def not_le [symmetric])
  have e2: "foldl (subtract_time flow s) ?m fs
      = ?m\<lparr>flow_of := (\<lambda>g. if g \<in> set fs then less_time flow s g (flow_of ?m g) else flow_of ?m g)\<rparr>"
    using Cons.prems by (intro Cons.IH) auto
  have e3: "(\<lambda>g. if g \<in> set fs then less_time flow s g (flow_of ?m g) else flow_of ?m g)
      = (\<lambda>g. if g \<in> set (a # fs) then less_time flow s g (flow_of m g) else flow_of m g)"
    using Cons.prems(1) by (intro ext) auto
  show ?case unfolding foldl_Cons e1 e2 e3 set_flow_over ..
qed simp

lemma overflow_iff: "amount > FAIRQUEUE_MAX_TIME - t \<longleftrightarrow> unat t + unat amount \<ge> 2 ^ 64" for t amount :: u64
proof -
  have "unat (FAIRQUEUE_MAX_TIME - t) = 2 ^ 64 - 1 - unat t"
    by (subst unat_sub) (simp_all add: unsigned_minus_1_eq_mask mask_eq_exp_minus_1)
  moreover have "unat t < 2 ^ 64" using unsigned_less [of t] by simp
  ultimately show ?thesis by (auto simp: word_less_nat_alt)
qed

lemma wrapped_sum:
  fixes t s a :: u64
  assumes "unat s \<le> unat t + unat a" and "unat t + unat a < 2 ^ 64 + unat s"
  shows "unat (t - s + a) = unat t + unat a - unat s"
proof -
  have "t - s + a = of_nat (unat t + unat a - unat s)" using assms(1) by (simp add: of_nat_diff)
  then have "unat (t - s + a) = unat (of_nat (unat t + unat a - unat s) :: u64)" by simp
  also have "\<dots> = unat t + unat a - unat s" using assms by (subst unat_of_nat) (simp del: of_nat_add of_nat_diff)
  finally show ?thesis .
qed

text \<open>The part of the invariant that is about times: a flow that is being served is not late.\<close>

definition served_first :: "nat \<Rightarrow> PacketPassFairQueue \<Rightarrow> bool" where
  "served_first f m \<longleftrightarrow> f \<in> set (flows_list m) \<and> \<not> is_queued (flow_of m f)
     \<and> (\<forall>g\<in>set (queued_tree m). time_of m f \<le> time_of m g)"

definition tree_ok :: "PacketPassFairQueue \<Rightarrow> bool" where
  "tree_ok m \<longleftrightarrow> distinct (flows_list m) \<and> sorted_wrt (before m) (queued_tree m)
     \<and> set (queued_tree m) = {f \<in> set (flows_list m). is_queued (flow_of m f)}"

text \<open>
  The effect of \<open>increment_sent_flow\<close>, in exact arithmetic: some time \<open>c\<close> is taken off every flow,
  never below zero; off every queued flow and off the flow served exactly \<open>c\<close>.
\<close>

definition time_shift :: "nat \<Rightarrow> nat \<Rightarrow> nat \<Rightarrow> PacketPassFairQueue \<Rightarrow> PacketPassFairQueue \<Rightarrow> bool" where
  "time_shift c flow amount m m' \<longleftrightarrow>
     (\<forall>g\<in>set (queued_tree m). unat (time_of m' g) + c = unat (time_of m g))
     \<and> unat (time_of m' flow) + c = unat (time_of m flow) + amount
     \<and> (\<forall>g\<in>set (flows_list m). g \<noteq> flow \<longrightarrow> unat (time_of m' g) = unat (time_of m g) - c)"

definition same_but_times :: "PacketPassFairQueue \<Rightarrow> PacketPassFairQueue \<Rightarrow> bool" where
  "same_but_times m m' \<longleftrightarrow> m' = m\<lparr>flow_of := flow_of m'\<rparr> \<and> (\<forall>g. flow_of m' g = (flow_of m g)\<lparr>ftime := time_of m' g\<rparr>)"

lemma tree_first_le:
  assumes "tree_ok m" and "Tree_GetFirst m = Some f" and "g \<in> set (queued_tree m)"
  shows "time_of m f \<le> time_of m g"
  using assms by (auto simp: tree_ok_def Tree_GetFirst_def before_le split: list.splits)

lemma tree_first_in: "Tree_GetFirst m = Some f \<Longrightarrow> f \<in> set (queued_tree m)"
  by (auto simp: Tree_GetFirst_def split: list.splits)

lemma increment_no_overflow:
  assumes "tree_ok m" and "served_first flow m" and "sending_flow m = None" and "unat (time_of m flow) + unat amount < 2 ^ 64"
  shows "same_but_times m (increment_sent_flow flow amount m)
    \<and> time_shift 0 flow (unat amount) m (increment_sent_flow flow amount m)"
proof -
  have "increment_sent_flow flow amount m = set_flow flow ((flow_of m flow)\<lparr>ftime := time_of m flow + amount\<rparr>) m"
    using assms by (simp add: increment_sent_flow_def served_first_def Let_def overflow_iff)
  moreover have "unat (time_of m flow + amount) = unat (time_of m flow) + unat amount"
    using wrapped_sum [of 0 "time_of m flow" amount] assms(4) by simp
  ultimately show ?thesis
    using assms(1,2)
    by (auto simp: same_but_times_def time_shift_def served_first_def set_flow_def tree_ok_def)
qed


lemma increment_overflow:
  assumes ok: "tree_ok m" and sf: "served_first flow m" and snd: "sending_flow m = None"
    and ov: "2 ^ 64 \<le> unat (time_of m flow) + unat amount"
  shows "\<exists>c. same_but_times m (increment_sent_flow flow amount m)
    \<and> time_shift c flow (unat amount) m (increment_sent_flow flow amount m)"
proof -
  define s where "s = (case Tree_GetFirst m of None \<Rightarrow> time_of m flow | Some first \<Rightarrow> time_of m first)"
  have le_q: "s \<le> time_of m g" if "g \<in> set (queued_tree m)" for g
    using that tree_first_le [OF ok _ that] by (cases "Tree_GetFirst m") (auto simp: s_def Tree_GetFirst_def split: list.splits)
  have le_f: "time_of m flow \<le> s"
    using sf tree_first_in by (cases "Tree_GetFirst m") (auto simp: s_def served_first_def)
  have fq: "flow \<in> set (flows_list m)" "\<not> is_queued (flow_of m flow)" "flow \<notin> set (queued_tree m)"
    using sf ok by (auto simp: served_first_def tree_ok_def)
  let ?F = "\<lambda>g. if g \<in> set (flows_list m) then less_time flow s g (flow_of m g) else flow_of m g"
  have fold: "foldl (subtract_time flow s) m (flows_list m) = m\<lparr>flow_of := ?F\<rparr>"
    using ok le_q by (intro subtract_all) (auto simp: tree_ok_def)
  have q: "is_queued (flow_of m f)" if "Tree_GetFirst m = Some f" for f
    using tree_first_in [OF that] ok by (auto simp: tree_ok_def)
  have inc: "increment_sent_flow flow amount m
      = m\<lparr>flow_of := ?F(flow := (flow_of m flow)\<lparr>ftime := time_of m flow - s + amount\<rparr>)\<rparr>"
    using fold snd fq ov q unfolding increment_sent_flow_def
    by (cases "Tree_GetFirst m") (simp_all add: Let_def overflow_iff s_def set_flow_def less_time_def)
  have u: "unat (time_of m flow) \<le> unat s" "unat s < 2 ^ 64" "unat amount < 2 ^ 64"
    using le_f unsigned_less [of s] unsigned_less [of amount] by (simp_all add: word_le_nat_alt)
  have w: "unat (time_of m flow - s + amount) = unat (time_of m flow) + unat amount - unat s"
    using u ov by (intro wrapped_sum) simp_all
  have lq: "\<not> time_of m g < s \<and> unat (time_of m g - s) + unat s = unat (time_of m g)"
    if "g \<in> set (flows_list m)" "is_queued (flow_of m g)" for g
    using le_q [of g] that ok by (auto simp: tree_ok_def unat_sub word_le_nat_alt word_less_nat_alt)
  have ls: "unat (if s > x then 0 else x - s) = unat x - unat s" for x
    by (auto simp: unat_sub word_less_nat_alt not_less word_le_nat_alt)
  have "time_shift (unat s) flow (unat amount) m (increment_sent_flow flow amount m)"
    unfolding inc time_shift_def
    using fq u w ov ok lq ls by (auto simp: less_time_def tree_ok_def)
  moreover have "same_but_times m (increment_sent_flow flow amount m)"
    unfolding inc same_but_times_def by (auto simp: less_time_def)
  ultimately show ?thesis by blast
qed

lemma increment_exact:
  assumes "tree_ok m" and "served_first flow m" and "sending_flow m = None"
  obtains c where "same_but_times m (increment_sent_flow flow amount m)"
    and "time_shift c flow (unat amount) m (increment_sent_flow flow amount m)"
  using increment_no_overflow [OF assms] increment_overflow [OF assms] not_le by blast

lemma time_shift_order:
  assumes "time_shift c flow a m m'" and "f \<in> set (queued_tree m)" and "g \<in> set (queued_tree m)"
  shows "before m' f g = before m f g"
proof -
  have "unat (time_of m' f) + c = unat (time_of m f)" "unat (time_of m' g) + c = unat (time_of m g)"
    using assms by (auto simp: time_shift_def)
  then show ?thesis by (auto simp: before_def word_less_nat_alt word_unat_eq_iff)
qed


section \<open>Runs\<close>

text \<open>
  The environment: users send on a flow whose last packet is done, the output completes the
  packet it was given, the job queue runs the schedule job; flows come and go. After
  \<open>PrepareFree\<close> flows are only freed.
\<close>

inductive qstep :: "PacketPassFairQueue \<Rightarrow> PacketPassFairQueue \<Rightarrow> bool" where
  q_send: "\<not> freeing m \<Longrightarrow> f \<in> set (flows_list m) \<Longrightarrow> sending_flow m \<noteq> Some f \<Longrightarrow> \<not> is_queued (flow_of m f) \<Longrightarrow>
    length data \<le> output_mtu m \<Longrightarrow> qstep m (FairQueue_input_handler_send f data m)"
| q_done: "\<not> freeing m \<Longrightarrow> sending_flow m \<noteq> None \<Longrightarrow> qstep m (FairQueue_output_handler_done m)"
| q_job: "\<not> freeing m \<Longrightarrow> schedule_job m \<Longrightarrow> qstep m (schedule_job_handler (m\<lparr>schedule_job := False\<rparr>))"
| q_cancel: "\<not> freeing m \<Longrightarrow> sending_flow m = Some f \<Longrightarrow> use_cancel m \<Longrightarrow> qstep m (PacketPassFairQueueFlow_RequestCancel f m)"
| q_busy: "\<not> freeing m \<Longrightarrow> sending_flow m = Some f \<Longrightarrow> qstep m (PacketPassFairQueueFlow_SetBusyHandler f h m)"

inductive qstep_any :: "PacketPassFairQueue \<Rightarrow> PacketPassFairQueue \<Rightarrow> bool" where
  qa_step: "qstep m m' \<Longrightarrow> qstep_any m m'"
| qa_init: "\<not> freeing m \<Longrightarrow> f \<notin> set (flows_list m) \<Longrightarrow> qstep_any m (PacketPassFairQueueFlow_Init f m)"
| qa_free: "f \<in> set (flows_list m) \<Longrightarrow> freeing m \<or> sending_flow m \<noteq> Some f \<Longrightarrow> qstep_any m (PacketPassFairQueueFlow_Free f m)"
| qa_prepare: "qstep_any m (PacketPassFairQueue_PrepareFree m)"

definition qinit :: "nat \<Rightarrow> nat \<Rightarrow> PacketPassFairQueue \<Rightarrow> bool" where
  "qinit mtu weight m \<longleftrightarrow> 0 < weight \<and> (\<exists>cancel. PacketPassFairQueue_Init mtu cancel weight = Some m)"

definition qsizes :: "PacketPassFairQueue \<Rightarrow> bool" where
  "qsizes m \<longleftrightarrow> 0 < packet_weight m \<and> packet_weight m + output_mtu m < 2 ^ 64
     \<and> (sending_flow m \<noteq> None \<longrightarrow> sending_len m \<le> output_mtu m)
     \<and> (\<forall>f\<in>set (queued_tree m). length (queued_data (flow_of m f)) \<le> output_mtu m)"

definition qinv :: "PacketPassFairQueue \<Rightarrow> bool" where
  "qinv m \<longleftrightarrow> \<not> qfault m \<and> tree_ok m \<and> qsizes m
     \<and> (\<forall>f. sending_flow m = Some f \<longrightarrow> served_first f m)
     \<and> (\<forall>f. previous_flow m = Some f \<longrightarrow> f \<in> set (flows_list m) \<and> \<not> is_queued (flow_of m f))
     \<and> (sending_flow m \<noteq> None \<longrightarrow> previous_flow m = None \<and> \<not> schedule_job m)
     \<and> (previous_flow m \<noteq> None \<longrightarrow> schedule_job m)
     \<and> (\<not> freeing m \<and> \<not> schedule_job m \<and> sending_flow m = None \<longrightarrow> queued_tree m = [])"

lemma qinv_start: "qinit mtu weight m \<Longrightarrow> qinv m"
  by (auto simp: qinit_def PacketPassFairQueue_Init_def qinv_def tree_ok_def qsizes_def served_first_def
      unsigned_minus_1_eq_mask mask_eq_exp_minus_1 split: if_splits)

lemma schedule_eq:
  assumes "sending_flow m = None" and "previous_flow m = None" and "\<not> freeing m" and "queued_tree m = f # t"
    and "is_queued (flow_of m f)"
  shows "schedule m = m\<lparr>queued_tree := t, flow_of := (flow_of m)(f := (flow_of m f)\<lparr>is_queued := False\<rparr>),
    qtrace := qtrace m @ [QSend f (queued_data (flow_of m f))], sending_flow := Some f,
    sending_len := length (queued_data (flow_of m f))\<rparr>"
  using assms by (simp add: schedule_def Tree_GetFirst_def Tree_Remove_def set_flow_def qemit_def Let_def)

lemma before_cong: "(\<And>g. g \<in> {f, h} \<Longrightarrow> time_of m g = time_of m' g) \<Longrightarrow> before m f h = before m' f h"
  by (simp add: before_def)

lemma sorted_before_cong:
  assumes "sorted_wrt (before m) t" and "\<And>f g. f \<in> set t \<Longrightarrow> g \<in> set t \<Longrightarrow> before m f g \<Longrightarrow> before m' f g"
  shows "sorted_wrt (before m') t"
  using assms by (auto intro: sorted_wrt_mono_rel)

lemma qinv_schedule:
  assumes "tree_ok m" and "qsizes m" and "\<not> qfault m" and "sending_flow m = None" and "previous_flow m = None"
    and "\<not> freeing m" and "\<not> schedule_job m" and "queued_tree m \<noteq> []"
  shows "qinv (schedule m)"
proof -
  obtain f t where ft: "queued_tree m = f # t" using assms(8) by (cases "queued_tree m") auto
  have s: "sorted_wrt (before m) (f # t)" and q: "set (f # t) = {f \<in> set (flows_list m). is_queued (flow_of m f)}"
    and d: "distinct (flows_list m)" using assms(1) ft by (auto simp: tree_ok_def)
  then have fq: "is_queued (flow_of m f)" "f \<in> set (flows_list m)" by auto
  have ft': "f \<notin> set t" using s by auto
  let ?m = "schedule m"
  note eq = schedule_eq [OF assms(4-6) ft fq(1)]
  have b: "before ?m g h = before m g h" for g h by (auto simp: eq before_def)
  have "tree_ok ?m"
    using s q d ft' unfolding tree_ok_def b
    by (auto simp: eq)
  moreover have "served_first f ?m"
    using s fq before_le ft' by (auto simp: eq served_first_def)
  ultimately show ?thesis
    using assms(2-7) ft by (auto simp: qinv_def eq qsizes_def)
qed


lemma qinv_job:
  assumes "qinv m" and "\<not> freeing m" and "schedule_job m"
  shows "qinv (schedule_job_handler (m\<lparr>schedule_job := False\<rparr>))"
proof -
  have s: "sending_flow m = None" using assms by (auto simp: qinv_def)
  let ?m = "m\<lparr>schedule_job := False, previous_flow := None\<rparr>"
  have b: "before ?m = before m" by (intro ext) (simp add: before_def)
  have eq: "schedule_job_handler (m\<lparr>schedule_job := False\<rparr>) = (if queued_tree m \<noteq> [] then schedule ?m else ?m)"
    using s assms(2) by (simp add: schedule_job_handler_def Let_def)
  have ok: "tree_ok ?m" "qsizes ?m" "\<not> qfault ?m" using assms(1) s b by (auto simp: qinv_def tree_ok_def qsizes_def)
  show ?thesis
  proof (cases "queued_tree m = []")
    case True
    then show ?thesis using ok s unfolding eq by (simp add: qinv_def)
  next
    case False
    then show ?thesis unfolding eq using ok s assms(2) by (auto intro!: qinv_schedule)
  qed
qed

text \<open>Enqueueing a flow, up to the decision whether to schedule at once.\<close>

definition enqueue :: "nat \<Rightarrow> bytes \<Rightarrow> PacketPassFairQueue \<Rightarrow> PacketPassFairQueue" where
  "enqueue f data m =
    (let t = (if Some f = previous_flow m then time_of m f else max (time_of m f) (get_current_time m));
         x = (flow_of m f)\<lparr>ftime := t, queued_data := data\<rparr>;
         m' = m\<lparr>flow_of := (flow_of m)(f := x)\<rparr>
     in m\<lparr>previous_flow := (if Some f = previous_flow m then None else previous_flow m),
          queued_tree := fst (tree_insert (compare_flows m') f (queued_tree m)),
          flow_of := (flow_of m)(f := x\<lparr>is_queued := True\<rparr>)\<rparr>)"

lemma compare_flows_flow_of: "compare_flows m = compare_flows m' " if "flow_of m = flow_of m'" for m m'
  using that by (intro ext) (simp add: compare_flows_def)

lemma before_flow_of: "before m = before m'" if "\<And>f. time_of m f = time_of m' f"
  using that by (intro ext) (simp add: before_def)

lemma enqueued_tree:
  fixes data :: bytes
  assumes ok: "tree_ok m" and f: "f \<in> set (flows_list m)" "\<not> is_queued (flow_of m f)"
  defines "m' \<equiv> enqueue f data m"
  shows "tree_ok m'" and "set (queued_tree m') = insert f (set (queued_tree m))"
    and "snd (tree_insert (compare_flows (m\<lparr>flow_of := (flow_of m')\<rparr>)) f (queued_tree m))"
proof -
  let ?m = "m\<lparr>flow_of := flow_of m'\<rparr>"
  have nf: "f \<notin> set (queued_tree m)" using ok f by (auto simp: tree_ok_def)
  have "sorted_wrt (before ?m) (queued_tree m)"
  proof (rule sorted_before_cong [of m])
    show "sorted_wrt (before m) (queued_tree m)" using ok by (simp add: tree_ok_def)
    fix g h assume "g \<in> set (queued_tree m)" "h \<in> set (queued_tree m)" "before m g h"
    then show "before ?m g h" using nf unfolding m'_def enqueue_def Let_def before_def by (auto split: if_splits)
  qed
  note ins = tree_insert_sorted [OF this nf]
  have t: "queued_tree m' = fst (tree_insert (compare_flows ?m) f (queued_tree m))"
    unfolding m'_def enqueue_def Let_def by (auto simp: compare_flows_def intro!: arg_cong [where f = "\<lambda>c. fst (tree_insert c f (queued_tree m))"] ext)
  show "set (queued_tree m') = insert f (set (queued_tree m))" using ins t by simp
  moreover have "before m' = before ?m" by (rule before_flow_of) simp
  moreover have "flows_list m' = flows_list m" "\<And>g. is_queued (flow_of m' g) = (g = f \<or> is_queued (flow_of m g))"
    unfolding m'_def enqueue_def Let_def by auto
  ultimately show "tree_ok m'" using ins t ok f unfolding tree_ok_def by auto
  show "snd (tree_insert (compare_flows ?m) f (queued_tree m))" using ins by simp
qed

lemma input_handler_send_eq:
  assumes "tree_ok m" and "f \<in> set (flows_list m)" and "\<not> is_queued (flow_of m f)" and "sending_flow m \<noteq> Some f" and "\<not> freeing m"
  shows "FairQueue_input_handler_send f data m =
    (if sending_flow m = None \<and> \<not> schedule_job m then schedule (enqueue f data m) else enqueue f data m)"
proof -
  let ?x = "(flow_of m f)\<lparr>ftime := (if Some f = previous_flow m then time_of m f else max (time_of m f) (get_current_time m)),
    queued_data := data\<rparr>"
  let ?m = "m\<lparr>flow_of := (flow_of m)(f := ?x)\<rparr>"
  have c: "compare_flows (m\<lparr>flow_of := (flow_of m)(f := ?x\<lparr>is_queued := True\<rparr>)\<rparr>) = compare_flows ?m"
    by (intro ext) (simp add: compare_flows_def)
  have ok: "snd (tree_insert (compare_flows ?m) f (queued_tree m))"
    using enqueued_tree(3) [OF assms(1-3), of data] c by (simp add: enqueue_def Let_def)
  have prev: "compare_flows (m\<lparr>previous_flow := None, flow_of := F\<rparr>) = compare_flows (m\<lparr>flow_of := F\<rparr>)" for F
    by (intro ext) (simp add: compare_flows_def)
  have "get_current_time_asserts m"
  proof -
    have "is_queued (flow_of m g)" if "Tree_GetFirst m = Some g" for g
    proof -
      have "g \<in> set (queued_tree m)" using that by (cases "queued_tree m") (simp_all add: Tree_GetFirst_def)
      then show ?thesis using assms(1) by (simp add: tree_ok_def)
    qed
    then show ?thesis by (simp add: get_current_time_asserts_def split: option.split)
  qed
  moreover have "Some f \<noteq> sending_flow m" using assms(4) by metis
  ultimately show ?thesis
    using assms(3,5) ok prev
    by (cases "Some f = previous_flow m")
      (simp_all add: FairQueue_input_handler_send_def enqueue_def Tree_Insert_def set_flow_def Let_def split_beta)
qed


lemma enqueue_sel [simp]:
  "flows_list (enqueue f data m) = flows_list m" "sending_flow (enqueue f data m) = sending_flow m"
  "freeing (enqueue f data m) = freeing m" "schedule_job (enqueue f data m) = schedule_job m"
  "qfault (enqueue f data m) = qfault m" "qtrace (enqueue f data m) = qtrace m" "output_mtu (enqueue f data m) = output_mtu m"
  "packet_weight (enqueue f data m) = packet_weight m" "sending_len (enqueue f data m) = sending_len m"
  "previous_flow (enqueue f data m) = (if Some f = previous_flow m then None else previous_flow m)"
  "g \<noteq> f \<Longrightarrow> flow_of (enqueue f data m) g = flow_of m g" "is_queued (flow_of (enqueue f data m) f)"
  "queued_data (flow_of (enqueue f data m) f) = data"
  "time_of (enqueue f data m) f = (if Some f = previous_flow m then time_of m f else max (time_of m f) (get_current_time m))"
  by (simp_all add: enqueue_def Let_def)

lemma qinv_send:
  assumes inv: "qinv m" and f: "f \<in> set (flows_list m)" "sending_flow m \<noteq> Some f" "\<not> is_queued (flow_of m f)"
    and nf: "\<not> freeing m" and len: "length data \<le> output_mtu m"
  shows "qinv (FairQueue_input_handler_send f data m)"
proof -
  let ?m = "enqueue f data m"
  have ok: "tree_ok m" using inv by (simp add: qinv_def)
  note t = enqueued_tree(1,2) [OF ok f(1,3), of data]
  have "length (queued_data (flow_of ?m g)) \<le> output_mtu m" if "g \<in> insert f (set (queued_tree m))" for g
    using that inv len by (cases "g = f") (auto simp: qinv_def qsizes_def)
  then have sz: "qsizes ?m"
    unfolding qsizes_def t(2) using inv by (auto simp: qinv_def qsizes_def)
  have sf: "served_first g ?m" if g: "sending_flow m = Some g" for g
  proof -
    have "served_first g m" "previous_flow m = None" "g \<noteq> f" using inv g f(2) by (auto simp: qinv_def)
    moreover have "get_current_time m = time_of m g" using g by (simp add: get_current_time_def)
    ultimately have "time_of ?m g \<le> time_of ?m h" if "h \<in> insert f (set (queued_tree m))" for h
      using that by (cases "h = f") (auto simp: served_first_def)
    then show ?thesis
      using \<open>served_first g m\<close> \<open>g \<noteq> f\<close> unfolding served_first_def t(2) by simp
  qed
  show ?thesis
  proof (cases "sending_flow m = None \<and> \<not> schedule_job m")
    case True
    with inv have p: "previous_flow m = None" by (auto simp: qinv_def)
    have "qinv (schedule ?m)"
      using inv True p nf t sz by (intro qinv_schedule) (auto simp: qinv_def)
    then show ?thesis using True by (simp add: input_handler_send_eq [OF ok f(1,3,2) nf])
  next
    case False
    have pv: "g \<noteq> f \<and> g \<in> set (flows_list m) \<and> \<not> is_queued (flow_of ?m g)" if "previous_flow ?m = Some g" for g
      using that inv by (auto simp: qinv_def split: if_splits)
    have "qinv ?m"
      using inv False sz sf t(1) nf pv unfolding qinv_def by auto
    then show ?thesis using False by (auto simp: input_handler_send_eq [OF ok f(1,3,2) nf])
  qed
qed

text \<open>Completion of a packet.\<close>

definition finish :: "nat \<Rightarrow> PacketPassFairQueue \<Rightarrow> PacketPassFairQueue" where
  "finish f m = increment_sent_flow f (of_nat (packet_weight m + sending_len m)) (m\<lparr>sending_flow := None, previous_flow := Some f\<rparr>)"

lemma output_handler_done_eq:
  assumes "sending_flow m = Some f" and "qinv m" and "\<not> freeing m"
  shows "FairQueue_output_handler_done m = (let m' = finish f m in
    m'\<lparr>schedule_job := True, flow_of := (flow_of m')(f := (flow_of m' f)\<lparr>handler_busy := None\<rparr>),
       qtrace := qtrace m' @ QDone f # (case handler_busy (flow_of m' f) of None \<Rightarrow> [] | Some h \<Rightarrow> [QBusy h])\<rparr>)"
proof -
  have "previous_flow m = None" "\<not> schedule_job m" "\<not> is_queued (flow_of m f)"
    using assms by (auto simp: qinv_def served_first_def)
  then have step: "FairQueue_output_handler_done m = (let m' = finish f m in
      case handler_busy (flow_of m' f) of None \<Rightarrow> qemit (QDone f) (m'\<lparr>schedule_job := True\<rparr>)
      | Some h \<Rightarrow> qemit (QBusy h) (set_flow f ((flow_of m' f)\<lparr>handler_busy := None\<rparr>) (qemit (QDone f) (m'\<lparr>schedule_job := True\<rparr>))))"
    using assms(1,3) by (simp add: FairQueue_output_handler_done_def finish_def Let_def del: of_nat_add cong: option.case_cong)
  have x: "x\<lparr>handler_busy := None\<rparr> = x" if "handler_busy x = None" for x :: PacketPassFairQueueFlow
    using that by (cases x) simp
  show ?thesis
    unfolding step by (cases "handler_busy (flow_of (finish f m) f)") (simp_all add: Let_def x qemit_def set_flow_def)
qed

lemma finish_facts:
  assumes inv: "qinv m" and f: "sending_flow m = Some f"
  obtains c where "same_but_times (m\<lparr>sending_flow := None, previous_flow := Some f\<rparr>) (finish f m)"
    and "time_shift c f (packet_weight m + sending_len m) m (finish f m)"
proof -
  let ?m = "m\<lparr>sending_flow := None, previous_flow := Some f\<rparr>"
  let ?a = "of_nat (packet_weight m + sending_len m) :: u64"
  have b: "before ?m = before m" by (rule before_flow_of) simp
  have t: "tree_ok ?m" using inv b by (simp add: qinv_def tree_ok_def)
  have s: "served_first f ?m" using inv f by (auto simp: qinv_def served_first_def)
  have "packet_weight m + sending_len m < 2 ^ 64" using inv f by (auto simp: qinv_def qsizes_def)
  then have a: "unat ?a = packet_weight m + sending_len m" by (subst unat_of_nat) simp
  have "sending_flow ?m = None" by simp
  from increment_exact [OF t s this, of ?a] obtain c where "same_but_times ?m (finish f m)"
    and "time_shift c f (packet_weight m + sending_len m) ?m (finish f m)"
    unfolding a finish_def [symmetric] by blast
  then show ?thesis by (intro that [of c]) (simp_all add: time_shift_def)
qed

lemma same_but_times_sel:
  assumes "same_but_times m m'"
  shows "queued_tree m' = queued_tree m" "flows_list m' = flows_list m" "sending_flow m' = sending_flow m"
    "previous_flow m' = previous_flow m" "freeing m' = freeing m" "schedule_job m' = schedule_job m"
    "qtrace m' = qtrace m" "qfault m' = qfault m" "output_mtu m' = output_mtu m" "packet_weight m' = packet_weight m"
    "is_queued (flow_of m' g) = is_queued (flow_of m g)" "queued_data (flow_of m' g) = queued_data (flow_of m g)"
proof -
  from assms have e: "m' = m\<lparr>flow_of := flow_of m'\<rparr>" and f: "flow_of m' g = (flow_of m g)\<lparr>ftime := time_of m' g\<rparr>"
    unfolding same_but_times_def by blast+
  show "queued_tree m' = queued_tree m" "flows_list m' = flows_list m" "sending_flow m' = sending_flow m"
    "previous_flow m' = previous_flow m" "freeing m' = freeing m" "schedule_job m' = schedule_job m"
    "qtrace m' = qtrace m" "qfault m' = qfault m" "output_mtu m' = output_mtu m" "packet_weight m' = packet_weight m"
    by (subst e, simp)+
  show "is_queued (flow_of m' g) = is_queued (flow_of m g)" "queued_data (flow_of m' g) = queued_data (flow_of m g)"
    by (subst f, simp)+
qed

lemma qinv_done:
  assumes inv: "qinv m" and f: "sending_flow m = Some f" and nf: "\<not> freeing m"
  shows "qinv (FairQueue_output_handler_done m)"
proof -
  obtain c where same: "same_but_times (m\<lparr>sending_flow := None, previous_flow := Some f\<rparr>) (finish f m)"
    and sh: "time_shift c f (packet_weight m + sending_len m) m (finish f m)"
    using finish_facts [OF inv f] by blast
  note sel = same_but_times_sel [OF same, simplified]
  let ?d = "FairQueue_output_handler_done m"
  have d: "queued_tree ?d = queued_tree m" "flows_list ?d = flows_list m" "sending_flow ?d = None"
    "previous_flow ?d = Some f" "schedule_job ?d" "qfault ?d = qfault m" "output_mtu ?d = output_mtu m"
    "packet_weight ?d = packet_weight m" "\<And>g. is_queued (flow_of ?d g) = is_queued (flow_of m g)"
    "\<And>g. queued_data (flow_of ?d g) = queued_data (flow_of m g)" "\<And>g. time_of ?d g = time_of (finish f m) g"
    using sel by (simp_all add: output_handler_done_eq [OF f inv nf] Let_def)
  have "before ?d g h = before m g h" if "g \<in> set (queued_tree m)" "h \<in> set (queued_tree m)" for g h
    using time_shift_order [OF sh that] d(11) by (simp add: before_def)
  moreover have "sorted_wrt (before m) (queued_tree m)" using inv by (simp add: qinv_def tree_ok_def)
  ultimately have "sorted_wrt (before ?d) (queued_tree m)"
    using sorted_before_cong [of m "queued_tree m"] by simp
  moreover have inv': "\<not> qfault m" "tree_ok m" "qsizes m" "served_first f m" using inv f by (simp_all add: qinv_def)
  ultimately have t: "tree_ok ?d" by (simp add: tree_ok_def d)
  show ?thesis
    unfolding qinv_def using t inv' by (simp add: d served_first_def qsizes_def)
qed

lemma qinv_step: "qinv m \<Longrightarrow> qstep m m' \<Longrightarrow> qinv m'"
proof (erule qstep.cases, goal_cases)
  case (4 m f)
  then have "PacketPassFairQueueFlow_RequestCancel f m = qemit (QCancel f) m"
    by (auto simp: PacketPassFairQueueFlow_RequestCancel_def qinv_def)
  moreover have "before (qemit (QCancel f) m) = before m" by (rule before_flow_of) simp
  ultimately show ?case using 4 by (simp add: qinv_def tree_ok_def qsizes_def served_first_def)
next
  case (5 m f h)
  let ?m = "PacketPassFairQueueFlow_SetBusyHandler f h m"
  have e: "?m = set_flow f ((flow_of m f)\<lparr>handler_busy := Some h\<rparr>) m"
    using 5 by (simp add: PacketPassFairQueueFlow_SetBusyHandler_def)
  have s: "is_queued (flow_of ?m g) = is_queued (flow_of m g)" "queued_data (flow_of ?m g) = queued_data (flow_of m g)"
    "time_of ?m g = time_of m g" for g by (simp_all add: e)
  have "before ?m = before m" by (rule before_flow_of) (simp add: s)
  then show ?case using 5 by (simp add: qinv_def tree_ok_def qsizes_def served_first_def s) (simp add: e)
qed (auto intro: qinv_send qinv_done qinv_job)

lemma qinv_flow_init:
  assumes "qinv m" and "\<not> freeing m" and "f \<notin> set (flows_list m)"
  shows "qinv (PacketPassFairQueueFlow_Init f m)"
proof -
  let ?m = "PacketPassFairQueueFlow_Init f m"
  have e: "?m = m\<lparr>flow_of := (flow_of m)(f := (flow_of m f)\<lparr>handler_busy := None, ftime := 0, is_queued := False\<rparr>),
      flows_list := flows_list m @ [f]\<rparr>"
    using assms(2) by (simp add: PacketPassFairQueueFlow_Init_def set_flow_def Let_def)
  have nq: "f \<notin> set (queued_tree m)" using assms by (auto simp: qinv_def tree_ok_def)
  have "time_of ?m g = time_of m g" if "g \<in> set (queued_tree m)" for g using that nq by (auto simp: e)
  then have "before ?m g h = before m g h" if "g \<in> set (queued_tree m)" "h \<in> set (queued_tree m)" for g h
    using that by (simp add: before_def)
  moreover have "sorted_wrt (before m) (queued_tree m)" using assms(1) by (simp add: qinv_def tree_ok_def)
  ultimately have "sorted_wrt (before ?m) (queued_tree m)"
    using sorted_before_cong [of m "queued_tree m"] by simp
  moreover have inv: "\<not> qfault m" "tree_ok m" "qsizes m" "\<And>g. sending_flow m = Some g \<Longrightarrow> served_first g m"
    "\<And>g. previous_flow m = Some g \<Longrightarrow> g \<in> set (flows_list m) \<and> \<not> is_queued (flow_of m g)"
    using assms(1) by (simp_all add: qinv_def)
  ultimately have t: "tree_ok ?m" using assms(3) by (auto simp: tree_ok_def e)
  have s: "served_first g ?m" if "sending_flow m = Some g" for g
    using inv(4) [OF that] nq assms(3) by (auto simp: served_first_def e)
  have "length (queued_data (flow_of ?m g)) = length (queued_data (flow_of m g))" for g by (simp add: e)
  then have z: "qsizes ?m" using inv(3) by (simp add: qsizes_def) (simp add: e)
  have p: "\<And>g. previous_flow m = Some g \<Longrightarrow> g \<in> set (flows_list ?m) \<and> \<not> is_queued (flow_of ?m g)"
    using inv(5) assms(3) by (auto simp: e)
  have r: "qfault ?m = qfault m" "sending_flow ?m = sending_flow m" "previous_flow ?m = previous_flow m"
    "schedule_job ?m = schedule_job m" "queued_tree ?m = queued_tree m" "freeing ?m = freeing m" by (simp_all add: e)
  show ?thesis
    using assms(1) t s z p unfolding qinv_def r by blast
qed

lemma qinv_flow_free:
  assumes inv: "qinv m" and f: "f \<in> set (flows_list m)" and nb: "freeing m \<or> sending_flow m \<noteq> Some f"
  shows "qinv (PacketPassFairQueueFlow_Free f m)"
proof -
  let ?m = "PacketPassFairQueueFlow_Free f m"
  have inv': "\<not> qfault m" "tree_ok m" "qsizes m" "\<And>g. sending_flow m = Some g \<Longrightarrow> served_first g m"
    "\<And>g. previous_flow m = Some g \<Longrightarrow> g \<in> set (flows_list m) \<and> \<not> is_queued (flow_of m g)"
    using inv by (simp_all add: qinv_def)
  have nb': "freeing m \<or> Some f \<noteq> sending_flow m" using nb by auto
  have tq: "is_queued (flow_of m f) = (f \<in> set (queued_tree m))" using inv'(2) f by (auto simp: tree_ok_def)
  have e: "?m = m\<lparr>sending_flow := (if Some f = sending_flow m then None else sending_flow m),
      previous_flow := (if Some f = previous_flow m then None else previous_flow m),
      queued_tree := remove1 f (queued_tree m), flows_list := remove1 f (flows_list m)\<rparr>"
    using nb' f tq by (simp add: PacketPassFairQueueFlow_Free_def Tree_Remove_def Let_def remove1_idem)
  have sd: "sorted_wrt (before m) t \<Longrightarrow> distinct t" for t by (induction t) auto
  have d: "distinct (queued_tree m)" "distinct (flows_list m)" "sorted_wrt (before m) (queued_tree m)"
    using inv'(2) sd by (auto simp: tree_ok_def)
  have b: "before ?m = before m" by (rule before_flow_of) (simp add: e)
  have "sorted_wrt P (remove1 x t)" if "sorted_wrt P t" for P x and t :: "nat list"
    using that by (induction t) (auto dest: set_remove1_subset [THEN subsetD])
  then have t: "tree_ok ?m" using inv'(2) d unfolding tree_ok_def b by (auto simp: e)
  have s: "served_first g ?m" if "sending_flow ?m = Some g" for g
    using that inv'(4) [of g] d by (auto simp: served_first_def e split: if_splits)
  have z: "qsizes ?m" using inv'(3) d by (auto simp: qsizes_def e)
  have p: "g \<in> set (flows_list ?m) \<and> \<not> is_queued (flow_of ?m g)" if "previous_flow ?m = Some g" for g
    using that inv'(5) [of g] d by (auto simp: e split: if_splits)
  have "sending_flow ?m \<noteq> None \<longrightarrow> previous_flow ?m = None \<and> \<not> schedule_job ?m"
    "previous_flow ?m \<noteq> None \<longrightarrow> schedule_job ?m"
    "\<not> freeing ?m \<and> \<not> schedule_job ?m \<and> sending_flow ?m = None \<longrightarrow> queued_tree ?m = []"
    using inv nb' unfolding qinv_def e by auto
  with t s z p inv'(1) show ?thesis unfolding qinv_def by (simp add: e)
qed

lemma qinv_any: "qinv m \<Longrightarrow> qstep_any m m' \<Longrightarrow> qinv m'"
proof (erule qstep_any.cases, goal_cases)
  case (4 m)
  have "before (m\<lparr>freeing := True\<rparr>) = before m" by (rule before_flow_of) simp
  then show ?case using 4
    by (simp add: qinv_def tree_ok_def qsizes_def served_first_def PacketPassFairQueue_PrepareFree_def)
qed (auto intro: qinv_step qinv_flow_init qinv_flow_free)

interpretation fairq: invariant_system "qinit mtu weight" qstep_any qinv for mtu weight
  by unfold_locales (auto intro: qinv_start qinv_any)


section \<open>Fairness\<close>

text \<open>What the packets of flow \<open>g\<close> handed to the output weigh.\<close>

fun sent_work :: "nat \<Rightarrow> nat \<Rightarrow> qevent list \<Rightarrow> nat" where
  "sent_work w g [] = 0"
| "sent_work w g (QSend h data # es) = (if h = g then w + length data else 0) + sent_work w g es"
| "sent_work w g (e # es) = sent_work w g es"

lemma sent_work_append [simp]: "sent_work w g (xs @ ys) = sent_work w g xs + sent_work w g ys"
  by (induction w g xs rule: sent_work.induct) auto

definition utime :: "PacketPassFairQueue \<Rightarrow> nat \<Rightarrow> nat" where
  "utime m g = unat (time_of m g)"

definition lead :: "nat \<Rightarrow> nat \<Rightarrow> PacketPassFairQueue \<Rightarrow> int" where
  "lead f g m = int (utime m g) - int (utime m f)
     + (if sending_flow m = Some g then int (packet_weight m + sending_len m) else 0)"

definition sends :: "nat \<Rightarrow> qevent list \<Rightarrow> bool" where
  "sends f es \<longleftrightarrow> (\<exists>data. QSend f data \<in> set es)"

text \<open>One step while \<open>f\<close> waits: \<open>f\<close> is sent, or it waits on and the other flow's lead grows by its work.\<close>

definition waits :: "nat \<Rightarrow> nat \<Rightarrow> PacketPassFairQueue \<Rightarrow> qevent list \<Rightarrow> PacketPassFairQueue \<Rightarrow> bool" where
  "waits f g m es m' \<longleftrightarrow> qtrace m' = qtrace m @ es \<and> (\<not> sends f es \<longrightarrow>
     f \<in> set (queued_tree m') \<and> flows_list m' = flows_list m \<and> packet_weight m' = packet_weight m \<and> output_mtu m' = output_mtu m
     \<and> lead f g m + int (sent_work (packet_weight m) g es) \<le> lead f g m'
     \<and> (sent_work (packet_weight m) g es = 0
        \<or> lead f g m \<le> 0 \<and> sent_work (packet_weight m) g es \<le> packet_weight m + output_mtu m))"

lemma waits_send:
  assumes inv: "qinv m" and w: "f \<in> set (queued_tree m)" and gf: "g \<noteq> f"
    and h: "\<not> freeing m" "h \<in> set (flows_list m)" "sending_flow m \<noteq> Some h" "\<not> is_queued (flow_of m h)"
  shows "waits f g m [] (FairQueue_input_handler_send h data m)"
proof -
  have ok: "tree_ok m" using inv by (simp add: qinv_def)
  have busy: "sending_flow m \<noteq> None \<or> schedule_job m" using inv w h(1) by (auto simp: qinv_def)
  then have e: "FairQueue_input_handler_send h data m = enqueue h data m"
    by (auto simp: input_handler_send_eq [OF ok h(2,4,3,1)])
  have hf: "h \<noteq> f" using w h(4) ok by (auto simp: tree_ok_def)
  have "utime m g \<le> utime (enqueue h data m) g"
    by (cases "g = h") (auto simp: utime_def word_le_nat_alt [symmetric])
  moreover have "utime (enqueue h data m) f = utime m f" using hf by (simp add: utime_def)
  ultimately show ?thesis
    using w hf enqueued_tree(2) [OF ok h(2,4), of data] unfolding e
    by (simp add: waits_def lead_def sends_def)
qed

lemma waits_done:
  assumes inv: "qinv m" and w: "f \<in> set (queued_tree m)" and g: "g \<noteq> f" "g \<in> set (flows_list m)"
    and h: "\<not> freeing m" "sending_flow m = Some h"
  shows "\<exists>es. waits f g m es (FairQueue_output_handler_done m)"
proof -
  obtain c where same: "same_but_times (m\<lparr>sending_flow := None, previous_flow := Some h\<rparr>) (finish h m)"
    and sh: "time_shift c h (packet_weight m + sending_len m) m (finish h m)"
    using finish_facts [OF inv h(2)] by blast
  note sel = same_but_times_sel [OF same, simplified]
  let ?d = "FairQueue_output_handler_done m"
  let ?es = "QDone h # (case handler_busy (flow_of (finish h m) h) of None \<Rightarrow> [] | Some b \<Rightarrow> [QBusy b])"
  have d: "queued_tree ?d = queued_tree m" "flows_list ?d = flows_list m" "sending_flow ?d = None"
    "output_mtu ?d = output_mtu m" "packet_weight ?d = packet_weight m" "qtrace ?d = qtrace m @ ?es"
    "\<And>g. time_of ?d g = time_of (finish h m) g"
    using sel by (simp_all add: output_handler_done_eq [OF h(2) inv h(1)] Let_def)
  have tf: "utime ?d f + c = utime m f" using sh w d by (simp add: time_shift_def utime_def)
  have "lead f g m \<le> lead f g ?d"
  proof (cases "g = h")
    case True
    then have "utime ?d g + c = utime m g + (packet_weight m + sending_len m)"
      using sh d by (simp add: time_shift_def utime_def)
    then show ?thesis using True tf h(2) d(3) by (simp add: lead_def)
  next
    case False
    then have "utime ?d g = utime m g - c" using sh g d by (simp add: time_shift_def utime_def)
    then show ?thesis using tf False h(2) d(3) by (simp add: lead_def)
  qed
  then have "waits f g m ?es ?d"
    using d w by (simp add: waits_def split: option.split)
  then show ?thesis by blast
qed

lemma waits_job:
  assumes inv: "qinv m" and w: "f \<in> set (queued_tree m)" and g: "g \<noteq> f"
    and h: "\<not> freeing m" "schedule_job m"
  shows "\<exists>es. waits f g m es (schedule_job_handler (m\<lparr>schedule_job := False\<rparr>))"
proof -
  have s: "sending_flow m = None" using inv h by (auto simp: qinv_def)
  obtain q t where qt: "queued_tree m = q # t" using w by (cases "queued_tree m") auto
  have ok: "tree_ok m" using inv by (simp add: qinv_def)
  have qq: "is_queued (flow_of m q)" using ok qt unfolding tree_ok_def by auto
  let ?m = "m\<lparr>schedule_job := False, previous_flow := None\<rparr>"
  have eq: "schedule_job_handler (m\<lparr>schedule_job := False\<rparr>) = schedule ?m"
    using s h qt by (simp add: schedule_job_handler_def Let_def)
  let ?d = "queued_data (flow_of m q)"
  have "schedule ?m = ?m\<lparr>queued_tree := t, flow_of := (flow_of m)(q := (flow_of m q)\<lparr>is_queued := False\<rparr>),
    qtrace := qtrace m @ [QSend q ?d], sending_flow := Some q, sending_len := length ?d\<rparr>"
    using schedule_eq [of ?m q t] s h qt qq by simp
  moreover have "time_of m q \<le> time_of m f" using ok w qt by (auto simp: tree_ok_def before_le)
  moreover have "length ?d \<le> output_mtu m" using inv qt by (auto simp: qinv_def qsizes_def)
  ultimately have "waits f g m [QSend q ?d] (schedule ?m)"
    using w qt s g unfolding waits_def sends_def lead_def by (auto simp: utime_def word_le_def)
  then show ?thesis unfolding eq by blast
qed

lemma waits_step:
  assumes "qinv m" and "qstep m m'" and "f \<in> set (queued_tree m)" and "g \<noteq> f" and "g \<in> set (flows_list m)"
  shows "\<exists>es. waits f g m es m'"
  using assms(2)
proof cases
  case (q_send h data)
  then show ?thesis using waits_send [OF assms(1,3,4)] by blast
next
  case q_done
  then show ?thesis using waits_done [OF assms(1,3-5)] by blast
next
  case q_job
  then show ?thesis using waits_job [OF assms(1,3,4)] by blast
next
  case (q_cancel h)
  then have "m' = qemit (QCancel h) m"
    using assms(1) by (auto simp: PacketPassFairQueueFlow_RequestCancel_def qinv_def)
  then have "waits f g m [QCancel h] m'" using assms(3) by (simp add: waits_def lead_def utime_def)
  then show ?thesis by blast
next
  case (q_busy h b)
  then have "m' = set_flow h ((flow_of m h)\<lparr>handler_busy := Some b\<rparr>) m"
    by (simp add: PacketPassFairQueueFlow_SetBusyHandler_def)
  then have "waits f g m [] m'" using assms(3) by (simp add: waits_def lead_def utime_def)
  then show ?thesis by blast
qed

lemma qstep_extends:
  assumes "qinv m" and "qstep m m'"
  shows "\<exists>e. qtrace m' = qtrace m @ e"
proof -
  have sch: "\<exists>e. qtrace (schedule x) = qtrace x @ e" for x
    by (auto simp: schedule_def Let_def Q_ASSERT_def Tree_Remove_def split: option.split)
  have ok: "tree_ok m" using assms(1) by (simp add: qinv_def)
  from assms(2) show ?thesis
  proof cases
    case (q_send f data)
    then show ?thesis using sch [of "enqueue f data m"] by (auto simp: input_handler_send_eq [OF ok])
  next
    case q_done
    then obtain h where h: "sending_flow m = Some h" by auto
    from finish_facts [OF assms(1) h] obtain c
      where "same_but_times (m\<lparr>sending_flow := None, previous_flow := Some h\<rparr>) (finish h m)" by blast
    then show ?thesis using same_but_times_sel(7) q_done by (fastforce simp: output_handler_done_eq [OF h assms(1)] Let_def)
  next
    case q_job
    then show ?thesis using sch [of "Q_ASSERT (sending_flow m = None) (m\<lparr>schedule_job := False\<rparr>)\<lparr>previous_flow := None\<rparr>"]
      by (auto simp: schedule_job_handler_def Let_def Q_ASSERT_def)
  qed (auto simp: PacketPassFairQueueFlow_RequestCancel_def PacketPassFairQueueFlow_SetBusyHandler_def Q_ASSERT_def)
qed

lemma waits_run:
  assumes "steps_n qstep n m m'" and "qinv m" and "f \<in> set (queued_tree m)" and "g \<noteq> f" and "g \<in> set (flows_list m)"
  shows "qinv m' \<and> (\<exists>es. qtrace m' = qtrace m @ es \<and> (\<not> sends f es \<longrightarrow> f \<in> set (queued_tree m') \<and> g \<in> set (flows_list m')
    \<and> packet_weight m' = packet_weight m \<and> output_mtu m' = output_mtu m
    \<and> lead f g m + int (sent_work (packet_weight m) g es) \<le> lead f g m'
    \<and> int (sent_work (packet_weight m) g es) \<le> max 0 (- lead f g m) + int (packet_weight m + output_mtu m)))"
  using assms
proof (induction rule: steps_n.induct)
  case (steps_0 m)
  then show ?case by (auto intro: exI [of _ "[]"])
next
  case (steps_Suc n m t u)
  then obtain es where es: "qtrace t = qtrace m @ es" and qt: "qinv t" and IH: "\<not> sends f es \<longrightarrow> f \<in> set (queued_tree t) \<and> g \<in> set (flows_list t)
    \<and> packet_weight t = packet_weight m \<and> output_mtu t = output_mtu m
    \<and> lead f g m + int (sent_work (packet_weight m) g es) \<le> lead f g t
    \<and> int (sent_work (packet_weight m) g es) \<le> max 0 (- lead f g m) + int (packet_weight m + output_mtu m)"
    by blast
  have qu: "qinv u" using qinv_step qt steps_Suc.hyps(2) by blast
  show ?case
  proof (cases "sends f es")
    case True
    then show ?thesis using qstep_extends [OF qt steps_Suc.hyps(2)] es qu by (auto simp: sends_def)
  next
    case False
    with IH have t: "f \<in> set (queued_tree t)" "g \<in> set (flows_list t)" "packet_weight t = packet_weight m"
      "output_mtu t = output_mtu m" "lead f g m + int (sent_work (packet_weight m) g es) \<le> lead f g t"
      "int (sent_work (packet_weight m) g es) \<le> max 0 (- lead f g m) + int (packet_weight m + output_mtu m)" by blast+
    from waits_step [OF qt steps_Suc.hyps(2) t(1) steps_Suc.prems(3) t(2)] obtain e where e: "waits f g t e u" by blast
    with qu t es show ?thesis
      by (intro conjI exI [of _ "es @ e"]) (auto simp: waits_def sends_def)
  qed
qed


section \<open>Properties\<close>

text \<open>
  C30. In every reachable state of the fair queue no assertion has failed, no flow is inserted
  twice into the tree or removed from it when absent, and the queue is work-conserving: unless it
  is being freed, a queued packet implies that a packet is being sent or the schedule job is set.
\<close>

theorem fair_queue_never_faults:
  assumes "reach (qinit mtu weight) qstep_any m"
  shows "\<not> qfault m \<and> (freeing m \<or> queued_tree m = [] \<or> sending_flow m \<noteq> None \<or> schedule_job m)
    \<and> distinct (queued_tree m) \<and> set (queued_tree m) = {f \<in> set (flows_list m). is_queued (flow_of m f)}"
proof -
  have inv: "qinv m" using fairq.reach_inv [OF assms] .
  have "sorted_wrt (before m) t \<Longrightarrow> distinct t" for t by (induction t) auto
  with inv show ?thesis by (auto simp: qinv_def tree_ok_def)
qed

text \<open>
  C29. Completing a packet charges the flow its weight and length in exact arithmetic, although the
  times are 64-bit words that may overflow: some amount \<open>c\<close> is subtracted from the flow served and
  from every queued flow alike, so all differences between their times are the exact ones.
\<close>

theorem fair_queue_times_exact:
  assumes "reach (qinit mtu weight) qstep_any m" and "\<not> freeing m" and "sending_flow m = Some f"
  shows "let m' = FairQueue_output_handler_done m in
    \<exists>c. unat (time_of m' f) + c = unat (time_of m f) + packet_weight m + sending_len m
      \<and> (\<forall>g\<in>set (queued_tree m). unat (time_of m' g) + c = unat (time_of m g))"
proof -
  have inv: "qinv m" using fairq.reach_inv [OF assms(1)] .
  from finish_facts [OF inv assms(3)] obtain c where sh: "time_shift c f (packet_weight m + sending_len m) m (finish f m)" by blast
  have "time_of (FairQueue_output_handler_done m) g = time_of (finish f m) g" for g
    by (simp add: output_handler_done_eq [OF assms(3) inv assms(2)] Let_def)
  with sh show ?thesis unfolding Let_def time_shift_def by (intro exI [of _ c]) simp
qed

text \<open>
  C28. While a packet of flow \<open>f\<close> waits, the packets of any other flow that are sent weigh at most
  the difference of the two flows' times plus one maximal packet: no flow is starved and none
  gets more than its share.
\<close>

theorem fair_queue_bounded_share:
  assumes "reach (qinit mtu weight) qstep_any m" and "f \<in> set (queued_tree m)" and "g \<in> set (flows_list m)" and "g \<noteq> f"
    and "steps_n qstep n m m'" and "qtrace m' = qtrace m @ es" and "\<not> sends f es"
  shows "f \<in> set (queued_tree m') \<and>
    sent_work (packet_weight m) g es \<le> (utime m f - utime m g) + packet_weight m + output_mtu m"
proof -
  have inv: "qinv m" using fairq.reach_inv [OF assms(1)] .
  from waits_run [OF assms(5) inv assms(2,4,3)] assms(6,7)
  have "f \<in> set (queued_tree m')" and b: "int (sent_work (packet_weight m) g es) \<le> max 0 (- lead f g m) + int (packet_weight m + output_mtu m)"
    by auto
  moreover have "- lead f g m \<le> int (utime m f - utime m g)" unfolding lead_def by auto
  ultimately show ?thesis by linarith
qed

definition example_queue :: PacketPassFairQueue where
  "example_queue = FairQueue_input_handler_send 4 [7, 8] (FairQueue_input_handler_send 3 [9]
     (PacketPassFairQueueFlow_Init 4 (PacketPassFairQueueFlow_Init 3 (the (PacketPassFairQueue_Init 10 False 5)))))"

lemmas fair_queue_eval = FairQueue_input_handler_send_def FairQueue_output_handler_done_def PacketPassFairQueueFlow_Init_def PacketPassFairQueue_Init_def
  increment_sent_flow_def schedule_def get_current_time_def get_current_time_asserts_def Tree_GetFirst_def Tree_Insert_def Tree_Remove_def compare_flows_def
  B_COMPARE_def set_flow_def qemit_def Q_ASSERT_def Let_def overflow_iff unsigned_minus_1_eq_mask mask_eq_exp_minus_1

lemma example_queue_value:
  "queued_tree example_queue = [4]" "flows_list example_queue = [3, 4]" "sending_flow example_queue = Some 3"
  "sending_len example_queue = 1" "packet_weight example_queue = 5" "output_mtu example_queue = 10" "\<not> freeing example_queue"
  "qtrace example_queue = [QSend 3 [9]]" "time_of example_queue 3 = 0" "time_of example_queue 4 = 0"
  by (simp_all add: example_queue_def fair_queue_eval)

lemma example_queue_reach: "reach (qinit 10 5) qstep_any example_queue"
proof -
  let ?m0 = "the (PacketPassFairQueue_Init 10 False 5)"
  let ?m1 = "PacketPassFairQueueFlow_Init 3 ?m0" let ?m2 = "PacketPassFairQueueFlow_Init 4 ?m1"
  let ?m3 = "FairQueue_input_handler_send 3 [9] ?m2"
  have "reach (qinit 10 5) qstep_any ?m0"
    by (rule reach_start) (auto simp: qinit_def fair_queue_eval)
  then have "reach (qinit 10 5) qstep_any ?m1"
    by (rule reach_step, intro qa_init) (simp_all add: fair_queue_eval)
  then have "reach (qinit 10 5) qstep_any ?m2"
    by (rule reach_step, intro qa_init) (simp_all add: fair_queue_eval)
  then have "reach (qinit 10 5) qstep_any ?m3"
    by (rule reach_step, intro qa_step q_send) (simp_all add: fair_queue_eval)
  then show ?thesis unfolding example_queue_def
    by (rule reach_step, intro qa_step q_send) (simp_all add: fair_queue_eval)
qed

theorem fair_queue_never_faults_witness:
  "\<not> qfault example_queue \<and> sending_flow example_queue = Some 3 \<and> set (queued_tree example_queue) = {4}"
  using fair_queue_never_faults [OF example_queue_reach] example_queue_value by simp

theorem fair_queue_times_exact_witness:
  "\<exists>c. unat (time_of (FairQueue_output_handler_done example_queue) 3) + c = 6
    \<and> unat (time_of (FairQueue_output_handler_done example_queue) 4) + c = 0"
  using fair_queue_times_exact [OF example_queue_reach example_queue_value(7,3)] by (simp add: example_queue_value Let_def)

theorem fair_queue_bounded_share_witness:
  "steps_n qstep 1 example_queue (FairQueue_output_handler_done example_queue)
    \<and> 4 \<in> set (queued_tree (FairQueue_output_handler_done example_queue))
    \<and> sent_work 5 3 [QDone 3] \<le> 15"
proof -
  have s: "steps_n qstep (Suc 0) example_queue (FairQueue_output_handler_done example_queue)"
    by (rule steps_Suc [OF steps_0]) (rule q_done, simp_all add: example_queue_value)
  have "qtrace (FairQueue_output_handler_done example_queue) = qtrace example_queue @ [QDone 3]"
    by (simp add: example_queue_def fair_queue_eval)
  from fair_queue_bounded_share [OF example_queue_reach _ _ _ s this, of 4 3] s
  show ?thesis by (simp add: example_queue_value sends_def utime_def)
qed

end
