(* ===== verification/Packet_Buffer.thy ===== *)
theory Packet_Buffer
  imports Prelude
begin

text \<open>
  The circular packet buffer \<open>structure/ChunkBuffer2.h\<close> and the buffer object
  \<open>flow/PacketBuffer.c\<close> built on it, which decouples a packet source from a packet sink.

  The buffer's memory is the byte array of its blocks: a block is a four-byte \<open>int\<close>, a packet is a
  header block with its length followed by the data rounded up to blocks. Pointers into the
  array are byte offsets. A failed assertion or an access outside the array sets \<open>cfault\<close>.

  The theorems: the chunk buffer implements a queue of packets; the packet buffer hands on
  exactly the packets it receives, in order; it accepts at least as many packets as it was
  made for; the size it computes never wraps around.
\<close>

section \<open>structure/ChunkBuffer2.h\<close>

abbreviation (input) BLOCK :: nat where "BLOCK \<equiv> 4"

text \<open>Conversion of a \<open>size_t\<close> to \<open>int\<close>.\<close>

definition int_of_size :: "nat \<Rightarrow> int" where
  "int_of_size n = (let r = n mod 2 ^ 32 in if r < 2 ^ 31 then int r else int r - 2 ^ 32)"

record ChunkBuffer2 =
  cb_buffer :: bytes
  cb_size :: nat
  cb_wrap :: nat
  cb_start :: nat
  cb_used :: nat
  cb_mtu :: nat
  input_dest :: "nat option"
  input_avail :: int
  output_dest :: "nat option"
  output_avail :: int
  cfault :: bool

definition C_ASSERT :: "bool \<Rightarrow> ChunkBuffer2 \<Rightarrow> ChunkBuffer2" where
  "C_ASSERT b buf = buf\<lparr>cfault := cfault buf \<or> \<not> b\<rparr>"

definition block_len :: "bytes \<Rightarrow> nat \<Rightarrow> int" where
  "block_len mem i = sint (load32 (bslice (BLOCK * i) BLOCK mem))"

definition ChunkBuffer2_end :: "ChunkBuffer2 \<Rightarrow> nat" where
  "ChunkBuffer2_end buf =
    (if int (cb_used buf) \<ge> int (cb_wrap buf) - int (cb_start buf)
     then cb_used buf - (cb_wrap buf - cb_start buf)
     else cb_start buf + cb_used buf)"

definition ChunkBuffer2_assert_buffer :: "ChunkBuffer2 \<Rightarrow> ChunkBuffer2" where
  "ChunkBuffer2_assert_buffer buf = C_ASSERT
     (cb_size buf > 0 \<and> cb_wrap buf > 0 \<and> cb_wrap buf \<le> cb_size buf \<and> cb_start buf < cb_wrap buf
      \<and> cb_used buf \<le> cb_wrap buf
      \<and> (cb_wrap buf = cb_size buf \<or> int (cb_used buf) \<ge> int (cb_wrap buf) - int (cb_start buf))) buf"

definition free_blocks :: "ChunkBuffer2 \<Rightarrow> int" where
  "free_blocks buf =
    (if int (cb_used buf) \<ge> int (cb_wrap buf) - int (cb_start buf)
     then int (cb_start buf) - int (ChunkBuffer2_end buf)
     else int (cb_size buf) - int (ChunkBuffer2_end buf))"

definition input_of :: "ChunkBuffer2 \<Rightarrow> nat option \<times> int" where
  "input_of buf =
    (if int (cb_size buf) - int (ChunkBuffer2_end buf) - 1 < int (cb_mtu buf) then (None, -1)
     else if free_blocks buf > 0
     then (Some (BLOCK * (ChunkBuffer2_end buf + 1)), int_of_size ((nat (free_blocks buf) - 1) * BLOCK))
     else (None, -1))"

definition output_of :: "ChunkBuffer2 \<Rightarrow> nat option \<times> int" where
  "output_of buf =
    (if cb_used buf > 0 then (Some (BLOCK * (cb_start buf + 1)), block_len (cb_buffer buf) (cb_start buf))
     else (None, -1))"

definition first_chunk_ok :: "ChunkBuffer2 \<Rightarrow> bool" where
  "first_chunk_ok buf \<longleftrightarrow>
    (let datalen = block_len (cb_buffer buf) (cb_start buf); blocklen = bdivide_up (nat datalen) BLOCK
     in datalen \<ge> 0 \<and> int blocklen \<le> int (cb_used buf) - 1 \<and> int blocklen \<le> int (cb_wrap buf) - int (cb_start buf) - 1)"

definition ChunkBuffer2_assert_io :: "ChunkBuffer2 \<Rightarrow> ChunkBuffer2" where
  "ChunkBuffer2_assert_io buf = C_ASSERT
     ((input_dest buf, input_avail buf) = input_of buf \<and> (cb_used buf > 0 \<longrightarrow> first_chunk_ok buf)
      \<and> (output_dest buf, output_avail buf) = output_of buf) buf"

definition ChunkBuffer2_update_input :: "ChunkBuffer2 \<Rightarrow> ChunkBuffer2" where
  "ChunkBuffer2_update_input buf = (let (dest, avail) = input_of buf in buf\<lparr>input_dest := dest, input_avail := avail\<rparr>)"

definition ChunkBuffer2_update_output :: "ChunkBuffer2 \<Rightarrow> ChunkBuffer2" where
  "ChunkBuffer2_update_output buf =
    (let (dest, avail) = output_of buf in
     (C_ASSERT (cb_used buf > 0 \<longrightarrow> first_chunk_ok buf) buf)\<lparr>output_dest := dest, output_avail := avail\<rparr>)"

definition ChunkBuffer2_calc_blocks :: "nat \<Rightarrow> nat \<Rightarrow> int" where
  "ChunkBuffer2_calc_blocks chunk_len num =
    (let chunk_data_blocks = bdivide_up chunk_len BLOCK in
     if chunk_data_blocks > INT_MAX - 1 then -1
     else let chunk_blocks = 1 + chunk_data_blocks in
     if num > INT_MAX - 1 then -1
     else let num_chunks = num + 1 in
     if chunk_blocks > INT_MAX div num_chunks then -1
     else int (chunk_blocks * num_chunks))"

definition ChunkBuffer2_Init :: "bytes \<Rightarrow> nat \<Rightarrow> nat \<Rightarrow> ChunkBuffer2" where
  "ChunkBuffer2_Init mem blocks mtu =
    (let buf = \<lparr>cb_buffer = mem, cb_size = blocks, cb_wrap = blocks, cb_start = 0, cb_used = 0,
           cb_mtu = bdivide_up mtu BLOCK, input_dest = None, input_avail = 0, output_dest = None, output_avail = 0,
           cfault = False\<rparr>;
         buf = C_ASSERT (blocks > 0) buf;
         buf = ChunkBuffer2_assert_buffer buf;
         buf = ChunkBuffer2_update_input buf;
         buf = ChunkBuffer2_update_output buf
     in ChunkBuffer2_assert_io buf)"

definition ChunkBuffer2_SubmitPacket :: "nat \<Rightarrow> ChunkBuffer2 \<Rightarrow> ChunkBuffer2" where
  "ChunkBuffer2_SubmitPacket len buf =
    (let buf = C_ASSERT (input_dest buf \<noteq> None \<and> int len \<le> input_avail buf) buf;
         buf = ChunkBuffer2_assert_io (ChunkBuffer2_assert_buffer buf);
         end_blk = ChunkBuffer2_end buf;
         blocklen = bdivide_up len BLOCK;
         buf = C_ASSERT (int blocklen \<le> int (cb_size buf) - int end_blk - 1
            \<and> (int (cb_used buf) < int (cb_wrap buf) - int (cb_start buf)
               \<or> int blocklen \<le> int (cb_start buf) - int end_blk - 1)
            \<and> BLOCK * (end_blk + 1) \<le> length (cb_buffer buf)) buf;
         buf = buf\<lparr>cb_buffer := blit (cb_buffer buf) (BLOCK * end_blk) (mem32 (of_nat len)),
                   cb_used := cb_used buf + (1 + blocklen)\<rparr>;
         buf = (if int (cb_used buf) \<le> int (cb_wrap buf) - int (cb_start buf)
                   \<and> int (cb_mtu buf) > int (cb_size buf) - int (end_blk + 1 + blocklen) - 1
                then buf\<lparr>cb_wrap := end_blk + 1 + blocklen\<rparr> else buf);
         buf = ChunkBuffer2_update_input (ChunkBuffer2_assert_buffer buf);
         buf = (if cb_used buf = 1 + blocklen then ChunkBuffer2_update_output buf else buf)
     in ChunkBuffer2_assert_io buf)"

definition ChunkBuffer2_ConsumePacket :: "ChunkBuffer2 \<Rightarrow> ChunkBuffer2" where
  "ChunkBuffer2_ConsumePacket buf =
    (let buf = C_ASSERT (output_dest buf \<noteq> None) buf;
         buf = ChunkBuffer2_assert_io (ChunkBuffer2_assert_buffer buf);
         blocklen = bdivide_up (nat (block_len (cb_buffer buf) (cb_start buf))) BLOCK;
         buf = C_ASSERT (1 \<le> int (cb_wrap buf) - int (cb_start buf) \<and> 1 \<le> cb_used buf
            \<and> int blocklen \<le> int (cb_wrap buf) - int (cb_start buf) - 1 \<and> int blocklen \<le> int (cb_used buf) - 1) buf;
         data_wrapped = (int (cb_used buf) \<ge> int (cb_wrap buf) - int (cb_start buf));
         buf = buf\<lparr>cb_start := cb_start buf + (1 + blocklen), cb_used := cb_used buf - (1 + blocklen)\<rparr>;
         buf = (if cb_start buf = cb_wrap buf then buf\<lparr>cb_start := 0, cb_wrap := cb_size buf\<rparr> else buf);
         buf = ChunkBuffer2_assert_buffer buf;
         buf = (if data_wrapped then ChunkBuffer2_update_input buf else buf);
         buf = ChunkBuffer2_update_output buf
     in ChunkBuffer2_assert_io buf)"

section \<open>flow/PacketBuffer.c\<close>

text \<open>
  The outstanding receive is the offset it writes to, the outstanding send an offset and a
  length. \<open>arrived\<close> and \<open>handed\<close> are the packets the input delivered and the output took.
\<close>

record PacketBuffer =
  pb_buf :: ChunkBuffer2
  input_mtu :: nat
  pb_receiving :: "nat option"
  pb_sending :: "(nat \<times> nat) option"
  arrived :: "bytes list"
  handed :: "bytes list"
  pfault :: bool

definition P_ASSERT :: "bool \<Rightarrow> PacketBuffer \<Rightarrow> PacketBuffer" where
  "P_ASSERT b o' = o'\<lparr>pfault := pfault o' \<or> \<not> b\<rparr>"

definition Receiver_Recv :: "PacketBuffer \<Rightarrow> PacketBuffer" where
  "Receiver_Recv o' = (P_ASSERT (pb_receiving o' = None \<and> input_dest (pb_buf o') \<noteq> None) o')
     \<lparr>pb_receiving := input_dest (pb_buf o')\<rparr>"

definition Sender_Send :: "PacketBuffer \<Rightarrow> PacketBuffer" where
  "Sender_Send o' = (P_ASSERT (pb_sending o' = None \<and> output_dest (pb_buf o') \<noteq> None \<and> output_avail (pb_buf o') \<ge> 0) o')
     \<lparr>pb_sending := map_option (\<lambda>d. (d, nat (output_avail (pb_buf o')))) (output_dest (pb_buf o'))\<rparr>"

definition PacketBuffer_input_handler_done :: "nat \<Rightarrow> PacketBuffer \<Rightarrow> PacketBuffer" where
  "PacketBuffer_input_handler_done in_len o' =
    (let o' = P_ASSERT (in_len \<le> input_mtu o') o';
         was_empty = (output_avail (pb_buf o') < 0);
         o' = o'\<lparr>pb_buf := ChunkBuffer2_SubmitPacket in_len (pb_buf o')\<rparr>;
         o' = (if input_avail (pb_buf o') \<ge> int (input_mtu o') then Receiver_Recv o' else o')
     in if was_empty then Sender_Send o' else o')"

definition PacketBuffer_output_handler_done :: "PacketBuffer \<Rightarrow> PacketBuffer" where
  "PacketBuffer_output_handler_done o' =
    (let was_full = (input_avail (pb_buf o') < int (input_mtu o'));
         o' = o'\<lparr>pb_buf := ChunkBuffer2_ConsumePacket (pb_buf o')\<rparr>;
         o' = (if was_full \<and> input_avail (pb_buf o') \<ge> int (input_mtu o') then Receiver_Recv o' else o')
     in if output_avail (pb_buf o') \<ge> 0 then Sender_Send o' else o')"

text \<open>\<open>BAllocArray\<close> fails or returns an array of the requested number of blocks.\<close>

definition PacketBuffer_Init :: "(nat \<Rightarrow> bytes option) \<Rightarrow> nat \<Rightarrow> nat \<Rightarrow> PacketBuffer option" where
  "PacketBuffer_Init alloc mtu num_packets =
    (let num_blocks = ChunkBuffer2_calc_blocks mtu num_packets in
     if num_blocks < 0 then None
     else case alloc (BLOCK * nat num_blocks) of
       None \<Rightarrow> None
     | Some mem \<Rightarrow> Some (Receiver_Recv \<lparr>pb_buf = ChunkBuffer2_Init mem (nat num_blocks) mtu, input_mtu = mtu,
         pb_receiving = None, pb_sending = None, arrived = [], handed = [], pfault = (num_packets = 0)\<rparr>))"

section \<open>The packets in the buffer\<close>

definition nblocks :: "bytes \<Rightarrow> nat" where
  "nblocks p = 1 + bdivide_up (length p) BLOCK"

abbreviation (input) total_blocks :: "bytes list \<Rightarrow> nat" where
  "total_blocks ps \<equiv> sum_list (map nblocks ps)"

text \<open>Packets laid out one after the other from block \<open>i\<close>, each starting at \<open>lim\<close> at the latest.\<close>

fun chunks :: "nat \<Rightarrow> bytes \<Rightarrow> nat \<Rightarrow> bytes list \<Rightarrow> bool" where
  "chunks lim mem i [] = True"
| "chunks lim mem i (p # ps) = (i \<le> lim \<and> block_len mem i = int (length p)
     \<and> bslice (BLOCK * (i + 1)) (length p) mem = p \<and> chunks lim mem (i + nblocks p) ps)"

lemma bdivide_up_le_iff: "bdivide_up n BLOCK \<le> k \<longleftrightarrow> n \<le> BLOCK * k"
proof
  assume "bdivide_up n BLOCK \<le> k"
  then have "BLOCK * bdivide_up n BLOCK \<le> BLOCK * k" by simp
  with bdivide_up_le [of BLOCK n] show "n \<le> BLOCK * k" by linarith
next
  assume "n \<le> BLOCK * k"
  then have "bdivide_up n BLOCK \<le> bdivide_up (BLOCK * k) BLOCK" by (intro bdivide_up_mono) simp_all
  then show "bdivide_up n BLOCK \<le> k" by (simp add: bdivide_up_def)
qed

lemma nblocks_pos [simp]: "0 < nblocks p"
  by (simp add: nblocks_def)

lemma nblocks_covers: "length p \<le> BLOCK * (nblocks p - 1)"
  using bdivide_up_le [of BLOCK "length p"] by (simp add: nblocks_def)

lemma chunks_append: "chunks lim mem i (ps @ qs) \<longleftrightarrow> chunks lim mem i ps \<and> chunks lim mem (i + total_blocks ps) qs"
  by (induction ps arbitrary: i) (auto simp: add.assoc)

lemma bslice_blit_disjoint:
  "off + length src \<le> length dst \<Longrightarrow> a + n \<le> off \<or> off + length src \<le> a \<Longrightarrow> bslice a n (blit dst off src) = bslice a n dst"
  by (auto simp: bslice_blit_before bslice_blit_after)

lemma chunks_blit:
  assumes "off + length src \<le> length mem" and "BLOCK * (i + total_blocks ps) \<le> off \<or> off + length src \<le> BLOCK * i"
  shows "chunks lim (blit mem off src) i ps = chunks lim mem i ps"
  using assms(2)
proof (induction ps arbitrary: i)
  case (Cons p ps)
  have "BLOCK * i + BLOCK \<le> off \<or> off + length src \<le> BLOCK * i"
    "BLOCK * (i + 1) + length p \<le> off \<or> off + length src \<le> BLOCK * (i + 1)"
    using Cons.prems nblocks_covers [of p] by (auto simp: nblocks_def)
  then have "bslice (BLOCK * i) BLOCK (blit mem off src) = bslice (BLOCK * i) BLOCK mem"
    "bslice (BLOCK * (i + 1)) (length p) (blit mem off src) = bslice (BLOCK * (i + 1)) (length p) mem"
    using assms(1) by (simp_all only: bslice_blit_disjoint)
  moreover have "chunks lim (blit mem off src) (i + nblocks p) ps = chunks lim mem (i + nblocks p) ps"
    using Cons.prems by (intro Cons.IH) auto
  ultimately show ?case by (simp add: block_len_def)
qed simp

lemma sint_of_nat: "n < 2 ^ 31 \<Longrightarrow> sint (of_nat n :: 32 word) = int n"
  by (simp add: sint_uint uint_nat unat_of_nat signed_take_bit_int_eq_self)

section \<open>Invariant\<close>

definition geometry :: "ChunkBuffer2 \<Rightarrow> bool" where
  "geometry buf \<longleftrightarrow> (let S = cb_size buf; W = cb_wrap buf; a = cb_start buf; u = cb_used buf; M = cb_mtu buf in
     0 < W \<and> W \<le> S \<and> a < W \<and> u \<le> W \<and> a + 1 + M \<le> S \<and> S < W + 1 + M
     \<and> (u < W - a \<longrightarrow> W = S \<and> a + u + 1 + M \<le> S) \<and> (W - a \<le> u \<longrightarrow> u - (W - a) \<le> a)
     \<and> length (cb_buffer buf) = BLOCK * S \<and> BLOCK * S \<le> INT_MAX)"

lemma geometry_open:
  assumes "cb_wrap b = cb_size b" and "cb_used b < cb_size b - cb_start b" and "cb_start b + cb_used b + 1 + cb_mtu b \<le> cb_size b"
    and "length (cb_buffer b) = BLOCK * cb_size b" and "BLOCK * cb_size b \<le> INT_MAX"
  shows "geometry b"
  using assms unfolding geometry_def Let_def by simp

lemma geometry_wrapped:
  assumes "cb_wrap b \<le> cb_size b" and "cb_start b < cb_wrap b" and "cb_wrap b \<le> cb_used b + cb_start b" and "cb_used b \<le> cb_wrap b"
    and "cb_start b + 1 + cb_mtu b \<le> cb_size b" and "cb_size b < cb_wrap b + 1 + cb_mtu b"
    and "length (cb_buffer b) = BLOCK * cb_size b" and "BLOCK * cb_size b \<le> INT_MAX"
  shows "geometry b"
  using assms unfolding geometry_def Let_def by (intro conjI impI; linarith)

lemma geometry_memory: "geometry b \<Longrightarrow> length m = length (cb_buffer b) \<Longrightarrow> geometry (b\<lparr>cb_buffer := m\<rparr>)"
  by (cases b) (simp only: geometry_def Let_def ChunkBuffer2.select_convs ChunkBuffer2.update_convs, blast)

definition io_ok :: "ChunkBuffer2 \<Rightarrow> bool" where
  "io_ok buf \<longleftrightarrow> (input_dest buf, input_avail buf) = input_of buf \<and> (output_dest buf, output_avail buf) = output_of buf"

text \<open>The abstraction relation: which packets, in order, the buffer holds.\<close>

definition stored :: "ChunkBuffer2 \<Rightarrow> bytes list \<Rightarrow> bytes list \<Rightarrow> bool" where
  "stored buf ps1 ps2 \<longleftrightarrow> (let lim = cb_size buf - 1 - cb_mtu buf; h = cb_wrap buf - cb_start buf in
     chunks lim (cb_buffer buf) (cb_start buf) ps1 \<and> chunks lim (cb_buffer buf) 0 ps2
     \<and> (if cb_used buf < h then total_blocks ps1 = cb_used buf \<and> ps2 = []
        else total_blocks ps1 = h \<and> total_blocks ps2 = cb_used buf - h))"

definition holds :: "ChunkBuffer2 \<Rightarrow> bytes list \<Rightarrow> bool" where
  "holds buf ps \<longleftrightarrow> \<not> cfault buf \<and> geometry buf \<and> io_ok buf \<and> (\<exists>ps1 ps2. ps = ps1 @ ps2 \<and> stored buf ps1 ps2)"

lemma C_ASSERT_True [simp]: "b \<Longrightarrow> C_ASSERT b buf = buf"
  by (simp add: C_ASSERT_def)

lemma end_eq:
  "geometry buf \<Longrightarrow> ChunkBuffer2_end buf =
    (if cb_used buf < cb_wrap buf - cb_start buf then cb_start buf + cb_used buf
     else cb_used buf - (cb_wrap buf - cb_start buf))"
  by (auto simp: geometry_def ChunkBuffer2_end_def Let_def)

lemma free_eq:
  "geometry buf \<Longrightarrow> free_blocks buf = int
    (if cb_used buf < cb_wrap buf - cb_start buf then cb_size buf - ChunkBuffer2_end buf
     else cb_start buf - ChunkBuffer2_end buf)"
  unfolding free_blocks_def end_eq by (auto simp: geometry_def Let_def of_nat_diff)

lemma end_lim: "geometry buf \<Longrightarrow> ChunkBuffer2_end buf + 1 + cb_mtu buf \<le> cb_size buf"
  unfolding end_eq by (auto simp: geometry_def Let_def)

lemma int_of_size_small: "n \<le> INT_MAX \<Longrightarrow> int_of_size n = int n"
  by (simp add: int_of_size_def Let_def)

lemma input_of_eq:
  assumes "geometry buf"
  shows "input_of buf = (if free_blocks buf > 0 then (Some (BLOCK * (ChunkBuffer2_end buf + 1)), 4 * (free_blocks buf - 1))
    else (None, -1))"
proof -
  have "nat (free_blocks buf) \<le> cb_size buf" "BLOCK * cb_size buf \<le> INT_MAX"
    using assms unfolding free_eq [OF assms] by (auto simp: geometry_def Let_def)
  then have "(nat (free_blocks buf) - 1) * BLOCK \<le> INT_MAX" by linarith
  note sz = int_of_size_small [OF this]
  have "\<not> int (cb_size buf) - int (ChunkBuffer2_end buf) - 1 < int (cb_mtu buf)"
    using end_lim [OF assms] by simp
  then show ?thesis unfolding input_of_def sz by auto
qed

lemma assert_buffer_ok: "geometry buf \<Longrightarrow> ChunkBuffer2_assert_buffer buf = buf"
  unfolding ChunkBuffer2_assert_buffer_def by (rule C_ASSERT_True) (auto simp: geometry_def Let_def)


lemma stored_first:
  assumes "geometry buf" and "stored buf ps1 ps2" and "0 < cb_used buf"
  obtains p ps where "ps1 = p # ps"
proof (cases ps1)
  case Nil
  then show ?thesis using assms by (auto simp: geometry_def stored_def Let_def split: if_splits)
qed (use that in blast)

lemma stored_first_ok:
  assumes "geometry buf" and "stored buf (p # ps) ps2"
  shows "block_len (cb_buffer buf) (cb_start buf) = int (length p)" and "nblocks p \<le> cb_used buf"
    and "nblocks p \<le> cb_wrap buf - cb_start buf" and "first_chunk_ok buf"
proof -
  show l: "block_len (cb_buffer buf) (cb_start buf) = int (length p)" using assms(2) by (simp add: stored_def Let_def)
  show n: "nblocks p \<le> cb_used buf" "nblocks p \<le> cb_wrap buf - cb_start buf"
    using assms by (auto simp: stored_def geometry_def Let_def split: if_splits)
  have "cb_start buf < cb_wrap buf" using assms(1) by (simp add: geometry_def Let_def)
  then show "first_chunk_ok buf" using n unfolding first_chunk_ok_def l by (simp add: Let_def nblocks_def)
qed

lemma stored_used_first_ok:
  assumes "geometry buf" and "stored buf ps1 ps2"
  shows "cb_used buf > 0 \<longrightarrow> first_chunk_ok buf"
proof
  assume "cb_used buf > 0"
  with assms obtain p ps where "ps1 = p # ps" by (rule stored_first)
  with assms show "first_chunk_ok buf" using stored_first_ok(4) by simp
qed

lemma assert_io_ok: "geometry buf \<Longrightarrow> stored buf ps1 ps2 \<Longrightarrow> io_ok buf \<Longrightarrow> ChunkBuffer2_assert_io buf = buf"
  unfolding ChunkBuffer2_assert_io_def using stored_used_first_ok by (intro C_ASSERT_True) (auto simp: io_ok_def)

lemma update_sel [simp]:
  "cb_buffer (ChunkBuffer2_update_input buf) = cb_buffer buf" "cb_size (ChunkBuffer2_update_input buf) = cb_size buf"
  "cb_wrap (ChunkBuffer2_update_input buf) = cb_wrap buf" "cb_start (ChunkBuffer2_update_input buf) = cb_start buf"
  "cb_used (ChunkBuffer2_update_input buf) = cb_used buf" "cb_mtu (ChunkBuffer2_update_input buf) = cb_mtu buf"
  "cfault (ChunkBuffer2_update_input buf) = cfault buf" "output_dest (ChunkBuffer2_update_input buf) = output_dest buf"
  "output_avail (ChunkBuffer2_update_input buf) = output_avail buf"
  "(input_dest (ChunkBuffer2_update_input buf), input_avail (ChunkBuffer2_update_input buf)) = input_of buf"
  by (simp_all add: ChunkBuffer2_update_input_def split_beta)

lemma same_layout:
  assumes "cb_buffer b = cb_buffer b'" "cb_size b = cb_size b'" "cb_wrap b = cb_wrap b'" "cb_start b = cb_start b'"
    "cb_used b = cb_used b'" "cb_mtu b = cb_mtu b'"
  shows "geometry b = geometry b'" "stored b = stored b'" "input_of b = input_of b'" "output_of b = output_of b'"
    "first_chunk_ok b = first_chunk_ok b'" "ChunkBuffer2_end b = ChunkBuffer2_end b'"
  using assms
  by (auto simp: geometry_def stored_def input_of_def output_of_def free_blocks_def ChunkBuffer2_end_def first_chunk_ok_def
      Let_def fun_eq_iff)

lemma assert_buffer_used [simp]: "cb_used (ChunkBuffer2_assert_buffer buf) = cb_used buf"
  by (simp add: ChunkBuffer2_assert_buffer_def C_ASSERT_def)

text \<open>After an operation has changed the layout it brings the input and output fields up to date.\<close>

definition refresh_output :: "bool \<Rightarrow> ChunkBuffer2 \<Rightarrow> ChunkBuffer2" where
  "refresh_output b buf = (if b then ChunkBuffer2_update_output buf else buf)"

definition refresh_input :: "bool \<Rightarrow> ChunkBuffer2 \<Rightarrow> ChunkBuffer2" where
  "refresh_input b buf = (if b then ChunkBuffer2_update_input buf else buf)"

lemma refresh_holds:
  assumes "geometry buf" and "stored buf ps1 ps2" and "\<not> cfault buf"
    and "bi \<or> (input_dest buf, input_avail buf) = input_of buf" and "bo \<or> (output_dest buf, output_avail buf) = output_of buf"
  shows "holds (ChunkBuffer2_assert_io (refresh_output bo (refresh_input bi (ChunkBuffer2_assert_buffer buf)))) (ps1 @ ps2)"
proof -
  let ?i = "refresh_input bi buf" and ?r = "refresh_output bo (refresh_input bi buf)"
  have i: "geometry ?i = geometry buf" "stored ?i = stored buf" "input_of ?i = input_of buf" "output_of ?i = output_of buf"
    "first_chunk_ok ?i = first_chunk_ok buf"
    by (rule same_layout; simp add: refresh_input_def)+
  have inp: "(input_dest ?i, input_avail ?i) = input_of buf"
    using assms(4) by (auto simp: refresh_input_def simp flip: update_sel(10))
  have fi: "cb_used ?i > 0 \<longrightarrow> first_chunk_ok ?i"
    using stored_used_first_ok [OF assms(1,2)] unfolding i by (simp add: refresh_input_def)
  have r: "geometry ?r = geometry ?i" "stored ?r = stored ?i" "input_of ?r = input_of ?i" "output_of ?r = output_of ?i"
    by (rule same_layout; simp add: refresh_output_def ChunkBuffer2_update_output_def C_ASSERT_def split_beta)+
  have "(output_dest ?r, output_avail ?r) = output_of buf"
  proof (cases bo)
    case True
    then show ?thesis by (simp add: refresh_output_def ChunkBuffer2_update_output_def split_beta i)
  next
    case False
    with assms(5) show ?thesis by (simp add: refresh_output_def refresh_input_def)
  qed
  moreover have "(input_dest ?r, input_avail ?r) = input_of buf"
    using inp by (simp add: refresh_output_def ChunkBuffer2_update_output_def C_ASSERT_def split_beta)
  ultimately have io: "io_ok ?r" unfolding io_ok_def r i by simp
  have "\<not> cfault ?i" using assms(3) by (simp add: refresh_input_def)
  then have nf: "\<not> cfault ?r"
    using fi by (simp add: refresh_output_def ChunkBuffer2_update_output_def split_beta)
  have g: "geometry ?r" "stored ?r ps1 ps2" using assms(1,2) unfolding r i by simp_all
  then have "holds ?r (ps1 @ ps2)" using io nf unfolding holds_def by blast
  then show ?thesis using assert_io_ok [OF g io] by (simp add: assert_buffer_ok [OF assms(1)])
qed


section \<open>Consuming a packet\<close>

lemma consume_layout:
  assumes g: "geometry buf" and s: "stored buf (p # ps) ps2"
  defines "b \<equiv> buf\<lparr>cb_start := cb_start buf + nblocks p, cb_used := cb_used buf - nblocks p\<rparr>"
  defines "b' \<equiv> (if cb_start b = cb_wrap b then b\<lparr>cb_start := 0, cb_wrap := cb_size b\<rparr> else b)"
  shows "geometry b' \<and> (\<exists>qs1 qs2. qs1 @ qs2 = ps @ ps2 \<and> stored b' qs1 qs2)
    \<and> (cb_used buf < cb_wrap buf - cb_start buf \<longrightarrow> input_of b' = input_of buf)
    \<and> ChunkBuffer2_end b' = ChunkBuffer2_end buf \<and> free_blocks buf \<le> free_blocks b'"
proof -
  let ?S = "cb_size buf" and ?W = "cb_wrap buf" and ?a = "cb_start buf" and ?u = "cb_used buf" and ?M = "cb_mtu buf"
  let ?n = "nblocks p" and ?lim = "cb_size buf - 1 - cb_mtu buf" and ?m = "cb_buffer buf"
  note n = stored_first_ok(2,3) [OF g s] nblocks_pos [of p]
  have geo: "?W \<le> ?S" "?a < ?W" "?u \<le> ?W" "?a + 1 + ?M \<le> ?S" "?S < ?W + 1 + ?M"
    "?u < ?W - ?a \<Longrightarrow> ?W = ?S \<and> ?a + ?u + 1 + ?M \<le> ?S" "?W - ?a \<le> ?u \<Longrightarrow> ?u - (?W - ?a) \<le> ?a"
    "length ?m = BLOCK * ?S" "BLOCK * ?S \<le> INT_MAX"
    using g by (auto simp: geometry_def Let_def)
  have ch: "chunks ?lim ?m (?a + ?n) ps" "chunks ?lim ?m 0 ps2" using s by (simp_all add: stored_def Let_def)
  have next_lim: "ps = [] \<or> ?a + ?n \<le> ?lim" using ch(1) by (cases ps) auto
  show ?thesis
  proof (cases "?u < ?W - ?a")
    case True
    then have t: "?n + total_blocks ps = ?u" "ps2 = []" using s by (simp_all add: stored_def Let_def)
    have b': "b' = b" using True n unfolding b'_def b_def by simp
    have WS: "?W = ?S" "?a + ?u + 1 + ?M \<le> ?S" using geo(6) True by auto
    have "?a + ?n + 1 + ?M \<le> ?S"
    proof (cases "ps = []")
      case True
      then show ?thesis using t(1) WS(2) by simp
    next
      case False
      then show ?thesis using next_lim geo(4) by linarith
    qed
    then have gb: "geometry b"
      using True n geo(8,9) WS by (intro geometry_open) (simp_all add: b_def)
    moreover have "stored b ps []" using True n ch t by (auto simp: b_def stored_def Let_def)
    moreover have ef: "ChunkBuffer2_end b = ChunkBuffer2_end buf" "free_blocks b = free_blocks buf"
      unfolding end_eq [OF gb] end_eq [OF g] free_eq [OF gb] free_eq [OF g] using True n by (auto simp: b_def)
    moreover from this have "input_of b = input_of buf" unfolding input_of_eq [OF gb] input_of_eq [OF g] by simp
    ultimately show ?thesis using t(2) unfolding b' by auto
  next
    case False
    then have t: "?n + total_blocks ps = ?W - ?a" "total_blocks ps2 = ?u - (?W - ?a)" using s by (simp_all add: stored_def Let_def)
    have e: "?u - (?W - ?a) \<le> ?a" using geo(7) False by simp
    show ?thesis
    proof (cases "?a + ?n = ?W")
      case True
      then have "ps = []" using t(1) by (cases ps) (auto simp: nblocks_def)
      have b': "b' = buf\<lparr>cb_start := 0, cb_used := ?u - ?n, cb_wrap := ?S\<rparr>" using True unfolding b'_def b_def by simp
      have gb: "geometry b'" using True False geo(1-4,8,9) e by (intro geometry_open) (simp_all add: b')
      moreover have "stored b' ps2 []" using True False geo e t ch by (auto simp: b' stored_def Let_def)
      moreover have ee: "ChunkBuffer2_end b' = ChunkBuffer2_end buf"
        unfolding end_eq [OF gb] end_eq [OF g] using True False geo(1-3) e by (auto simp: b')
      moreover have "free_blocks buf \<le> free_blocks b'"
        unfolding free_eq [OF gb] free_eq [OF g] ee using True False geo(1-3) e by (auto simp: b')
      ultimately show ?thesis using False \<open>ps = []\<close> by auto
    next
      case nwrap: False
      then have b': "b' = b" unfolding b'_def b_def by simp
      have lt: "?a + ?n < ?W" using nwrap n(2) geo(2) by linarith
      have "ps \<noteq> []" using nwrap t(1) lt by auto
      then have "?a + ?n + 1 + ?M \<le> ?S" using next_lim geo(4) by auto
      then have gb: "geometry b" using lt False geo(1-5,8,9) e n by (intro geometry_wrapped) (simp_all add: b_def)
      moreover have "stored b ps ps2" using lt False n t ch by (auto simp: b_def stored_def Let_def)
      moreover have ee: "ChunkBuffer2_end b = ChunkBuffer2_end buf"
        unfolding end_eq [OF gb] end_eq [OF g] using lt False n by (auto simp: b_def)
      moreover have "free_blocks buf \<le> free_blocks b"
        unfolding free_eq [OF gb] free_eq [OF g] ee using lt False n by (auto simp: b_def)
      ultimately show ?thesis using False unfolding b' by auto
    qed
  qed
qed

lemma consume_facts:
  assumes "holds buf (p # ps)"
  shows "holds (ChunkBuffer2_ConsumePacket buf) ps
    \<and> (input_dest buf = Some d \<longrightarrow> input_dest (ChunkBuffer2_ConsumePacket buf) = Some d
       \<and> input_avail buf \<le> input_avail (ChunkBuffer2_ConsumePacket buf))"
proof -
  from assms obtain ps1 ps2 where g: "geometry buf" and io: "io_ok buf" and nf: "\<not> cfault buf"
    and app: "p # ps = ps1 @ ps2" and st: "stored buf ps1 ps2" unfolding holds_def by blast
  have u: "0 < cb_used buf"
  proof (rule ccontr)
    assume "\<not> 0 < cb_used buf"
    then have "ps1 = [] \<and> ps2 = []" using st g nblocks_pos
      by (cases ps1; cases ps2) (auto simp: stored_def geometry_def Let_def nblocks_def split: if_splits)
    with app show False by simp
  qed
  obtain r qs where "ps1 = r # qs" by (rule stored_first [OF g st u])
  with app have q: "ps1 = p # qs" "ps = qs @ ps2" by simp_all
  note st' = st [unfolded q]
  note f = stored_first_ok [OF g st']
  have bl: "bdivide_up (nat (block_len (cb_buffer buf) (cb_start buf))) BLOCK = nblocks p - 1"
    unfolding f(1) by (simp add: nblocks_def)
  let ?b = "buf\<lparr>cb_start := cb_start buf + nblocks p, cb_used := cb_used buf - nblocks p\<rparr>"
  let ?b' = "if cb_start ?b = cb_wrap ?b then ?b\<lparr>cb_start := 0, cb_wrap := cb_size ?b\<rparr> else ?b"
  let ?w = "int (cb_used buf) \<ge> int (cb_wrap buf) - int (cb_start buf)"
  have a0: "ChunkBuffer2_assert_io (ChunkBuffer2_assert_buffer buf) = buf"
    using assert_io_ok [OF g st io] assert_buffer_ok [OF g] by simp
  have od: "output_dest buf \<noteq> None" using io u by (auto simp: io_ok_def output_of_def)
  have lt: "cb_start buf < cb_wrap buf" using g by (simp add: geometry_def Let_def)
  obtain k where k: "nblocks p = Suc k" by (simp add: nblocks_def)
  have a1: "1 \<le> int (cb_wrap buf) - int (cb_start buf) \<and> 1 \<le> cb_used buf
            \<and> int (nblocks p - 1) \<le> int (cb_wrap buf) - int (cb_start buf) - 1 \<and> int (nblocks p - 1) \<le> int (cb_used buf) - 1"
    using f(2,3) lt u k by auto
  have eq: "ChunkBuffer2_ConsumePacket buf
      = ChunkBuffer2_assert_io (refresh_output True (refresh_input ?w (ChunkBuffer2_assert_buffer ?b')))"
    unfolding ChunkBuffer2_ConsumePacket_def Let_def C_ASSERT_True [OF od] a0 bl C_ASSERT_True [OF a1]
    using nblocks_pos [of p] by (simp add: refresh_output_def refresh_input_def)
  from consume_layout [OF g st'] obtain qs1 qs2 where l: "geometry ?b'" "stored ?b' qs1 qs2" "qs1 @ qs2 = ps"
    "cb_used buf < cb_wrap buf - cb_start buf \<longrightarrow> input_of ?b' = input_of buf"
    "ChunkBuffer2_end ?b' = ChunkBuffer2_end buf" "free_blocks buf \<le> free_blocks ?b'" unfolding q(2) by blast
  have "?w \<or> (input_dest ?b', input_avail ?b') = input_of ?b'"
    using l(4) io by (auto simp: io_ok_def)
  with l(1-3) nf refresh_holds [of ?b' qs1 qs2 ?w True] have h: "holds (ChunkBuffer2_ConsumePacket buf) ps" unfolding eq by simp
  have same: "input_of (ChunkBuffer2_ConsumePacket buf) = input_of ?b'"
    unfolding eq
    by (rule same_layout)
      (simp_all add: refresh_output_def refresh_input_def ChunkBuffer2_update_output_def ChunkBuffer2_assert_io_def
        ChunkBuffer2_assert_buffer_def C_ASSERT_def split_beta)
  have i: "(input_dest (ChunkBuffer2_ConsumePacket buf), input_avail (ChunkBuffer2_ConsumePacket buf)) = input_of ?b'"
    using h same by (simp add: holds_def io_ok_def)
  have "(input_dest buf, input_avail buf) = input_of buf" using io by (simp add: io_ok_def)
  with i l(5,6) have "input_dest buf = Some d \<longrightarrow> input_dest (ChunkBuffer2_ConsumePacket buf) = Some d
       \<and> input_avail buf \<le> input_avail (ChunkBuffer2_ConsumePacket buf)"
    unfolding input_of_eq [OF g] input_of_eq [OF l(1)] by (auto split: if_splits)
  with h show ?thesis by blast
qed

lemmas consume_holds = consume_facts [THEN conjunct1]
lemmas consume_input = consume_facts [THEN conjunct2, THEN mp]


section \<open>Submitting a packet\<close>

definition deposit :: "nat \<Rightarrow> bytes \<Rightarrow> ChunkBuffer2 \<Rightarrow> ChunkBuffer2" where
  "deposit d data buf = (C_ASSERT (d + length data \<le> length (cb_buffer buf)) buf)\<lparr>cb_buffer := blit (cb_buffer buf) d data\<rparr>"

lemma room_facts:
  assumes g: "geometry buf" and io: "io_ok buf" and d: "input_dest buf = Some d" and len: "int (length data) \<le> input_avail buf"
  defines "e \<equiv> ChunkBuffer2_end buf" and "n \<equiv> nblocks data"
  shows "d = BLOCK * (e + 1)" and "cb_used buf < cb_wrap buf - cb_start buf \<Longrightarrow> e + n \<le> cb_size buf"
    and "\<not> cb_used buf < cb_wrap buf - cb_start buf \<Longrightarrow> e + n \<le> cb_start buf"
    and "e + n \<le> cb_size buf" and "d + length data \<le> BLOCK * (e + n)"
proof -
  have i: "(Some d, input_avail buf) = input_of buf" using io d by (simp add: io_ok_def)
  then have f: "free_blocks buf > 0" and d': "d = BLOCK * (e + 1)" and av: "input_avail buf = 4 * (free_blocks buf - 1)"
    unfolding input_of_eq [OF g] e_def by (auto split: if_splits)
  from d' show "d = BLOCK * (e + 1)" .
  obtain k where k: "free_blocks buf = int k" using free_eq [OF g] by blast
  have "length data \<le> BLOCK * (nat (free_blocks buf) - 1)" using len f unfolding av k by simp
  then have "bdivide_up (length data) BLOCK \<le> nat (free_blocks buf) - 1" by (simp only: bdivide_up_le_iff)
  then have n: "n \<le> nat (free_blocks buf)" using f unfolding n_def nblocks_def by linarith
  show a: "cb_used buf < cb_wrap buf - cb_start buf \<Longrightarrow> e + n \<le> cb_size buf"
    and b: "\<not> cb_used buf < cb_wrap buf - cb_start buf \<Longrightarrow> e + n \<le> cb_start buf"
    using n f unfolding free_eq [OF g] e_def by simp_all
  show "e + n \<le> cb_size buf" using a b g by (cases "cb_used buf < cb_wrap buf - cb_start buf") (auto simp: geometry_def Let_def)
  show "d + length data \<le> BLOCK * (e + n)" using nblocks_covers [of data] unfolding d' n_def by (simp add: nblocks_def)
qed

lemma new_chunk:
  assumes "length mem = BLOCK * S" and "e + nblocks data \<le> S" and "e \<le> lim" and "length data < 2 ^ 31"
  shows "chunks lim (blit (blit mem (BLOCK * (e + 1)) data) (BLOCK * e) (mem32 (of_nat (length data)))) e [data]"
proof -
  have l: "BLOCK * (e + 1) + length data \<le> BLOCK * S"
    using assms(2) nblocks_covers [of data] by (simp add: nblocks_def)
  let ?m = "blit mem (BLOCK * (e + 1)) data"
  have lm: "length ?m = BLOCK * S" using l assms(1) by simp
  have "bslice (BLOCK * e) BLOCK (blit ?m (BLOCK * e) (mem32 (of_nat (length data)))) = mem32 (of_nat (length data))"
    using bslice_blit_same [of "BLOCK * e" "mem32 (of_nat (length data))" ?m] lm l by simp
  moreover have "bslice (BLOCK * (e + 1)) (length data) (blit ?m (BLOCK * e) (mem32 (of_nat (length data)))) = data"
    using bslice_blit_after [of "BLOCK * e" "mem32 (of_nat (length data))" "BLOCK * (e + 1)" ?m "length data"]
      bslice_blit_same [of "BLOCK * (e + 1)" data mem] lm l assms(1) by simp
  ultimately show ?thesis
    using assms(3,4) by (simp add: block_len_def sint_of_nat)
qed

text \<open>Writing the data, then the header, leaves all packets in place.\<close>

lemma stored_blit:
  assumes g: "geometry buf" and s: "stored buf ps1 ps2" and room: "e + n \<le> cb_size buf"
    "\<not> cb_used buf < cb_wrap buf - cb_start buf \<Longrightarrow> e + n \<le> cb_start buf" and e: "e = ChunkBuffer2_end buf"
    and off: "BLOCK * e \<le> off" "off + length src \<le> BLOCK * (e + n)"
  shows "stored (buf\<lparr>cb_buffer := blit (cb_buffer buf) off src\<rparr>) ps1 ps2"
proof -
  let ?m = "cb_buffer buf" and ?lim = "cb_size buf - 1 - cb_mtu buf"
  have lm: "off + length src \<le> length ?m" using g off room(1) by (simp add: geometry_def Let_def)
  have "chunks ?lim (blit ?m off src) (cb_start buf) ps1 = chunks ?lim ?m (cb_start buf) ps1
    \<and> chunks ?lim (blit ?m off src) 0 ps2 = chunks ?lim ?m 0 ps2"
  proof (cases "cb_used buf < cb_wrap buf - cb_start buf")
    case True
    then have "ps2 = []" "total_blocks ps1 = cb_used buf" "e = cb_start buf + cb_used buf"
      using s end_eq [OF g] e by (simp_all add: stored_def Let_def)
    then show ?thesis using off by (auto intro!: chunks_blit [OF lm])
  next
    case False
    then have "total_blocks ps2 = e" "e + n \<le> cb_start buf"
      using s end_eq [OF g] e room(2) by (simp_all add: stored_def Let_def)
    then show ?thesis using off by (auto intro!: chunks_blit [OF lm])
  qed
  with s show ?thesis by (simp add: stored_def Let_def)
qed


lemma submit_layout:
  assumes g: "geometry buf" and s: "stored buf ps1 ps2" and e: "e = ChunkBuffer2_end buf" and n: "n = nblocks data"
    and room: "e + n \<le> cb_size buf" "\<not> cb_used buf < cb_wrap buf - cb_start buf \<Longrightarrow> e + n \<le> cb_start buf"
    and new: "chunks (cb_size buf - 1 - cb_mtu buf) (cb_buffer buf) e [data]"
  defines "b \<equiv> buf\<lparr>cb_used := cb_used buf + n\<rparr>"
  defines "b' \<equiv> (if int (cb_used b) \<le> int (cb_wrap b) - int (cb_start b) \<and> int (cb_mtu b) > int (cb_size b) - int (e + n) - 1
    then b\<lparr>cb_wrap := e + n\<rparr> else b)"
  shows "geometry b' \<and> (\<exists>qs1 qs2. qs1 @ qs2 = ps1 @ ps2 @ [data] \<and> stored b' qs1 qs2)"
proof -
  let ?S = "cb_size buf" and ?W = "cb_wrap buf" and ?a = "cb_start buf" and ?u = "cb_used buf" and ?M = "cb_mtu buf"
  let ?lim = "cb_size buf - 1 - cb_mtu buf" and ?m = "cb_buffer buf"
  have np: "0 < n" using n by simp
  have geo: "?W \<le> ?S" "?a < ?W" "?u \<le> ?W" "?a + 1 + ?M \<le> ?S" "?S < ?W + 1 + ?M"
    "?u < ?W - ?a \<Longrightarrow> ?W = ?S \<and> ?a + ?u + 1 + ?M \<le> ?S" "?W - ?a \<le> ?u \<Longrightarrow> ?u - (?W - ?a) \<le> ?a"
    "length ?m = BLOCK * ?S" "BLOCK * ?S \<le> INT_MAX"
    using g by (auto simp: geometry_def Let_def)
  have ch: "chunks ?lim ?m ?a ps1" "chunks ?lim ?m 0 ps2" using s by (simp_all add: stored_def Let_def)
  show ?thesis
  proof (cases "?u < ?W - ?a")
    case True
    then have t: "total_blocks ps1 = ?u" "ps2 = []" and e': "e = ?a + ?u"
      using s end_eq [OF g] e by (simp_all add: stored_def Let_def)
    have WS: "?W = ?S" "?a + ?u + 1 + ?M \<le> ?S" using geo(6) True by auto
    have c: "chunks ?lim ?m ?a (ps1 @ [data])" using ch(1) new t(1) e' by (simp add: chunks_append)
    show ?thesis
    proof (cases "?S < e + n + 1 + ?M")
      case wrap: True
      then have b': "b' = b\<lparr>cb_wrap := e + n\<rparr>" using room(1) WS e' unfolding b'_def b_def by simp
      have "geometry b'" using wrap room(1) geo(4,8,9) e' np by (intro geometry_wrapped) (simp_all add: b' b_def)
      moreover have "stored b' (ps1 @ [data]) []" using c t e' n by (simp add: b' b_def stored_def Let_def)
      ultimately show ?thesis using t(2) by (metis append_Nil2 append_assoc append_self_conv2)
    next
      case False
      then have b': "b' = b" unfolding b'_def b_def by auto
      have "geometry b'" using False room(1) WS geo(8,9) e' by (intro geometry_open) (simp_all add: b' b_def)
      moreover have "?u + n < ?S - ?a" using False e' by linarith
      then have "stored b' (ps1 @ [data]) []" using c t n WS by (simp add: b' b_def stored_def Let_def)
      ultimately show ?thesis using t(2) by (metis append_Nil2 append_assoc append_self_conv2)
    qed
  next
    case False
    then have t: "total_blocks ps1 = ?W - ?a" "total_blocks ps2 = e" and e': "e = ?u - (?W - ?a)"
      using s end_eq [OF g] e by (simp_all add: stored_def Let_def)
    have b': "b' = b" using False np geo(2) unfolding b'_def b_def by auto
    have "e + n \<le> ?a" using room(2) False by simp
    then have "geometry b'" using False geo(1-5,8,9) e' by (intro geometry_wrapped) (simp_all add: b' b_def)
    moreover have "chunks ?lim ?m 0 (ps2 @ [data])" using ch(2) new t(2) by (simp add: chunks_append)
    then have "stored b' ps1 (ps2 @ [data])" using False ch t e' n by (simp add: b' b_def stored_def Let_def)
    ultimately show ?thesis by blast
  qed
qed


lemma submit_holds:
  assumes h: "holds buf ps" and d: "input_dest buf = Some d" and len: "int (length data) \<le> input_avail buf"
  shows "holds (ChunkBuffer2_SubmitPacket (length data) (deposit d data buf)) (ps @ [data])"
proof -
  from h obtain ps1 ps2 where g: "geometry buf" and io: "io_ok buf" and nf: "\<not> cfault buf"
    and app: "ps = ps1 @ ps2" and st: "stored buf ps1 ps2" unfolding holds_def by blast
  define e where "e = ChunkBuffer2_end buf"
  define n where "n = nblocks data"
  note r = room_facts [OF g io d len, folded e_def n_def]
  have lb: "length (cb_buffer buf) = BLOCK * cb_size buf" "BLOCK * cb_size buf \<le> INT_MAX"
    using g by (auto simp: geometry_def Let_def)
  let ?b0 = "buf\<lparr>cb_buffer := blit (cb_buffer buf) d data\<rparr>"
  have dep: "deposit d data buf = ?b0" using r(4,5) lb(1) by (simp add: deposit_def)
  have e0: "ChunkBuffer2_end ?b0 = e" by (simp add: e_def ChunkBuffer2_end_def)
  have ld: "d + length data \<le> length (cb_buffer buf)" using r(4,5) lb(1) by simp
  have g0: "geometry ?b0" using ld by (intro geometry_memory [OF g]) simp
  have s0: "stored ?b0 ps1 ps2"
    by (rule stored_blit [OF g st r(4) r(3) e_def]) (use r(1,5) in simp_all)
  have in0: "input_of ?b0 = input_of buf"
    by (simp add: input_of_def free_blocks_def ChunkBuffer2_end_def)
  have out0: "output_of ?b0 = output_of buf"
  proof (cases "cb_used buf > 0")
    case True
    then obtain p qs where p: "ps1 = p # qs" by (rule stored_first [OF g st])
    then show ?thesis
      using stored_first_ok(1) [OF g st [unfolded p]] stored_first_ok(1) [OF g0 s0 [unfolded p]] by (simp add: output_of_def)
  qed (simp add: output_of_def)
  have io0: "io_ok ?b0" using io in0 out0 by (simp add: io_ok_def)
  have a0: "ChunkBuffer2_assert_io (ChunkBuffer2_assert_buffer ?b0) = ?b0"
    using assert_io_ok [OF g0 s0 io0] assert_buffer_ok [OF g0] by simp
  have a1: "input_dest ?b0 \<noteq> None \<and> int (length data) \<le> input_avail ?b0" using d len by simp
  have np: "n = 1 + bdivide_up (length data) BLOCK" by (simp add: n_def nblocks_def)
  have a2: "int (bdivide_up (length data) BLOCK) \<le> int (cb_size ?b0) - int e - 1
      \<and> (int (cb_used ?b0) < int (cb_wrap ?b0) - int (cb_start ?b0)
         \<or> int (bdivide_up (length data) BLOCK) \<le> int (cb_start ?b0) - int e - 1)
      \<and> BLOCK * (e + 1) \<le> length (cb_buffer ?b0)"
    using r(3,4) ld lb(1) np by (cases "cb_used buf < cb_wrap buf - cb_start buf") auto
  let ?b1 = "?b0\<lparr>cb_buffer := blit (cb_buffer ?b0) (BLOCK * e) (mem32 (of_nat (length data)))\<rparr>"
  have g1: "geometry ?b1" using r(4) lb(1) ld np by (intro geometry_memory [OF g0]) simp
  have s1: "stored ?b1 ps1 ps2"
    by (rule stored_blit [OF g0 s0, where e = e and n = n]) (use r(3,4) e0 np in simp_all)
  have e1: "e = ChunkBuffer2_end ?b1" by (simp add: e_def ChunkBuffer2_end_def)
  have lim: "e \<le> cb_size buf - 1 - cb_mtu buf" using end_lim [OF g] by (simp add: e_def)
  have "length data < 2 ^ 31" using r(5) ld lb by simp
  then have new: "chunks (cb_size ?b1 - 1 - cb_mtu ?b1) (cb_buffer ?b1) e [data]"
    using new_chunk [OF lb(1) _ lim] r(1,4) by (simp add: n_def)
  let ?b2 = "?b1\<lparr>cb_used := cb_used ?b1 + n\<rparr>"
  let ?b3 = "if int (cb_used ?b2) \<le> int (cb_wrap ?b2) - int (cb_start ?b2) \<and> int (cb_mtu ?b2) > int (cb_size ?b2) - int (e + n) - 1
    then ?b2\<lparr>cb_wrap := e + n\<rparr> else ?b2"
  from submit_layout [OF g1 s1 e1 n_def _ _ new] r(3,4) obtain qs1 qs2
    where l: "geometry ?b3" "stored ?b3 qs1 qs2" "qs1 @ qs2 = ps @ [data]" unfolding app by auto
  have eq: "ChunkBuffer2_SubmitPacket (length data) ?b0
      = ChunkBuffer2_assert_io (refresh_output (cb_used ?b3 = n) (refresh_input True (ChunkBuffer2_assert_buffer ?b3)))"
    unfolding ChunkBuffer2_SubmitPacket_def Let_def C_ASSERT_True [OF a1] a0 e0 C_ASSERT_True [OF a2]
    by (simp add: refresh_output_def refresh_input_def np)
  have "cb_used ?b3 = n \<or> (output_dest ?b3, output_avail ?b3) = output_of ?b3"
  proof (cases "cb_used buf > 0")
    case True
    then obtain p qs where p: "ps1 = p # qs" by (rule stored_first [OF g st])
    have "output_of ?b1 = output_of buf"
      using stored_first_ok(1) [OF g st [unfolded p]] stored_first_ok(1) [OF g1 s1 [unfolded p]] by (simp add: output_of_def)
    then have "output_of ?b3 = output_of buf" using True by (auto simp: output_of_def)
    then show ?thesis using io by (simp add: io_ok_def)
  qed simp
  then have "holds (ChunkBuffer2_SubmitPacket (length data) ?b0) (qs1 @ qs2)"
    unfolding eq using l(1,2) nf by (intro refresh_holds) simp_all
  then show ?thesis unfolding dep l(3) .
qed


section \<open>The chunk buffer as a queue\<close>

lemma init_holds:
  assumes "length mem = BLOCK * blocks" and "BLOCK * blocks \<le> INT_MAX" and "bdivide_up mtu BLOCK + 1 \<le> blocks"
  shows "holds (ChunkBuffer2_Init mem blocks mtu) []"
proof -
  let ?b = "\<lparr>cb_buffer = mem, cb_size = blocks, cb_wrap = blocks, cb_start = 0, cb_used = 0,
           cb_mtu = bdivide_up mtu BLOCK, input_dest = None, input_avail = 0, output_dest = None, output_avail = 0,
           cfault = False\<rparr>"
  have "geometry ?b" using assms by (intro geometry_open) simp_all
  moreover have "stored ?b [] []" by (simp add: stored_def Let_def)
  ultimately have "holds (ChunkBuffer2_assert_io (refresh_output True (refresh_input True (ChunkBuffer2_assert_buffer ?b)))) ([] @ [])"
    by (intro refresh_holds) simp_all
  then show ?thesis using assms(3) by (simp add: ChunkBuffer2_Init_def Let_def refresh_output_def refresh_input_def)
qed

text \<open>What the buffer offers to the output.\<close>

definition first_packet :: "ChunkBuffer2 \<Rightarrow> bytes option" where
  "first_packet buf = map_option (\<lambda>d. bslice d (nat (output_avail buf)) (cb_buffer buf)) (output_dest buf)"

definition has_room :: "ChunkBuffer2 \<Rightarrow> bytes \<Rightarrow> bool" where
  "has_room buf p \<longleftrightarrow> input_dest buf \<noteq> None \<and> int (length p) \<le> input_avail buf"

definition put_packet :: "bytes \<Rightarrow> ChunkBuffer2 \<Rightarrow> ChunkBuffer2" where
  "put_packet p buf = ChunkBuffer2_SubmitPacket (length p) (deposit (the (input_dest buf)) p buf)"

lemma holds_output:
  assumes "holds buf ps"
  shows "case ps of [] \<Rightarrow> output_dest buf = None \<and> output_avail buf = -1
    | p # _ \<Rightarrow> output_dest buf = Some (BLOCK * (cb_start buf + 1)) \<and> output_avail buf = int (length p)
        \<and> bslice (BLOCK * (cb_start buf + 1)) (length p) (cb_buffer buf) = p"
proof -
  from assms obtain ps1 ps2 where g: "geometry buf" and io: "io_ok buf" and app: "ps = ps1 @ ps2" and st: "stored buf ps1 ps2"
    unfolding holds_def by blast
  have out: "(output_dest buf, output_avail buf) = output_of buf" using io by (simp add: io_ok_def)
  show ?thesis
  proof (cases "cb_used buf > 0")
    case True
    then obtain p qs where p: "ps1 = p # qs" by (rule stored_first [OF g st])
    have "bslice (BLOCK * (cb_start buf + 1)) (length p) (cb_buffer buf) = p" using st p by (simp add: stored_def Let_def)
    then show ?thesis using p app True out stored_first_ok(1) [OF g st [unfolded p]] by (simp add: output_of_def)
  next
    case False
    then have "ps1 = [] \<and> ps2 = []" using st g
      by (cases ps1; cases ps2) (auto simp: stored_def geometry_def Let_def nblocks_def split: if_splits)
    then show ?thesis using app False out by (simp add: output_of_def)
  qed
qed

text \<open>The contract of a packet queue, which the packet buffer relies on.\<close>

locale packet_queue =
  fixes rel :: "'b \<Rightarrow> 'p list \<Rightarrow> bool" and room :: "'b \<Rightarrow> 'p \<Rightarrow> bool" and put :: "'p \<Rightarrow> 'b \<Rightarrow> 'b"
    and get :: "'b \<Rightarrow> 'b" and first :: "'b \<Rightarrow> 'p option"
  assumes put_rel: "rel b q \<Longrightarrow> room b p \<Longrightarrow> rel (put p b) (q @ [p])"
    and get_rel: "rel b (p # q) \<Longrightarrow> rel (get b) q"
    and first_empty: "rel b [] \<Longrightarrow> first b = None"
    and first_rel: "rel b (p # q) \<Longrightarrow> first b = Some p"
begin

lemma first_iff: "rel b q \<Longrightarrow> first b = (case q of [] \<Rightarrow> None | p # _ \<Rightarrow> Some p)"
  by (cases q) (simp_all add: first_empty first_rel)

lemma rel_unique: "rel b q \<Longrightarrow> rel b q' \<Longrightarrow> q = q'"
proof (induction q arbitrary: b q')
  case Nil
  then show ?case using first_empty [of b] first_rel [of b] by (cases q') auto
next
  case (Cons p q)
  then obtain p' r where q': "q' = p' # r" using first_empty [of b] first_rel [of b] by (cases q') auto
  with Cons.prems first_rel [of b p q] first_rel [of b p' r] have "p = p'" by simp
  moreover have "q = r" using Cons.IH [of "get b" r] Cons.prems q' by (blast intro: get_rel)
  ultimately show ?case using q' by simp
qed

text \<open>Whatever was put comes out in order: after draining \<open>length q\<close> packets a new one is first.\<close>

lemma drain: "rel b (q @ r) \<Longrightarrow> rel ((get ^^ length q) b) r"
proof (induction q arbitrary: b)
  case (Cons p q)
  then have "rel (get b) (q @ r)" by (auto intro: get_rel)
  from Cons.IH [OF this] show ?case by (simp add: funpow_swap1)
qed simp

lemma put_comes_after: "rel b q \<Longrightarrow> room b p \<Longrightarrow> first ((get ^^ length q) (put p b)) = Some p"
  using drain [of "put p b" q "[p]"] put_rel first_rel by blast

end

interpretation chunkq: packet_queue holds has_room put_packet ChunkBuffer2_ConsumePacket first_packet
proof unfold_locales
  show "holds b q \<Longrightarrow> has_room b p \<Longrightarrow> holds (put_packet p b) (q @ [p])" for b q p
    using submit_holds by (auto simp: has_room_def put_packet_def)
  show "holds b (p # q) \<Longrightarrow> holds (ChunkBuffer2_ConsumePacket b) q" for b p q
    by (rule consume_holds)
  show "holds b [] \<Longrightarrow> first_packet b = None" for b
    using holds_output [of b "[]"] by (simp add: first_packet_def)
  show "holds b (p # q) \<Longrightarrow> first_packet b = Some p" for b p q
    using holds_output [of b "p # q"] by (simp add: first_packet_def)
qed

section \<open>What the operations do to the outstanding transfers\<close>

lemma C_ASSERT_sel [simp]:
  "cb_start (C_ASSERT b buf) = cb_start buf" "cb_size (C_ASSERT b buf) = cb_size buf" "cb_mtu (C_ASSERT b buf) = cb_mtu buf"
  "cb_start (ChunkBuffer2_assert_buffer buf) = cb_start buf" "cb_start (ChunkBuffer2_assert_io buf) = cb_start buf"
  "cb_size (ChunkBuffer2_assert_buffer buf) = cb_size buf" "cb_size (ChunkBuffer2_assert_io buf) = cb_size buf"
  "cb_mtu (ChunkBuffer2_assert_buffer buf) = cb_mtu buf" "cb_mtu (ChunkBuffer2_assert_io buf) = cb_mtu buf"
  "cb_start (ChunkBuffer2_update_output buf) = cb_start buf" "cb_size (ChunkBuffer2_update_output buf) = cb_size buf"
  "cb_mtu (ChunkBuffer2_update_output buf) = cb_mtu buf"
  by (simp_all add: C_ASSERT_def ChunkBuffer2_assert_buffer_def ChunkBuffer2_assert_io_def ChunkBuffer2_update_output_def split_beta)

lemma submit_sel [simp]:
  "cb_start (ChunkBuffer2_SubmitPacket len buf) = cb_start buf" "cb_size (ChunkBuffer2_SubmitPacket len buf) = cb_size buf"
  "cb_mtu (ChunkBuffer2_SubmitPacket len buf) = cb_mtu buf"
  by (simp_all add: ChunkBuffer2_SubmitPacket_def Let_def)

lemma consume_sel [simp]:
  "cb_size (ChunkBuffer2_ConsumePacket buf) = cb_size buf" "cb_mtu (ChunkBuffer2_ConsumePacket buf) = cb_mtu buf"
  by (simp_all add: ChunkBuffer2_ConsumePacket_def Let_def)

lemma deposit_sel [simp]:
  "cb_start (deposit d p buf) = cb_start buf" "cb_size (deposit d p buf) = cb_size buf" "cb_mtu (deposit d p buf) = cb_mtu buf"
  "output_avail (deposit d p buf) = output_avail buf"
  by (simp_all add: deposit_def) (simp add: C_ASSERT_def)


section \<open>Runs of the packet buffer\<close>

text \<open>
  The input writes a packet of at most its MTU where it was told to and reports its length; the
  output takes the bytes it was given and reports that it is done.
\<close>

inductive pbstep :: "PacketBuffer \<Rightarrow> PacketBuffer \<Rightarrow> bool" where
  in_done: "pb_receiving s = Some d \<Longrightarrow> length data \<le> input_mtu s \<Longrightarrow>
    pbstep s (PacketBuffer_input_handler_done (length data)
      (s\<lparr>pb_buf := deposit d data (pb_buf s), pb_receiving := None, arrived := arrived s @ [data]\<rparr>))"
| out_done: "pb_sending s = Some (d, len) \<Longrightarrow>
    pbstep s (PacketBuffer_output_handler_done
      (s\<lparr>pb_sending := None, handed := handed s @ [bslice d len (cb_buffer (pb_buf s))]\<rparr>))"

text \<open>
  The start: \<open>PacketBuffer_Init\<close> succeeded, and the whole buffer counted in bytes fits an \<open>int\<close>, as the fields \<open>input_avail\<close> and \<open>output_avail\<close>
  need it. \<open>ChunkBuffer2_calc_blocks\<close> only checks that the number of blocks does, so larger buffers are outside of the properties.
\<close>

definition pbinit :: "nat \<Rightarrow> nat \<Rightarrow> PacketBuffer \<Rightarrow> bool" where
  "pbinit mtu num s \<longleftrightarrow> 0 < num \<and> BLOCK * ((bdivide_up mtu BLOCK + 1) * (num + 1)) \<le> INT_MAX
     \<and> (\<exists>alloc. malloc_ok alloc \<and> PacketBuffer_Init alloc mtu num = Some s)"

definition pb_transfers :: "PacketBuffer \<Rightarrow> bytes list \<Rightarrow> bool" where
  "pb_transfers s q \<longleftrightarrow>
     pb_receiving s = (if input_avail (pb_buf s) \<ge> int (input_mtu s) then input_dest (pb_buf s) else None)
     \<and> pb_sending s = (case q of [] \<Rightarrow> None | p # _ \<Rightarrow> Some (BLOCK * (cb_start (pb_buf s) + 1), length p))"

definition pbinv :: "nat \<Rightarrow> nat \<Rightarrow> PacketBuffer \<Rightarrow> bool" where
  "pbinv mtu num s \<longleftrightarrow> \<not> pfault s \<and> 0 < num \<and> input_mtu s = mtu \<and> cb_mtu (pb_buf s) = bdivide_up mtu BLOCK
     \<and> cb_size (pb_buf s) = (bdivide_up mtu BLOCK + 1) * (num + 1)
     \<and> (\<forall>p\<in>set (arrived s). length p \<le> mtu)
     \<and> (\<exists>q. holds (pb_buf s) q \<and> arrived s = handed s @ q \<and> pb_transfers s q)"

lemma holds_input:
  assumes "holds buf q" and "0 \<le> input_avail buf"
  shows "input_dest buf \<noteq> None"
proof -
  have g: "geometry buf" and "(input_dest buf, input_avail buf) = input_of buf" using assms(1) by (auto simp: holds_def io_ok_def)
  then show ?thesis using assms(2) unfolding input_of_eq [OF g] by (auto split: if_splits)
qed

lemma P_ASSERT_True [simp]: "b \<Longrightarrow> P_ASSERT b s = s"
  by (simp add: P_ASSERT_def)

lemma pbinv_in_done:
  assumes inv: "pbinv mtu num s" and d: "pb_receiving s = Some d" and len: "length data \<le> input_mtu s"
  shows "pbinv mtu num (PacketBuffer_input_handler_done (length data)
      (s\<lparr>pb_buf := deposit d data (pb_buf s), pb_receiving := None, arrived := arrived s @ [data]\<rparr>))"
proof -
  from inv obtain q where q: "holds (pb_buf s) q" "arrived s = handed s @ q" "pb_transfers s q" by (auto simp: pbinv_def)
  from q(3) d have id: "input_dest (pb_buf s) = Some d" and av: "int (input_mtu s) \<le> input_avail (pb_buf s)"
    by (auto simp: pb_transfers_def split: if_splits)
  let ?b = "ChunkBuffer2_SubmitPacket (length data) (deposit d data (pb_buf s))"
  have h: "holds ?b (q @ [data])" using submit_holds [OF q(1) id] av len by simp
  have st: "cb_start ?b = cb_start (pb_buf s)" by simp
  have was: "output_avail (deposit d data (pb_buf s)) < 0 \<longleftrightarrow> q = []"
    using holds_output [OF q(1)] by (cases q) simp_all
  have in': "input_avail ?b \<ge> int (input_mtu s) \<Longrightarrow> \<exists>x. input_dest ?b = Some x"
    using holds_input [OF h] by auto
  let ?s = "PacketBuffer_input_handler_done (length data)
      (s\<lparr>pb_buf := deposit d data (pb_buf s), pb_receiving := None, arrived := arrived s @ [data]\<rparr>)"
  have out: "case q @ [data] of [] \<Rightarrow> True | p # _ \<Rightarrow> output_dest ?b = Some (BLOCK * (cb_start (pb_buf s) + 1)) \<and> output_avail ?b = int (length p)"
    using holds_output [OF h] st by (cases "q @ [data]") auto
  have "pb_buf ?s = ?b \<and> arrived ?s = arrived s @ [data] \<and> handed ?s = handed s \<and> input_mtu ?s = input_mtu s
      \<and> \<not> pfault ?s \<and> pb_transfers ?s (q @ [data])"
    using inv len q(3) in' out was
    by (cases q; cases "input_avail ?b \<ge> int (input_mtu s)")
      (auto simp: PacketBuffer_input_handler_done_def Receiver_Recv_def Sender_Send_def Let_def pb_transfers_def pbinv_def)
  with inv h q(2) len show ?thesis unfolding pbinv_def by auto
qed

lemma pbinv_out_done:
  assumes inv: "pbinv mtu num s" and d: "pb_sending s = Some (d, len)"
  shows "pbinv mtu num (PacketBuffer_output_handler_done
      (s\<lparr>pb_sending := None, handed := handed s @ [bslice d len (cb_buffer (pb_buf s))]\<rparr>))"
proof -
  from inv obtain q where q: "holds (pb_buf s) q" "arrived s = handed s @ q" "pb_transfers s q" by (auto simp: pbinv_def)
  from q(3) d obtain p r where pr: "q = p # r" and dl: "d = BLOCK * (cb_start (pb_buf s) + 1)" "len = length p"
    by (cases q) (auto simp: pb_transfers_def)
  have data: "bslice d len (cb_buffer (pb_buf s)) = p" using holds_output [OF q(1)] pr dl by simp
  let ?b = "ChunkBuffer2_ConsumePacket (pb_buf s)"
  have h: "holds ?b r" using consume_holds q(1) pr by blast
  have keep: "input_dest (pb_buf s) = Some x \<Longrightarrow> input_dest ?b = Some x \<and> input_avail (pb_buf s) \<le> input_avail ?b" for x
    using consume_input q(1) pr by blast
  have in0: "input_avail (pb_buf s) \<ge> int (input_mtu s) \<Longrightarrow> \<exists>x. input_dest (pb_buf s) = Some x"
    using holds_input [OF q(1)] by auto
  have in': "input_avail ?b \<ge> int (input_mtu s) \<Longrightarrow> \<exists>x. input_dest ?b = Some x"
    using holds_input [OF h] by auto
  note out = holds_output [OF h]
  let ?s = "PacketBuffer_output_handler_done (s\<lparr>pb_sending := None, handed := handed s @ [bslice d len (cb_buffer (pb_buf s))]\<rparr>)"
  have "pb_buf ?s = ?b \<and> arrived ?s = arrived s \<and> handed ?s = handed s @ [p] \<and> input_mtu ?s = input_mtu s
      \<and> \<not> pfault ?s \<and> pb_transfers ?s r"
  proof (cases "input_avail (pb_buf s) \<ge> int (input_mtu s)")
    case True
    then obtain x where "input_dest (pb_buf s) = Some x" using in0 by blast
    with keep [OF this] True show ?thesis
      using inv q(3) in' out data
      by (cases r)
        (auto simp: PacketBuffer_output_handler_done_def Receiver_Recv_def Sender_Send_def Let_def pb_transfers_def pbinv_def)
  next
    case False
    then show ?thesis
      using inv q(3) in' out data
      by (cases r; cases "input_avail ?b \<ge> int (input_mtu s)")
        (auto simp: PacketBuffer_output_handler_done_def Receiver_Recv_def Sender_Send_def Let_def pb_transfers_def pbinv_def)
  qed
  with inv h q(2) pr show ?thesis unfolding pbinv_def by auto
qed

lemma calc_blocks_exact:
  assumes "(bdivide_up mtu BLOCK + 1) * (num + 1) \<le> INT_MAX"
  shows "ChunkBuffer2_calc_blocks mtu num = int ((bdivide_up mtu BLOCK + 1) * (num + 1))"
proof -
  let ?c = "bdivide_up mtu BLOCK"
  have "?c + 1 \<le> (?c + 1) * (num + 1)" "num + 1 \<le> (?c + 1) * (num + 1)" by simp_all
  with assms have "?c \<le> INT_MAX - 1" "num \<le> INT_MAX - 1" by linarith+
  moreover have "?c + 1 \<le> INT_MAX div (num + 1)" using assms by (simp add: less_eq_div_iff_mult_less_eq)
  ultimately show ?thesis by (simp add: ChunkBuffer2_calc_blocks_def Let_def)
qed

lemma stored_total: "geometry buf \<Longrightarrow> stored buf ps1 ps2 \<Longrightarrow> total_blocks (ps1 @ ps2) = cb_used buf"
  by (auto simp: stored_def geometry_def Let_def split: if_splits)

lemma total_blocks_le: "\<forall>p\<in>set q. length p \<le> mtu \<Longrightarrow> total_blocks q \<le> length q * (bdivide_up mtu BLOCK + 1)"
proof (induction q)
  case (Cons p q)
  then have "nblocks p \<le> bdivide_up mtu BLOCK + 1" using bdivide_up_mono [of BLOCK "length p" mtu] by (simp add: nblocks_def)
  with Cons show ?case by simp
qed simp

text \<open>With fewer packets than it was made for, the buffer has room for a maximal packet.\<close>

lemma capacity:
  assumes h: "holds buf q" and M: "cb_mtu buf = bdivide_up mtu BLOCK" and S: "cb_size buf = (bdivide_up mtu BLOCK + 1) * (num + 1)"
    and q: "\<forall>p\<in>set q. length p \<le> mtu" and few: "length q < num"
  shows "int mtu \<le> input_avail buf"
proof -
  let ?M = "bdivide_up mtu BLOCK" and ?W = "cb_wrap buf" and ?a = "cb_start buf" and ?u = "cb_used buf"
  from h obtain ps1 ps2 where g: "geometry buf" and io: "io_ok buf" and app: "q = ps1 @ ps2" and st: "stored buf ps1 ps2"
    unfolding holds_def by blast
  have geo: "?W \<le> cb_size buf" "?a < ?W" "cb_size buf < ?W + 1 + ?M"
    "?u < ?W - ?a \<Longrightarrow> ?a + ?u + 1 + ?M \<le> cb_size buf" "?W - ?a \<le> ?u \<Longrightarrow> ?u - (?W - ?a) \<le> ?a"
    using g M by (auto simp: geometry_def Let_def)
  have "length q * (?M + 1) \<le> (num - 1) * (?M + 1)" using few by (intro mult_le_mono1) simp
  moreover have "?u \<le> length q * (?M + 1)" using stored_total [OF g st] total_blocks_le [OF q] app by simp
  ultimately have "?u \<le> (num - 1) * (?M + 1)" by linarith
  moreover have "cb_size buf = (num - 1) * (?M + 1) + 2 * (?M + 1)"
    unfolding S using few by (cases num) (simp_all add: algebra_simps)
  ultimately have u: "?u + 2 * (?M + 1) \<le> cb_size buf" by linarith
  have "int (?M + 1) \<le> free_blocks buf"
  proof (cases "?u < ?W - ?a")
    case True
    then show ?thesis unfolding free_eq [OF g] end_eq [OF g] using geo(4) by simp
  next
    case False
    then show ?thesis unfolding free_eq [OF g] end_eq [OF g] using geo u by simp
  qed
  moreover have "(input_dest buf, input_avail buf) = input_of buf" using io by (simp add: io_ok_def)
  ultimately have "4 * int ?M \<le> input_avail buf" unfolding input_of_eq [OF g] by (auto split: if_splits)
  moreover have "mtu \<le> BLOCK * ?M" using bdivide_up_le [of BLOCK mtu] by simp
  ultimately show ?thesis by linarith
qed

lemma init_sel: "cb_size (ChunkBuffer2_Init mem n mtu) = n" "cb_mtu (ChunkBuffer2_Init mem n mtu) = bdivide_up mtu BLOCK"
  by (simp_all add: ChunkBuffer2_Init_def Let_def)

lemma pbinv_start:
  assumes "pbinit mtu num s"
  shows "pbinv mtu num s"
proof -
  define n where "n = (bdivide_up mtu BLOCK + 1) * (num + 1)"
  from assms have num: "0 < num" and sz: "BLOCK * n \<le> INT_MAX" by (auto simp: pbinit_def n_def)
  have cb: "ChunkBuffer2_calc_blocks mtu num = int n" using sz unfolding n_def by (intro calc_blocks_exact) linarith
  from assms obtain alloc where al: "malloc_ok alloc" "PacketBuffer_Init alloc mtu num = Some s" by (auto simp: pbinit_def)
  then obtain mem where mem: "length mem = BLOCK * n"
    and s: "s = Receiver_Recv \<lparr>pb_buf = ChunkBuffer2_Init mem n mtu, input_mtu = mtu,
         pb_receiving = None, pb_sending = None, arrived = [], handed = [], pfault = False\<rparr>"
    using num by (auto simp: PacketBuffer_Init_def Let_def cb malloc_ok_def split: option.splits)
  let ?b = "ChunkBuffer2_Init mem n mtu"
  have "bdivide_up mtu BLOCK + 1 \<le> n" by (simp add: n_def)
  then have h: "holds ?b []" using mem sz by (intro init_holds) simp_all
  have av: "int mtu \<le> input_avail ?b" using num by (intro capacity [OF h, of mtu num]) (simp_all add: init_sel n_def)
  have "input_dest ?b \<noteq> None" using holds_input [OF h] av by auto
  then show ?thesis
    using num h av unfolding pbinv_def s
    by (auto simp: Receiver_Recv_def init_sel n_def pb_transfers_def)
qed

lemma pbinv_step: "pbinv mtu num s \<Longrightarrow> pbstep s t \<Longrightarrow> pbinv mtu num t"
  by (erule pbstep.cases) (auto intro: pbinv_in_done pbinv_out_done)

interpretation packetbuf: invariant_system "pbinit mtu num" pbstep "pbinv mtu num" for mtu num
  by unfold_locales (auto intro: pbinv_start pbinv_step)

section \<open>Properties\<close>

text \<open>
  C31. The circular buffer implements a queue of packets: in whatever state it is and wherever its
  data wraps around, submitting a packet that fits appends it to the packets held, consuming
  removes the first one, and the buffer offers exactly the first packet to its output.
\<close>

theorem chunk_buffer_refines_queue:
  assumes "holds buf q" and "has_room buf data"
  shows "holds (put_packet data buf) (q @ [data]) \<and> first_packet (put_packet data buf) = Some (hd (q @ [data]))
    \<and> holds (ChunkBuffer2_ConsumePacket (put_packet data buf)) (tl (q @ [data]))
    \<and> first_packet ((ChunkBuffer2_ConsumePacket ^^ length q) (put_packet data buf)) = Some data"
proof -
  have p: "holds (put_packet data buf) (q @ [data])" using chunkq.put_rel [OF assms] .
  obtain x r where xr: "q @ [data] = x # r" by (cases "q @ [data]") auto
  show ?thesis using p chunkq.first_rel [OF p [unfolded xr]] chunkq.get_rel [OF p [unfolded xr]] chunkq.put_comes_after [OF assms]
    unfolding xr by simp
qed

text \<open>
  The packet buffer hands on exactly the packets that arrive, in order and unchanged: at any
  time the packets that arrived are those handed on followed by those in the buffer. No assertion
  fails, nothing is written outside the buffer or over a packet still in it, and no second
  receive or send is started while one is outstanding.
\<close>

theorem packet_buffer_fifo:
  assumes "reach (pbinit mtu num) pbstep s"
  shows "\<not> pfault s \<and> \<not> cfault (pb_buf s) \<and> (\<exists>q. arrived s = handed s @ q \<and> holds (pb_buf s) q)"
  using packetbuf.reach_inv [OF assms] by (auto simp: pbinv_def holds_def)

text \<open>
  C32. The buffer holds at least the number of packets it was made for: with fewer in it, a receive
  is outstanding; and whenever a packet waits, a send is outstanding. So it never stalls. The buffer
  is one whose size in bytes fits an \<open>int\<close>.
\<close>

theorem packet_buffer_capacity:
  assumes "reach (pbinit mtu num) pbstep s"
  shows "(length (arrived s) < length (handed s) + num \<longrightarrow> pb_receiving s \<noteq> None)
    \<and> (length (handed s) < length (arrived s) \<longrightarrow> pb_sending s \<noteq> None)"
proof -
  have inv: "pbinv mtu num s" using packetbuf.reach_inv [OF assms] .
  then obtain q where q: "holds (pb_buf s) q" "arrived s = handed s @ q" "pb_transfers s q" by (auto simp: pbinv_def)
  have "length q < num \<Longrightarrow> int mtu \<le> input_avail (pb_buf s)"
    using inv q(2) by (intro capacity [OF q(1)]) (auto simp: pbinv_def)
  moreover have "0 \<le> input_avail (pb_buf s) \<Longrightarrow> input_dest (pb_buf s) \<noteq> None" using holds_input [OF q(1)] .
  ultimately show ?thesis using q(2,3) inv by (cases q) (auto simp: pb_transfers_def pbinv_def)
qed


definition example_pb :: PacketBuffer where
  "example_pb = the (PacketBuffer_Init (\<lambda>n. Some (replicate n 0)) 4 3)"

definition example_pb1 :: PacketBuffer where
  "example_pb1 = PacketBuffer_input_handler_done 1
     (example_pb\<lparr>pb_buf := deposit 4 [7] (pb_buf example_pb), pb_receiving := None, arrived := arrived example_pb @ [[7]]\<rparr>)"

lemma example_blocks: "bdivide_up 4 4 = 1" "ChunkBuffer2_calc_blocks 4 3 = 8"
  using calc_blocks_exact [of 4 3] by (simp_all add: bdivide_up_def)

lemma example_pb_start: "pbinit 4 3 example_pb"
  by (auto simp: pbinit_def example_pb_def PacketBuffer_Init_def example_blocks Let_def malloc_ok_def
      intro!: exI [of _ "\<lambda>n. Some (replicate n 0)"])

lemma example_pb_value: "pb_receiving example_pb = Some 4" "input_mtu example_pb = 4" "arrived example_pb = []" "handed example_pb = []"
  "input_avail (pb_buf example_pb) = 28" "input_dest (pb_buf example_pb) = Some 4"
  by (simp_all add: example_pb_def PacketBuffer_Init_def example_blocks Let_def Receiver_Recv_def
      ChunkBuffer2_Init_def ChunkBuffer2_assert_io_def ChunkBuffer2_assert_buffer_def ChunkBuffer2_update_input_def
      ChunkBuffer2_update_output_def C_ASSERT_def P_ASSERT_def input_of_def free_blocks_def ChunkBuffer2_end_def output_of_def int_of_size_def)

lemma example_pb1_reach: "reach (pbinit 4 3) pbstep example_pb1"
  unfolding example_pb1_def
  using reach_step [OF reach_start [where init = "pbinit 4 3" and step = pbstep, OF example_pb_start]
    in_done [where s = example_pb and d = 4 and data = "[7]"]] by (simp add: example_pb_value)

lemma example_pb1_value: "arrived example_pb1 = [[7]]" "handed example_pb1 = []"
  by (simp_all add: example_pb1_def PacketBuffer_input_handler_done_def Receiver_Recv_def Sender_Send_def P_ASSERT_def Let_def example_pb_value)

theorem chunk_buffer_refines_queue_witness:
  "has_room (pb_buf example_pb) [7] \<and> holds (put_packet [7] (pb_buf example_pb)) [[7]]
    \<and> first_packet (put_packet [7] (pb_buf example_pb)) = Some [7]"
proof -
  have r: "has_room (pb_buf example_pb) [7]" by (simp add: has_room_def example_pb_value)
  from pbinv_start [OF example_pb_start] obtain q where "holds (pb_buf example_pb) q" "[] = [] @ q"
    by (auto simp: pbinv_def example_pb_value)
  then have "holds (pb_buf example_pb) []" by simp
  from chunk_buffer_refines_queue [OF this r] r show ?thesis by simp
qed

theorem packet_buffer_fifo_witness:
  "arrived example_pb1 = [[7]] \<and> \<not> pfault example_pb1 \<and> holds (pb_buf example_pb1) [[7]]"
  using packet_buffer_fifo [OF example_pb1_reach] by (auto simp: example_pb1_value)

theorem packet_buffer_capacity_witness: "pb_sending example_pb1 \<noteq> None"
  using packet_buffer_capacity [OF example_pb1_reach] by (simp add: example_pb1_value)

end
