(* ===== verification/Udp_Relay.thy ===== *)
theory Udp_Relay
  imports Tun_Device
begin

text \<open>
  The UDP relay of the Android program, \<open>tun2socks/SocksUdpGwClient.c\<close>, with the packet writer
  \<open>flow/BufferWriter.c\<close> in front of each connection's send buffer.

  A connection is identified by its address in memory (\<open>rc_ptr\<close>), found by the local address of
  the datagrams it carries, and kept in a list from least to most recently used. The AVL tree
  of the connections holds the same connections as the list and finds one that compares equal;
  inserting one where another compares equal is a fault. What the allocator and the socket
  functions answer is an argument; what \<open>connection_init\<close> and \<open>connection_free\<close> acquire and
  release is recorded in \<open>rtrace\<close>.

  The theorems: the list of connections follows the least-recently-used discipline and never
  exceeds its bound, and no job of an evicted connection is left pending, because packets are submitted only when the first jobs have run; a failed
  initialisation releases everything it acquired; what a connection
  sends is parsed back by the receiver of replies; a datagram close to the MTU overruns the
  buffer; a connection that is used for DNS and for other datagrams sends to the wrong server.
\<close>

section \<open>flow/BufferWriter.c\<close>

record BufferWriter =
  wr_mtu :: nat
  out_have :: bool
  wr_packets :: "bytes list"
  wr_fault :: bool

definition BufferWriter_Init :: "nat \<Rightarrow> BufferWriter" where
  "BufferWriter_Init mtu = \<lparr>wr_mtu = mtu, out_have = False, wr_packets = [], wr_fault = False\<rparr>"

definition BufferWriter_output_handler_recv :: "BufferWriter \<Rightarrow> BufferWriter" where
  "BufferWriter_output_handler_recv w = w\<lparr>wr_fault := wr_fault w \<or> out_have w, out_have := True\<rparr>"

definition BufferWriter_StartPacket :: "BufferWriter \<Rightarrow> bool" where
  "BufferWriter_StartPacket w = out_have w"

text \<open>
  The packet written since \<open>BufferWriter_StartPacket\<close> is passed on. The buffer behind the pointer
  that function returned has room for \<open>wr_mtu\<close> bytes; when the packet is longer, the caller has written past its end, and from the moment
  \<open>wr_fault\<close> is set the packets recorded here are what the program meant to send, not a claim on what memory holds. (The debug flag \<open>d_writing\<close> brackets the two calls,
  which the only user, \<open>connection_send\<close>, makes one after the other.)
\<close>

definition BufferWriter_EndPacket :: "bytes \<Rightarrow> BufferWriter \<Rightarrow> BufferWriter" where
  "BufferWriter_EndPacket packet w =
    w\<lparr>wr_fault := wr_fault w \<or> \<not> length packet \<le> wr_mtu w \<or> \<not> out_have w, out_have := False,
      wr_packets := wr_packets w @ [packet]\<rparr>"

section \<open>State\<close>

abbreviation (input) CONNECTION_UDP_BUFFER_SIZE :: nat where "CONNECTION_UDP_BUFFER_SIZE \<equiv> 64"
abbreviation (input) SOCKS_ATYP_IPV4 :: byte where "SOCKS_ATYP_IPV4 \<equiv> 1"
abbreviation (input) SOCKS_ATYP_IPV6 :: byte where "SOCKS_ATYP_IPV6 \<equiv> 4"

record conaddr =
  local_addr :: BAddr
  remote_addr :: BAddr

text \<open>
  The jobs of a connection that matter here: \<open>first_job\<close>, and the job by which the send buffer asks
  the writer for the next packet. The stack of pending jobs has its top first. \<open>first_data\<close> is a pointer to the data the
  caller passed; what it points to is \<open>caller_buf\<close> of the relay below, and the connection keeps their length only.
\<close>

datatype con_job = Job_First | Job_Writer

record connection =
  rc_ptr :: nat
  rc_conaddr :: conaddr
  rc_is_dns :: bool
  rc_first_data_len :: nat
  rc_jobs :: "con_job list"
  rc_send_addr :: BAddr
  rc_writer :: BufferWriter

datatype con_resource = R_Memory | R_FirstJob | R_Dgram | R_SendAsync | R_RecvAsync | R_Writer | R_SendBuffer
  | R_RecvIf | R_RecvBuffer

datatype relay_event =
    Acquired con_resource
  | Released con_resource
  | To_User BAddr BAddr bytes

text \<open>
  Besides the fields of the object: \<open>caller_buf\<close>, the memory that the caller of \<open>SocksUdpGwClient_SubmitPacket\<close> passed a pointer
  to (the buffer of packets read from the device, the only one in the program), and \<open>stale_first_jobs\<close>, the addresses of
  connections that were freed while their \<open>first_job\<close> was pending: \<open>connection_free\<close> does not free that job, it stays in the list of
  pending jobs, in memory that is free.
\<close>

record SocksUdpGwClient =
  relay_udp_mtu :: nat
  relay_udpgw_mtu :: int
  relay_socks_addr :: BAddr
  relay_dnsgw :: BAddr
  num_connections :: int
  max_connections :: int
  connections_list :: "connection list"
  caller_buf :: bytes
  stale_first_jobs :: "nat list"
  rtrace :: "relay_event list"
  rfault :: bool

definition R_ASSERT :: "bool \<Rightarrow> SocksUdpGwClient \<Rightarrow> SocksUdpGwClient" where
  "R_ASSERT b o' = o'\<lparr>rfault := rfault o' \<or> \<not> b\<rparr>"

definition remit :: "relay_event list \<Rightarrow> SocksUdpGwClient \<Rightarrow> SocksUdpGwClient" where
  "remit es o' = o'\<lparr>rtrace := rtrace o' @ es\<rparr>"

text \<open>Writing through the pointer to a connection.\<close>

definition put_con :: "connection \<Rightarrow> SocksUdpGwClient \<Rightarrow> SocksUdpGwClient" where
  "put_con con o' = o'\<lparr>connections_list := map (\<lambda>c. if rc_ptr c = rc_ptr con then con else c) (connections_list o')\<rparr>"

section \<open>Operations\<close>

definition conaddr_comparator :: "conaddr \<Rightarrow> conaddr \<Rightarrow> int" where
  "conaddr_comparator v1 v2 = BAddr_CompareOrder (local_addr v1) (local_addr v2)"

text \<open>
  The second test of \<open>find_connection\<close> is \<open>!con && con->is_dns != is_dns\<close>; with \<open>con\<close> not null it
  never holds, so the flag has no influence.
\<close>

definition find_connection :: "SocksUdpGwClient \<Rightarrow> conaddr \<Rightarrow> bool \<Rightarrow> connection option" where
  "find_connection o' addr is_dns = find (\<lambda>c. conaddr_comparator addr (rc_conaddr c) = 0) (connections_list o')"

definition connection_free :: "connection \<Rightarrow> SocksUdpGwClient \<Rightarrow> SocksUdpGwClient" where
  "connection_free con o' =
    (let o' = o'\<lparr>num_connections := num_connections o' - 1\<rparr>;
         o' = (R_ASSERT (rc_ptr con \<in> rc_ptr ` set (connections_list o')) o')
           \<lparr>connections_list := filter (\<lambda>c. rc_ptr c \<noteq> rc_ptr con) (connections_list o'),
            stale_first_jobs := (if Job_First \<in> set (rc_jobs con) then [rc_ptr con] else []) @ stale_first_jobs o'\<rparr>
     in remit [Released R_RecvBuffer, Released R_RecvIf, Released R_SendBuffer, Released R_Writer, Released R_RecvAsync,
          Released R_SendAsync, Released R_Dgram, Released R_Memory] o')"

definition remove_lru_connection :: "conaddr \<Rightarrow> bool \<Rightarrow> SocksUdpGwClient \<Rightarrow> SocksUdpGwClient" where
  "remove_lru_connection addr is_dns o' =
    (let o' = R_ASSERT (find_connection o' addr is_dns = None \<and> num_connections o' > 0) o'
     in case connections_list o' of
       [] \<Rightarrow> R_ASSERT False o'
     | con # _ \<Rightarrow> connection_free con o')"

definition reset_connection :: "connection \<Rightarrow> conaddr \<Rightarrow> bool \<Rightarrow> connection" where
  "reset_connection con addr is_dns = con\<lparr>rc_conaddr := addr, rc_is_dns := is_dns\<rparr>"

text \<open>The bytes \<open>connection_send\<close> writes: header and address unless it is a DNS datagram, then the data.\<close>

definition socks_udp_header_bytes :: "BAddr \<Rightarrow> bytes" where
  "socks_udp_header_bytes remote =
    (let atyp = (case remote of BAddr_IPv4 _ _ \<Rightarrow> SOCKS_ATYP_IPV4 | _ \<Rightarrow> SOCKS_ATYP_IPV6)
     in mem16 0 @ [0, atyp] @ (case remote of
          BAddr_IPv4 ip port \<Rightarrow> mem32 ip @ mem16 port
        | BAddr_IPv6 ip port \<Rightarrow> ip @ mem16 port
        | BAddr_None \<Rightarrow> []))"

definition connection_send :: "connection \<Rightarrow> bytes \<Rightarrow> connection \<times> bool" where
  "connection_send con data =
    (if \<not> BufferWriter_StartPacket (rc_writer con) then (con, True)
     else let packet = (if \<not> rc_is_dns con then socks_udp_header_bytes (remote_addr (rc_conaddr con)) else []) @ data
       in (con\<lparr>rc_writer := BufferWriter_EndPacket packet (rc_writer con)\<rparr>, False))"

text \<open>Here and below \<open>mem\<close> is what the caller's buffer holds when the job runs.\<close>

definition connection_first_job_handler :: "bytes \<Rightarrow> connection \<Rightarrow> connection" where
  "connection_first_job_handler mem con = fst (connection_send con (take (rc_first_data_len con) mem))"

text \<open>Running the job on top of the stack.\<close>

definition run_job :: "bytes \<Rightarrow> connection \<Rightarrow> connection" where
  "run_job mem con = (case rc_jobs con of
      [] \<Rightarrow> con
    | Job_First # js \<Rightarrow> connection_first_job_handler mem (con\<lparr>rc_jobs := js\<rparr>)
    | Job_Writer # js \<Rightarrow> con\<lparr>rc_jobs := js, rc_writer := BufferWriter_output_handler_recv (rc_writer con)\<rparr>)"

text \<open>The answers of the functions \<open>connection_init\<close> calls.\<close>

record con_env =
  env_malloc :: "nat option"
  env_dgram_init :: bool
  env_reuse_addr :: bool
  env_packet_buffer :: bool
  env_single_buffer :: bool

definition con_fail0 :: "SocksUdpGwClient \<Rightarrow> SocksUdpGwClient" where
  "con_fail0 o' = remit [Released R_FirstJob, Released R_Memory] o'"

definition con_fail1 :: "SocksUdpGwClient \<Rightarrow> SocksUdpGwClient" where
  "con_fail1 o' = con_fail0 (remit [Released R_Dgram] o')"

definition con_fail2 :: "SocksUdpGwClient \<Rightarrow> SocksUdpGwClient" where
  "con_fail2 o' = con_fail1 (remit [Released R_Writer, Released R_RecvAsync, Released R_SendAsync] o')"

definition con_fail3 :: "SocksUdpGwClient \<Rightarrow> SocksUdpGwClient" where
  "con_fail3 o' = con_fail2 (remit [Released R_RecvIf, Released R_SendBuffer] o')"

definition connection_init :: "con_env \<Rightarrow> conaddr \<Rightarrow> bytes \<Rightarrow> bool \<Rightarrow> SocksUdpGwClient \<Rightarrow> SocksUdpGwClient \<times> nat option" where
  "connection_init env addr data is_dns client =
    (case env_malloc env of
       None \<Rightarrow> (client, None)
     | Some ptr \<Rightarrow>
        (let client = remit [Acquired R_Memory, Acquired R_FirstJob] client in
         if \<not> env_dgram_init env then (con_fail0 client, None)
         else let client = remit [Acquired R_Dgram] client in
         if \<not> env_reuse_addr env then (con_fail1 client, None)
         else
          let send_addr = (if is_dns then relay_dnsgw client else relay_socks_addr client);
              client = remit [Acquired R_SendAsync, Acquired R_RecvAsync, Acquired R_Writer] client;
              writer = BufferWriter_Init (relay_udp_mtu client)
          in if \<not> env_packet_buffer env then (con_fail2 client, None)
          else
           let client = remit [Acquired R_SendBuffer, Acquired R_RecvIf] client
           in if \<not> env_single_buffer env then (con_fail3 client, None)
           else
            let client = remit [Acquired R_RecvBuffer] client;
                con = \<lparr>rc_ptr = ptr, rc_conaddr = addr, rc_is_dns = is_dns, rc_first_data_len = length data, rc_jobs = [Job_Writer, Job_First],
                       rc_send_addr = send_addr, rc_writer = writer\<rparr>;
                client = R_ASSERT (\<forall>c\<in>set (connections_list client). conaddr_comparator addr (rc_conaddr c) \<noteq> 0) client;
                client = client\<lparr>connections_list := connections_list client @ [con]\<rparr>
            in (client\<lparr>num_connections := num_connections client + 1\<rparr>, Some ptr)))"

text \<open>\<open>LinkedList1_Remove\<close> and \<open>LinkedList1_Append\<close> of a connection that was used.\<close>

definition move_to_back :: "connection \<Rightarrow> SocksUdpGwClient \<Rightarrow> SocksUdpGwClient" where
  "move_to_back con o' = o'\<lparr>connections_list := filter (\<lambda>c. rc_ptr c \<noteq> rc_ptr con) (connections_list o') @ [con]\<rparr>"

text \<open>The argument \<open>data\<close> is what the caller's buffer holds at the time of the call.\<close>

definition SocksUdpGwClient_SubmitPacket ::
  "con_env \<Rightarrow> BAddr \<Rightarrow> BAddr \<Rightarrow> bool \<Rightarrow> bytes \<Rightarrow> SocksUdpGwClient \<Rightarrow> SocksUdpGwClient" where
  "SocksUdpGwClient_SubmitPacket env local remote is_dns data o' =
    (let o' = R_ASSERT (local \<noteq> BAddr_None \<and> remote \<noteq> BAddr_None \<and> length data \<le> relay_udp_mtu o') (o'\<lparr>caller_buf := data\<rparr>);
         addr = \<lparr>local_addr = local, remote_addr = remote\<rparr>;
         con = find_connection o' addr is_dns;
         o' = (if con = None \<and> num_connections o' = max_connections o' then remove_lru_connection addr is_dns o' else o')
     in case con of
       None \<Rightarrow> fst (connection_init env addr data is_dns o')
     | Some con \<Rightarrow>
        (let con = reset_connection con addr is_dns;
             o' = put_con con o';
             (con, dropped) = connection_send con data;
             o' = put_con con o'
         in if dropped then o' else move_to_back con o'))"

definition parse_reply_addr :: "byte \<Rightarrow> bytes \<Rightarrow> (BAddr \<times> bytes) option" where
  "parse_reply_addr atyp data =
    (if atyp = SOCKS_ATYP_IPV6
     then if length data < 18 then None
          else Some (BAddr_IPv6 (bslice 0 16 data) (load16 (drop 16 data)), drop 18 data)
     else if length data < 6 then None
          else Some (BAddr_IPv4 (load32 data) (load16 (drop 4 data)), drop 6 data))"

definition dgram_handler_received :: "connection \<Rightarrow> bytes \<Rightarrow> SocksUdpGwClient \<Rightarrow> SocksUdpGwClient" where
  "dgram_handler_received con data client =
    (let client = R_ASSERT (int (length data) \<le> relay_udpgw_mtu client) client;
         submit = (\<lambda>con data client.
           if length data > relay_udp_mtu client then client
           else remit [To_User (local_addr (rc_conaddr con)) (remote_addr (rc_conaddr con)) data] client)
     in if rc_is_dns con then submit con data client
        else if length data < 4 then client
        else
         let frag = data ! 2; atyp = data ! 3; data = drop 4 data in
         if frag \<noteq> 0 then client
         else case parse_reply_addr atyp data of
           None \<Rightarrow> client
         | Some (remote, data) \<Rightarrow>
            let con = con\<lparr>rc_conaddr := (rc_conaddr con)\<lparr>remote_addr := remote\<rparr>\<rparr>
            in submit con data (put_con con client))"

text \<open>
  The number of connections is not assigned by the code: the object is a global variable of \<open>tun2socks.c\<close>,
  hence zero before.
\<close>

definition SocksUdpGwClient_Init :: "nat \<Rightarrow> int \<Rightarrow> BAddr \<Rightarrow> BAddr \<Rightarrow> SocksUdpGwClient" where
  "SocksUdpGwClient_Init mtu max_con socks_addr dns =
    \<lparr>relay_udp_mtu = mtu, relay_udpgw_mtu = udpgw_compute_mtu (int mtu), relay_socks_addr = socks_addr,
     relay_dnsgw = dns, num_connections = 0,
     max_connections = (if max_con > int UINT16_MAX + 1 then int UINT16_MAX + 1 else max_con),
     connections_list = [], caller_buf = [], stale_first_jobs = [], rtrace = [], rfault = False\<rparr>"

fun relay_free_loop :: "nat \<Rightarrow> SocksUdpGwClient \<Rightarrow> SocksUdpGwClient" where
  "relay_free_loop 0 o' = o'"
| "relay_free_loop (Suc n) o' =
    (case connections_list o' of [] \<Rightarrow> o' | con # _ \<Rightarrow> relay_free_loop n (connection_free con o'))"

definition SocksUdpGwClient_Free :: "SocksUdpGwClient \<Rightarrow> SocksUdpGwClient" where
  "SocksUdpGwClient_Free o' = relay_free_loop (length (connections_list o')) o'"

section \<open>What the operations keep\<close>

abbreviation (input) con_local :: "connection \<Rightarrow> BAddr" where
  "con_local c \<equiv> local_addr (rc_conaddr c)"

definition con_locals :: "SocksUdpGwClient \<Rightarrow> BAddr list" where
  "con_locals o' = map con_local (connections_list o')"

definition con_ptrs :: "SocksUdpGwClient \<Rightarrow> nat list" where
  "con_ptrs o' = map rc_ptr (connections_list o')"

lemma R_ASSERT_True [simp]: "b \<Longrightarrow> R_ASSERT b o' = o'"
  by (simp add: R_ASSERT_def)

lemma remit_sel [simp]:
  "connections_list (remit es o') = connections_list o'" "num_connections (remit es o') = num_connections o'"
  "max_connections (remit es o') = max_connections o'" "rfault (remit es o') = rfault o'" "rtrace (remit es o') = rtrace o' @ es"
  "relay_udp_mtu (remit es o') = relay_udp_mtu o'" "relay_udpgw_mtu (remit es o') = relay_udpgw_mtu o'"
  "caller_buf (remit es o') = caller_buf o'" "stale_first_jobs (remit es o') = stale_first_jobs o'"
  "relay_dnsgw (remit es o') = relay_dnsgw o'" "relay_socks_addr (remit es o') = relay_socks_addr o'"
  by (simp_all add: remit_def)

lemma put_con_sel [simp]:
  "num_connections (put_con c o') = num_connections o'" "max_connections (put_con c o') = max_connections o'"
  "caller_buf (put_con c o') = caller_buf o'" "stale_first_jobs (put_con c o') = stale_first_jobs o'"
  "rfault (put_con c o') = rfault o'" "rtrace (put_con c o') = rtrace o'"
  "relay_udp_mtu (put_con c o') = relay_udp_mtu o'" "relay_udpgw_mtu (put_con c o') = relay_udpgw_mtu o'"
  "relay_dnsgw (put_con c o') = relay_dnsgw o'" "relay_socks_addr (put_con c o') = relay_socks_addr o'"
  "length (connections_list (put_con c o')) = length (connections_list o')"
  by (simp_all add: put_con_def)

lemma connection_send_sel [simp]:
  "rc_ptr (fst (connection_send c data)) = rc_ptr c" "rc_conaddr (fst (connection_send c data)) = rc_conaddr c"
  "rc_is_dns (fst (connection_send c data)) = rc_is_dns c" "rc_send_addr (fst (connection_send c data)) = rc_send_addr c"
  by (simp_all add: connection_send_def Let_def)

lemma run_job_sel [simp]: "rc_ptr (run_job m c) = rc_ptr c" "rc_conaddr (run_job m c) = rc_conaddr c"
  by (simp_all add: run_job_def connection_first_job_handler_def split: list.split con_job.split)

lemma put_con_ptrs [simp]: "con_ptrs (put_con c o') = con_ptrs o'"
  by (auto simp: con_ptrs_def put_con_def)

lemma put_con_locals:
  assumes "distinct (con_ptrs o')" and "c \<in> set (connections_list o')" and "rc_ptr d = rc_ptr c" and "con_local d = con_local c"
  shows "con_locals (put_con d o') = con_locals o'"
  using assms
  by (auto simp: con_locals_def put_con_def con_ptrs_def dest: distinct_map [THEN iffD1] inj_onD)

definition relay_wf :: "SocksUdpGwClient \<Rightarrow> bool" where
  "relay_wf o' \<longleftrightarrow> \<not> rfault o' \<and> distinct (con_ptrs o') \<and> distinct (con_locals o') \<and> (\<forall>a\<in>set (con_locals o'). BAddr_wf a)
     \<and> num_connections o' = int (length (connections_list o')) \<and> 0 < max_connections o'
     \<and> num_connections o' \<le> max_connections o' \<and> int (relay_udp_mtu o') \<le> relay_udpgw_mtu o'"

lemma relay_wf_remit [simp]: "relay_wf (remit es o') = relay_wf o'" "con_locals (remit es o') = con_locals o'"
  "con_ptrs (remit es o') = con_ptrs o'"
  by (simp_all add: relay_wf_def con_ptrs_def con_locals_def)

lemma relay_wf_buf [simp]: "relay_wf (o'\<lparr>caller_buf := d\<rparr>) = relay_wf o'" "con_locals (o'\<lparr>caller_buf := d\<rparr>) = con_locals o'"
  "con_ptrs (o'\<lparr>caller_buf := d\<rparr>) = con_ptrs o'" "find_connection (o'\<lparr>caller_buf := d\<rparr>) addr is_dns = find_connection o' addr is_dns"
  by (simp_all add: relay_wf_def con_ptrs_def con_locals_def find_connection_def)

lemma comparator_eq:
  "BAddr_wf (local_addr a) \<Longrightarrow> BAddr_wf (local_addr b) \<Longrightarrow> conaddr_comparator a b = 0 \<longleftrightarrow> local_addr a = local_addr b"
  by (simp add: conaddr_comparator_def addr_order.cmp_eq)

lemma find_cong_on: "(\<And>x. x \<in> set xs \<Longrightarrow> P x = Q x) \<Longrightarrow> find P xs = find Q xs"
  by (induction xs) auto

lemma find_connection_eq:
  assumes "relay_wf o'" and "BAddr_wf (local_addr addr)"
  shows "find_connection o' addr is_dns = find (\<lambda>c. con_local c = local_addr addr) (connections_list o')"
  unfolding find_connection_def
  using assms by (intro find_cong_on) (auto simp: relay_wf_def con_locals_def comparator_eq)

lemma find_connection_None:
  "relay_wf o' \<Longrightarrow> BAddr_wf (local_addr addr) \<Longrightarrow> find_connection o' addr d = None \<longleftrightarrow> local_addr addr \<notin> set (con_locals o')"
  by (auto simp: find_connection_eq find_None_iff con_locals_def image_iff)

lemma find_connection_Some:
  "relay_wf o' \<Longrightarrow> BAddr_wf (local_addr addr) \<Longrightarrow> find_connection o' addr d = Some c \<Longrightarrow>
   c \<in> set (connections_list o') \<and> con_local c = local_addr addr"
  by (auto simp: find_connection_eq find_Some_iff)

lemma filter_ptr_other: "p \<notin> rc_ptr ` set cs \<Longrightarrow> filter (\<lambda>d. rc_ptr d \<noteq> p) cs = cs"
  by (induction cs) auto

text \<open>Taking a connection out of the list by its pointer takes its local address out.\<close>

lemma filter_ptr:
  assumes "distinct (map rc_ptr cs)" and "distinct (map con_local cs)" and "c \<in> set cs"
  shows "map con_local (filter (\<lambda>d. rc_ptr d \<noteq> rc_ptr c) cs) = remove1 (con_local c) (map con_local cs)
    \<and> map rc_ptr (filter (\<lambda>d. rc_ptr d \<noteq> rc_ptr c) cs) = remove1 (rc_ptr c) (map rc_ptr cs)
    \<and> length (filter (\<lambda>d. rc_ptr d \<noteq> rc_ptr c) cs) = length cs - 1"
  using assms
proof (induction cs)
  case (Cons x cs)
  show ?case
  proof (cases "rc_ptr x = rc_ptr c")
    case True
    with Cons.prems have "x = c" by (auto simp: image_iff)
    moreover have "filter (\<lambda>d. rc_ptr d \<noteq> rc_ptr x) cs = cs"
      using Cons.prems(1) by (intro filter_ptr_other) simp
    ultimately show ?thesis by simp
  next
    case False
    with Cons.prems have c: "c \<in> set cs" by auto
    then have "con_local x \<noteq> con_local c" using Cons.prems(2) by auto
    moreover have "length cs > 0" using c by auto
    ultimately show ?thesis using Cons.IH Cons.prems c False by auto
  qed
qed simp


text \<open>
  Eviction of the least recently used connection. \<open>first_jobs_done\<close>: no connection has its first job pending.
\<close>

definition first_jobs_done :: "SocksUdpGwClient \<Rightarrow> bool" where
  "first_jobs_done o' \<longleftrightarrow> (\<forall>c\<in>set (connections_list o'). Job_First \<notin> set (rc_jobs c))"

lemma free_first:
  assumes "relay_wf o'" and "connections_list o' = c # cs"
  shows "connection_free c o' = remit [Released R_RecvBuffer, Released R_RecvIf, Released R_SendBuffer, Released R_Writer,
      Released R_RecvAsync, Released R_SendAsync, Released R_Dgram, Released R_Memory]
    (o'\<lparr>num_connections := num_connections o' - 1, connections_list := cs,
       stale_first_jobs := (if Job_First \<in> set (rc_jobs c) then [rc_ptr c] else []) @ stale_first_jobs o'\<rparr>)"
proof -
  have "filter (\<lambda>d. rc_ptr d \<noteq> rc_ptr c) (c # cs) = cs"
    using assms filter_ptr_other [of "rc_ptr c" cs] by (simp add: relay_wf_def con_ptrs_def)
  then show ?thesis using assms(2) by (simp add: connection_free_def Let_def)
qed

definition evict :: "conaddr \<Rightarrow> bool \<Rightarrow> SocksUdpGwClient \<Rightarrow> SocksUdpGwClient" where
  "evict addr is_dns o' = (if find_connection o' addr is_dns = None \<and> num_connections o' = max_connections o'
     then remove_lru_connection addr is_dns o' else o')"

lemma evict_wf:
  assumes wf: "relay_wf o'" and a: "BAddr_wf (local_addr addr)"
  shows "relay_wf (evict addr is_dns o')"
    and "con_locals (evict addr is_dns o') = (if local_addr addr \<notin> set (con_locals o') \<and> num_connections o' = max_connections o'
       then tl (con_locals o') else con_locals o')"
    and "con_ptrs (evict addr is_dns o') = (if local_addr addr \<notin> set (con_locals o') \<and> num_connections o' = max_connections o'
       then tl (con_ptrs o') else con_ptrs o')"
    and "local_addr addr \<notin> set (con_locals o') \<Longrightarrow> num_connections (evict addr is_dns o') < max_connections (evict addr is_dns o')"
    and "max_connections (evict addr is_dns o') = max_connections o'"
    and "relay_udp_mtu (evict addr is_dns o') = relay_udp_mtu o'" "relay_dnsgw (evict addr is_dns o') = relay_dnsgw o'"
    and "relay_socks_addr (evict addr is_dns o') = relay_socks_addr o'"
proof -
  let ?e = "evict addr is_dns o'"
  have all: "relay_wf ?e \<and> con_locals ?e = (if local_addr addr \<notin> set (con_locals o') \<and> num_connections o' = max_connections o'
       then tl (con_locals o') else con_locals o')
     \<and> con_ptrs ?e = (if local_addr addr \<notin> set (con_locals o') \<and> num_connections o' = max_connections o'
       then tl (con_ptrs o') else con_ptrs o')
     \<and> (local_addr addr \<notin> set (con_locals o') \<longrightarrow> num_connections ?e < max_connections ?e)
     \<and> max_connections ?e = max_connections o' \<and> relay_udp_mtu ?e = relay_udp_mtu o' \<and> relay_dnsgw ?e = relay_dnsgw o'
     \<and> relay_socks_addr ?e = relay_socks_addr o'"
  proof (cases "local_addr addr \<notin> set (con_locals o') \<and> num_connections o' = max_connections o'")
    case True
    with wf obtain c cs where cs: "connections_list o' = c # cs" by (cases "connections_list o'") (auto simp: relay_wf_def)
    have e: "?e = connection_free c o'"
      using True wf cs a by (simp add: evict_def remove_lru_connection_def find_connection_None relay_wf_def)
    show ?thesis
      using wf cs True unfolding e free_first [OF wf cs] by (auto simp: relay_wf_def con_ptrs_def con_locals_def)
  next
    case False
    then have "?e = o'" using wf a by (auto simp: evict_def find_connection_None)
    then show ?thesis using False wf by (auto simp: relay_wf_def)
  qed
  then show "relay_wf ?e" "con_locals ?e = (if local_addr addr \<notin> set (con_locals o') \<and> num_connections o' = max_connections o'
       then tl (con_locals o') else con_locals o')"
    "con_ptrs ?e = (if local_addr addr \<notin> set (con_locals o') \<and> num_connections o' = max_connections o'
       then tl (con_ptrs o') else con_ptrs o')"
    "local_addr addr \<notin> set (con_locals o') \<Longrightarrow> num_connections ?e < max_connections ?e"
    "max_connections ?e = max_connections o'" "relay_udp_mtu ?e = relay_udp_mtu o'" "relay_dnsgw ?e = relay_dnsgw o'"
    "relay_socks_addr ?e = relay_socks_addr o'" by blast+
qed

text \<open>Initialisation of a connection: on failure all is released, in reverse order.\<close>

definition env_ok :: "con_env \<Rightarrow> bool" where
  "env_ok env \<longleftrightarrow> env_malloc env \<noteq> None \<and> env_dgram_init env \<and> env_reuse_addr env \<and> env_packet_buffer env \<and> env_single_buffer env"

definition new_connection :: "nat \<Rightarrow> conaddr \<Rightarrow> bytes \<Rightarrow> bool \<Rightarrow> SocksUdpGwClient \<Rightarrow> connection" where
  "new_connection ptr addr data is_dns o' = \<lparr>rc_ptr = ptr, rc_conaddr = addr, rc_is_dns = is_dns, rc_first_data_len = length data,
     rc_jobs = [Job_Writer, Job_First], rc_send_addr = (if is_dns then relay_dnsgw o' else relay_socks_addr o'),
     rc_writer = BufferWriter_Init (relay_udp_mtu o')\<rparr>"

lemmas con_fails = con_fail3_def con_fail2_def con_fail1_def con_fail0_def

lemma connection_init_fail:
  assumes "\<not> env_ok env"
  shows "\<exists>rs. connection_init env addr data is_dns o' = (remit (map Acquired rs @ rev (map Released rs)) o', None)"
proof -
  consider "env_malloc env = None" | "env_malloc env \<noteq> None" "\<not> env_dgram_init env"
    | "env_malloc env \<noteq> None" "env_dgram_init env" "\<not> env_reuse_addr env"
    | "env_malloc env \<noteq> None" "env_dgram_init env" "env_reuse_addr env" "\<not> env_packet_buffer env"
    | "env_malloc env \<noteq> None" "env_dgram_init env" "env_reuse_addr env" "env_packet_buffer env" "\<not> env_single_buffer env"
    using assms by (auto simp: env_ok_def)
  then show ?thesis
  proof cases
    case 1
    then show ?thesis by (intro exI [of _ "[]"]) (simp add: connection_init_def remit_def)
  next
    case 2
    then show ?thesis by (intro exI [of _ "[R_Memory, R_FirstJob]"]) (auto simp: connection_init_def remit_def con_fails)
  next
    case 3
    then show ?thesis by (intro exI [of _ "[R_Memory, R_FirstJob, R_Dgram]"]) (auto simp: connection_init_def remit_def con_fails)
  next
    case 4
    then show ?thesis by (intro exI [of _ "[R_Memory, R_FirstJob, R_Dgram, R_SendAsync, R_RecvAsync, R_Writer]"])
        (auto simp: connection_init_def remit_def con_fails Let_def)
  next
    case 5
    then show ?thesis by (intro exI [of _ "[R_Memory, R_FirstJob, R_Dgram, R_SendAsync, R_RecvAsync, R_Writer, R_SendBuffer, R_RecvIf]"])
        (auto simp: connection_init_def remit_def con_fails Let_def)
  qed
qed

lemma connection_init_ok:
  assumes "env_ok env" and "env_malloc env = Some ptr" and "relay_wf o'" and "BAddr_wf (local_addr addr)"
    and "local_addr addr \<notin> set (con_locals o')"
  shows "connection_init env addr data is_dns o' =
    ((remit (map Acquired [R_Memory, R_FirstJob, R_Dgram, R_SendAsync, R_RecvAsync, R_Writer, R_SendBuffer, R_RecvIf, R_RecvBuffer]) o')
      \<lparr>connections_list := connections_list o' @ [new_connection ptr addr data is_dns o'],
       num_connections := num_connections o' + 1\<rparr>, Some ptr)"
proof -
  have "\<forall>c\<in>set (connections_list o'). conaddr_comparator addr (rc_conaddr c) \<noteq> 0"
    using assms(3-5) by (auto simp: relay_wf_def con_locals_def comparator_eq)
  then show ?thesis
    using assms(1,2) by (simp add: connection_init_def env_ok_def Let_def remit_def new_connection_def)
qed


lemma relay_wf_put:
  assumes "relay_wf o'" and "c \<in> set (connections_list o')" and "rc_ptr d = rc_ptr c" and "con_local d = con_local c"
  shows "relay_wf (put_con d o')"
  using assms put_con_locals [of o' c d] by (simp add: relay_wf_def)

lemma put_con_mem: "c \<in> set (connections_list o') \<Longrightarrow> rc_ptr d = rc_ptr c \<Longrightarrow> d \<in> set (connections_list (put_con d o'))"
  by (auto simp: put_con_def image_iff)

lemma move_to_back_facts:
  assumes "relay_wf o'" and "c \<in> set (connections_list o')"
  shows "relay_wf (move_to_back c o')" and "con_locals (move_to_back c o') = remove1 (con_local c) (con_locals o') @ [con_local c]"
    and "last (connections_list (move_to_back c o')) = c"
proof -
  have d: "distinct (map rc_ptr (connections_list o'))" "distinct (map con_local (connections_list o'))"
    using assms(1) by (simp_all add: relay_wf_def con_ptrs_def con_locals_def)
  note f = filter_ptr [OF d assms(2)]
  have pos: "0 < length (connections_list o')" using assms(2) by auto
  show l: "con_locals (move_to_back c o') = remove1 (con_local c) (con_locals o') @ [con_local c]"
    using f by (simp add: con_locals_def move_to_back_def)
  have p: "con_ptrs (move_to_back c o') = remove1 (rc_ptr c) (con_ptrs o') @ [rc_ptr c]"
    using f by (simp add: con_ptrs_def move_to_back_def)
  have "con_local c \<in> set (con_locals o')" using assms(2) by (simp add: con_locals_def)
  moreover have "length (connections_list (move_to_back c o')) = length (connections_list o')"
    using f pos by (simp add: move_to_back_def)
  ultimately show "relay_wf (move_to_back c o')"
    using assms(1) d unfolding relay_wf_def l p
    by (auto simp: move_to_back_def con_ptrs_def con_locals_def dest: notin_set_remove1)
  show "last (connections_list (move_to_back c o')) = c" by (simp add: move_to_back_def)
qed

text \<open>Submitting a packet for a local address that has a connection, and for one that has none.\<close>

lemma submit_eq:
  assumes "local \<noteq> BAddr_None" and "remote \<noteq> BAddr_None" and "length data \<le> relay_udp_mtu o'"
  shows "SocksUdpGwClient_SubmitPacket env local remote is_dns data o' =
    (let addr = \<lparr>local_addr = local, remote_addr = remote\<rparr> in
     case find_connection o' addr is_dns of
       None \<Rightarrow> fst (connection_init env addr data is_dns (evict addr is_dns (o'\<lparr>caller_buf := data\<rparr>)))
     | Some con \<Rightarrow>
        (let con = reset_connection con addr is_dns; o' = put_con con (o'\<lparr>caller_buf := data\<rparr>) in
         if snd (connection_send con data) then put_con (fst (connection_send con data)) o'
         else move_to_back (fst (connection_send con data)) (put_con (fst (connection_send con data)) o')))"
  using assms by (simp add: SocksUdpGwClient_SubmitPacket_def evict_def Let_def split_beta split: option.split)

lemma submit_existing:
  fixes is_dns :: bool and env :: con_env
  assumes wf: "relay_wf o'" and a: "local \<noteq> BAddr_None" "remote \<noteq> BAddr_None" "length data \<le> relay_udp_mtu o'" "BAddr_wf local"
    and c: "c \<in> set (connections_list o')" "con_local c = local"
  defines "d \<equiv> c\<lparr>rc_conaddr := \<lparr>local_addr = local, remote_addr = remote\<rparr>, rc_is_dns := is_dns\<rparr>"
  defines "t \<equiv> SocksUdpGwClient_SubmitPacket env local remote is_dns data o'"
  shows "relay_wf t" and "con_locals t = (if out_have (rc_writer c) then remove1 local (con_locals o') @ [local] else con_locals o')"
    and "out_have (rc_writer c) \<Longrightarrow> last (connections_list t) = fst (connection_send d data)"
    and "rtrace t = rtrace o'" and "stale_first_jobs t = stale_first_jobs o'"
proof -
  let ?addr = "\<lparr>local_addr = local, remote_addr = remote\<rparr>" and ?s = "fst (connection_send d data)" and ?b = "o'\<lparr>caller_buf := data\<rparr>"
  have "find_connection o' ?addr is_dns \<noteq> None" using find_connection_None [OF wf, of ?addr] a(4) c by (auto simp: con_locals_def)
  then obtain e where e: "find_connection o' ?addr is_dns = Some e" by auto
  with find_connection_Some [OF wf _ e] a(4) have e': "e \<in> set (connections_list o')" "con_local e = local" by auto
  have ec: "e = c" using wf e' c by (auto simp: relay_wf_def con_locals_def distinct_map dest: inj_onD)
  have rd: "reset_connection e ?addr is_dns = d" by (simp add: reset_connection_def d_def ec)
  have d1: "rc_ptr d = rc_ptr c" "con_local d = con_local c" using c(2) by (simp_all add: d_def)
  let ?o1 = "put_con d ?b" let ?o2 = "put_con ?s ?o1"
  have wb: "relay_wf ?b" and cb: "c \<in> set (connections_list ?b)" using wf c(1) by simp_all
  have w1: "relay_wf ?o1" using relay_wf_put [OF wb cb d1] .
  have m1: "d \<in> set (connections_list ?o1)" using put_con_mem [OF cb d1(1)] .
  have w2: "relay_wf ?o2" and m2: "?s \<in> set (connections_list ?o2)"
    using relay_wf_put [OF w1 m1] put_con_mem [OF m1] by simp_all
  have l2: "con_locals ?o2 = con_locals o'"
    using put_con_locals [OF _ m1, of ?s] put_con_locals [OF _ cb d1] w1 wb by (simp add: relay_wf_def)
  have drop: "snd (connection_send d data) \<longleftrightarrow> \<not> out_have (rc_writer c)"
    by (simp add: connection_send_def BufferWriter_StartPacket_def d_def Let_def)
  have t: "t = (if out_have (rc_writer c) then move_to_back ?s ?o2 else ?o2)"
    unfolding t_def submit_eq [OF a(1-3)] Let_def e option.case rd using drop by simp
  show "relay_wf t" using t w2 move_to_back_facts(1) [OF w2 m2] by simp
  show "con_locals t = (if out_have (rc_writer c) then remove1 local (con_locals o') @ [local] else con_locals o')"
    using t l2 move_to_back_facts(2) [OF w2 m2] d1 c(2) by simp
  show "out_have (rc_writer c) \<Longrightarrow> last (connections_list t) = ?s" using t move_to_back_facts(3) [OF w2 m2] by simp
  show "rtrace t = rtrace o'" "stale_first_jobs t = stale_first_jobs o'" using t by (simp_all add: move_to_back_def)
qed

text \<open>The allocator returns no address in use; that of an evicted connection may come back.\<close>

definition fresh_malloc :: "con_env \<Rightarrow> SocksUdpGwClient \<Rightarrow> bool" where
  "fresh_malloc env o' = (case env_malloc env of None \<Rightarrow> True
    | Some p \<Rightarrow> p \<notin> set (if num_connections o' = max_connections o' then tl (con_ptrs o') else con_ptrs o'))"

lemma submit_new:
  fixes is_dns :: bool
  assumes wf: "relay_wf o'" and a: "local \<noteq> BAddr_None" "remote \<noteq> BAddr_None" "length data \<le> relay_udp_mtu o'" "BAddr_wf local"
    and n: "local \<notin> set (con_locals o')" and fresh: "fresh_malloc env o'"
  defines "t \<equiv> SocksUdpGwClient_SubmitPacket env local remote is_dns data o'"
  defines "rest \<equiv> (if num_connections o' = max_connections o' then tl (con_locals o') else con_locals o')"
  shows "relay_wf t" and "con_locals t = (if env_ok env then rest @ [local] else rest)"
    and "env_ok env \<Longrightarrow> last (connections_list t) = new_connection (the (env_malloc env)) \<lparr>local_addr = local, remote_addr = remote\<rparr> data is_dns o'"
proof -
  let ?addr = "\<lparr>local_addr = local, remote_addr = remote\<rparr>" let ?b = "o'\<lparr>caller_buf := data\<rparr>"
  let ?e = "evict ?addr is_dns ?b"
  have wb: "relay_wf ?b" using wf by simp
  have f: "find_connection o' ?addr is_dns = None" using find_connection_None [OF wf, of ?addr] a(4) n by simp
  have t: "t = fst (connection_init env ?addr data is_dns ?e)"
    unfolding t_def submit_eq [OF a(1-3)] Let_def f by simp
  note ev = evict_wf [OF wb, of ?addr is_dns, simplified, OF a(4)]
  have l: "con_locals ?e = rest" using ev(2) n by (simp add: rest_def)
  have nl: "local \<notin> set (con_locals ?e)" unfolding l using n by (cases "con_locals o'") (auto simp: rest_def)
  have "relay_wf t \<and> con_locals t = (if env_ok env then rest @ [local] else rest)
    \<and> (env_ok env \<longrightarrow> last (connections_list t) = new_connection (the (env_malloc env)) ?addr data is_dns o')"
  proof (cases "env_ok env")
    case True
    then obtain p where p: "env_malloc env = Some p" by (auto simp: env_ok_def)
    have np: "p \<notin> set (con_ptrs ?e)" using fresh p ev(3) n by (auto simp: fresh_malloc_def split: if_splits)
    have nc: "new_connection p ?addr data is_dns ?e = new_connection p ?addr data is_dns o'"
      unfolding new_connection_def ev(6-8) ..
    have "t = (remit (map Acquired [R_Memory, R_FirstJob, R_Dgram, R_SendAsync, R_RecvAsync, R_Writer, R_SendBuffer, R_RecvIf, R_RecvBuffer]) ?e)
      \<lparr>connections_list := connections_list ?e @ [new_connection p ?addr data is_dns o'], num_connections := num_connections ?e + 1\<rparr>"
      unfolding t using connection_init_ok [OF True p ev(1), of ?addr] a(4) nl nc by simp
    then show ?thesis
      using True p ev(1,4) np nl l n a(4) unfolding relay_wf_def con_ptrs_def con_locals_def
      by (auto simp: new_connection_def)
  next
    case False
    from connection_init_fail [OF this, of ?addr data is_dns ?e] obtain rs
      where "t = remit (map Acquired rs @ rev (map Released rs)) ?e" unfolding t by auto
    then show ?thesis using False ev(1) l by simp
  qed
  then show "relay_wf t" and "con_locals t = (if env_ok env then rest @ [local] else rest)"
    and "env_ok env \<Longrightarrow> last (connections_list t) = new_connection (the (env_malloc env)) ?addr data is_dns o'" by blast+
qed


text \<open>No first job is left behind when none is pending.\<close>

lemma connection_init_stale [simp]: "stale_first_jobs (fst (connection_init env addr data d o')) = stale_first_jobs o'"
  by (simp add: connection_init_def R_ASSERT_def Let_def con_fails split: option.split)

lemma evict_stale: "first_jobs_done o' \<Longrightarrow> stale_first_jobs (evict addr is_dns o') = stale_first_jobs o'"
  by (auto simp: evict_def remove_lru_connection_def connection_free_def R_ASSERT_def first_jobs_done_def Let_def split: list.split)

lemma submit_new_stale:
  assumes "relay_wf o'" and a: "local \<noteq> BAddr_None" "remote \<noteq> BAddr_None" "length data \<le> relay_udp_mtu o'" "BAddr_wf local"
    and "local \<notin> set (con_locals o')" and "first_jobs_done o'"
  shows "stale_first_jobs (SocksUdpGwClient_SubmitPacket env local remote is_dns data o') = stale_first_jobs o'"
proof -
  let ?addr = "\<lparr>local_addr = local, remote_addr = remote\<rparr>"
  have "find_connection o' ?addr is_dns = None" using find_connection_None [OF assms(1), of ?addr] assms by simp
  moreover have "first_jobs_done (o'\<lparr>caller_buf := data\<rparr>)" using assms(7) by (simp add: first_jobs_done_def)
  ultimately show ?thesis unfolding submit_eq [OF a(1-3)] Let_def by (simp add: evict_stale)
qed

section \<open>Runs\<close>

text \<open>
  The event loop runs all pending jobs before it waits for events, and the job that lets the device read its next packet
  was set before \<open>SocksUdpGwClient_SubmitPacket\<close> was called, so it runs after the jobs that call set: when the caller's buffer
  changes, and when the next packet is submitted, no first job is pending (\<open>first_jobs_done\<close>). A first job of a freed connection would use
  freed memory.
\<close>

inductive rstep :: "SocksUdpGwClient \<Rightarrow> SocksUdpGwClient \<Rightarrow> bool" where
  r_submit: "local \<noteq> BAddr_None \<Longrightarrow> remote \<noteq> BAddr_None \<Longrightarrow> BAddr_wf local \<Longrightarrow> length data \<le> relay_udp_mtu o' \<Longrightarrow>
    fresh_malloc env o' \<Longrightarrow> first_jobs_done o' \<Longrightarrow>
    rstep o' (SocksUdpGwClient_SubmitPacket env local remote is_dns data o')"
| r_job: "c \<in> set (connections_list o') \<Longrightarrow> rstep o' (put_con (run_job (caller_buf o') c) o')"
| r_stale: "p \<in> set (stale_first_jobs o') \<Longrightarrow> rstep o' (R_ASSERT False (o'\<lparr>stale_first_jobs := remove1 p (stale_first_jobs o')\<rparr>))"
| r_caller: "first_jobs_done o' \<Longrightarrow> rstep o' (o'\<lparr>caller_buf := data\<rparr>)"
| r_buffer: "c \<in> set (connections_list o') \<Longrightarrow> \<not> out_have (rc_writer c) \<Longrightarrow> Job_Writer \<notin> set (rc_jobs c) \<Longrightarrow>
    rstep o' (put_con (c\<lparr>rc_jobs := Job_Writer # rc_jobs c\<rparr>) o')"
| r_dgram: "c \<in> set (connections_list o') \<Longrightarrow> length data \<le> relay_udp_mtu o' \<Longrightarrow> rstep o' (dgram_handler_received c data o')"

definition rinit :: "nat \<Rightarrow> int \<Rightarrow> BAddr \<Rightarrow> BAddr \<Rightarrow> SocksUdpGwClient \<Rightarrow> bool" where
  "rinit mtu max_con socks dns o' \<longleftrightarrow> mtu \<le> 65535 \<and> 0 < max_con \<and> o' = SocksUdpGwClient_Init mtu max_con socks dns"

lemma relay_wf_start: "rinit mtu max_con socks dns o' \<Longrightarrow> relay_wf o'"
  by (auto simp: rinit_def SocksUdpGwClient_Init_def relay_wf_def con_ptrs_def con_locals_def udpgw_compute_mtu_value)

lemma relay_wf_dgram:
  assumes "relay_wf o'" and "c \<in> set (connections_list o')" and "length data \<le> relay_udp_mtu o'"
  shows "relay_wf (dgram_handler_received c data o')"
proof -
  have "R_ASSERT (int (length data) \<le> relay_udpgw_mtu o') o' = o'" using assms by (simp add: relay_wf_def)
  moreover have "relay_wf (put_con (c\<lparr>rc_conaddr := (rc_conaddr c)\<lparr>remote_addr := r\<rparr>\<rparr>) o')" for r
    using assms(1,2) by (intro relay_wf_put) simp_all
  ultimately show ?thesis
    using assms(1) by (auto simp: dgram_handler_received_def Let_def split: option.split)
qed

definition relay_inv :: "SocksUdpGwClient \<Rightarrow> bool" where
  "relay_inv o' \<longleftrightarrow> relay_wf o' \<and> stale_first_jobs o' = []"

lemma dgram_handler_stale [simp]: "stale_first_jobs (dgram_handler_received c data o') = stale_first_jobs o'"
  by (auto simp: dgram_handler_received_def R_ASSERT_def Let_def split: option.split)

lemma relay_wf_submit:
  assumes "relay_wf o'" and "local \<noteq> BAddr_None" "remote \<noteq> BAddr_None" "BAddr_wf local" "length data \<le> relay_udp_mtu o'"
    and "fresh_malloc env o'" and "first_jobs_done o'"
  shows "relay_wf (SocksUdpGwClient_SubmitPacket env local remote is_dns data o')"
    and "stale_first_jobs (SocksUdpGwClient_SubmitPacket env local remote is_dns data o') = stale_first_jobs o'"
proof -
  have "relay_wf (SocksUdpGwClient_SubmitPacket env local remote is_dns data o')
    \<and> stale_first_jobs (SocksUdpGwClient_SubmitPacket env local remote is_dns data o') = stale_first_jobs o'"
  proof (cases "local \<in> set (con_locals o')")
    case True
    then obtain c where "c \<in> set (connections_list o')" "con_local c = local" by (auto simp: con_locals_def)
    with assms submit_existing(1,5) show ?thesis by blast
  next
    case False
    with assms submit_new(1) submit_new_stale show ?thesis by blast
  qed
  then show "relay_wf (SocksUdpGwClient_SubmitPacket env local remote is_dns data o')"
    and "stale_first_jobs (SocksUdpGwClient_SubmitPacket env local remote is_dns data o') = stale_first_jobs o'" by blast+
qed

lemma relay_inv_start: "rinit mtu max_con socks dns o' \<Longrightarrow> relay_inv o'"
  unfolding relay_inv_def by (frule relay_wf_start) (simp add: rinit_def SocksUdpGwClient_Init_def)

lemma relay_inv_step: "relay_inv o' \<Longrightarrow> rstep o' t \<Longrightarrow> relay_inv t"
  by (erule rstep.cases) (auto simp: relay_inv_def relay_wf_submit intro!: relay_wf_put relay_wf_dgram)

interpretation relay: invariant_system "rinit mtu max_con socks dns" rstep relay_inv for mtu max_con socks dns
  by unfold_locales (auto intro: relay_inv_start relay_inv_step)

lemma relay_reach_wf: "reach (rinit mtu max_con socks dns) rstep o' \<Longrightarrow> relay_wf o' \<and> stale_first_jobs o' = []"
  using relay.reach_inv by (simp add: relay_inv_def)

section \<open>What is sent and what is received\<close>

lemma mem16_zero: "mem16 0 = [0, 0]"
  by (simp add: mem16_def)

lemma parse_own_header:
  assumes "remote \<noteq> BAddr_None" and "BAddr_wf remote"
  shows "\<exists>atyp adr. socks_udp_header_bytes remote = [0, 0, 0, atyp] @ adr \<and> parse_reply_addr atyp (adr @ data) = Some (remote, data)"
proof (cases remote)
  case BAddr_None
  with assms show ?thesis by simp
next
  case (BAddr_IPv4 ip port)
  then show ?thesis
    by (intro exI [of _ 1] exI [of _ "mem32 ip @ mem16 port"]) (simp add: socks_udp_header_bytes_def parse_reply_addr_def mem16_zero)
next
  case (BAddr_IPv6 ip port)
  then show ?thesis using assms(2)
    by (intro exI [of _ 4] exI [of _ "ip @ mem16 port"])
      (simp add: socks_udp_header_bytes_def parse_reply_addr_def mem16_zero bslice_def)
qed

definition header_len :: "bool \<Rightarrow> BAddr \<Rightarrow> nat" where
  "header_len is_dns remote = (if is_dns then 0 else case remote of BAddr_IPv4 _ _ \<Rightarrow> 10 | BAddr_IPv6 _ _ \<Rightarrow> 22 | BAddr_None \<Rightarrow> 4)"

definition datagram :: "bool \<Rightarrow> BAddr \<Rightarrow> bytes \<Rightarrow> bytes" where
  "datagram is_dns remote data = (if is_dns then [] else socks_udp_header_bytes remote) @ data"

lemma length_datagram: "BAddr_wf remote \<Longrightarrow> length (datagram is_dns remote data) = header_len is_dns remote + length data"
  by (cases remote) (simp_all add: datagram_def header_len_def socks_udp_header_bytes_def)

lemma connection_send_ready:
  assumes "out_have (rc_writer c)"
  shows "connection_send c data =
    (c\<lparr>rc_writer := BufferWriter_EndPacket (datagram (rc_is_dns c) (remote_addr (rc_conaddr c)) data) (rc_writer c)\<rparr>, False)"
  using assms by (simp add: connection_send_def BufferWriter_StartPacket_def datagram_def Let_def)

lemma received_own_datagram:
  assumes "remote \<noteq> BAddr_None" and "BAddr_wf remote" and "\<not> rc_is_dns d"
    and "length data \<le> relay_udp_mtu o'" and "relay_udpgw_mtu o' = int (relay_udp_mtu o') + 22"
  shows "dgram_handler_received d (datagram False remote data) o' =
    remit [To_User (con_local d) remote data] (put_con (d\<lparr>rc_conaddr := (rc_conaddr d)\<lparr>remote_addr := remote\<rparr>\<rparr>) o')"
proof -
  obtain atyp adr where h: "socks_udp_header_bytes remote = [0, 0, 0, atyp] @ adr" "parse_reply_addr atyp (adr @ data) = Some (remote, data)"
    using parse_own_header [OF assms(1,2)] by blast
  have "header_len False remote \<le> 22" by (cases remote) (simp_all add: header_len_def)
  then have "int (length (datagram False remote data)) \<le> relay_udpgw_mtu o'"
    using length_datagram [OF assms(2), of False data] assms(4,5) by linarith
  then show ?thesis
    using h assms(3,4) by (simp add: dgram_handler_received_def datagram_def Let_def)
qed

text \<open>The jobs of a new connection run from the last set to the first: the writer gets a buffer, then the first datagram is sent.\<close>

lemma first_datagram:
  "run_job data (run_job data (new_connection p addr data is_dns o')) =
    (new_connection p addr data is_dns o')\<lparr>rc_jobs := [], rc_writer :=
      \<lparr>wr_mtu = relay_udp_mtu o', out_have = False, wr_packets = [datagram is_dns (remote_addr addr) data],
       wr_fault = \<not> length (datagram is_dns (remote_addr addr) data) \<le> relay_udp_mtu o'\<rparr>\<rparr>"
  by (simp add: new_connection_def run_job_def connection_first_job_handler_def BufferWriter_output_handler_recv_def
      BufferWriter_Init_def connection_send_ready BufferWriter_EndPacket_def)

text \<open>The send buffer asks the writer for another packet.\<close>

definition writer_ready :: "connection \<Rightarrow> connection" where
  "writer_ready c = run_job [] (c\<lparr>rc_jobs := Job_Writer # rc_jobs c\<rparr>)"

lemma first_ready:
  "writer_ready (run_job data (run_job data (new_connection p addr data is_dns o'))) =
    (new_connection p addr data is_dns o')\<lparr>rc_jobs := [], rc_writer :=
      \<lparr>wr_mtu = relay_udp_mtu o', out_have = True, wr_packets = [datagram is_dns (remote_addr addr) data],
       wr_fault = \<not> length (datagram is_dns (remote_addr addr) data) \<le> relay_udp_mtu o'\<rparr>\<rparr>"
  by (simp add: writer_ready_def first_datagram run_job_def [of _ "_\<lparr>rc_jobs := _\<rparr>"] BufferWriter_output_handler_recv_def)

lemma connection_free_mtu [simp]: "relay_udp_mtu (connection_free c o') = relay_udp_mtu o'"
    "relay_udpgw_mtu (connection_free c o') = relay_udpgw_mtu o'"
  by (simp_all add: connection_free_def R_ASSERT_def Let_def)

lemma connection_init_mtu [simp]: "relay_udp_mtu (fst (connection_init env addr data d o')) = relay_udp_mtu o'"
    "relay_udpgw_mtu (fst (connection_init env addr data d o')) = relay_udpgw_mtu o'"
  by (simp_all add: connection_init_def R_ASSERT_def Let_def con_fails split: option.split)

lemma connection_free_max [simp]: "max_connections (connection_free c o') = max_connections o'"
  by (simp add: connection_free_def R_ASSERT_def Let_def)

lemma connection_init_max [simp]: "max_connections (fst (connection_init env addr data d o')) = max_connections o'"
  by (simp add: connection_init_def R_ASSERT_def Let_def con_fails split: option.split)


lemma submit_buf [simp]: "caller_buf (SocksUdpGwClient_SubmitPacket env local remote d data o') = data"
  by (simp add: SocksUdpGwClient_SubmitPacket_def remove_lru_connection_def R_ASSERT_def move_to_back_def Let_def split_beta
      connection_free_def connection_init_def con_fails split: option.split list.split)

lemma submit_mtu: "relay_udp_mtu (SocksUdpGwClient_SubmitPacket env local remote d data o') = relay_udp_mtu o'"
    "relay_udpgw_mtu (SocksUdpGwClient_SubmitPacket env local remote d data o') = relay_udpgw_mtu o'"
  by (simp_all add: SocksUdpGwClient_SubmitPacket_def remove_lru_connection_def R_ASSERT_def move_to_back_def Let_def split_beta
      split: option.split list.split)

text \<open>Releasing all connections.\<close>

lemma relay_wf_free_first: "relay_wf o' \<Longrightarrow> connections_list o' = c # cs \<Longrightarrow>
  relay_wf (connection_free c o') \<and> connections_list (connection_free c o') = cs"
  by (simp add: free_first) (simp add: relay_wf_def con_ptrs_def con_locals_def)

lemma relay_free_all:
  "relay_wf o' \<Longrightarrow> length (connections_list o') \<le> n \<Longrightarrow> relay_wf (relay_free_loop n o') \<and> connections_list (relay_free_loop n o') = []"
proof (induction n arbitrary: o')
  case (Suc n)
  then show ?case
    by (cases "connections_list o'") (auto simp: relay_wf_free_first)
qed simp

lemma relay_free_empties: "relay_wf o' \<Longrightarrow>
  connections_list (SocksUdpGwClient_Free o') = [] \<and> num_connections (SocksUdpGwClient_Free o') = 0 \<and> \<not> rfault (SocksUdpGwClient_Free o')"
  using relay_free_all [of o' "length (connections_list o')"] by (simp add: SocksUdpGwClient_Free_def relay_wf_def)

section \<open>Properties\<close>

abbreviation (input) relay_of :: "nat \<Rightarrow> int \<Rightarrow> BAddr \<Rightarrow> BAddr \<Rightarrow> SocksUdpGwClient \<Rightarrow> bool" where
  "relay_of mtu max_con socks dns o' \<equiv> reach (rinit mtu max_con socks dns) rstep o'"

text \<open>A relay with room for one connection.\<close>

definition home_relay :: SocksUdpGwClient where
  "home_relay = SocksUdpGwClient_Init 12 1 (BAddr_IPv4 5 6) (BAddr_IPv4 7 8)"

definition home_env :: "nat \<Rightarrow> con_env" where
  "home_env p = \<lparr>env_malloc = Some p, env_dgram_init = True, env_reuse_addr = True, env_packet_buffer = True, env_single_buffer = True\<rparr>"


lemma home_start: "relay_of 12 1 (BAddr_IPv4 5 6) (BAddr_IPv4 7 8) home_relay"
  by (rule reach_start) (simp add: rinit_def home_relay_def)

lemma home_zero: "con_ptrs home_relay = []" "con_locals home_relay = []" "relay_udp_mtu home_relay = 12"
  "relay_socks_addr home_relay = BAddr_IPv4 5 6" "relay_dnsgw home_relay = BAddr_IPv4 7 8" "num_connections home_relay = 0"
  "max_connections home_relay = 1"
  by (simp_all add: home_relay_def SocksUdpGwClient_Init_def con_ptrs_def con_locals_def)













text \<open>
  Freeing a connection whose first job is pending leaves that job in the list of pending jobs, and running it is a use of
  freed memory.
\<close>

lemma free_leaves_first_job:
  assumes "Job_First \<in> set (rc_jobs c)"
  shows "rc_ptr c \<in> set (stale_first_jobs (connection_free c o'))"
    and "\<exists>t. rstep (connection_free c o') t \<and> rfault t"
proof -
  show m: "rc_ptr c \<in> set (stale_first_jobs (connection_free c o'))" using assms by (simp add: connection_free_def Let_def)
  show "\<exists>t. rstep (connection_free c o') t \<and> rfault t" using r_stale [OF m] by (auto simp: R_ASSERT_def)
qed

text \<open>
  C34. Round trip of the SOCKS UDP format. What a connection writes for a datagram to \<open>remote\<close> is accepted when it arrives at
  a connection that does not do DNS, as a reply from \<open>remote\<close>: the user gets the same data, from \<open>remote\<close>, for the local address
  of that connection, and the connection remembers \<open>remote\<close>.
\<close>

theorem relay_reply_roundtrip:
  assumes "out_have (rc_writer c)" and "\<not> rc_is_dns c" and "remote_addr (rc_conaddr c) = remote"
    and "remote \<noteq> BAddr_None" and "BAddr_wf remote" and "\<not> rc_is_dns d"
    and "length data \<le> relay_udp_mtu o'" and "relay_udpgw_mtu o' = int (relay_udp_mtu o') + 22"
  shows "dgram_handler_received d (last (wr_packets (rc_writer (fst (connection_send c data))))) o' =
    remit [To_User (con_local d) remote data] (put_con (d\<lparr>rc_conaddr := (rc_conaddr d)\<lparr>remote_addr := remote\<rparr>\<rparr>) o')"
proof -
  have "last (wr_packets (rc_writer (fst (connection_send c data)))) = datagram False remote data"
    using assms(1-3) by (simp add: connection_send_ready BufferWriter_EndPacket_def)
  then show ?thesis using received_own_datagram [OF assms(4-8)] by simp
qed

definition home_con :: connection where
  "home_con = writer_ready (run_job [2] (run_job [2] (new_connection 3 \<lparr>local_addr = BAddr_IPv4 3 2, remote_addr = BAddr_IPv4 9 9\<rparr> [2] False home_relay)))"

theorem relay_reply_roundtrip_witness:
  "dgram_handler_received home_con (last (wr_packets (rc_writer (fst (connection_send home_con [2, 3]))))) home_relay =
    remit [To_User (BAddr_IPv4 3 2) (BAddr_IPv4 9 9) [2, 3]] (put_con (home_con\<lparr>rc_conaddr := \<lparr>local_addr = BAddr_IPv4 3 2, remote_addr = BAddr_IPv4 9 9\<rparr>\<rparr>) home_relay)"
proof -
  have c: "home_con = (new_connection 3 \<lparr>local_addr = BAddr_IPv4 3 2, remote_addr = BAddr_IPv4 9 9\<rparr> [2] False home_relay)
    \<lparr>rc_jobs := [], rc_writer := \<lparr>wr_mtu = 12, out_have = True, wr_packets = [datagram False (BAddr_IPv4 9 9) [2]], wr_fault = False\<rparr>\<rparr>"
    by (simp add: home_con_def first_ready home_zero length_datagram header_len_def)
  have r: "relay_udpgw_mtu home_relay = int (relay_udp_mtu home_relay) + 22"
    by (simp add: home_relay_def SocksUdpGwClient_Init_def udpgw_compute_mtu_value)
  have "out_have (rc_writer home_con)" "\<not> rc_is_dns home_con" "rc_conaddr home_con = \<lparr>local_addr = BAddr_IPv4 3 2, remote_addr = BAddr_IPv4 9 9\<rparr>"
    unfolding c by (simp_all add: new_connection_def)
  then show ?thesis
    using relay_reply_roundtrip [of home_con "BAddr_IPv4 9 9" home_con "[2, 3]" home_relay] r by (simp add: home_zero)
qed

text \<open>
  C35. The buffer of a connection is smaller than the largest datagram the relay accepts. A new connection writes past the end of
  its buffer with its first datagram exactly when the header (10 bytes for IPv4, 22 for IPv6, none for DNS) and
  the data together are longer than the UDP MTU, although only the data were compared with it.
\<close>

theorem relay_datagram_overrun:
  assumes r: "relay_of mtu max_con socks dns o'" and a: "local \<noteq> BAddr_None" "remote \<noteq> BAddr_None" "BAddr_wf local" "BAddr_wf remote"
    "length data \<le> relay_udp_mtu o'"
    and n: "local \<notin> set (con_locals o')" and env: "env_ok env" "fresh_malloc env o'"
  shows "let t = SocksUdpGwClient_SubmitPacket env local remote is_dns data o' in
    wr_fault (rc_writer (run_job (caller_buf t) (run_job (caller_buf t) (last (connections_list t))))) \<longleftrightarrow>
    relay_udp_mtu o' < header_len is_dns remote + length data"
proof -
  have wf: "relay_wf o'" using relay_reach_wf [OF r, THEN conjunct1] .
  note s = submit_new(3) [where env = env and is_dns = is_dns, OF wf a(1,2,5,3) n env(2) env(1)]
  show ?thesis unfolding Let_def submit_buf s using length_datagram [OF a(4)] by (auto simp: first_datagram)
qed

theorem relay_datagram_overrun_witness:
  "let t = SocksUdpGwClient_SubmitPacket (home_env 3) (BAddr_IPv4 3 2) (BAddr_IPv4 9 9) False [2, 3, 4] home_relay in
   wr_fault (rc_writer (run_job (caller_buf t) (run_job (caller_buf t) (last (connections_list t)))))"
  using relay_datagram_overrun [OF home_start, of "BAddr_IPv4 3 2" "BAddr_IPv4 9 9" "[2, 3, 4]" "home_env 3" False]
  by (simp add: home_zero env_ok_def fresh_malloc_def home_env_def header_len_def)

text \<open>
  C36. The server a connection sends to is chosen when it is created and never again. After a datagram of kind \<open>d0\<close> (DNS or not)
  created the connection of a local address, a datagram of kind \<open>d\<close> from the same address is written in the format of \<open>d\<close>
  and goes to the server of \<open>d0\<close>: when the kinds differ, to the wrong one.
\<close>

theorem relay_server_fixed:
  assumes r: "relay_of mtu max_con socks dns o'"
    and a: "local \<noteq> BAddr_None" "remote0 \<noteq> BAddr_None" "BAddr_wf local" "length data0 \<le> relay_udp_mtu o'"
    and n: "local \<notin> set (con_locals o')" and env: "env_ok env" "fresh_malloc env o'"
    and b: "remote \<noteq> BAddr_None" "length data \<le> relay_udp_mtu o'"
  shows "let created = SocksUdpGwClient_SubmitPacket env local remote0 d0 data0 o';
      ready = put_con (writer_ready (run_job (caller_buf created) (run_job (caller_buf created) (last (connections_list created))))) created;
      con = last (connections_list (SocksUdpGwClient_SubmitPacket env' local remote d data ready))
    in rc_send_addr con = (if d0 then relay_dnsgw o' else relay_socks_addr o')
      \<and> wr_packets (rc_writer con) = [datagram d0 remote0 data0, datagram d remote data]"
proof -
  define created where "created = SocksUdpGwClient_SubmitPacket env local remote0 d0 data0 o'"
  let ?c = "new_connection (the (env_malloc env)) \<lparr>local_addr = local, remote_addr = remote0\<rparr> data0 d0 o'"
  let ?d = "writer_ready (run_job data0 (run_job data0 ?c))"
  define ready where "ready = put_con ?d created"
  have wf: "relay_wf o'" using relay_reach_wf [OF r, THEN conjunct1] .
  note s = submit_new [where env = env and is_dns = d0, OF wf a(1,2,4,3) n env(2), folded created_def]
  have l: "last (connections_list created) = ?c" and ne: "connections_list created \<noteq> []"
    using s(2,3) env(1) by (auto simp: con_locals_def)
  then have m: "?c \<in> set (connections_list created)" by (metis last_in_set)
  have d: "rc_ptr ?d = rc_ptr ?c" "con_local ?d = con_local ?c" "con_local ?d = local" "out_have (rc_writer ?d)"
    "rc_send_addr ?d = (if d0 then relay_dnsgw o' else relay_socks_addr o')"
    "wr_packets (rc_writer ?d) = [datagram d0 remote0 data0]"
    unfolding first_ready by (simp_all add: new_connection_def)
  have w: "relay_wf ready" and md: "?d \<in> set (connections_list ready)" and u: "relay_udp_mtu ready = relay_udp_mtu o'"
    unfolding ready_def using relay_wf_put [OF s(1) m d(1,2)] put_con_mem [OF m d(1)]
    by (simp_all add: created_def submit_mtu)
  have "last (connections_list (SocksUdpGwClient_SubmitPacket env' local remote d data ready)) =
    fst (connection_send (?d\<lparr>rc_conaddr := \<lparr>local_addr = local, remote_addr = remote\<rparr>, rc_is_dns := d\<rparr>) data)"
    using submit_existing(3) [OF w a(1) b(1) _ a(3) md d(3,4)] b(2) u by simp
  then show ?thesis
    unfolding Let_def created_def [symmetric] submit_buf [of env local remote0 d0 data0 o', folded created_def] l ready_def [symmetric]
    using d(4-6) by (simp add: connection_send_ready BufferWriter_EndPacket_def)
qed

theorem relay_server_fixed_witness:
  "let created = SocksUdpGwClient_SubmitPacket (home_env 3) (BAddr_IPv4 3 2) (BAddr_IPv4 7 8) True [2, 3] home_relay;
      ready = put_con (writer_ready (run_job (caller_buf created) (run_job (caller_buf created) (last (connections_list created))))) created;
      con = last (connections_list (SocksUdpGwClient_SubmitPacket (home_env 4) (BAddr_IPv4 3 2) (BAddr_IPv4 9 9) False [4] ready))
   in rc_send_addr con = relay_dnsgw home_relay
     \<and> wr_packets (rc_writer con) = [[2, 3], datagram False (BAddr_IPv4 9 9) [4]]"
  using relay_server_fixed [OF home_start, of "BAddr_IPv4 3 2" "BAddr_IPv4 7 8" "[2, 3]" "home_env 3" "BAddr_IPv4 9 9" "[4]" True "home_env 4" False]
  by (simp add: home_zero env_ok_def fresh_malloc_def home_env_def datagram_def Let_def)

end
