(* ===== verification/Avl_Tree.thy ===== *)
theory Avl_Tree
  imports Fair_Queue "HOL-Library.Tree"
begin

text \<open>
  The AVL tree \<open>structure/CAvl_impl.h\<close>, which the fair queue uses through \<open>structure/SAvl_impl.h\<close>
  and the event loop for its timers, at the level of its pointers. The nodes of the tree are the
  entries themselves (an intrusive structure), named by their addresses; a link is an address or
  null. The optional features (counts, indices as keys, associative sums) are off in these
  instances. A reference is the address, since an entry is found at its link.

  Loops and the recursion up the tree are partial functions whose value is \<open>None\<close> when they do not
  end; a failed assertion and the use of a null pointer set \<open>avl_fault\<close>. The comparison of two
  entries is an argument.

  The theorems: when the comparison is a total order on the entries, the tree is always balanced
  with correct parent links and balance factors, the operations end without a fault, and they
  do on the sequence of the entries from left to right what the operations of the fair
  queue's ordered set do.
\<close>

section \<open>State\<close>

record avl =
  tree_root :: "nat option"
  avl_parent :: "nat \<Rightarrow> nat option"
  avl_link :: "nat \<Rightarrow> bool \<Rightarrow> nat option"
  avl_balance :: "nat \<Rightarrow> int"
  avl_fault :: bool

definition A_ASSERT :: "bool \<Rightarrow> avl \<Rightarrow> avl" where
  "A_ASSERT b t = t\<lparr>avl_fault := avl_fault t \<or> \<not> b\<rparr>"

definition set_parent :: "nat \<Rightarrow> nat option \<Rightarrow> avl \<Rightarrow> avl" where
  "set_parent n p t = t\<lparr>avl_parent := (avl_parent t)(n := p)\<rparr>"

definition set_link :: "nat \<Rightarrow> bool \<Rightarrow> nat option \<Rightarrow> avl \<Rightarrow> avl" where
  "set_link n s c t = t\<lparr>avl_link := (avl_link t)(n := (avl_link t n)(s := c))\<rparr>"

definition set_balance :: "nat \<Rightarrow> int \<Rightarrow> avl \<Rightarrow> avl" where
  "set_balance n b t = t\<lparr>avl_balance := (avl_balance t)(n := b)\<rparr>"

text \<open>Storing the parent link of a child that may be missing.\<close>

definition set_parent_opt :: "nat option \<Rightarrow> nat option \<Rightarrow> avl \<Rightarrow> avl" where
  "set_parent_opt c p t = (case c of None \<Rightarrow> t | Some n \<Rightarrow> set_parent n p t)"

text \<open>The link that leads to \<open>r\<close>: one of its parent, or the root of the tree.\<close>

definition set_down_link :: "nat option \<Rightarrow> nat \<Rightarrow> nat option \<Rightarrow> avl \<Rightarrow> avl" where
  "set_down_link r_parent r n t = (case r_parent of
      Some p \<Rightarrow> set_link p (Some r = avl_link t p True) n t
    | None \<Rightarrow> t\<lparr>tree_root := n\<rparr>)"

section \<open>Operations\<close>

definition CAvl_MAX :: "int \<Rightarrow> int \<Rightarrow> int" where
  "CAvl_MAX a b = (if a > b then a else b)"

definition CAvl_OPTNEG :: "int \<Rightarrow> bool \<Rightarrow> int" where
  "CAvl_OPTNEG a neg = (if neg then - a else a)"

definition CAvl_compare_entries :: "(nat \<Rightarrow> nat \<Rightarrow> int) \<Rightarrow> nat \<Rightarrow> nat \<Rightarrow> avl \<Rightarrow> avl \<times> int" where
  "CAvl_compare_entries cmp node1 node2 t =
    (let res = cmp node1 node2 in (A_ASSERT (res \<ge> -1 \<and> res \<le> 1) t, res))"

definition CAvl_check_parent :: "avl \<Rightarrow> nat option \<Rightarrow> nat \<Rightarrow> bool" where
  "CAvl_check_parent t p c = (p = avl_parent t c \<and>
    (case p of None \<Rightarrow> True | Some q \<Rightarrow> Some c = avl_link t q False \<or> Some c = avl_link t q True))"

definition CAvl_rotate :: "nat \<Rightarrow> bool \<Rightarrow> nat option \<Rightarrow> avl \<Rightarrow> avl" where
  "CAvl_rotate r dir r_parent t =
    (let t = A_ASSERT (CAvl_check_parent t r_parent r) t
     in case avl_link t r (\<not> dir) of
       None \<Rightarrow> A_ASSERT False t
     | Some nr \<Rightarrow>
        (let t = set_link r (\<not> dir) (avl_link t nr dir) t;
             t = set_parent_opt (avl_link t r (\<not> dir)) (Some r) t;
             t = set_link nr dir (Some r) t;
             t = set_parent nr r_parent t;
             t = set_down_link r_parent r (Some nr) t
         in set_parent r (Some nr) t))"

partial_function (option) CAvl_subtree_min :: "avl \<Rightarrow> nat \<Rightarrow> nat option" where
  "CAvl_subtree_min t n = (case avl_link t n False of None \<Rightarrow> Some n | Some m \<Rightarrow> CAvl_subtree_min t m)"

partial_function (option) CAvl_subtree_max :: "avl \<Rightarrow> nat \<Rightarrow> nat option" where
  "CAvl_subtree_max t n = (case avl_link t n True of None \<Rightarrow> Some n | Some m \<Rightarrow> CAvl_subtree_max t m)"

definition CAvl_replace_subtree_fix_assoc :: "nat \<Rightarrow> nat option \<Rightarrow> nat option \<Rightarrow> avl \<Rightarrow> avl" where
  "CAvl_replace_subtree_fix_assoc dest n dest_parent t =
    (let t = A_ASSERT (CAvl_check_parent t dest_parent dest) t;
         t = set_down_link dest_parent dest n t
     in set_parent_opt n (avl_parent t dest) t)"

text \<open>The two halves of \<open>CAvl_swap_for_remove\<close>: nodes that are parent and child, and others.\<close>

definition swap_connected :: "nat \<Rightarrow> nat \<Rightarrow> nat option \<Rightarrow> avl \<Rightarrow> avl" where
  "swap_connected node enode node_parent t =
    (let side = (Some enode = avl_link t node True);
         c = avl_link t node (\<not> side);
         t = set_link node False (avl_link t enode False) t;
         t = set_parent_opt (avl_link t node False) (Some node) t;
         t = set_link node True (avl_link t enode True) t;
         t = set_parent_opt (avl_link t node True) (Some node) t;
         t = set_parent enode (avl_parent t node) t;
         t = set_down_link node_parent node (Some enode) t;
         t = set_link enode side (Some node) t;
         t = set_parent node (Some enode) t;
         t = set_link enode (\<not> side) c t
     in set_parent_opt c (Some enode) t)"

definition swap_children :: "nat \<Rightarrow> nat \<Rightarrow> bool \<Rightarrow> avl \<Rightarrow> avl" where
  "swap_children node enode s t =
    (let temp = avl_link t node s;
         t = set_link node s (avl_link t enode s) t;
         t = set_parent_opt (avl_link t node s) (Some node) t;
         t = set_link enode s temp t
     in set_parent_opt (avl_link t enode s) (Some enode) t)"

definition swap_apart :: "nat \<Rightarrow> nat \<Rightarrow> nat option \<Rightarrow> nat option \<Rightarrow> avl \<Rightarrow> avl" where
  "swap_apart node enode node_parent enode_parent t =
    (let temp = node_parent;
         t = set_parent node (avl_parent t enode) t;
         t = set_down_link enode_parent enode (Some node) t;
         t = set_parent enode temp t;
         t = set_down_link temp node (Some enode) t;
         t = swap_children node enode False t
     in swap_children node enode True t)"

definition CAvl_swap_for_remove :: "nat \<Rightarrow> nat \<Rightarrow> nat option \<Rightarrow> nat option \<Rightarrow> avl \<Rightarrow> avl" where
  "CAvl_swap_for_remove node enode node_parent enode_parent t =
    (let t = A_ASSERT (CAvl_check_parent t node_parent node) t;
         t = A_ASSERT (CAvl_check_parent t enode_parent enode) t;
         t = (if enode_parent = Some node then swap_connected node enode node_parent t
              else swap_apart node enode node_parent enode_parent t);
         b = avl_balance t node;
         t = set_balance node (avl_balance t enode) t
     in set_balance enode b t)"

text \<open>
  One level of \<open>CAvl_rebalance\<close>: the transformation when the subtree on side \<open>bside\<close> of the node is higher by two, and
  the whole level. The results are the tree, the node that is now on top, and how much the height changed.
\<close>

definition rebalance_transform :: "bool \<Rightarrow> nat \<Rightarrow> int \<Rightarrow> avl \<Rightarrow> avl \<times> nat \<times> int" where
  "rebalance_transform bside node delta t =
    (let bsidef = (if bside then 1 else -1)
     in case avl_link t node bside of
       None \<Rightarrow> (A_ASSERT False t, node, delta)
     | Some child \<Rightarrow>
        if avl_balance t child * bsidef = 1 then
          (let t = CAvl_rotate node (\<not> bside) (avl_parent t node) t;
               t = set_balance node 0 t;
               t = set_balance child 0 t
           in (t, child, delta - 1))
        else if avl_balance t child * bsidef = 0 then
          (let t = CAvl_rotate node (\<not> bside) (avl_parent t node) t;
               t = set_balance node (1 * bsidef) t;
               t = set_balance child (-1 * bsidef) t
           in (t, child, delta))
        else if avl_balance t child * bsidef = -1 then
          (case avl_link t child (\<not> bside) of
             None \<Rightarrow> (A_ASSERT False t, node, delta)
           | Some gchild \<Rightarrow>
              (let t = CAvl_rotate child bside (Some node) t;
                   t = CAvl_rotate node (\<not> bside) (avl_parent t node) t;
                   t = set_balance node (- CAvl_MAX 0 (avl_balance t gchild * bsidef) * bsidef) t;
                   t = set_balance child (CAvl_MAX 0 (- avl_balance t gchild * bsidef) * bsidef) t;
                   t = set_balance gchild 0 t
               in (t, gchild, delta - 1)))
        else (A_ASSERT False t, node, delta))"

definition rebalance_level :: "nat \<Rightarrow> bool \<Rightarrow> int \<Rightarrow> avl \<Rightarrow> avl \<times> nat \<times> int" where
  "rebalance_level node side deltac t =
    (let delta = CAvl_MAX deltac (CAvl_OPTNEG (avl_balance t node) side) - CAvl_MAX 0 (CAvl_OPTNEG (avl_balance t node) side);
         t = A_ASSERT (delta \<ge> -1 \<and> delta \<le> 1) t;
         t = set_balance node (avl_balance t node - CAvl_OPTNEG deltac side) t
     in if avl_balance t node = 2 \<or> avl_balance t node = -2
        then rebalance_transform (avl_balance t node = 2) node delta t
        else (t, node, delta))"

partial_function (option) CAvl_rebalance :: "avl \<Rightarrow> nat \<Rightarrow> bool \<Rightarrow> int \<Rightarrow> avl option" where
  "CAvl_rebalance t node side deltac =
    (let t = A_ASSERT (deltac \<ge> -1 \<and> deltac \<le> 1 \<and> avl_balance t node \<ge> -1 \<and> avl_balance t node \<le> 1) t
     in if deltac = 0 then Some t
        else case rebalance_level node side deltac t of (t, node, delta) \<Rightarrow>
          (let t = A_ASSERT (delta \<ge> -1 \<and> delta \<le> 1) t
           in case avl_parent t node of
             None \<Rightarrow> Some t
           | Some node_parent \<Rightarrow> CAvl_rebalance t node_parent (Some node = avl_link t node_parent True) delta))"

definition CAvl_Init :: "avl \<Rightarrow> avl" where
  "CAvl_Init t = t\<lparr>tree_root := None\<rparr>"

text \<open>The search of \<open>CAvl_Insert\<close>: the entry it stops at, and the side to insert at unless that entry is equal.\<close>

partial_function (option) insert_search :: "(nat \<Rightarrow> nat \<Rightarrow> int) \<Rightarrow> nat \<Rightarrow> avl \<Rightarrow> nat \<Rightarrow> (avl \<times> nat \<times> bool option) option" where
  "insert_search cmp node t c = (case CAvl_compare_entries cmp node c t of (t, ord) \<Rightarrow>
     if ord = 0 then Some (t, c, None)
     else let side = (ord = 1) in case avl_link t c side of
         None \<Rightarrow> Some (t, c, Some side)
       | Some d \<Rightarrow> insert_search cmp node t d)"

text \<open>The fields of a new leaf.\<close>

definition init_leaf :: "nat \<Rightarrow> nat option \<Rightarrow> avl \<Rightarrow> avl" where
  "init_leaf node p t = set_balance node 0 (set_link node True None (set_link node False None (set_parent node p t)))"

definition CAvl_Insert :: "(nat \<Rightarrow> nat \<Rightarrow> int) \<Rightarrow> nat \<Rightarrow> avl \<Rightarrow> (avl \<times> bool \<times> nat option) option" where
  "CAvl_Insert cmp node t = (case tree_root t of
      None \<Rightarrow> Some (init_leaf node None (t\<lparr>tree_root := Some node\<rparr>), True, None)
    | Some r \<Rightarrow> (case insert_search cmp node t r of
        None \<Rightarrow> None
      | Some (t, c, None) \<Rightarrow> Some (t, False, Some c)
      | Some (t, c, Some side) \<Rightarrow>
         (let t = set_link c side (Some node) t;
              t = init_leaf node (Some c) t
          in case CAvl_rebalance t c side 1 of None \<Rightarrow> None | Some t \<Rightarrow> Some (t, True, Some c))))"

text \<open>The part of \<open>CAvl_Remove\<close> that takes out a node with at most one child.\<close>

definition remove_single :: "nat \<Rightarrow> avl \<Rightarrow> avl option" where
  "remove_single node t =
    (let t = A_ASSERT (avl_link t node False = None \<or> avl_link t node True = None) t;
         paren = avl_parent t node;
         child = (if avl_link t node False \<noteq> None then avl_link t node False else avl_link t node True)
     in case paren of
       Some p \<Rightarrow>
        (let side = (Some node = avl_link t p True);
             t = CAvl_replace_subtree_fix_assoc node child paren t
         in CAvl_rebalance t p side (-1))
     | None \<Rightarrow> Some (CAvl_replace_subtree_fix_assoc node child paren t))"

definition CAvl_Remove :: "nat \<Rightarrow> avl \<Rightarrow> avl option" where
  "CAvl_Remove node t =
    (let t = A_ASSERT (tree_root t \<noteq> None) t
     in case (avl_link t node False, avl_link t node True) of
       (Some l, Some _) \<Rightarrow>
        (case CAvl_subtree_max t l of
           None \<Rightarrow> None
         | Some enode \<Rightarrow> remove_single node (CAvl_swap_for_remove node enode (avl_parent t node) (avl_parent t enode) t))
     | _ \<Rightarrow> remove_single node t)"

text \<open>
  Look-up by a key: \<open>cmpk key n\<close> compares the key with the entry \<open>n\<close>. A search that leaves the tree
  ends at the last entry it compared, with \<open>False\<close>.
\<close>

definition CAvl_compare_key_entry :: "('k \<Rightarrow> nat \<Rightarrow> int) \<Rightarrow> 'k \<Rightarrow> nat \<Rightarrow> avl \<Rightarrow> avl \<times> int" where
  "CAvl_compare_key_entry cmpk key1 node2 t =
    (let res = cmpk key1 node2 in (A_ASSERT (res \<ge> -1 \<and> res \<le> 1) t, res))"

partial_function (option) lookup_search :: "('k \<Rightarrow> nat \<Rightarrow> int) \<Rightarrow> 'k \<Rightarrow> avl \<Rightarrow> nat \<Rightarrow> (avl \<times> nat \<times> bool) option" where
  "lookup_search cmpk key t c = (case CAvl_compare_key_entry cmpk key c t of (t, ord) \<Rightarrow>
     if ord = 0 then Some (t, c, True)
     else let side = (ord = 1) in case avl_link t c side of
         None \<Rightarrow> Some (t, c, False)
       | Some d \<Rightarrow> lookup_search cmpk key t d)"

definition CAvl_Lookup :: "('k \<Rightarrow> nat \<Rightarrow> int) \<Rightarrow> 'k \<Rightarrow> avl \<Rightarrow> (avl \<times> nat option) option" where
  "CAvl_Lookup cmpk key t = (case tree_root t of
      None \<Rightarrow> Some (t, None)
    | Some r \<Rightarrow> (case lookup_search cmpk key t r of None \<Rightarrow> None | Some (t, c, _) \<Rightarrow> Some (t, Some c)))"

definition CAvl_LookupExact :: "('k \<Rightarrow> nat \<Rightarrow> int) \<Rightarrow> 'k \<Rightarrow> avl \<Rightarrow> (avl \<times> nat option) option" where
  "CAvl_LookupExact cmpk key t = (case tree_root t of
      None \<Rightarrow> Some (t, None)
    | Some r \<Rightarrow> (case lookup_search cmpk key t r of
        None \<Rightarrow> None | Some (t, c, found) \<Rightarrow> Some (t, if found then Some c else None)))"

definition CAvl_GetFirst :: "avl \<Rightarrow> nat option option" where
  "CAvl_GetFirst t = (case tree_root t of None \<Rightarrow> Some None | Some r \<Rightarrow> map_option Some (CAvl_subtree_min t r))"

definition CAvl_GetLast :: "avl \<Rightarrow> nat option option" where
  "CAvl_GetLast t = (case tree_root t of None \<Rightarrow> Some None | Some r \<Rightarrow> map_option Some (CAvl_subtree_max t r))"

text \<open>Going up while the node is the child on side \<open>s\<close>, and once more.\<close>

partial_function (option) climb :: "bool \<Rightarrow> avl \<Rightarrow> nat \<Rightarrow> nat option option" where
  "climb s t node = (case avl_parent t node of
      None \<Rightarrow> Some None
    | Some p \<Rightarrow> if Some node = avl_link t p s then climb s t p else Some (Some p))"

definition CAvl_GetNext :: "avl \<Rightarrow> nat \<Rightarrow> nat option option" where
  "CAvl_GetNext t node = (case avl_link t node True of
      Some r \<Rightarrow> map_option Some (CAvl_subtree_min t r)
    | None \<Rightarrow> climb True t node)"

definition CAvl_GetPrev :: "avl \<Rightarrow> nat \<Rightarrow> nat option option" where
  "CAvl_GetPrev t node = (case avl_link t node False of
      Some l \<Rightarrow> map_option Some (CAvl_subtree_max t l)
    | None \<Rightarrow> climb False t node)"

text \<open>
  The four look-ups of a neighbour of a key start at the entry where the search for the key ends and go to
  the next or previous entry unless that entry is already on the right side.
\<close>

definition neighbour :: "('k \<Rightarrow> nat \<Rightarrow> int) \<Rightarrow> 'k \<Rightarrow> (int \<Rightarrow> bool) \<Rightarrow> (avl \<Rightarrow> nat \<Rightarrow> nat option option) \<Rightarrow> avl
    \<Rightarrow> (avl \<times> nat option) option" where
  "neighbour cmpk key wrong step t = (case CAvl_Lookup cmpk key t of
      None \<Rightarrow> None
    | Some (t, None) \<Rightarrow> Some (t, None)
    | Some (t, Some c) \<Rightarrow>
       (case CAvl_compare_key_entry cmpk key c t of (t, ord) \<Rightarrow>
         (case (if wrong ord then step t c else Some (Some c)) of
            None \<Rightarrow> None
          | Some None \<Rightarrow> Some (t, None)
          | Some (Some d) \<Rightarrow> (case CAvl_compare_key_entry cmpk key d t of (t, ord) \<Rightarrow>
              Some (A_ASSERT (\<not> wrong ord) t, Some d)))))"

definition CAvl_GetFirstGreater :: "('k \<Rightarrow> nat \<Rightarrow> int) \<Rightarrow> 'k \<Rightarrow> avl \<Rightarrow> (avl \<times> nat option) option" where
  "CAvl_GetFirstGreater cmpk key t = neighbour cmpk key (\<lambda>ord. ord \<ge> 0) CAvl_GetNext t"

definition CAvl_GetLastLesser :: "('k \<Rightarrow> nat \<Rightarrow> int) \<Rightarrow> 'k \<Rightarrow> avl \<Rightarrow> (avl \<times> nat option) option" where
  "CAvl_GetLastLesser cmpk key t = neighbour cmpk key (\<lambda>ord. ord \<le> 0) CAvl_GetPrev t"

definition CAvl_GetFirstGreaterEqual :: "('k \<Rightarrow> nat \<Rightarrow> int) \<Rightarrow> 'k \<Rightarrow> avl \<Rightarrow> (avl \<times> nat option) option" where
  "CAvl_GetFirstGreaterEqual cmpk key t = neighbour cmpk key (\<lambda>ord. ord > 0) CAvl_GetNext t"

definition CAvl_GetLastLesserEqual :: "('k \<Rightarrow> nat \<Rightarrow> int) \<Rightarrow> 'k \<Rightarrow> avl \<Rightarrow> (avl \<times> nat option) option" where
  "CAvl_GetLastLesserEqual cmpk key t = neighbour cmpk key (\<lambda>ord. ord < 0) CAvl_GetPrev t"

definition CAvl_IsEmpty :: "avl \<Rightarrow> bool" where
  "CAvl_IsEmpty t = (tree_root t = None)"

text \<open>The check of the whole tree: the height of the subtree at \<open>n\<close>, and whether every forced assertion held.\<close>

partial_function (option) CAvl_verify_recurser :: "(nat \<Rightarrow> nat \<Rightarrow> int) \<Rightarrow> avl \<Rightarrow> nat \<Rightarrow> (bool \<times> int) option" where
  "CAvl_verify_recurser cmp t n =
    Option.bind (case avl_link t n False of
        None \<Rightarrow> Some (True, 0)
      | Some l \<Rightarrow> Option.bind (CAvl_verify_recurser cmp t l)
          (\<lambda>(ok, h). Some (ok \<and> avl_parent t l = Some n \<and> cmp l n = -1, h)))
      (\<lambda>(ok_left, height_left).
        Option.bind (case avl_link t n True of
            None \<Rightarrow> Some (True, 0)
          | Some r \<Rightarrow> Option.bind (CAvl_verify_recurser cmp t r)
              (\<lambda>(ok, h). Some (ok \<and> avl_parent t r = Some n \<and> cmp r n = 1, h)))
          (\<lambda>(ok_right, height_right).
            Some (ok_left \<and> ok_right \<and> -1 \<le> avl_balance t n \<and> avl_balance t n \<le> 1
                \<and> avl_balance t n = height_right - height_left,
              CAvl_MAX height_left height_right + 1)))"

definition CAvl_Verify :: "(nat \<Rightarrow> nat \<Rightarrow> int) \<Rightarrow> avl \<Rightarrow> bool option" where
  "CAvl_Verify cmp t = (case tree_root t of
      None \<Rightarrow> Some True
    | Some r \<Rightarrow> (case CAvl_verify_recurser cmp t r of
        None \<Rightarrow> None | Some (ok, _) \<Rightarrow> Some (ok \<and> avl_parent t r = None)))"

text \<open>
  \<open>structure/SAvl_impl.h\<close> hands these operations on for links that are pointers; these are the ones the fair queue calls.
\<close>

definition SAvl_Init :: "avl \<Rightarrow> avl" where
  "SAvl_Init t = CAvl_Init t"

definition SAvl_Insert :: "(nat \<Rightarrow> nat \<Rightarrow> int) \<Rightarrow> nat \<Rightarrow> avl \<Rightarrow> (avl \<times> bool) option" where
  "SAvl_Insert cmp entry t = (case CAvl_Insert cmp entry t of None \<Rightarrow> None | Some (t, res, out_ref) \<Rightarrow> Some (t, res))"

definition SAvl_Remove :: "nat \<Rightarrow> avl \<Rightarrow> avl option" where
  "SAvl_Remove entry t = CAvl_Remove entry t"

definition SAvl_GetFirst :: "avl \<Rightarrow> nat option option" where
  "SAvl_GetFirst t = CAvl_GetFirst t"

definition SAvl_IsEmpty :: "avl \<Rightarrow> bool" where
  "SAvl_IsEmpty t = CAvl_IsEmpty t"

section \<open>Trees in the store\<close>

text \<open>
  A tree with the subtree \<open>a\<close> on side \<open>s\<close> of \<open>x\<close> and \<open>b\<close> on the other; a tree whose nodes are linked
  in the store below \<open>q\<close>; and one whose balance factors in the store are right.
\<close>

definition nd :: "bool \<Rightarrow> nat tree \<Rightarrow> nat \<Rightarrow> nat tree \<Rightarrow> nat tree" where
  "nd s a x b = (if s then Node b x a else Node a x b)"

fun is_tree :: "avl \<Rightarrow> nat option \<Rightarrow> nat tree \<Rightarrow> nat option \<Rightarrow> bool" where
  "is_tree h q Leaf p = (p = None)"
| "is_tree h q (Node l x r) p = (p = Some x \<and> avl_parent h x = q
     \<and> is_tree h (Some x) l (avl_link h x False) \<and> is_tree h (Some x) r (avl_link h x True))"

fun bal_ok :: "avl \<Rightarrow> nat tree \<Rightarrow> bool" where
  "bal_ok h Leaf = True"
| "bal_ok h (Node l x r) = (bal_ok h l \<and> bal_ok h r \<and> avl_balance h x = int (height r) - int (height l)
     \<and> \<bar>avl_balance h x\<bar> \<le> 1)"

text \<open>
  A tree with a hole, as the list of the nodes from the hole up to the root, each with the side the hole is on and
  the subtree on the other side. \<open>k\<close> is the height the balance factors attribute to the hole.
\<close>

type_synonym frame = "bool \<times> nat \<times> nat tree"

fun is_ctx :: "avl \<Rightarrow> nat option \<Rightarrow> frame list \<Rightarrow> nat option \<Rightarrow> bool" where
  "is_ctx h q [] p = (q = None \<and> tree_root h = p)"
| "is_ctx h q ((s, x, b) # c) p = (q = Some x \<and> avl_link h x s = p
     \<and> is_tree h (Some x) b (avl_link h x (\<not> s)) \<and> is_ctx h (avl_parent h x) c (Some x))"

fun plug :: "nat tree \<Rightarrow> frame list \<Rightarrow> nat tree" where
  "plug t [] = t"
| "plug t ((s, x, b) # c) = plug (nd s t x b) c"

fun ctx_bal :: "avl \<Rightarrow> int \<Rightarrow> frame list \<Rightarrow> bool" where
  "ctx_bal h k [] = True"
| "ctx_bal h k ((s, x, b) # c) = (bal_ok h b \<and> avl_balance h x = (if s then k - int (height b) else int (height b) - k)
     \<and> \<bar>avl_balance h x\<bar> \<le> 1 \<and> ctx_bal h (1 + max k (int (height b))) c)"

fun ctx_nodes :: "frame list \<Rightarrow> nat set" where
  "ctx_nodes [] = {}"
| "ctx_nodes ((s, x, b) # c) = insert x (set_tree b) \<union> ctx_nodes c"

fun ctx_distinct :: "frame list \<Rightarrow> bool" where
  "ctx_distinct [] = True"
| "ctx_distinct ((s, x, b) # c) = (x \<notin> set_tree b \<and> distinct (inorder b) \<and> ctx_distinct c
     \<and> insert x (set_tree b) \<inter> ctx_nodes c = {})"

lemma nd_simps [simp]:
  "is_tree h q (nd s a x b) p = (p = Some x \<and> avl_parent h x = q
     \<and> is_tree h (Some x) a (avl_link h x s) \<and> is_tree h (Some x) b (avl_link h x (\<not> s)))"
  "set_tree (nd s a x b) = insert x (set_tree a \<union> set_tree b)"
  "height (nd s a x b) = Suc (max (height a) (height b))"
  "distinct (inorder (nd s a x b)) = (x \<notin> set_tree a \<and> x \<notin> set_tree b \<and> distinct (inorder a) \<and> distinct (inorder b)
     \<and> set_tree a \<inter> set_tree b = {})"
  "bal_ok h (nd s a x b) = (bal_ok h a \<and> bal_ok h b \<and> \<bar>avl_balance h x\<bar> \<le> 1
     \<and> avl_balance h x = (if s then int (height a) - int (height b) else int (height b) - int (height a)))"
  by (auto simp: nd_def)

lemma nd_not_leaf [simp]: "nd s a x b \<noteq> Leaf" "Leaf \<noteq> nd s a x b"
  by (auto simp: nd_def)

lemma tree_nd_cases: "t = Leaf \<or> (\<exists>a x b. t = nd s a x b)"
proof (cases t)
  case (Node l x r)
  then show ?thesis by (cases s) (auto simp: nd_def)
qed simp

lemma inorder_rotate: "inorder (nd d (nd d a r b) y c) = inorder (nd d a r (nd d b y c))"
  by (simp add: nd_def)

lemma inorder_rotate2:
  "inorder (nd d (nd d a x b1) g (nd d b2 y c)) = inorder (nd d a x (nd d (nd d b1 g b2) y c))"
  by (simp add: nd_def)

lemma is_tree_null: "is_tree h q t p \<Longrightarrow> p = None \<longleftrightarrow> t = Leaf"
  by (cases t) auto

lemma is_tree_root: "is_tree h q t (Some x) \<Longrightarrow> x \<in> set_tree t \<and> avl_parent h x = q"
  by (cases t) auto

lemma set_tree_inorder: "x \<in> set_tree t \<longleftrightarrow> x \<in> set (inorder t)"
  by simp

text \<open>What the predicates depend on.\<close>

lemma is_tree_cong:
  "(\<And>x. x \<in> set_tree t \<Longrightarrow> avl_parent h' x = avl_parent h x \<and> avl_link h' x = avl_link h x) \<Longrightarrow> is_tree h' q t p = is_tree h q t p"
  by (induction t arbitrary: q p) auto

lemma is_ctx_cong:
  "(\<And>x. x \<in> ctx_nodes c \<Longrightarrow> avl_parent h' x = avl_parent h x \<and> avl_link h' x = avl_link h x) \<Longrightarrow> tree_root h' = tree_root h \<Longrightarrow>
   is_ctx h' q c p = is_ctx h q c p"
proof (induction c arbitrary: q p)
  case (Cons f c)
  obtain s x b where f: "f = (s, x, b)" by (cases f) auto
  have "is_tree h' (Some x) b p' = is_tree h (Some x) b p'" for p'
    using Cons.prems(1) by (intro is_tree_cong) (simp add: f)
  moreover have "is_ctx h' q' c p' = is_ctx h q' c p'" for q' p'
    using Cons.prems by (intro Cons.IH) (simp_all add: f)
  ultimately show ?case using Cons.prems(1) [of x] by (simp add: f)
qed simp

lemma bal_ok_cong: "(\<And>x. x \<in> set_tree t \<Longrightarrow> avl_balance h' x = avl_balance h x) \<Longrightarrow> bal_ok h' t = bal_ok h t"
  by (induction t) auto

lemma ctx_bal_cong: "(\<And>x. x \<in> ctx_nodes c \<Longrightarrow> avl_balance h' x = avl_balance h x) \<Longrightarrow> ctx_bal h' k c = ctx_bal h k c"
proof (induction c arbitrary: k)
  case (Cons f c)
  obtain s x b where f: "f = (s, x, b)" by (cases f) auto
  have "bal_ok h' b = bal_ok h b" using Cons.prems by (intro bal_ok_cong) (simp add: f)
  then show ?case using Cons by (simp add: f)
qed simp

lemma distinct_plug:
  "distinct (inorder (plug t c)) \<longleftrightarrow> distinct (inorder t) \<and> ctx_distinct c \<and> set_tree t \<inter> ctx_nodes c = {}"
  by (induction c arbitrary: t rule: ctx_nodes.induct) auto

lemma is_tree_plug: "is_tree h None (plug t c) (tree_root h) \<longleftrightarrow> (\<exists>q p. is_ctx h q c p \<and> is_tree h q t p)"
  by (induction c arbitrary: t rule: ctx_nodes.induct) auto

lemma bal_ok_plug: "bal_ok h (plug t c) \<longleftrightarrow> bal_ok h t \<and> ctx_bal h (int (height t)) c"
  by (induction c arbitrary: t rule: ctx_nodes.induct) (auto simp: algebra_simps of_nat_max)

fun ctx_left :: "frame list \<Rightarrow> nat list" where
  "ctx_left [] = []"
| "ctx_left ((s, x, b) # c) = ctx_left c @ (if s then inorder b @ [x] else [])"

fun ctx_right :: "frame list \<Rightarrow> nat list" where
  "ctx_right [] = []"
| "ctx_right ((s, x, b) # c) = (if s then [] else x # inorder b) @ ctx_right c"

lemma inorder_plug: "inorder (plug t c) = ctx_left c @ inorder t @ ctx_right c"
  by (induction c arbitrary: t rule: ctx_left.induct) (simp_all add: nd_def)

lemma set_tree_plug: "set_tree (plug t c) = set_tree t \<union> ctx_nodes c"
  by (induction c arbitrary: t rule: ctx_nodes.induct) auto


section \<open>Rotation\<close>

lemma A_ASSERT_True [simp]: "b \<Longrightarrow> A_ASSERT b h = h"
  by (simp add: A_ASSERT_def)

lemma store_sel [simp]:
  "avl_parent (set_parent n p h) = (avl_parent h)(n := p)" "avl_link (set_parent n p h) = avl_link h"
  "avl_balance (set_parent n p h) = avl_balance h" "tree_root (set_parent n p h) = tree_root h" "avl_fault (set_parent n p h) = avl_fault h"
  "avl_parent (set_link n s p h) = avl_parent h" "avl_link (set_link n s p h) = (avl_link h)(n := (avl_link h n)(s := p))"
  "avl_balance (set_link n s p h) = avl_balance h" "tree_root (set_link n s p h) = tree_root h" "avl_fault (set_link n s p h) = avl_fault h"
  "avl_parent (set_balance n k h) = avl_parent h" "avl_link (set_balance n k h) = avl_link h"
  "avl_balance (set_balance n k h) = (avl_balance h)(n := k)" "tree_root (set_balance n k h) = tree_root h"
  "avl_fault (set_balance n k h) = avl_fault h"
  "avl_link (set_parent_opt a p h) = avl_link h" "avl_balance (set_parent_opt a p h) = avl_balance h"
  "tree_root (set_parent_opt a p h) = tree_root h" "avl_fault (set_parent_opt a p h) = avl_fault h"
  "avl_parent (set_down_link q r p h) = avl_parent h" "avl_balance (set_down_link q r p h) = avl_balance h"
  "avl_fault (set_down_link q r p h) = avl_fault h"
  by (simp_all add: set_parent_def set_link_def set_balance_def set_parent_opt_def set_down_link_def split: option.split)

lemma parent_opt: "avl_parent (set_parent_opt a p h) n = (if a = Some n then p else avl_parent h n)"
  by (simp add: set_parent_opt_def split: option.split)

lemma down_link: "avl_link (set_down_link q r p h) n =
  (if q = Some n then (avl_link h n)((Some r = avl_link h n True) := p) else avl_link h n)"
  "tree_root (set_down_link q r p h) = (if q = None then p else tree_root h)"
  by (simp_all add: set_down_link_def split: option.split)

lemma is_tree_other [simp]:
  "n \<notin> set_tree t \<Longrightarrow> is_tree (set_link n s v h) q t p = is_tree h q t p"
  "n \<notin> set_tree t \<Longrightarrow> is_tree (set_parent n w h) q t p = is_tree h q t p"
  "is_tree (set_balance n k h) q t p = is_tree h q t p"
  by (rule is_tree_cong; auto)+

lemma is_ctx_other [simp]:
  "n \<notin> ctx_nodes c \<Longrightarrow> is_ctx (set_link n s v h) q c p = is_ctx h q c p"
  "n \<notin> ctx_nodes c \<Longrightarrow> is_ctx (set_parent n w h) q c p = is_ctx h q c p"
  "is_ctx (set_balance n k h) q c p = is_ctx h q c p"
  by (rule is_ctx_cong; auto)+

lemma is_tree_reparent:
  assumes "is_tree h q t p" and "distinct (inorder t)"
  shows "is_tree (set_parent_opt p q' h) q' t p"
proof (cases t)
  case (Node l x r)
  have "is_tree (set_parent x q' h) (Some x) l (avl_link h x False)" "is_tree (set_parent x q' h) (Some x) r (avl_link h x True)"
    using assms Node by auto
  then show ?thesis using assms Node by (simp add: set_parent_opt_def)
qed (use assms in \<open>simp add: set_parent_opt_def\<close>)

lemma is_tree_parent_opt: "(\<And>n. a = Some n \<Longrightarrow> n \<notin> set_tree t) \<Longrightarrow> is_tree (set_parent_opt a w h) q t p = is_tree h q t p"
  by (rule is_tree_cong) (auto simp: parent_opt)

lemma is_ctx_parent_opt: "(\<And>n. a = Some n \<Longrightarrow> n \<notin> ctx_nodes c) \<Longrightarrow> is_ctx (set_parent_opt a w h) q c p = is_ctx h q c p"
  by (rule is_ctx_cong) (auto simp: parent_opt)

text \<open>Replacing what is in the hole.\<close>

lemma ctx_child_side:
  assumes "is_ctx h (Some x) ((s, x, b) # c) (Some r)" and "r \<notin> ctx_nodes ((s, x, b) # c)"
  shows "(Some r = avl_link h x True) = s"
  using assms is_tree_root [of h "Some x" b r] by (cases s) auto

lemma is_ctx_down:
  assumes "is_ctx h q c (Some r)" and "r \<notin> ctx_nodes c" and "ctx_distinct c"
  shows "is_ctx (set_down_link q r n h) q c n"
proof (cases c)
  case Nil
  then show ?thesis using assms by (simp add: down_link)
next
  case (Cons f c')
  obtain s x b where f: "f = (s, x, b)" by (cases f) auto
  have q: "q = Some x" using assms(1) by (simp add: Cons f)
  have s: "(Some r = avl_link h x True) = s"
    using ctx_child_side [of h x s b c' r] assms(1,2) by (simp add: Cons f)
  have eq: "set_down_link q r n h = set_link x s n h" by (simp add: set_down_link_def q s)
  show ?thesis unfolding eq using assms by (simp add: Cons f)
qed

lemma is_tree_down: "(\<And>n. q = Some n \<Longrightarrow> n \<notin> set_tree t) \<Longrightarrow> is_tree (set_down_link q r v h) q' t p = is_tree h q' t p"
  by (rule is_tree_cong) (auto simp: down_link)

lemma ctx_parent: "is_ctx h q c p \<Longrightarrow> q = Some n \<Longrightarrow> n \<in> ctx_nodes c"
  by (cases c) auto

lemma ctx_check_parent: "is_ctx h q c (Some r) \<Longrightarrow> avl_parent h r = q \<Longrightarrow> CAvl_check_parent h q r"
proof (cases c)
  case (Cons f c')
  assume a: "is_ctx h q c (Some r)" "avl_parent h r = q"
  obtain s x b where f: "f = (s, x, b)" by (cases f) auto
  show ?thesis using a by (cases s) (auto simp: Cons f CAvl_check_parent_def)
qed (simp add: CAvl_check_parent_def)

lemma rotate_ok:
  assumes t: "is_tree h q (nd d A r (nd d B y C)) (Some r)" and c: "is_ctx h q c (Some r)"
    and dist: "distinct (inorder (plug (nd d A r (nd d B y C)) c))"
  defines "h' \<equiv> CAvl_rotate r d q h"
  shows "is_tree h' q (nd d (nd d A r B) y C) (Some y)" and "is_ctx h' q c (Some y)"
    and "avl_balance h' = avl_balance h" and "avl_fault h' = avl_fault h"
proof -
  have D: "distinct (inorder A)" "distinct (inorder B)" "distinct (inorder C)" "ctx_distinct c" "r \<noteq> y"
    "r \<notin> set_tree A" "r \<notin> set_tree B" "r \<notin> set_tree C" "y \<notin> set_tree A" "y \<notin> set_tree B" "y \<notin> set_tree C"
    "set_tree A \<inter> set_tree B = {}" "set_tree A \<inter> set_tree C = {}" "set_tree B \<inter> set_tree C = {}"
    "r \<notin> ctx_nodes c" "y \<notin> ctx_nodes c" "set_tree A \<inter> ctx_nodes c = {}" "set_tree B \<inter> ctx_nodes c = {}" "set_tree C \<inter> ctx_nodes c = {}"
    using dist by (auto simp: distinct_plug)
  have T: "avl_parent h r = q" "avl_link h r (\<not> d) = Some y" "avl_parent h y = Some r" "is_tree h (Some r) A (avl_link h r d)"
    "is_tree h (Some y) B (avl_link h y d)" "is_tree h (Some y) C (avl_link h y (\<not> d))"
    using t by simp_all
  define b where "b = avl_link h y d"
  have nq: "q \<noteq> Some r" "q \<noteq> Some y" "\<And>n. q = Some n \<Longrightarrow> n \<notin> set_tree A \<and> n \<notin> set_tree B \<and> n \<notin> set_tree C"
    using ctx_parent [OF c] D by auto
  have nb: "b = Some n \<Longrightarrow> n \<in> set_tree B" for n using T(5) is_tree_root [of h "Some y" B n] by (simp add: b_def)
  define h1 where "h1 = set_parent_opt b (Some r) (set_link r (\<not> d) b h)"
  define h2 where "h2 = set_parent y q (set_link y d (Some r) h1)"
  have h': "h' = set_parent r (Some y) (set_down_link q r (Some y) h2)"
    using ctx_check_parent [OF c T(1)] T(2) by (simp add: h'_def CAvl_rotate_def Let_def h2_def h1_def b_def D(5))
  have B1: "is_tree h1 (Some r) B b"
    unfolding h1_def using T(5) D by (intro is_tree_reparent [of _ "Some y"]) (simp_all add: b_def)
  have A1: "is_tree h1 (Some r) A (avl_link h r d)" and C1: "is_tree h1 (Some y) C (avl_link h y (\<not> d))"
    unfolding h1_def using T nb D by (subst is_tree_parent_opt; auto)+
  have c1: "is_ctx h1 q c (Some r)"
    unfolding h1_def using c nb D by (subst is_ctx_parent_opt) auto
  have l1: "avl_link h1 r = (avl_link h r)((\<not> d) := b)" "avl_link h1 y = avl_link h y"
    using D(5) by (simp_all add: h1_def)
  have l2: "avl_link h2 r = (avl_link h r)((\<not> d) := b)" "avl_link h2 y = (avl_link h y)(d := Some r)"
    using D(5) l1 by (simp_all add: h2_def)
  have lf: "avl_link h' r = avl_link h2 r" "avl_link h' y = avl_link h2 y"
    using nq(1,2) by (simp_all add: h' down_link)
  have pf: "avl_parent h' r = Some y" "avl_parent h' y = q"
    using D(5) by (simp_all add: h' h2_def)
  have keep: "is_tree h' q' t p = is_tree h1 q' t p"
    if "r \<notin> set_tree t" "y \<notin> set_tree t" "\<And>n. q = Some n \<Longrightarrow> n \<notin> set_tree t" for q' t p
    unfolding h' h2_def using that by (simp add: is_tree_down)
  have "is_tree h' (Some r) A (avl_link h' r d)" "is_tree h' (Some r) B (avl_link h' r (\<not> d))"
    "is_tree h' (Some y) C (avl_link h' y (\<not> d))"
    using keep [of A] keep [of B] keep [of C] D nq(3) A1 B1 C1 l2 lf by auto
  then show "is_tree h' q (nd d (nd d A r B) y C) (Some y)" using pf l2 lf by simp
  have "is_ctx h2 q c (Some r)" using c1 D by (simp add: h2_def)
  then show "is_ctx h' q c (Some y)" unfolding h' using D by (simp add: is_ctx_down)
  show "avl_balance h' = avl_balance h" "avl_fault h' = avl_fault h" by (simp_all add: h' h2_def h1_def)
qed

section \<open>Rebalancing\<close>

lemma nd_flip: "nd s a x b = nd (\<not> s) b x a"
  by (simp add: nd_def)

lemma single_rotation:
  fixes k k' :: int
  assumes t: "is_tree h q (nd (\<not> bs) L x (nd (\<not> bs) B y C)) (Some x)" and c: "is_ctx h q c (Some x)"
    and dist: "distinct (inorder (plug (nd (\<not> bs) L x (nd (\<not> bs) B y C)) c))"
  defines "h' \<equiv> set_balance y k' (set_balance x k (CAvl_rotate x (\<not> bs) q h))"
  shows "is_tree h' q (nd (\<not> bs) (nd (\<not> bs) L x B) y C) (Some y)" and "is_ctx h' q c (Some y)" and "avl_fault h' = avl_fault h"
    and "avl_balance h' = (avl_balance h)(x := k, y := k')"
  using rotate_ok [OF t c dist] by (simp_all add: h'_def)

lemma ctx_parent_unique: "is_ctx h q c p \<Longrightarrow> is_ctx h' q' c p' \<Longrightarrow> q = q'"
  by (cases c) auto

lemma double_rotation:
  assumes t: "is_tree h q (nd (\<not> bs) L x (nd (\<not> bs) (nd (\<not> bs) B1 g B2) y C)) (Some x)" and c: "is_ctx h q c (Some x)"
    and dist: "distinct (inorder (plug (nd (\<not> bs) L x (nd (\<not> bs) (nd (\<not> bs) B1 g B2) y C)) c))"
  defines "h1 \<equiv> CAvl_rotate y bs (Some x) h"
  defines "h2 \<equiv> CAvl_rotate x (\<not> bs) q h1"
  shows "avl_balance h1 = avl_balance h"
    and "is_tree h1 q (nd (\<not> bs) L x (nd (\<not> bs) B1 g (nd (\<not> bs) B2 y C))) (Some x)"
    and "is_tree h2 q (nd (\<not> bs) (nd (\<not> bs) L x B1) g (nd (\<not> bs) B2 y C)) (Some g)" and "is_ctx h2 q c (Some g)"
    and "avl_balance h2 = avl_balance h" and "avl_fault h2 = avl_fault h"
proof -
  let ?c = "(bs, x, L) # c"
  have f: "nd (\<not> bs) (nd (\<not> bs) B1 g B2) y C = nd bs C y (nd bs B2 g B1)"
    "nd (\<not> bs) B1 g (nd (\<not> bs) B2 y C) = nd bs (nd bs C y B2) g B1"
    by (auto simp: nd_def)
  have t1: "is_tree h (Some x) (nd bs C y (nd bs B2 g B1)) (Some y)" and c1: "is_ctx h (Some x) ?c (Some y)"
    using t c by auto
  have d1: "distinct (inorder (plug (nd bs C y (nd bs B2 g B1)) ?c))"
    using dist unfolding f plug.simps by (simp only: nd_flip [of bs _ x])
  note r1 = rotate_ok [OF t1 c1 d1, folded h1_def]
  show "avl_balance h1 = avl_balance h" by (rule r1)
  show t2: "is_tree h1 q (nd (\<not> bs) L x (nd (\<not> bs) B1 g (nd (\<not> bs) B2 y C))) (Some x)"
    using r1(1,2) t1 t ctx_parent_unique [of h1 "avl_parent h1 x" c "Some x" h q "Some x"] c unfolding f by auto
  have c2: "is_ctx h1 q c (Some x)" using r1(2) t2 by simp
  have d2: "distinct (inorder (plug (nd (\<not> bs) L x (nd (\<not> bs) B1 g (nd (\<not> bs) B2 y C))) c))"
    using dist by (auto simp: distinct_plug)
  note r2 = rotate_ok [OF t2 c2 d2, folded h2_def]
  show "is_tree h2 q (nd (\<not> bs) (nd (\<not> bs) L x B1) g (nd (\<not> bs) B2 y C)) (Some g)" and "is_ctx h2 q c (Some g)"
    by (rule r2)+
  show "avl_balance h2 = avl_balance h" and "avl_fault h2 = avl_fault h" using r1(3,4) r2(3,4) by simp_all
qed

text \<open>
  The outcome of one level: \<open>t\<close> was the subtree at the node, \<open>old\<close> its height before the change below it.
\<close>

definition level_done :: "avl \<Rightarrow> nat option \<Rightarrow> frame list \<Rightarrow> nat tree \<Rightarrow> int \<Rightarrow> avl \<times> nat \<times> int \<Rightarrow> bool" where
  "level_done h q c t old res \<longleftrightarrow> (case res of (h', n, delta) \<Rightarrow> \<exists>t'. is_tree h' q t' (Some n) \<and> is_ctx h' q c (Some n)
     \<and> inorder t' = inorder t \<and> bal_ok h' t' \<and> int (height t') = old + delta \<and> avl_fault h' = avl_fault h
     \<and> (\<forall>z. z \<notin> set_tree t \<longrightarrow> avl_balance h' z = avl_balance h z))"

lemma level_doneI:
  assumes "is_tree h' q t' (Some n)" and "is_ctx h' q c (Some n)" and "inorder t' = inorder t" and "bal_ok h' t'"
    and "int (height t') = old + delta" and "avl_fault h' = avl_fault h"
    and "\<And>z. z \<notin> set_tree t \<Longrightarrow> avl_balance h' z = avl_balance h z"
  shows "level_done h q c t old (h', n, delta)"
  unfolding level_done_def using assms by auto

lemma transform_ok:
  assumes t: "is_tree h q (nd (\<not> bs) L x R) (Some x)" and c: "is_ctx h q c (Some x)"
    and dist: "distinct (inorder (plug (nd (\<not> bs) L x R) c))"
    and L: "bal_ok h L" and R: "bal_ok h R" and ht: "height R = height L + 2" and old: "old + delta = int (height R) + 1"
  shows "level_done h q c (nd (\<not> bs) L x R) old (rebalance_transform bs x delta h)
    \<and> snd (snd (rebalance_transform bs x delta h)) \<in> {delta, delta - 1}"
proof -
  have "R \<noteq> Leaf" using ht by auto
  then obtain B y C where R': "R = nd (\<not> bs) B y C" using tree_nd_cases [of R "\<not> bs"] by auto
  have p: "avl_parent h x = q" and ly: "avl_link h x bs = Some y" using t by (simp_all add: R')
  let ?f = "if bs then 1 else - 1 :: int"
  have b: "avl_balance h y * ?f = int (height C) - int (height B)" "\<bar>avl_balance h y\<bar> \<le> 1"
    using R by (auto simp: R')
  have D: "x \<noteq> y" "x \<notin> set_tree L" "y \<notin> set_tree L" "x \<notin> set_tree B" "x \<notin> set_tree C" "y \<notin> set_tree B" "y \<notin> set_tree C"
    using dist by (auto simp: distinct_plug R')
  note rot = single_rotation [OF t [unfolded R'] c dist [unfolded R']]
  have BC: "bal_ok h B" "bal_ok h C" using R by (simp_all add: R')
  consider "height C = height B + 1" | "height C = height B" | "height B = height C + 1"
    using b by (cases bs) (simp_all, linarith+)
  then show ?thesis
  proof cases
    case 1
    define h' where "h' = set_balance y 0 (set_balance x 0 (CAvl_rotate x (\<not> bs) q h))"
    have e: "rebalance_transform bs x delta h = (h', y, delta - 1)"
      using b(1) 1 by (simp add: rebalance_transform_def ly p Let_def h'_def)
    note rot = rot [where k = 0 and k' = 0, folded h'_def]
    have "bal_ok h' T = bal_ok h T" if "x \<notin> set_tree T" "y \<notin> set_tree T" for T
      using that rot(4) by (intro bal_ok_cong) auto
    then show ?thesis
      unfolding e snd_conv
      by (intro conjI level_doneI [OF rot(1,2)]) (use rot(3,4) ht 1 old D L BC in \<open>auto simp: inorder_rotate R'\<close>)
  next
    case 2
    define h' where "h' = set_balance y (-1 * ?f) (set_balance x (1 * ?f) (CAvl_rotate x (\<not> bs) q h))"
    have e: "rebalance_transform bs x delta h = (h', y, delta)"
      using b(1) 2 by (auto simp: rebalance_transform_def ly p Let_def h'_def)
    note rot = rot [where k = "1 * ?f" and k' = "-1 * ?f", folded h'_def]
    have "bal_ok h' T = bal_ok h T" if "x \<notin> set_tree T" "y \<notin> set_tree T" for T
      using that rot(4) by (intro bal_ok_cong) auto
    then show ?thesis
      unfolding e snd_conv
      by (intro conjI level_doneI [OF rot(1,2)]) (use rot(3,4) ht 2 old D L BC in \<open>auto simp: inorder_rotate R'\<close>)
  next
    case 3
    then have "B \<noteq> Leaf" by auto
    then obtain B1 g B2 where B': "B = nd (\<not> bs) B1 g B2" using tree_nd_cases [of B "\<not> bs"] by auto
    have lg: "avl_link h y (\<not> bs) = Some g" using t by (simp add: R' B')
    have D2: "g \<noteq> x" "g \<noteq> y" "g \<notin> set_tree L" "g \<notin> set_tree C" "g \<notin> set_tree B1" "g \<notin> set_tree B2"
      using dist by (auto simp: distinct_plug R' B')
    define h1 where "h1 = CAvl_rotate y bs (Some x) h"
    note dbl = double_rotation [OF t [unfolded R' B'] c dist [unfolded R' B'], folded h1_def]
    let ?bg = "int (height B2) - int (height B1)"
    have bg: "avl_balance h1 g * ?f = ?bg" "\<bar>?bg\<bar> \<le> 1"
      using BC(1) dbl(1) by (auto simp: B' split: if_splits)
    have p1: "avl_parent h1 x = q" using dbl(2) by simp
    define h' where "h' = set_balance g 0 (set_balance y (CAvl_MAX 0 (- ?bg) * ?f) (set_balance x (- CAvl_MAX 0 ?bg * ?f)
      (CAvl_rotate x (\<not> bs) q h1)))"
    have hb: "avl_balance h g = (if bs then ?bg else - ?bg)"
      using bg(1) dbl(1) by (auto split: if_splits)
    have e: "rebalance_transform bs x delta h = (h', g, delta - 1)"
      using b(1) 3 p1 D2 D dbl(1,5) hb ly lg p h1_def
      by (cases bs) (simp_all add: rebalance_transform_def Let_def h'_def)
    have bal: "avl_balance h' = (avl_balance h)(x := - CAvl_MAX 0 ?bg * ?f, y := CAvl_MAX 0 (- ?bg) * ?f, g := 0)"
      using dbl(1,5) by (simp add: h'_def)
    have "bal_ok h' T = bal_ok h T" if "x \<notin> set_tree T" "y \<notin> set_tree T" "g \<notin> set_tree T" for T
      using that bal by (intro bal_ok_cong) auto
    moreover have tr: "is_tree h' q (nd (\<not> bs) (nd (\<not> bs) L x B1) g (nd (\<not> bs) B2 y C)) (Some g)" "is_ctx h' q c (Some g)"
      "avl_fault h' = avl_fault h"
      using dbl by (simp_all add: h'_def)
    ultimately show ?thesis
      unfolding e snd_conv
      by (intro conjI level_doneI [OF tr(1,2)])
        (use tr(3) ht 3 old D D2 L BC bal bg(2) in \<open>auto simp: inorder_rotate2 R' B' CAvl_MAX_def\<close>)
  qed
qed

lemma bal_ok_other [simp]:
  "n \<notin> set_tree t \<Longrightarrow> bal_ok (set_balance n k h) t = bal_ok h t"
  "bal_ok (set_link n s v h) t = bal_ok h t" "bal_ok (set_parent n w h) t = bal_ok h t"
  by (rule bal_ok_cong; auto)+

lemma A_ASSERT_abs [simp]: "\<bar>d :: int\<bar> \<le> 1 \<Longrightarrow> A_ASSERT (- 1 \<le> d \<and> d \<le> 1) h = h"
  by (intro A_ASSERT_True) linarith

lemma level_ok:
  assumes t: "is_tree h q (nd side X x Y) (Some x)" and c: "is_ctx h q c (Some x)"
    and dist: "distinct (inorder (plug (nd side X x Y) c))" and X: "bal_ok h X" and Y: "bal_ok h Y"
    and hX: "int (height X) = k + deltac" and dc: "deltac = -1 \<or> deltac = 1"
    and b: "avl_balance h x = (if side then k - int (height Y) else int (height Y) - k)" "\<bar>avl_balance h x\<bar> \<le> 1"
  defines "res \<equiv> rebalance_level x side deltac h"
  shows "level_done h q c (nd side X x Y) (1 + max k (int (height Y))) res \<and> \<bar>snd (snd res)\<bar> \<le> 1"
proof -
  define e where "e = int (height Y) - k"
  have e: "CAvl_OPTNEG (avl_balance h x) side = e" "\<bar>e\<bar> \<le> 1"
    using b by (auto simp: CAvl_OPTNEG_def e_def split: if_splits)
  define delta where "delta = max deltac e - max 0 e"
  have d: "CAvl_MAX deltac (CAvl_OPTNEG (avl_balance h x) side) - CAvl_MAX 0 (CAvl_OPTNEG (avl_balance h x) side) = delta"
    "\<bar>delta\<bar> \<le> 1"
    using e dc by (auto simp: delta_def CAvl_MAX_def max_def)
  let ?nb = "if side then int (height X) - int (height Y) else int (height Y) - int (height X)"
  define h2 where "h2 = set_balance x ?nb h"
  have nb: "avl_balance h x - CAvl_OPTNEG deltac side = ?nb" using b hX by (simp add: CAvl_OPTNEG_def)
  have old: "1 + max k (int (height Y)) + delta = 1 + max (int (height X)) (int (height Y))"
    using hX by (auto simp: delta_def e_def max_def)
  have t2b: "avl_balance h2 x = ?nb" by (simp add: h2_def)
  have eq: "res = (if ?nb = 2 \<or> ?nb = -2 then rebalance_transform (?nb = 2) x delta h2 else (h2, x, delta))"
  proof -
    have a: "A_ASSERT (delta \<ge> -1 \<and> delta \<le> 1) h = h" using d(2) by (intro A_ASSERT_True) linarith
    show ?thesis
      unfolding res_def rebalance_level_def Let_def d(1) a nb h2_def [symmetric] using t2b by simp
  qed
  have nx: "x \<notin> set_tree X" "x \<notin> set_tree Y" using dist by (auto simp: distinct_plug)
  have k2: "bal_ok h2 X" "bal_ok h2 Y" using X Y nx by (simp_all add: h2_def)
  have t2: "is_tree h2 q (nd side X x Y) (Some x)" "is_ctx h2 q c (Some x)" "avl_balance h2 x = ?nb" using t c by (simp_all add: h2_def)
  have up: "level_done h q c T old' r" if "level_done h2 q c T old' r" "x \<in> set_tree T" for T old' r
    using that by (auto simp: level_done_def h2_def split: prod.splits)
  show ?thesis
  proof (cases "?nb = 2 \<or> ?nb = -2")
    case False
    have "\<bar>?nb\<bar> \<le> 1" using False e hX dc by (auto simp: e_def)
    moreover have "res = (h2, x, delta)" using False eq by simp
    moreover have "level_done h q c (nd side X x Y) (1 + max k (int (height Y))) (h2, x, delta)"
      using t2(3) calculation(1) k2 old by (intro level_doneI [OF t2(1,2)]) (auto simp: of_nat_max h2_def)
    ultimately show ?thesis using d(2) by simp
  next
    case True
    define bs where "bs = (?nb = 2)"
    define L R where "L = (if side = bs then Y else X)" and "R = (if side = bs then X else Y)"
    have T: "nd side X x Y = nd (\<not> bs) L x R" by (auto simp: L_def R_def nd_def)
    have hR: "height R = height L + 2" using True by (auto simp: bs_def L_def R_def split: if_splits)
    have LR: "bal_ok h2 L" "bal_ok h2 R" using k2 by (auto simp: L_def R_def)
    have o2: "1 + max k (int (height Y)) + delta = int (height R) + 1" using old hR by (auto simp: L_def R_def)
    have r: "res = rebalance_transform bs x delta h2" using True eq by (simp add: bs_def)
    note ok = transform_ok [OF t2(1) [unfolded T] t2(2) dist [unfolded T] LR hR o2]
    have dd: "delta = 1 \<or> delta = 0"
      using hR e dc hX by (auto simp: delta_def e_def L_def R_def max_def split: if_splits)
    show ?thesis unfolding r T using ok up [of "nd (\<not> bs) L x R"] dd by auto
  qed
qed

text \<open>What holds when the tree below a node has changed its height by \<open>deltac\<close> and the balance factors from the node up have not.\<close>

definition pending_rebalance :: "avl \<Rightarrow> bool \<Rightarrow> nat tree \<Rightarrow> nat \<Rightarrow> nat tree \<Rightarrow> frame list \<Rightarrow> int \<Rightarrow> int \<Rightarrow> bool" where
  "pending_rebalance h side X x Y c k deltac \<longleftrightarrow>
     is_tree h (avl_parent h x) (nd side X x Y) (Some x) \<and> is_ctx h (avl_parent h x) c (Some x)
     \<and> distinct (inorder (plug (nd side X x Y) c)) \<and> bal_ok h X \<and> bal_ok h Y
     \<and> int (height X) = k + deltac \<and> \<bar>deltac\<bar> \<le> 1
     \<and> avl_balance h x = (if side then k - int (height Y) else int (height Y) - k) \<and> \<bar>avl_balance h x\<bar> \<le> 1
     \<and> ctx_bal h (1 + max k (int (height Y))) c"

definition rebalanced :: "avl \<Rightarrow> nat list \<Rightarrow> avl \<Rightarrow> bool" where
  "rebalanced h xs h' \<longleftrightarrow> (\<exists>T. is_tree h' None T (tree_root h') \<and> bal_ok h' T \<and> inorder T = xs \<and> avl_fault h' = avl_fault h)"

lemma pending_level:
  assumes p: "pending_rebalance h side X x Y c k deltac" and nz: "deltac \<noteq> 0"
  obtains h' n delta T where "rebalance_level x side deltac h = (h', n, delta)" "\<bar>delta\<bar> \<le> 1" "avl_fault h' = avl_fault h"
    "avl_parent h' n = avl_parent h x" "is_tree h' (avl_parent h x) T (Some n)" "is_ctx h' (avl_parent h x) c (Some n)"
    "inorder T = inorder (nd side X x Y)" "bal_ok h' T" "int (height T) = 1 + max k (int (height Y)) + delta"
    "ctx_bal h' (1 + max k (int (height Y))) c"
proof -
  obtain h' n delta where r: "rebalance_level x side deltac h = (h', n, delta)" by (metis prod_cases3)
  have dc: "deltac = -1 \<or> deltac = 1" using p nz unfolding pending_rebalance_def by linarith
  have "level_done h (avl_parent h x) c (nd side X x Y) (1 + max k (int (height Y))) (h', n, delta) \<and> \<bar>delta\<bar> \<le> 1"
    using level_ok [of h "avl_parent h x" side X x Y c k deltac, OF _ _ _ _ _ _ dc] p unfolding pending_rebalance_def r snd_conv
    by blast
  then obtain T where T: "is_tree h' (avl_parent h x) T (Some n)" "is_ctx h' (avl_parent h x) c (Some n)"
    "inorder T = inorder (nd side X x Y)" "bal_ok h' T" "int (height T) = 1 + max k (int (height Y)) + delta" "avl_fault h' = avl_fault h"
    "\<And>z. z \<notin> set_tree (nd side X x Y) \<Longrightarrow> avl_balance h' z = avl_balance h z" and d: "\<bar>delta\<bar> \<le> 1"
    by (auto simp: level_done_def)
  have "set_tree (nd side X x Y) \<inter> ctx_nodes c = {}" using p by (simp add: pending_rebalance_def distinct_plug)
  then have "ctx_bal h' (1 + max k (int (height Y))) c = ctx_bal h (1 + max k (int (height Y))) c"
    using T(7) by (intro ctx_bal_cong) blast
  then have "ctx_bal h' (1 + max k (int (height Y))) c" using p unfolding pending_rebalance_def by blast
  moreover have "avl_parent h' n = avl_parent h x" using is_tree_root [OF T(1)] by simp
  ultimately show ?thesis using that r T d by blast
qed

lemma pending_assert:
  assumes "pending_rebalance h side X x Y c k deltac"
  shows "A_ASSERT (deltac \<ge> -1 \<and> deltac \<le> 1 \<and> avl_balance h x \<ge> -1 \<and> avl_balance h x \<le> 1) h = h"
proof -
  have "\<bar>deltac\<bar> \<le> 1" "\<bar>avl_balance h x\<bar> \<le> 1" using assms unfolding pending_rebalance_def by blast+
  then show ?thesis by (intro A_ASSERT_True) linarith
qed

lemma rebalance_ok:
  assumes "pending_rebalance h side X x Y c k deltac"
  shows "\<exists>h'. CAvl_rebalance h x side deltac = Some h' \<and> rebalanced h (inorder (plug (nd side X x Y) c)) h'"
  using assms
proof (induction c arbitrary: h side X x Y k deltac)
  case Nil
  note a = pending_assert [OF Nil]
  show ?case
  proof (cases "deltac = 0")
    case True
    then have "CAvl_rebalance h x side deltac = Some h" using a by (subst CAvl_rebalance.simps) (simp add: Let_def)
    moreover have "rebalanced h (inorder (nd side X x Y)) h"
      using Nil True by (auto simp: pending_rebalance_def rebalanced_def intro!: exI [of _ "nd side X x Y"])
    ultimately show ?thesis by simp
  next
    case False
    obtain h' n delta T where l: "rebalance_level x side deltac h = (h', n, delta)" "\<bar>delta\<bar> \<le> 1" "avl_fault h' = avl_fault h"
      "avl_parent h' n = avl_parent h x" "is_tree h' (avl_parent h x) T (Some n)" "is_ctx h' (avl_parent h x) [] (Some n)"
      "inorder T = inorder (nd side X x Y)" "bal_ok h' T"
      using pending_level [OF Nil False] by metis
    have "CAvl_rebalance h x side deltac = Some h'"
      using a l(1,2,4,6) False by (subst CAvl_rebalance.simps) (simp add: Let_def)
    moreover have "rebalanced h (inorder (nd side X x Y)) h'"
      using l(3,5-8) unfolding rebalanced_def by (intro exI [of _ T]) simp
    ultimately show ?thesis by simp
  qed
next
  case (Cons f c)
  obtain s z b where f: "f = (s, z, b)" by (cases f) auto
  note a = pending_assert [OF Cons.prems]
  show ?case
  proof (cases "deltac = 0")
    case True
    then have "CAvl_rebalance h x side deltac = Some h" using a by (subst CAvl_rebalance.simps) (simp add: Let_def)
    moreover have "rebalanced h (inorder (plug (nd side X x Y) (f # c))) h"
      unfolding rebalanced_def
    proof (intro exI conjI)
      show "is_tree h None (plug (nd side X x Y) (f # c)) (tree_root h)"
        unfolding is_tree_plug using Cons.prems by (auto simp only: pending_rebalance_def)
      show "bal_ok h (plug (nd side X x Y) (f # c))"
        unfolding bal_ok_plug using Cons.prems True by (auto simp: pending_rebalance_def of_nat_max)
    qed simp_all
    ultimately show ?thesis by simp
  next
    case False
    obtain h' n delta T where l: "rebalance_level x side deltac h = (h', n, delta)" "\<bar>delta\<bar> \<le> 1" "avl_fault h' = avl_fault h"
      "avl_parent h' n = avl_parent h x" "is_tree h' (avl_parent h x) T (Some n)" "is_ctx h' (avl_parent h x) (f # c) (Some n)"
      "inorder T = inorder (nd side X x Y)" "bal_ok h' T" "int (height T) = 1 + max k (int (height Y)) + delta"
      "ctx_bal h' (1 + max k (int (height Y))) (f # c)"
      using pending_level [OF Cons.prems False] by metis
    have z: "avl_parent h x = Some z" using l(6) by (simp add: f)
    have io: "inorder (plug T (f # c)) = inorder (plug (nd side X x Y) (f # c))" using l(7) by (simp add: inorder_plug)
    have dist: "distinct (inorder (plug T (f # c)))" unfolding io using Cons.prems by (simp add: pending_rebalance_def)
    have "n \<notin> ctx_nodes (f # c)" using dist is_tree_root [OF l(5)] by (auto simp: distinct_plug)
    then have side: "(Some n = avl_link h' z True) = s" using ctx_child_side [of h' z s b c n] l(6) z by (simp add: f)
    have "pending_rebalance h' s T z b c (1 + max k (int (height Y))) delta"
      using l(2,5,6,8-10) dist unfolding pending_rebalance_def by (auto simp: f z)
    from Cons.IH [OF this] obtain h'' where r: "CAvl_rebalance h' z s delta = Some h''"
      "rebalanced h' (inorder (plug (nd s T z b) c)) h''" by blast
    have "CAvl_rebalance h x side deltac = CAvl_rebalance h' z s delta"
      using a l(1,2,4) False z side by (subst CAvl_rebalance.simps) (auto simp add: Let_def)
    then show ?thesis using r l(3) io by (auto simp: f rebalanced_def)
  qed
qed

section \<open>Insertion\<close>

text \<open>The tree represents a sequence of distinct entries.\<close>

definition avl_rep :: "avl \<Rightarrow> nat list \<Rightarrow> bool" where
  "avl_rep h xs \<longleftrightarrow> (\<exists>T. is_tree h None T (tree_root h) \<and> bal_ok h T \<and> inorder T = xs) \<and> distinct xs \<and> \<not> avl_fault h"

lemma rebalanced_rep: "rebalanced h xs h' \<Longrightarrow> distinct xs \<Longrightarrow> \<not> avl_fault h \<Longrightarrow> avl_rep h' xs"
  by (auto simp: rebalanced_def avl_rep_def)

text \<open>The comparison is a total order with values \<open>-1\<close>, \<open>0\<close> and \<open>1\<close> on a set of entries, which is ascending in the tree.\<close>

definition cmp_order :: "(nat \<Rightarrow> nat \<Rightarrow> int) \<Rightarrow> nat set \<Rightarrow> bool" where
  "cmp_order cmp S \<longleftrightarrow> comparator cmp (\<lambda>x. x \<in> S) \<and> (\<forall>a\<in>S. \<forall>b\<in>S. \<bar>cmp a b\<bar> \<le> 1)"

abbreviation (input) ascending :: "(nat \<Rightarrow> nat \<Rightarrow> int) \<Rightarrow> nat list \<Rightarrow> bool" where
  "ascending cmp xs \<equiv> sorted_wrt (\<lambda>a b. cmp a b < 0) xs"

lemma cmp_order_facts:
  assumes "cmp_order cmp S"
  shows "a \<in> S \<Longrightarrow> b \<in> S \<Longrightarrow> cmp b a = - cmp a b" "a \<in> S \<Longrightarrow> b \<in> S \<Longrightarrow> cmp a b = 0 \<longleftrightarrow> a = b"
    "a \<in> S \<Longrightarrow> b \<in> S \<Longrightarrow> c \<in> S \<Longrightarrow> cmp a b < 0 \<Longrightarrow> cmp b c < 0 \<Longrightarrow> cmp a c < 0"
    "a \<in> S \<Longrightarrow> b \<in> S \<Longrightarrow> \<bar>cmp a b\<bar> \<le> 1"
  using assms unfolding cmp_order_def comparator_def by blast+

lemma cmp_order_subset:
  assumes "cmp_order cmp S" and "R \<subseteq> S"
  shows "cmp_order cmp R"
proof -
  note o = cmp_order_facts [OF assms(1)]
  have S: "a \<in> R \<Longrightarrow> a \<in> S" for a using assms(2) by blast
  have "comparator cmp (\<lambda>x. x \<in> R)"
  proof (rule comparator.intro)
    fix a b c assume "a \<in> R" "b \<in> R"
    then show "cmp b a = - cmp a b" "(cmp a b = 0) = (a = b)" using o(1,2) [of a b] S by simp_all
    assume "c \<in> R" "cmp a b < 0" "cmp b c < 0"
    with \<open>a \<in> R\<close> \<open>b \<in> R\<close> show "cmp a c < 0" using o(3) [of a b c] S by simp
  qed
  then show ?thesis using o(4) S unfolding cmp_order_def by simp
qed

lemma tree_insert_left:
  "cmp f x < 0 \<Longrightarrow> tree_insert cmp f (l @ x # r) = (fst (tree_insert cmp f l) @ x # r, snd (tree_insert cmp f l))"
  by (induction l) (auto simp: split_beta)

lemma tree_insert_right:
  "\<forall>a\<in>set l. cmp f a > 0 \<Longrightarrow> tree_insert cmp f (l @ r) = (l @ fst (tree_insert cmp f r), snd (tree_insert cmp f r))"
  by (induction l) (auto simp: split_beta)

lemma plug_append: "plug t (c @ d) = plug (plug t c) d"
  by (induction c arbitrary: t rule: ctx_nodes.induct) auto

text \<open>Where the search for the place of \<open>f\<close> ends.\<close>

definition search_end :: "(nat \<Rightarrow> nat \<Rightarrow> int) \<Rightarrow> nat \<Rightarrow> avl \<Rightarrow> nat tree \<Rightarrow> (avl \<times> nat \<times> bool option) option \<Rightarrow> bool" where
  "search_end cmp f h t res \<longleftrightarrow>
     (\<exists>x. res = Some (h, x, None) \<and> x \<in> set_tree t \<and> cmp f x = 0 \<and> tree_insert cmp f (inorder t) = (inorder t, False))
   \<or> (\<exists>x side Y c. res = Some (h, x, Some side) \<and> t = plug (nd side Leaf x Y) c
        \<and> tree_insert cmp f (inorder t) = (inorder (plug (nd side (Node Leaf f Leaf) x Y) c), True))"

lemma search_end_child:
  assumes "search_end cmp f h a res" and "\<And>ys ok. tree_insert cmp f (inorder a) = (ys, ok) \<Longrightarrow>
    tree_insert cmp f (inorder (nd s a x b)) = ((if s then inorder b @ x # ys else ys @ x # inorder b), ok)"
  shows "search_end cmp f h (nd s a x b) res"
  using assms(1) unfolding search_end_def
proof (elim disjE exE conjE)
  fix y assume "res = Some (h, y, None)" "y \<in> set_tree a" "cmp f y = 0" "tree_insert cmp f (inorder a) = (inorder a, False)"
  then show "(\<exists>y. res = Some (h, y, None) \<and> y \<in> set_tree (nd s a x b) \<and> cmp f y = 0
      \<and> tree_insert cmp f (inorder (nd s a x b)) = (inorder (nd s a x b), False))
    \<or> (\<exists>y side Y c. res = Some (h, y, Some side) \<and> nd s a x b = plug (nd side Leaf y Y) c
      \<and> tree_insert cmp f (inorder (nd s a x b)) = (inorder (plug (nd side (Node Leaf f Leaf) y Y) c), True))"
    using assms(2) [of "inorder a" False] by (intro disjI1 exI [of _ y]) (simp add: nd_def)
next
  fix y side Y c
  assume r: "res = Some (h, y, Some side)" "a = plug (nd side Leaf y Y) c"
    "tree_insert cmp f (inorder a) = (inorder (plug (nd side (Node Leaf f Leaf) y Y) c), True)"
  then show "(\<exists>y. res = Some (h, y, None) \<and> y \<in> set_tree (nd s a x b) \<and> cmp f y = 0
      \<and> tree_insert cmp f (inorder (nd s a x b)) = (inorder (nd s a x b), False))
    \<or> (\<exists>y side Y c. res = Some (h, y, Some side) \<and> nd s a x b = plug (nd side Leaf y Y) c
      \<and> tree_insert cmp f (inorder (nd s a x b)) = (inorder (plug (nd side (Node Leaf f Leaf) y Y) c), True))"
    using assms(2) [OF r(3)]
    by (intro disjI2 exI [of _ y] exI [of _ side] exI [of _ Y] exI [of _ "c @ [(s, x, b)]"]) (simp add: plug_append nd_def)
qed

lemma insert_search_ok:
  assumes "is_tree h q t (Some r)" and "ascending cmp (inorder t)" and "cmp_order cmp (insert f (set_tree t))"
  shows "search_end cmp f h t (insert_search cmp f h r)"
  using assms
proof (induction t arbitrary: q r)
  case (Node a x b)
  note o = cmp_order_facts [OF Node.prems(3)]
  have rx: "r = x" and ta: "is_tree h (Some x) a (avl_link h x False)" and tb: "is_tree h (Some x) b (avl_link h x True)"
    using Node.prems(1) by simp_all
  have asc: "ascending cmp (inorder a)" "ascending cmp (inorder b)" "\<And>z. z \<in> set_tree a \<Longrightarrow> cmp z x < 0"
    using Node.prems(2) by (auto simp: sorted_wrt_append)
  have oa: "cmp_order cmp (insert f (set_tree a))" "cmp_order cmp (insert f (set_tree b))"
    using Node.prems(3) by (auto elim: cmp_order_subset)
  have v: "\<bar>cmp f x\<bar> \<le> 1" using o(4) by simp
  then have ce: "CAvl_compare_entries cmp f x h = (h, cmp f x)" by (simp add: CAvl_compare_entries_def Let_def)
  have below: "cmp f z > 0" if "cmp f x \<ge> 0" "z \<in> set_tree a" for z
  proof (cases "cmp f x = 0")
    case True
    then show ?thesis using o(1) [of f z] o(2) [of f x] asc(3) [OF that(2)] that(2) by auto
  next
    case False
    then have "cmp x f < 0" using o(1) [of f x] that(1) by simp
    then have "cmp z f < 0" using o(3) [of z x f] asc(3) [OF that(2)] that(2) by simp
    then show ?thesis using o(1) [of z f] that(2) by simp
  qed
  consider "cmp f x = 0" | "cmp f x = -1" | "cmp f x = 1" using v by linarith
  then show ?case
  proof cases
    case 1
    then have "insert_search cmp f h r = Some (h, x, None)" by (subst insert_search.simps) (simp add: rx ce)
    moreover have "tree_insert cmp f (inorder (Node a x b)) = (inorder (Node a x b), False)"
      using tree_insert_right [of "inorder a" cmp f "x # inorder b"] below 1 by simp
    ultimately show ?thesis using 1 unfolding search_end_def by (intro disjI1 exI [of _ x]) simp
  next
    case 2
    have ins: "tree_insert cmp f (inorder (Node a x b)) = (fst (tree_insert cmp f (inorder a)) @ x # inorder b, snd (tree_insert cmp f (inorder a)))"
      using tree_insert_left [of cmp f x] 2 by simp
    show ?thesis
    proof (cases "avl_link h x False")
      case None
      then have l: "a = Leaf" using ta is_tree_null by auto
      have "insert_search cmp f h r = Some (h, x, Some False)" using 2 None by (subst insert_search.simps) (simp add: rx ce Let_def)
      then show ?thesis unfolding search_end_def using ins l
        by (intro disjI2 exI [of _ x] exI [of _ False] exI [of _ b] exI [of _ "[]"]) (simp add: nd_def)
    next
      case (Some d)
      have "insert_search cmp f h r = insert_search cmp f h d" using 2 Some by (subst insert_search.simps) (simp add: rx ce Let_def)
      moreover have "search_end cmp f h (nd False a x b) (insert_search cmp f h d)"
        using Node.IH(1) [OF ta [unfolded Some] asc(1) oa(1)] ins by (intro search_end_child) (auto simp: nd_def)
      ultimately show ?thesis by (simp add: nd_def)
    qed
  next
    case 3
    have ins: "tree_insert cmp f (inorder (Node a x b)) = (inorder a @ x # fst (tree_insert cmp f (inorder b)), snd (tree_insert cmp f (inorder b)))"
      using tree_insert_right [of "inorder a @ [x]" cmp f "inorder b"] below 3 by simp
    show ?thesis
    proof (cases "avl_link h x True")
      case None
      then have l: "b = Leaf" using tb is_tree_null by auto
      have "insert_search cmp f h r = Some (h, x, Some True)" using 3 None by (subst insert_search.simps) (simp add: rx ce Let_def)
      then show ?thesis unfolding search_end_def using ins l
        by (intro disjI2 exI [of _ x] exI [of _ True] exI [of _ a] exI [of _ "[]"]) (simp add: nd_def)
    next
      case (Some d)
      have "insert_search cmp f h r = insert_search cmp f h d" using 3 Some by (subst insert_search.simps) (simp add: rx ce Let_def)
      moreover have "search_end cmp f h (nd True b x a) (insert_search cmp f h d)"
        using Node.IH(2) [OF tb [unfolded Some] asc(2) oa(2)] ins by (intro search_end_child) (auto simp: nd_def)
      ultimately show ?thesis by (simp add: nd_def)
    qed
  qed
qed simp

lemma tree_insert_set: "set (fst (tree_insert cmp f xs)) \<subseteq> insert f (set xs)"
  by (induction xs) (auto simp: split_beta)

lemma tree_insert_distinct: "distinct xs \<Longrightarrow> f \<notin> set xs \<Longrightarrow> distinct (fst (tree_insert cmp f xs))"
proof (induction xs)
  case (Cons x xs)
  then show ?case using tree_insert_set [of cmp f xs] by (auto simp: split_beta)
qed simp

lemma tree_insert_new: "ascending cmp xs \<Longrightarrow> cmp_order cmp (insert f (set xs)) \<Longrightarrow> snd (tree_insert cmp f xs) = (f \<notin> set xs)"
proof (induction xs)
  case (Cons a as)
  note o = cmp_order_facts [OF Cons.prems(2)]
  have IH: "snd (tree_insert cmp f as) = (f \<notin> set as)"
    using Cons.prems by (intro Cons.IH) (auto intro: cmp_order_subset)
  have "cmp f a > 0" if "f \<in> set as" using Cons.prems(1) o(1) [of a f] that by auto
  then show ?case using IH o(2) [of f a] by (auto simp: split_beta)
qed simp

lemma init_leaf_sel [simp]:
  "avl_parent (init_leaf f p h) = (avl_parent h)(f := p)" "avl_link (init_leaf f p h) = (avl_link h)(f := (\<lambda>_. None))"
  "avl_balance (init_leaf f p h) = (avl_balance h)(f := 0)" "tree_root (init_leaf f p h) = tree_root h"
  "avl_fault (init_leaf f p h) = avl_fault h"
  by (auto simp: init_leaf_def fun_eq_iff)

lemma init_leaf_other [simp]:
  "f \<notin> set_tree t \<Longrightarrow> is_tree (init_leaf f v h) q t p = is_tree h q t p"
  "f \<notin> ctx_nodes c \<Longrightarrow> is_ctx (init_leaf f v h) q c p = is_ctx h q c p"
  "f \<notin> set_tree t \<Longrightarrow> bal_ok (init_leaf f v h) t = bal_ok h t"
  by (auto simp: init_leaf_def)

lemma ctx_bal_other [simp]:
  "f \<notin> ctx_nodes c \<Longrightarrow> ctx_bal (init_leaf f v h) k c = ctx_bal h k c" "ctx_bal (set_link n s w h) k c = ctx_bal h k c"
  by (rule ctx_bal_cong; auto)+

text \<open>Hanging a new leaf below a node that has no child on that side.\<close>

lemma insert_leaf:
  assumes "is_tree h None (plug (nd side Leaf x Y) c) (tree_root h)" and "bal_ok h (plug (nd side Leaf x Y) c)"
    and "distinct (inorder (plug (nd side (Node Leaf f Leaf) x Y) c))"
  defines "h2 \<equiv> init_leaf f (Some x) (set_link x side (Some f) h)"
  shows "\<exists>h'. CAvl_rebalance h2 x side 1 = Some h' \<and> rebalanced h (inorder (plug (nd side (Node Leaf f Leaf) x Y) c)) h'"
proof -
  obtain q p where c: "is_ctx h q c p" and t: "is_tree h q (nd side Leaf x Y) p"
    using assms(1) unfolding is_tree_plug by blast
  have D: "f \<noteq> x" "f \<notin> set_tree Y" "f \<notin> ctx_nodes c" "x \<notin> set_tree Y" "x \<notin> ctx_nodes c"
    using assms(3) by (auto simp: distinct_plug)
  have t': "p = Some x" "avl_parent h x = q" "is_tree h (Some x) Y (avl_link h x (\<not> side))" using t by simp_all
  have b: "bal_ok h Y" "avl_balance h x = (if side then - int (height Y) else int (height Y))" "\<bar>avl_balance h x\<bar> \<le> 1"
    "ctx_bal h (1 + max 0 (int (height Y))) c"
    using assms(2) by (auto simp: bal_ok_plug of_nat_max split: if_splits)
  have "pending_rebalance h2 side (Node Leaf f Leaf) x Y c 0 1"
    unfolding pending_rebalance_def
  proof (intro conjI)
    show "is_tree h2 (avl_parent h2 x) (nd side (Node Leaf f Leaf) x Y) (Some x)"
      using D t' by (cases side) (simp_all add: h2_def)
    show "is_ctx h2 (avl_parent h2 x) c (Some x)" using D c t' by (simp add: h2_def)
    show "distinct (inorder (plug (nd side (Node Leaf f Leaf) x Y) c))" by (rule assms(3))
    show "bal_ok h2 Y" "ctx_bal h2 (1 + max 0 (int (height Y))) c" using D b by (simp_all add: h2_def)
    show "avl_balance h2 x = (if side then 0 - int (height Y) else int (height Y) - 0)" "\<bar>avl_balance h2 x\<bar> \<le> 1"
      using D b by (simp_all add: h2_def)
  qed (simp_all add: h2_def)
  from rebalance_ok [OF this] show ?thesis by (simp add: rebalanced_def h2_def)
qed

lemma insert_ok:
  assumes rep: "avl_rep h xs" and asc: "ascending cmp xs" and ord: "cmp_order cmp (insert f (set xs))"
  shows "\<exists>h' ref. CAvl_Insert cmp f h = Some (h', f \<notin> set xs, ref) \<and> avl_rep h' (fst (tree_insert cmp f xs))
    \<and> snd (tree_insert cmp f xs) = (f \<notin> set xs)"
proof -
  obtain T where T: "is_tree h None T (tree_root h)" "bal_ok h T" "inorder T = xs" and ok: "distinct xs" "\<not> avl_fault h"
    using rep by (auto simp: avl_rep_def)
  have fx: "cmp f x = 0 \<longleftrightarrow> f = x" if "x \<in> set xs" for x using cmp_order_facts(2) [OF ord] that by simp
  show ?thesis
  proof (cases "tree_root h")
    case None
    then have "T = Leaf" using T(1) is_tree_null by auto
    then have xs: "xs = []" using T(3) by simp
    have "avl_rep (init_leaf f None (h\<lparr>tree_root := Some f\<rparr>)) [f]"
      using ok unfolding avl_rep_def by (auto intro!: exI [of _ "Node Leaf f Leaf"])
    then show ?thesis using None xs by (simp add: CAvl_Insert_def)
  next
    case (Some r)
    have Tset: "set_tree T = set xs" using T(3) by (metis set_inorder)
    have "search_end cmp f h T (insert_search cmp f h r)"
      using insert_search_ok [OF T(1) [unfolded Some]] asc ord T(3) Tset by simp
    then consider x where "insert_search cmp f h r = Some (h, x, None)" "x \<in> set xs" "cmp f x = 0" "tree_insert cmp f xs = (xs, False)"
      | x side Y c where "insert_search cmp f h r = Some (h, x, Some side)" "T = plug (nd side Leaf x Y) c"
        "tree_insert cmp f xs = (inorder (plug (nd side (Node Leaf f Leaf) x Y) c), True)"
      unfolding search_end_def T(3) Tset by blast
    then show ?thesis
    proof cases
      case (1 x)
      then show ?thesis using fx [of x] rep by (simp add: CAvl_Insert_def Some)
    next
      case (2 x side Y c)
      let ?ys = "inorder (plug (nd side (Node Leaf f Leaf) x Y) c)"
      have "f \<notin> set xs" using tree_insert_new [OF asc ord] 2(3) by simp
      moreover have "distinct ?ys" using tree_insert_distinct [OF ok(1), of f cmp] 2(3) calculation by simp
      moreover obtain h' where "CAvl_rebalance (init_leaf f (Some x) (set_link x side (Some f) h)) x side 1 = Some h'" "rebalanced h ?ys h'"
        using insert_leaf [of h side x Y c f] T(1,2) 2(2) calculation(2) by auto
      ultimately show ?thesis
        using 2(1,3) ok(2) by (simp add: CAvl_Insert_def Some Let_def rebalanced_rep)
    qed
  qed
qed

section \<open>Removal\<close>

lemma tree_position: "x \<in> set_tree t \<Longrightarrow> \<exists>l r c. t = plug (Node l x r) c"
proof (induction t)
  case (Node a y b)
  consider "x = y" | "x \<in> set_tree a" | "x \<in> set_tree b" using Node.prems by auto
  then show ?case
  proof cases
    case 1
    then show ?thesis by (intro exI [of _ a] exI [of _ b] exI [of _ "[]"]) simp
  next
    case 2
    then obtain l r c where "a = plug (Node l x r) c" using Node.IH(1) by blast
    then show ?thesis by (intro exI [of _ l] exI [of _ r] exI [of _ "c @ [(False, y, b)]"]) (simp add: plug_append nd_def)
  next
    case 3
    then obtain l r c where "b = plug (Node l x r) c" using Node.IH(2) by blast
    then show ?thesis by (intro exI [of _ l] exI [of _ r] exI [of _ "c @ [(True, y, a)]"]) (simp add: plug_append nd_def)
  qed
qed simp

lemma remove_single_ok:
  assumes t: "is_tree h None (plug (Node l x r) c) (tree_root h)" and bal: "bal_ok h (plug (Node l x r) c)"
    and dist: "distinct (inorder (plug (Node l x r) c))" and one: "l = Leaf \<or> r = Leaf"
  defines "u \<equiv> if l = Leaf then r else l"
  shows "\<exists>h'. remove_single x h = Some h' \<and> rebalanced h (inorder (plug u c)) h'"
proof -
  obtain q p where c: "is_ctx h q c p" and tx: "is_tree h q (Node l x r) p"
    using t unfolding is_tree_plug by blast
  have p: "p = Some x" "avl_parent h x = q" using tx by simp_all
  define child where "child = (if avl_link h x False \<noteq> None then avl_link h x False else avl_link h x True)"
  have lr: "is_tree h (Some x) l (avl_link h x False)" "is_tree h (Some x) r (avl_link h x True)" using tx by simp_all
  have u: "is_tree h (Some x) u child"
    using lr is_tree_null [OF lr(1)] one by (auto simp: u_def child_def)
  have D: "x \<notin> ctx_nodes c" "ctx_distinct c" "set_tree u \<inter> ctx_nodes c = {}" "distinct (inorder u)" "x \<notin> set_tree u"
    using dist by (auto simp: distinct_plug u_def)
  have a: "A_ASSERT (avl_link h x False = None \<or> avl_link h x True = None) h = h"
    using one is_tree_null [OF lr(1)] is_tree_null [OF lr(2)] by simp
  define h1 where "h1 = CAvl_replace_subtree_fix_assoc x child q h"
  have h1: "h1 = set_parent_opt child q (set_down_link q x child h)"
    using ctx_check_parent [OF c [unfolded p] p(2)] p(2) by (simp add: h1_def CAvl_replace_subtree_fix_assoc_def Let_def)
  have nq: "q = Some n \<Longrightarrow> n \<notin> set_tree u" for n using ctx_parent [OF c] D(3) by blast
  have u1: "is_tree h1 q u child"
    unfolding h1 using u nq D(4) by (intro is_tree_reparent [of _ "Some x"]) (simp_all add: is_tree_down)
  have nc: "child = Some n \<Longrightarrow> n \<notin> ctx_nodes c" for n using u is_tree_root [of h "Some x" u n] D(3) by auto
  have c1: "is_ctx h1 q c child"
    unfolding h1 using is_ctx_down [OF c [unfolded p] D(1,2)] nc by (simp add: is_ctx_parent_opt)
  have bl: "avl_balance h1 = avl_balance h" "avl_fault h1 = avl_fault h" by (simp_all add: h1)
  have hu: "int (height (Node l x r)) = int (height u) + 1" using one by (auto simp: u_def)
  have b: "bal_ok h u" "ctx_bal h (int (height u) + 1) c" using bal hu by (auto simp: bal_ok_plug u_def add.commute)
  then have b1: "bal_ok h1 u" "ctx_bal h1 (int (height u) + 1) c"
    using bal_ok_cong [of u h1 h] ctx_bal_cong [of c h1 h] bl by auto
  show ?thesis
  proof (cases c)
    case Nil
    then have q: "q = None" using c by simp
    have "remove_single x h = Some h1" unfolding remove_single_def Let_def a p(2) q child_def [symmetric] h1_def by simp
    moreover have "rebalanced h (inorder u) h1"
      using u1 b1(1) bl(2) c1 unfolding rebalanced_def by (intro exI [of _ u]) (simp add: Nil)
    ultimately show ?thesis by (simp add: Nil)
  next
    case (Cons f c')
    obtain s z b where f: "f = (s, z, b)" by (cases f) auto
    have q: "q = Some z" using c by (simp add: Cons f)
    have side: "(Some x = avl_link h z True) = s"
      using ctx_child_side [of h z s b c' x] c D(1) p by (simp add: Cons f)
    have rm: "remove_single x h = CAvl_rebalance h1 z s (-1)"
      unfolding remove_single_def Let_def a p(2) child_def [symmetric] q option.case using side q by (simp add: h1_def)
    have "pending_rebalance h1 s u z b c' (int (height u) + 1) (-1)"
      unfolding pending_rebalance_def
    proof (intro conjI)
      show "is_tree h1 (avl_parent h1 z) (nd s u z b) (Some z)" using u1 c1 q by (simp add: Cons f)
      show "is_ctx h1 (avl_parent h1 z) c' (Some z)" using c1 by (simp add: Cons f)
      have "distinct (inorder (plug u c))" using D by (simp add: distinct_plug)
      then show "distinct (inorder (plug (nd s u z b) c'))" by (simp add: Cons f)
      show "bal_ok h1 u" "bal_ok h1 b" using b1 by (simp_all add: Cons f)
      show "avl_balance h1 z = (if s then int (height u) + 1 - int (height b) else int (height b) - (int (height u) + 1))"
        "\<bar>avl_balance h1 z\<bar> \<le> 1" "ctx_bal h1 (1 + max (int (height u) + 1) (int (height b))) c'"
        using b1(2) unfolding Cons f ctx_bal.simps by blast+
    qed simp_all
    from rebalance_ok [OF this] show ?thesis unfolding rm by (auto simp: Cons f rebalanced_def bl)
  qed
qed

lemma subtree_max_ok:
  "is_tree h q t (Some r) \<Longrightarrow> \<exists>m B c. CAvl_subtree_max h r = Some m \<and> t = plug (Node B m Leaf) c \<and> ctx_right c = []"
proof (induction t arbitrary: q r)
  case (Node a x b)
  have rx: "r = x" and tb: "is_tree h (Some x) b (avl_link h x True)" using Node.prems by simp_all
  show ?case
  proof (cases "avl_link h x True")
    case None
    then have "b = Leaf" using tb is_tree_null by auto
    moreover have "CAvl_subtree_max h r = Some x" using None by (subst CAvl_subtree_max.simps) (simp add: rx)
    ultimately show ?thesis by (intro exI [of _ x] exI [of _ a] exI [of _ "[]"]) simp
  next
    case (Some d)
    from Node.IH(2) [OF tb [unfolded Some]] obtain m B c
      where m: "CAvl_subtree_max h d = Some m" "b = plug (Node B m Leaf) c" "ctx_right c = []" by blast
    have "CAvl_subtree_max h r = Some m" using m(1) Some by (subst CAvl_subtree_max.simps) (simp add: rx)
    moreover have "ctx_right (c @ [(True, x, a)]) = []" using m(3) by (induction c rule: ctx_right.induct) auto
    ultimately show ?thesis using m(2)
      by (intro exI [of _ m] exI [of _ B] exI [of _ "c @ [(True, x, a)]"]) (simp add: plug_append nd_def)
  qed
qed simp


text \<open>Exchanging the places of two nodes is renaming them.\<close>

definition swp :: "nat \<Rightarrow> nat \<Rightarrow> nat \<Rightarrow> nat" where
  "swp x m a = (if a = x then m else if a = m then x else a)"

lemma swp_simps [simp]: "swp x m x = m" "swp x m m = x" "a \<noteq> x \<Longrightarrow> a \<noteq> m \<Longrightarrow> swp x m a = a" "swp x m (swp x m a) = a"
  by (auto simp: swp_def)

definition renamed :: "(nat \<Rightarrow> nat) \<Rightarrow> nat set \<Rightarrow> avl \<Rightarrow> avl \<Rightarrow> bool" where
  "renamed f N h h' \<longleftrightarrow> tree_root h' = map_option f (tree_root h) \<and> avl_fault h' = avl_fault h
     \<and> (\<forall>a\<in>N. avl_parent h' (f a) = map_option f (avl_parent h a) \<and> avl_balance h' (f a) = avl_balance h a
          \<and> (\<forall>s. avl_link h' (f a) s = map_option f (avl_link h a s)))"

lemma renamed_tree: "renamed f N h h' \<Longrightarrow> set_tree t \<subseteq> N \<Longrightarrow> is_tree h q t p \<Longrightarrow>
  is_tree h' (map_option f q) (map_tree f t) (map_option f p)"
proof (induction t arbitrary: q p)
  case (Node l x r)
  have "is_tree h' (map_option f (Some x)) (map_tree f l) (map_option f (avl_link h x False))"
    "is_tree h' (map_option f (Some x)) (map_tree f r) (map_option f (avl_link h x True))"
    using Node.IH(1) [of "Some x" "avl_link h x False"] Node.IH(2) [of "Some x" "avl_link h x True"] Node.prems by auto
  then show ?case using Node.prems by (auto simp: renamed_def)
qed simp

lemma height_map_tree [simp]: "height (map_tree f t) = height t"
  by (induction t) auto

lemma inorder_map_tree [simp]: "inorder (map_tree f t) = map f (inorder t)"
  by (induction t) auto

lemma renamed_bal: "renamed f N h h' \<Longrightarrow> set_tree t \<subseteq> N \<Longrightarrow> bal_ok h t \<Longrightarrow> bal_ok h' (map_tree f t)"
  by (induction t) (auto simp: renamed_def)

fun map_ctx :: "(nat \<Rightarrow> nat) \<Rightarrow> frame list \<Rightarrow> frame list" where
  "map_ctx f [] = []"
| "map_ctx f ((s, x, b) # c) = (s, f x, map_tree f b) # map_ctx f c"

lemma map_tree_plug: "map_tree f (plug t c) = plug (map_tree f t) (map_ctx f c)"
  by (induction c arbitrary: t rule: ctx_nodes.induct) (auto simp: nd_def)

lemma map_ctx_sides: "ctx_left (map_ctx f c) = map f (ctx_left c)" "ctx_right (map_ctx f c) = map f (ctx_right c)"
  by (induction c rule: ctx_nodes.induct) auto

text \<open>The links of a tree in both directions.\<close>

lemma tree_down: "is_tree h q t p \<Longrightarrow> a \<in> set_tree t \<Longrightarrow> avl_link h a s = Some b \<Longrightarrow> b \<in> set_tree t \<and> avl_parent h b = Some a"
proof (induction t arbitrary: q p)
  case (Node l x r)
  consider "a = x" | "a \<in> set_tree l" | "a \<in> set_tree r" using Node.prems(2) by auto
  then show ?case
  proof cases
    case 1
    then show ?thesis using Node.prems(1,3) is_tree_root [of h "Some x" l b] is_tree_root [of h "Some x" r b] by (cases s) auto
  qed (use Node in auto)
qed simp

lemma tree_up: "is_tree h q t p \<Longrightarrow> b \<in> set_tree t \<Longrightarrow>
  p = Some b \<and> avl_parent h b = q \<or> (\<exists>a\<in>set_tree t. \<exists>s. avl_parent h b = Some a \<and> avl_link h a s = Some b)"
proof (induction t arbitrary: q p)
  case (Node l x r)
  consider "b = x" | "b \<in> set_tree l" | "b \<in> set_tree r" using Node.prems(2) by auto
  then show ?case
  proof cases
    case 1
    then show ?thesis using Node.prems by simp
  next
    case 2
    with Node.IH(1) [of "Some x" "avl_link h x False"] Node.prems(1) show ?thesis by auto
  next
    case 3
    with Node.IH(2) [of "Some x" "avl_link h x True"] Node.prems(1) show ?thesis by auto
  qed
qed simp


lemma tree_one_child:
  "is_tree h q t p \<Longrightarrow> distinct (inorder t) \<Longrightarrow> a \<in> set_tree t \<Longrightarrow> avl_link h a False = Some b \<Longrightarrow> avl_link h a True \<noteq> Some b"
proof (induction t arbitrary: q p)
  case (Node l x r)
  consider "a = x" | "a \<in> set_tree l" | "a \<in> set_tree r" using Node.prems(3) by auto
  then show ?case
  proof cases
    case 1
    then show ?thesis using Node.prems(1,2,4) is_tree_root [of h "Some x" l b] is_tree_root [of h "Some x" r b] by auto
  qed (use Node in auto)
qed simp

text \<open>What the swap relies on: consistent links, and a node \<open>m\<close> that is below \<open>x\<close>.\<close>

definition linked :: "nat set \<Rightarrow> avl \<Rightarrow> bool" where
  "linked N h \<longleftrightarrow> (\<forall>a\<in>N. \<forall>s b. avl_link h a s = Some b \<longrightarrow> b \<in> N \<and> avl_parent h b = Some a)
     \<and> (\<forall>b\<in>N. case avl_parent h b of None \<Rightarrow> tree_root h = Some b | Some a \<Rightarrow> a \<in> N \<and> (\<exists>s. avl_link h a s = Some b))
     \<and> (\<forall>a\<in>N. \<forall>b. avl_link h a False = Some b \<longrightarrow> avl_link h a True \<noteq> Some b)
     \<and> (\<forall>b. tree_root h = Some b \<longrightarrow> b \<in> N \<and> avl_parent h b = None)"

lemma linked_tree:
  assumes t: "is_tree h None T (tree_root h)" and d: "distinct (inorder T)"
  shows "linked (set_tree T) h"
  unfolding linked_def
proof (intro conjI ballI allI impI)
  fix b assume b: "b \<in> set_tree T"
  show "case avl_parent h b of None \<Rightarrow> tree_root h = Some b | Some a \<Rightarrow> a \<in> set_tree T \<and> (\<exists>s. avl_link h a s = Some b)"
    using tree_up [OF t b] by auto
qed (use tree_down [OF t] tree_one_child [OF t d] is_tree_root [of h None T] t in auto)

lemma linkedD:
  assumes "linked N h"
  shows "a \<in> N \<Longrightarrow> avl_link h a s = Some b \<Longrightarrow> b \<in> N" "a \<in> N \<Longrightarrow> avl_link h a s = Some b \<Longrightarrow> avl_parent h b = Some a"
    "b \<in> N \<Longrightarrow> avl_parent h b = Some a \<Longrightarrow> a \<in> N" "b \<in> N \<Longrightarrow> avl_parent h b = Some a \<Longrightarrow> \<exists>s. avl_link h a s = Some b"
    "b \<in> N \<Longrightarrow> avl_parent h b = None \<longleftrightarrow> tree_root h = Some b"
    "a \<in> N \<Longrightarrow> avl_link h a s = Some b \<Longrightarrow> avl_link h a (\<not> s) \<noteq> Some b"
proof -
  show "b \<in> N \<Longrightarrow> avl_parent h b = None \<longleftrightarrow> tree_root h = Some b"
    using assms unfolding linked_def by (cases "avl_parent h b") fastforce+
  show "a \<in> N \<Longrightarrow> avl_link h a s = Some b \<Longrightarrow> avl_link h a (\<not> s) \<noteq> Some b"
    using assms unfolding linked_def by (cases s) auto
qed (use assms in \<open>unfold linked_def; fastforce\<close>)+

lemma check_parent_linked: "linked N h \<Longrightarrow> a \<in> N \<Longrightarrow> CAvl_check_parent h (avl_parent h a) a"
proof (cases "avl_parent h a")
  case (Some p)
  assume "linked N h" "a \<in> N"
  from linkedD(4) [OF this Some] obtain s where "avl_link h p s = Some a" by blast
  then show ?thesis using Some by (cases s) (auto simp: CAvl_check_parent_def)
qed (simp add: CAvl_check_parent_def)

lemma renamedI:
  assumes l: "linked N h" and x: "x \<in> N" "m \<in> N"
    and root: "tree_root h' = map_option (swp x m) (tree_root h)" and f: "avl_fault h' = avl_fault h"
    and b: "avl_balance h' = (avl_balance h)(x := avl_balance h m, m := avl_balance h x)"
    and lx: "\<And>s. avl_link h' m s = map_option (swp x m) (avl_link h x s)" "\<And>s. avl_link h' x s = map_option (swp x m) (avl_link h m s)"
    and px: "avl_parent h' m = map_option (swp x m) (avl_parent h x)" "avl_parent h' x = map_option (swp x m) (avl_parent h m)"
    and lo: "\<And>a s. a \<in> N \<Longrightarrow> a \<noteq> x \<Longrightarrow> a \<noteq> m \<Longrightarrow> avl_link h' a s = map_option (swp x m) (avl_link h a s)"
    and po: "\<And>a. a \<in> N \<Longrightarrow> a \<noteq> x \<Longrightarrow> a \<noteq> m \<Longrightarrow> avl_parent h' a = map_option (swp x m) (avl_parent h a)"
  shows "renamed (swp x m) N h h'"
  unfolding renamed_def
proof (intro conjI ballI allI)
  fix a s assume a: "a \<in> N"
  consider "a = x" | "a = m" "a \<noteq> x" | "a \<noteq> x" "a \<noteq> m" by blast
  then show "avl_parent h' (swp x m a) = map_option (swp x m) (avl_parent h a)" "avl_balance h' (swp x m a) = avl_balance h a"
    "avl_link h' (swp x m a) s = map_option (swp x m) (avl_link h a s)"
    by (cases; simp add: px lx b lo po a)+
qed (simp_all add: root f)

lemma swap_apart_fields:
  assumes "x \<noteq> m" and "px \<noteq> Some x" and "px \<noteq> Some m" and "pm \<noteq> Some m" and "pm \<noteq> Some x" and "pm \<noteq> px" and "pm \<noteq> None"
    and "\<And>s. avl_link h x s \<noteq> Some x \<and> avl_link h x s \<noteq> Some m" and "\<And>s. avl_link h m s \<noteq> Some x \<and> avl_link h m s \<noteq> Some m"
    and "\<forall>s s' b. avl_link h x s = Some b \<longrightarrow> avl_link h m s' \<noteq> Some b" and p: "avl_parent h x = px" "avl_parent h m = pm"
  defines "h' \<equiv> swap_apart x m px pm h"
  shows "avl_link h' a = (if a = x then avl_link h m else if a = m then avl_link h x
      else if pm = Some a then (avl_link h a)((Some m = avl_link h a True) := Some x)
      else if px = Some a then (avl_link h a)((Some x = avl_link h a True) := Some m) else avl_link h a)"
    and "avl_parent h' a = (if a = x then pm else if a = m then px
      else if \<exists>s. avl_link h x s = Some a then Some m else if \<exists>s. avl_link h m s = Some a then Some x else avl_parent h a)"
    and "tree_root h' = (if px = None then Some m else tree_root h)"
    and "avl_balance h' = avl_balance h" and "avl_fault h' = avl_fault h"
proof -
  define g where "g = set_down_link px x (Some m) (set_parent m px (set_down_link pm m (Some x) (set_parent x pm h)))"
  have g: "avl_link g x = avl_link h x" "avl_link g m = avl_link h m"
    "avl_link g a = (if pm = Some a then (avl_link h a)((Some m = avl_link h a True) := Some x)
      else if px = Some a then (avl_link h a)((Some x = avl_link h a True) := Some m) else avl_link h a)"
    "avl_parent g = (avl_parent h)(x := pm, m := px)" "tree_root g = (if px = None then Some m else tree_root h)"
    "avl_balance g = avl_balance h" "avl_fault g = avl_fault h"
    using assms(1-7) by (auto simp: g_def down_link)
  have h': "h' = swap_children x m True (swap_children x m False g)"
    unfolding h'_def swap_apart_def Let_def g_def p ..
  have l: "avl_link h' = (avl_link g)(x := avl_link g m, m := avl_link g x)"
    using assms(1) by (auto simp: h' swap_children_def Let_def fun_eq_iff)
  show "avl_link h' a = (if a = x then avl_link h m else if a = m then avl_link h x
      else if pm = Some a then (avl_link h a)((Some m = avl_link h a True) := Some x)
      else if px = Some a then (avl_link h a)((Some x = avl_link h a True) := Some m) else avl_link h a)"
    using g(1-3) assms(1) by (auto simp: l)
  have ex: "(\<exists>s. P s) = (P False \<or> P True)" for P by (metis (full_types))
  show "avl_parent h' a = (if a = x then pm else if a = m then px
      else if \<exists>s. avl_link h x s = Some a then Some m else if \<exists>s. avl_link h m s = Some a then Some x else avl_parent h a)"
    using g(1,2,4) assms(1,8-10) unfolding ex by (auto simp: h' swap_children_def Let_def parent_opt)
  show "tree_root h' = (if px = None then Some m else tree_root h)" "avl_balance h' = avl_balance h" "avl_fault h' = avl_fault h"
    using g(5-7) by (simp_all add: h' swap_children_def Let_def)
qed

lemma swap_connected_fields:
  assumes "x \<noteq> m" and "px \<noteq> Some x" and "px \<noteq> Some m" and lx: "avl_link h x side = Some m" "avl_link h x (\<not> side) = c"
    and "c \<noteq> Some x" and "c \<noteq> Some m" and "\<And>s. avl_link h m s \<noteq> Some x \<and> avl_link h m s \<noteq> Some m \<and> (c \<noteq> None \<longrightarrow> avl_link h m s \<noteq> c)"
    and p: "avl_parent h x = px"
  defines "h' \<equiv> swap_connected x m px h"
  shows "avl_link h' a = (if a = x then avl_link h m else if a = m then (avl_link h x)(side := Some x)
      else if px = Some a then (avl_link h a)((Some x = avl_link h a True) := Some m) else avl_link h a)"
    and "avl_parent h' a = (if a = x then Some m else if a = m then px else if c = Some a then Some m
      else if \<exists>s. avl_link h m s = Some a then Some x else avl_parent h a)"
    and "tree_root h' = (if px = None then Some m else tree_root h)"
    and "avl_balance h' = avl_balance h" and "avl_fault h' = avl_fault h"
proof -
  have sd: "(Some m = avl_link h x True) = side" using lx assms(7) by (cases side) auto
  have ex: "(\<exists>s. P s) = (P False \<or> P True)" for P by (metis (full_types))
  define g where "g = set_parent_opt (avl_link h m True) (Some x) (set_link x True (avl_link h m True)
     (set_parent_opt (avl_link h m False) (Some x) (set_link x False (avl_link h m False) h)))"
  have g: "avl_link g = (avl_link h)(x := avl_link h m)" "tree_root g = tree_root h" "avl_balance g = avl_balance h" "avl_fault g = avl_fault h"
    "avl_parent g a = (if \<exists>s. avl_link h m s = Some a then Some x else avl_parent h a)" "avl_parent g x = px" for a
    using assms(1,8) p unfolding ex by (auto simp: g_def parent_opt fun_eq_iff)
  have h': "h' = set_parent_opt c (Some m) (set_link m (\<not> side) c (set_parent x (Some m) (set_link m side (Some x)
     (set_down_link px x (Some m) (set_parent m px g)))))"
    using assms(1) g(6) unfolding h'_def swap_connected_def Let_def sd lx(2) by (simp add: g_def)
  show "avl_link h' a = (if a = x then avl_link h m else if a = m then (avl_link h x)(side := Some x)
      else if px = Some a then (avl_link h a)((Some x = avl_link h a True) := Some m) else avl_link h a)"
    using assms(1-3) lx by (auto simp: h' down_link g(1) fun_eq_iff)
  show "avl_parent h' a = (if a = x then Some m else if a = m then px else if c = Some a then Some m
      else if \<exists>s. avl_link h m s = Some a then Some x else avl_parent h a)"
    using assms(1,6,7) by (auto simp: h' parent_opt g(5))
  show "tree_root h' = (if px = None then Some m else tree_root h)" "avl_balance h' = avl_balance h" "avl_fault h' = avl_fault h"
    using g(2-4) by (simp_all add: h' down_link)
qed


lemma map_swp_other: "p \<noteq> Some x \<Longrightarrow> p \<noteq> Some m \<Longrightarrow> map_option (swp x m) p = p"
  by (cases p) auto

text \<open>Two nodes in a consistent set of links of which \<open>m\<close> is below \<open>x\<close>.\<close>

definition swap_ok :: "nat set \<Rightarrow> avl \<Rightarrow> nat \<Rightarrow> nat \<Rightarrow> bool" where
  "swap_ok N h x m \<longleftrightarrow> linked N h \<and> x \<in> N \<and> m \<in> N \<and> x \<noteq> m \<and> avl_parent h x \<noteq> Some x \<and> avl_parent h x \<noteq> Some m
     \<and> avl_parent h m \<noteq> Some m \<and> avl_parent h m \<noteq> avl_parent h x \<and> avl_parent h m \<noteq> None"

lemma swap_okD:
  assumes "swap_ok N h x m"
  shows "avl_link h x s \<noteq> Some x" "avl_link h m s \<noteq> Some m" "avl_link h m s \<noteq> Some x"
    and "avl_link h x s = Some b \<Longrightarrow> avl_link h m s' \<noteq> Some b"
    and "y \<in> N \<Longrightarrow> a \<in> N \<Longrightarrow> (\<exists>s. avl_link h y s = Some a) \<longleftrightarrow> avl_parent h a = Some y"
    and "avl_parent h y = Some a \<Longrightarrow> y \<in> N \<Longrightarrow> (avl_link h a)((Some y = avl_link h a True) := Some y')
      = (\<lambda>s. if avl_link h a s = Some y then Some y' else avl_link h a s)"
    and "map_option (swp x m) (tree_root h) = (if avl_parent h x = None then Some m else tree_root h)"
proof -
  have l: "linked N h" and N: "x \<in> N" "m \<in> N" and ne: "x \<noteq> m"
    and px: "avl_parent h x \<noteq> Some x" "avl_parent h x \<noteq> Some m"
    and pm: "avl_parent h m \<noteq> Some m" "avl_parent h m \<noteq> avl_parent h x" "avl_parent h m \<noteq> None"
    using assms by (simp_all add: swap_ok_def)
  note D = linkedD [OF l]
  show "avl_link h x s \<noteq> Some x" "avl_link h m s \<noteq> Some m" "avl_link h m s \<noteq> Some x"
    using D(2) [OF N(1), of s x] D(2) [OF N(2), of s m] D(2) [OF N(2), of s x] px pm by auto
  show "avl_link h m s' \<noteq> Some b" if "avl_link h x s = Some b"
    using D(2) [OF N(1) that] D(2) [OF N(2), of s' b] ne by auto
  show "(\<exists>s. avl_link h y s = Some a) \<longleftrightarrow> avl_parent h a = Some y" if "y \<in> N" "a \<in> N"
    using D(2) [OF that(1), of _ a] D(4) [OF that(2), of y] by auto
  show "map_option (swp x m) (tree_root h) = (if avl_parent h x = None then Some m else tree_root h)"
    using D(5) [OF N(1)] D(5) [OF N(2)] pm(3) by (auto intro!: map_swp_other)
  assume yp: "avl_parent h y = Some a" and yN: "y \<in> N"
  obtain s where s: "avl_link h a s = Some y" "a \<in> N" using D(3,4) [OF yN yp] by blast
  then show "(avl_link h a)((Some y = avl_link h a True) := Some y') = (\<lambda>s. if avl_link h a s = Some y then Some y' else avl_link h a s)"
    using D(6) [OF s(2,1)] by (cases s) (auto simp: fun_eq_iff)
qed

lemma swap_connected_renames:
  assumes ok: "swap_ok N h x m" and c: "avl_parent h m = Some x"
  shows "renamed (swp x m) N h (set_balance m (avl_balance h x) (set_balance x (avl_balance h m) (swap_connected x m (avl_parent h x) h)))"
proof -
  have l: "linked N h" and N: "x \<in> N" "m \<in> N" and ne: "x \<noteq> m" and px: "avl_parent h x \<noteq> Some x" "avl_parent h x \<noteq> Some m"
    using ok by (simp_all add: swap_ok_def)
  note D = linkedD [OF l] and S = swap_okD [OF ok]
  obtain side where side: "avl_link h x side = Some m" using D(4) [OF N(2) c] by blast
  define b where "b = avl_link h x (\<not> side)"
  have bm: "b \<noteq> Some x" "b \<noteq> Some m" using S(1) D(6) [OF N(1) side] by (auto simp: b_def)
  have mb: "avl_link h m s \<noteq> Some x \<and> avl_link h m s \<noteq> Some m \<and> (b \<noteq> None \<longrightarrow> avl_link h m s \<noteq> b)" for s
    using S(2,3) S(4) [of "\<not> side"] by (auto simp: b_def)
  note f = swap_connected_fields [OF ne px side b_def [symmetric] bm mb refl]
  have kb: "b = Some a \<longleftrightarrow> avl_parent h a = Some x" if "a \<in> N" "a \<noteq> m" for a
    using S(5) [OF N(1) that(1)] side that(2) unfolding b_def by (cases side) (auto simp: ex_bool_eq)
  show ?thesis
  proof (rule renamedI [OF l N], goal_cases)
    case 1
    show ?case using f(3) S(7) by simp
  next
    case (4 s)
    show ?case using ne f(1) [of m] side bm mb by (cases "s = side") (auto simp: b_def map_swp_other)
  next
    case (5 s)
    show ?case using f(1) [of x] mb by (simp add: map_swp_other)
  next
    case (8 a s)
    have "avl_link h a s \<noteq> Some m" using D(2) [OF 8(1), of s m] c 8 by auto
    then show ?case using f(1) [of a] 8 S(6) [of x a m] N D(2) [OF 8(1), of s x]
      by (cases "avl_link h a s = Some x") (auto simp: map_swp_other)
  next
    case (9 a)
    then show ?case using f(2) [of a] kb [of a] S(5) [OF N(2) 9(1)] D(2) [OF N(2)]
      by (cases "avl_parent h a = Some x"; cases "avl_parent h a = Some m") (auto simp: map_swp_other)
  qed (use f c px ne in \<open>auto simp: map_swp_other\<close>)
qed

lemma swap_apart_renames:
  assumes ok: "swap_ok N h x m" and c: "avl_parent h m \<noteq> Some x"
  shows "renamed (swp x m) N h (set_balance m (avl_balance h x) (set_balance x (avl_balance h m)
    (swap_apart x m (avl_parent h x) (avl_parent h m) h)))"
proof -
  have l: "linked N h" and N: "x \<in> N" "m \<in> N" and ne: "x \<noteq> m" and px: "avl_parent h x \<noteq> Some x" "avl_parent h x \<noteq> Some m"
    and pm: "avl_parent h m \<noteq> Some m" "avl_parent h m \<noteq> avl_parent h x" "avl_parent h m \<noteq> None"
    using ok by (simp_all add: swap_ok_def)
  note D = linkedD [OF l] and S = swap_okD [OF ok]
  have xm: "avl_link h x s \<noteq> Some x \<and> avl_link h x s \<noteq> Some m" for s using S(1) D(2) [OF N(1), of s m] c by auto
  have mx: "avl_link h m s \<noteq> Some x \<and> avl_link h m s \<noteq> Some m" for s using S(2,3) by auto
  have dj: "\<forall>s s' b. avl_link h x s = Some b \<longrightarrow> avl_link h m s' \<noteq> Some b" using S(4) by blast
  note f = swap_apart_fields [OF ne px pm(1) c pm(2,3) xm mx dj refl refl]
  show ?thesis
  proof (rule renamedI [OF l N], goal_cases)
    case 1
    show ?case using f(3) S(7) by simp
  next
    case (8 a s)
    show ?case
      using f(1) [of a] 8 S(6) [of x a m] S(6) [of m a x] N D(2) [OF 8(1), of s x] D(2) [OF 8(1), of s m] pm(2) ne
      by (cases "avl_link h a s = Some x"; cases "avl_link h a s = Some m") (auto simp: map_swp_other)
  next
    case (9 a)
    show ?case using f(2) [of a] S(5) [OF N(1) 9(1)] S(5) [OF N(2) 9(1)] 9
      by (cases "avl_parent h a = Some x"; cases "avl_parent h a = Some m") (auto simp: map_swp_other)
  qed (use f c px pm ne xm mx in \<open>auto simp: map_swp_other\<close>)
qed

lemma swap_renames:
  assumes ok: "swap_ok N h x m"
  shows "renamed (swp x m) N h (CAvl_swap_for_remove x m (avl_parent h x) (avl_parent h m) h)"
proof -
  have a: "A_ASSERT (CAvl_check_parent h (avl_parent h x) x) h = h" "A_ASSERT (CAvl_check_parent h (avl_parent h m) m) h = h"
    and ne: "x \<noteq> m"
    using check_parent_linked [of N h] ok by (auto simp: swap_ok_def)
  moreover have "avl_balance (swap_connected x m p h) = avl_balance h" "avl_balance (swap_apart x m p q h) = avl_balance h" for p q
    by (simp_all add: swap_connected_def swap_apart_def swap_children_def Let_def)
  ultimately have "CAvl_swap_for_remove x m (avl_parent h x) (avl_parent h m) h =
    set_balance m (avl_balance h x) (set_balance x (avl_balance h m)
      (if avl_parent h m = Some x then swap_connected x m (avl_parent h x) h else swap_apart x m (avl_parent h x) (avl_parent h m) h))"
    unfolding CAvl_swap_for_remove_def Let_def a by simp
  then show ?thesis using swap_connected_renames [OF ok] swap_apart_renames [OF ok] by simp
qed

lemma ctx_nodes_append: "ctx_nodes (c @ d) = ctx_nodes c \<union> ctx_nodes d"
  by (induction c rule: ctx_nodes.induct) auto

lemma ctx_sides_append: "ctx_left (c @ d) = ctx_left d @ ctx_left c" "ctx_right (c @ d) = ctx_right c @ ctx_right d"
  by (induction c rule: ctx_nodes.induct) auto

lemma map_ctx_append: "map_ctx f (c @ d) = map_ctx f c @ map_ctx f d"
  by (induction c rule: ctx_nodes.induct) auto

lemma set_ctx_sides: "set (ctx_left c) \<union> set (ctx_right c) = ctx_nodes c"
  by (induction c rule: ctx_nodes.induct) auto

text \<open>A node with two subtrees, with the largest node \<open>m\<close> of its left subtree.\<close>

lemma swap_ok_max:
  assumes t: "is_tree h None T (tree_root h)" and d: "distinct (inorder T)"
    and T: "T = plug (Node (plug (Node B m Leaf) cm) x r) c"
  shows "swap_ok (set_tree T) h x m"
proof -
  let ?l = "plug (Node B m Leaf) cm" and ?C = "cm @ (False, x, r) # c"
  have T': "T = plug (Node B m Leaf) ?C" by (simp add: T plug_append nd_def)
  obtain q p where q: "is_ctx h q c p" "is_tree h q (Node ?l x r) p" using t unfolding T is_tree_plug by blast
  obtain q' p' where q': "is_ctx h q' ?C p'" "is_tree h q' (Node B m Leaf) p'" using t unfolding T' is_tree_plug by blast
  have D: "m \<notin> ctx_nodes ?C" "x \<notin> set_tree ?l" "x \<notin> ctx_nodes c" "set_tree ?l \<inter> ctx_nodes c = {}"
    using d unfolding T by (auto simp: distinct_plug) (use d in \<open>auto simp: T' distinct_plug\<close>)
  have "\<exists>z. q' = Some z \<and> z \<in> insert x (ctx_nodes cm)" using q'(1) by (cases cm rule: ctx_nodes.cases) auto
  then obtain z where z: "q' = Some z" "z \<in> insert x (ctx_nodes cm)" by blast
  have zl: "ctx_nodes cm \<subseteq> set_tree ?l" by (auto simp: set_tree_plug)
  have px: "avl_parent h x = q" "avl_parent h m = Some z" using q(2) q'(2) z(1) by simp_all
  have qn: "n \<in> ctx_nodes c" if "q = Some n" for n using ctx_parent [OF q(1) that] .
  have "x \<noteq> m" using D(2) by (auto simp: set_tree_plug)
  moreover have "x \<in> set_tree T" "m \<in> set_tree T" by (auto simp: T set_tree_plug)
  moreover have "z \<noteq> m" using z(2) D(1) calculation(1) by (auto simp: ctx_nodes_append)
  moreover have "q \<noteq> Some z" using qn [of z] z(2) zl D(3,4) by auto
  moreover have "q \<noteq> Some x" "q \<noteq> Some m" using qn [of x] qn [of m] D(3,4) by (auto simp: set_tree_plug)
  ultimately show ?thesis using linked_tree [OF t d] px by (auto simp: swap_ok_def)
qed

lemma map_swp_id: "x \<notin> set xs \<Longrightarrow> m \<notin> set xs \<Longrightarrow> map (swp x m) xs = xs"
  by (induction xs) auto

lemma remove_ok:
  assumes rep: "avl_rep h xs" and x: "x \<in> set xs"
  shows "\<exists>h'. CAvl_Remove x h = Some h' \<and> avl_rep h' (remove1 x xs)"
proof -
  obtain T where T: "is_tree h None T (tree_root h)" "bal_ok h T" "inorder T = xs" and ok: "distinct xs" "\<not> avl_fault h"
    using rep by (auto simp: avl_rep_def)
  have dT: "distinct (inorder T)" using T(3) ok by simp
  have xT: "x \<in> set_tree T" using x T(3) by (metis set_inorder)
  then obtain l r c where P: "T = plug (Node l x r) c" using tree_position by blast
  have root: "A_ASSERT (tree_root h \<noteq> None) h = h" using is_tree_null [OF T(1)] xT by (intro A_ASSERT_True) auto
  obtain q p where q: "is_ctx h q c p" "is_tree h q (Node l x r) p" using T(1) unfolding P is_tree_plug by blast
  have lr: "is_tree h (Some x) l (avl_link h x False)" "is_tree h (Some x) r (avl_link h x True)" using q(2) by simp_all
  show ?thesis
  proof (cases "l = Leaf \<or> r = Leaf")
    case True
    then have "CAvl_Remove x h = remove_single x h"
      using is_tree_null [OF lr(1)] is_tree_null [OF lr(2)] unfolding CAvl_Remove_def Let_def root
      by (auto split: option.split)
    moreover obtain h' where h': "remove_single x h = Some h'" "rebalanced h (inorder (plug (if l = Leaf then r else l) c)) h'"
      using remove_single_ok [of h l x r c] T(1,2) dT True by (auto simp: P)
    moreover have "inorder (plug (if l = Leaf then r else l) c) = remove1 x xs"
      using True dT unfolding T(3) [symmetric] P by (auto simp: inorder_plug remove1_append)
    ultimately show ?thesis using ok rebalanced_rep [OF h'(2)] distinct_remove1 by simp
  next
    case False
    then obtain d where d: "avl_link h x False = Some d" "avl_link h x True \<noteq> None"
      using is_tree_null [OF lr(1)] is_tree_null [OF lr(2)] by auto
    obtain m B cm where m: "CAvl_subtree_max h d = Some m" "l = plug (Node B m Leaf) cm" "ctx_right cm = []"
      using subtree_max_ok [OF lr(1) [unfolded d]] by blast
    define h1 where "h1 = CAvl_swap_for_remove x m (avl_parent h x) (avl_parent h m) h"
    let ?f = "swp x m" and ?C = "cm @ (False, x, r) # c"
    have rm: "CAvl_Remove x h = remove_single x h1"
      using d m(1) unfolding CAvl_Remove_def Let_def root by (auto simp: h1_def)
    have ren: "renamed ?f (set_tree T) h h1"
      unfolding h1_def by (rule swap_renames [OF swap_ok_max [OF T(1) dT P [unfolded m(2)]]])
    have P': "T = plug (Node B m Leaf) ?C" by (simp add: P m(2) plug_append nd_def)
    have mT: "map_tree ?f T = plug (Node (map_tree ?f B) x Leaf) (map_ctx ?f ?C)"
      unfolding P' map_tree_plug by simp
    have t1: "is_tree h1 None (map_tree ?f T) (tree_root h1)"
      using renamed_tree [OF ren subset_refl T(1)] ren by (simp add: renamed_def)
    have b1: "bal_ok h1 (map_tree ?f T)" using renamed_bal [OF ren subset_refl T(2)] .
    have "inj ?f" by (metis injI swp_simps(4))
    then have d1: "distinct (inorder (map_tree ?f T))" using dT by (simp add: distinct_map) (metis inj_on_subset subset_UNIV)
    obtain h' where h': "remove_single x h1 = Some h'"
      "rebalanced h1 (inorder (plug (if map_tree ?f B = Leaf then Leaf else map_tree ?f B) (map_ctx ?f ?C))) h'"
      using remove_single_ok [of h1 "map_tree ?f B" x Leaf "map_ctx ?f ?C"] t1 b1 d1 unfolding mT by blast
    have leaf: "(if map_tree ?f B = Leaf then Leaf else map_tree ?f B) = map_tree ?f B" by simp
    have xs: "xs = (ctx_left ?C @ inorder B) @ m # x # inorder r @ ctx_right c"
      unfolding T(3) [symmetric] P' inorder_plug using m(3) by (simp add: ctx_sides_append)
    then have D: "x \<notin> set (ctx_left ?C @ inorder B)" "m \<notin> set (ctx_left ?C @ inorder B)" "x \<notin> set (inorder r @ ctx_right c)"
      "m \<notin> set (inorder r @ ctx_right c)" "x \<noteq> m"
      using ok(1) by auto
    have "inorder (plug (map_tree ?f B) (map_ctx ?f ?C)) = map ?f (ctx_left ?C @ inorder B) @ map ?f (x # inorder r @ ctx_right c)"
      unfolding inorder_plug map_ctx_sides using m(3) by (simp add: ctx_sides_append)
    also have "\<dots> = remove1 x xs"
      unfolding xs map_swp_id [OF D(1,2)] list.map map_swp_id [OF D(3,4)] using D by (simp add: remove1_append)
    finally have "rebalanced h1 (remove1 x xs) h'" using h'(2) unfolding leaf by simp
    moreover have "\<not> avl_fault h1" using ren ok(2) by (simp add: renamed_def)
    ultimately show ?thesis using rm h'(1) ok(1) by (auto intro: rebalanced_rep)
  qed
qed

section \<open>Traversal\<close>

lemma subtree_min_ok:
  "is_tree h q t (Some r) \<Longrightarrow> \<exists>m B c. CAvl_subtree_min h r = Some m \<and> t = plug (Node Leaf m B) c \<and> ctx_left c = []"
proof (induction t arbitrary: q r)
  case (Node a x b)
  have rx: "r = x" and ta: "is_tree h (Some x) a (avl_link h x False)" using Node.prems by simp_all
  show ?case
  proof (cases "avl_link h x False")
    case None
    then have "a = Leaf" using ta is_tree_null by auto
    moreover have "CAvl_subtree_min h r = Some x" using None by (subst CAvl_subtree_min.simps) (simp add: rx)
    ultimately show ?thesis by (intro exI [of _ x] exI [of _ b] exI [of _ "[]"]) simp
  next
    case (Some d)
    from Node.IH(1) [OF ta [unfolded Some]] obtain m B c
      where m: "CAvl_subtree_min h d = Some m" "a = plug (Node Leaf m B) c" "ctx_left c = []" by blast
    have "CAvl_subtree_min h r = Some m" using m(1) Some by (subst CAvl_subtree_min.simps) (simp add: rx)
    then show ?thesis using m(2,3)
      by (intro exI [of _ m] exI [of _ B] exI [of _ "c @ [(False, x, b)]"]) (simp add: plug_append nd_def ctx_sides_append)
  qed
qed simp

text \<open>The first and the last element of a list, if any.\<close>

definition first_of :: "nat list \<Rightarrow> nat option" where
  "first_of xs = (case xs of [] \<Rightarrow> None | x # _ \<Rightarrow> Some x)"

lemma first_of_simps [simp]: "first_of [] = None" "first_of (x # xs) = Some x" "first_of (xs @ ys) = (if xs = [] then first_of ys else first_of xs)"
  by (auto simp: first_of_def split: list.split)

lemma subtree_min_first: "is_tree h q t (Some r) \<Longrightarrow> CAvl_subtree_min h r = first_of (inorder t)"
  using subtree_min_ok [of h q t r] by (auto simp: inorder_plug)

lemma subtree_max_last: "is_tree h q t (Some r) \<Longrightarrow> CAvl_subtree_max h r = first_of (rev (inorder t))"
  using subtree_max_ok [of h q t r] by (auto simp: inorder_plug)

lemma first_of_ne: "xs \<noteq> [] \<Longrightarrow> map_option Some (first_of xs) = Some (first_of xs)" "xs \<noteq> [] \<Longrightarrow> \<exists>z. first_of xs = Some z"
  by (cases xs; simp)+

lemma inorder_nonempty: "is_tree h q t (Some r) \<Longrightarrow> inorder t \<noteq> []"
  by (cases t) auto

lemma get_first_last_ok:
  assumes "avl_rep h xs"
  shows "CAvl_GetFirst h = Some (first_of xs)" and "CAvl_GetLast h = Some (first_of (rev xs))"
proof -
  obtain T where T: "is_tree h None T (tree_root h)" "inorder T = xs" using assms by (auto simp: avl_rep_def)
  show "CAvl_GetFirst h = Some (first_of xs)" "CAvl_GetLast h = Some (first_of (rev xs))"
    using T is_tree_null [OF T(1)] inorder_nonempty [of h None T]
    by (cases "tree_root h"; auto simp: CAvl_GetFirst_def CAvl_GetLast_def subtree_min_first subtree_max_last first_of_ne simp del: option.map_sel)+
qed

lemma climb_ok:
  assumes "is_ctx h (avl_parent h x) c (Some x)" and "x \<notin> ctx_nodes c" and "ctx_distinct c"
  shows "climb s h x = Some (first_of (if s then ctx_right c else rev (ctx_left c)))"
  using assms
proof (induction c arbitrary: x)
  case Nil
  then show ?case by (subst climb.simps) simp
next
  case (Cons f c)
  obtain s' z b where f: "f = (s', z, b)" by (cases f) auto
  have z: "avl_parent h x = Some z" "avl_link h z s' = Some x" using Cons.prems(1) by (simp_all add: f)
  have "avl_link h z (\<not> s') \<noteq> Some x"
    using Cons.prems(1,2) is_tree_root [of h "Some z" b x] by (auto simp: f)
  then have side: "Some x = avl_link h z s \<longleftrightarrow> s = s'" using z(2) by (cases "s = s'") auto
  show ?case
  proof (cases "s = s'")
    case True
    have "climb s h x = climb s h z" using z(1) side True by (subst climb.simps) simp
    also have "\<dots> = Some (first_of (if s then ctx_right c else rev (ctx_left c)))"
      using Cons.prems by (intro Cons.IH) (auto simp: f)
    finally show ?thesis using True by (simp add: f)
  next
    case False
    have "climb s h x = Some (Some z)" using z(1) side False by (subst climb.simps) simp
    then show ?thesis using False by (auto simp: f)
  qed
qed

lemma position_unique: "distinct (us @ x # vs) \<Longrightarrow> us @ x # vs = us' @ x # vs' \<Longrightarrow> us = us' \<and> vs = vs'"
  using append_Cons_eq_iff [of x us vs us' vs'] by (metis distinct.simps(2) distinct_append disjoint_insert(1) inf_commute list.simps(15))

lemma get_next_prev_ok:
  assumes rep: "avl_rep h (us @ x # vs)"
  shows "CAvl_GetNext h x = Some (first_of vs)" and "CAvl_GetPrev h x = Some (first_of (rev us))"
proof -
  obtain T where T: "is_tree h None T (tree_root h)" "inorder T = us @ x # vs" and d: "distinct (us @ x # vs)"
    using rep by (auto simp: avl_rep_def)
  have "x \<in> set_tree T" using arg_cong [OF T(2), of set] by simp
  then obtain l r c where P: "T = plug (Node l x r) c" using tree_position by blast
  obtain q p where q: "is_ctx h q c p" "is_tree h q (Node l x r) p" using T(1) unfolding P is_tree_plug by blast
  have "us @ x # vs = (ctx_left c @ inorder l) @ x # (inorder r @ ctx_right c)"
    using T(2) by (simp add: P inorder_plug)
  with position_unique [OF d] have uv: "us = ctx_left c @ inorder l" "vs = inorder r @ ctx_right c" by simp_all
  have D: "x \<notin> ctx_nodes c" "ctx_distinct c" using d unfolding T(2) [symmetric] P distinct_plug by auto
  have cl: "climb s h x = Some (first_of (if s then ctx_right c else rev (ctx_left c)))" for s
    using climb_ok [of h x c] q D by simp
  have lr: "is_tree h (Some x) l (avl_link h x False)" "is_tree h (Some x) r (avl_link h x True)" using q(2) by simp_all
  show "CAvl_GetNext h x = Some (first_of vs)"
  proof (cases "avl_link h x True")
    case None
    then show ?thesis using is_tree_null [OF lr(2)] cl by (simp add: CAvl_GetNext_def uv)
  next
    case (Some d)
    then show ?thesis using lr(2) inorder_nonempty [of h "Some x" r d]
      by (simp add: CAvl_GetNext_def uv subtree_min_first first_of_ne)
  qed
  show "CAvl_GetPrev h x = Some (first_of (rev us))"
  proof (cases "avl_link h x False")
    case None
    then show ?thesis using is_tree_null [OF lr(1)] cl by (simp add: CAvl_GetPrev_def uv)
  next
    case (Some d)
    then show ?thesis using lr(1) inorder_nonempty [of h "Some x" l d]
      by (simp add: CAvl_GetPrev_def uv subtree_max_last first_of_ne)
  qed
qed

section \<open>Look-up\<close>

text \<open>
  The comparison of a key with the entries of an ascending sequence is first positive, then zero at most once, then negative.
\<close>

definition keyed :: "('k \<Rightarrow> nat \<Rightarrow> int) \<Rightarrow> 'k \<Rightarrow> nat list \<Rightarrow> bool" where
  "keyed cmpk key xs \<longleftrightarrow> (\<forall>a\<in>set xs. \<bar>cmpk key a\<bar> \<le> 1)
     \<and> sorted_wrt (\<lambda>a b. cmpk key b \<le> cmpk key a \<and> \<not> (cmpk key a = 0 \<and> cmpk key b = 0)) xs"

definition splits_at :: "('k \<Rightarrow> nat \<Rightarrow> int) \<Rightarrow> 'k \<Rightarrow> nat list \<Rightarrow> nat list \<Rightarrow> nat \<Rightarrow> nat list \<Rightarrow> bool" where
  "splits_at cmpk key xs us x vs \<longleftrightarrow> xs = us @ x # vs \<and> (\<forall>a\<in>set us. cmpk key a > 0) \<and> (\<forall>a\<in>set vs. cmpk key a < 0)"

lemma lookup_search_ok:
  assumes "is_tree h q t (Some r)" and "keyed cmpk key (inorder t)"
  shows "\<exists>us x vs. lookup_search cmpk key h r = Some (h, x, cmpk key x = 0) \<and> splits_at cmpk key (inorder t) us x vs"
  using assms
proof (induction t arbitrary: q r)
  case (Node a x b)
  have rx: "r = x" and ta: "is_tree h (Some x) a (avl_link h x False)" and tb: "is_tree h (Some x) b (avl_link h x True)"
    using Node.prems(1) by simp_all
  have k: "keyed cmpk key (inorder a)" "keyed cmpk key (inorder b)" "\<bar>cmpk key x\<bar> \<le> 1"
    "\<And>z. z \<in> set_tree a \<Longrightarrow> cmpk key x \<le> cmpk key z \<and> \<not> (cmpk key z = 0 \<and> cmpk key x = 0)"
    "\<And>z. z \<in> set_tree b \<Longrightarrow> cmpk key z \<le> cmpk key x \<and> \<not> (cmpk key x = 0 \<and> cmpk key z = 0)"
    using Node.prems(2) by (auto simp: keyed_def sorted_wrt_append)
  have ce: "CAvl_compare_key_entry cmpk key x h = (h, cmpk key x)" using k(3) by (simp add: CAvl_compare_key_entry_def Let_def)
  have up: "\<forall>z\<in>set_tree a. cmpk key z > 0" if "cmpk key x \<ge> 0" using k(4) that by force
  have dn: "\<forall>z\<in>set_tree b. cmpk key z < 0" if "cmpk key x \<le> 0" using k(5) that by force
  consider "cmpk key x = 0" | "cmpk key x = -1" | "cmpk key x = 1" using k(3) by linarith
  then show ?case
  proof cases
    case 1
    then have "lookup_search cmpk key h r = Some (h, x, True)" by (subst lookup_search.simps) (simp add: rx ce)
    then show ?thesis using 1 up dn by (intro exI [of _ "inorder a"] exI [of _ x] exI [of _ "inorder b"]) (simp add: splits_at_def)
  next
    case 2
    show ?thesis
    proof (cases "avl_link h x False")
      case None
      then have "a = Leaf" using is_tree_null [OF ta] by simp
      moreover have "lookup_search cmpk key h r = Some (h, x, False)" using 2 None by (subst lookup_search.simps) (simp add: rx ce Let_def)
      ultimately show ?thesis using 2 dn by (intro exI [of _ "[]"] exI [of _ x] exI [of _ "inorder b"]) (simp add: splits_at_def)
    next
      case (Some d)
      have "lookup_search cmpk key h r = lookup_search cmpk key h d" using 2 Some by (subst lookup_search.simps) (simp add: rx ce Let_def)
      moreover from Node.IH(1) [OF ta [unfolded Some] k(1)] obtain us y vs
        where "lookup_search cmpk key h d = Some (h, y, cmpk key y = 0)" "splits_at cmpk key (inorder a) us y vs" by blast
      ultimately show ?thesis using 2 dn
        by (intro exI [of _ us] exI [of _ y] exI [of _ "vs @ x # inorder b"]) (auto simp: splits_at_def)
    qed
  next
    case 3
    show ?thesis
    proof (cases "avl_link h x True")
      case None
      then have "b = Leaf" using is_tree_null [OF tb] by simp
      moreover have "lookup_search cmpk key h r = Some (h, x, False)" using 3 None by (subst lookup_search.simps) (simp add: rx ce Let_def)
      ultimately show ?thesis using 3 up by (intro exI [of _ "inorder a"] exI [of _ x] exI [of _ "[]"]) (simp add: splits_at_def)
    next
      case (Some d)
      have "lookup_search cmpk key h r = lookup_search cmpk key h d" using 3 Some by (subst lookup_search.simps) (simp add: rx ce Let_def)
      moreover from Node.IH(2) [OF tb [unfolded Some] k(2)] obtain us y vs
        where "lookup_search cmpk key h d = Some (h, y, cmpk key y = 0)" "splits_at cmpk key (inorder b) us y vs" by blast
      ultimately show ?thesis using 3 up
        by (intro exI [of _ "inorder a @ x # us"] exI [of _ y] exI [of _ vs]) (auto simp: splits_at_def)
    qed
  qed
qed simp

lemma lookup_cases:
  assumes rep: "avl_rep h xs" and k: "keyed cmpk key xs"
  obtains "xs = []" "tree_root h = None"
  | r us x vs where "tree_root h = Some r" "lookup_search cmpk key h r = Some (h, x, cmpk key x = 0)" "splits_at cmpk key xs us x vs"
proof (cases "tree_root h")
  case None
  then show ?thesis using rep that(1) is_tree_null unfolding avl_rep_def by fastforce
next
  case (Some r)
  obtain T where T: "is_tree h None T (Some r)" "inorder T = xs" using rep Some by (auto simp: avl_rep_def)
  from lookup_search_ok [OF T(1), unfolded T(2), OF k] show ?thesis using that(2) [OF Some] by blast
qed

lemma find_append: "find P (xs @ ys) = (case find P xs of None \<Rightarrow> find P ys | Some x \<Rightarrow> Some x)"
  by (induction xs) auto

lemma find_first: "\<forall>a\<in>set xs. P a \<Longrightarrow> find P xs = first_of xs" "\<forall>a\<in>set xs. \<not> P a \<Longrightarrow> find P xs = None"
  by (cases xs; simp add: find_None_iff)+

lemma lookup_exact_ok:
  assumes "avl_rep h xs" and "keyed cmpk key xs"
  shows "CAvl_LookupExact cmpk key h = Some (h, find (\<lambda>a. cmpk key a = 0) xs)"
  using lookup_cases [OF assms]
proof cases
  case (2 r us x vs)
  then have "find (\<lambda>a. cmpk key a = 0) us = None" "find (\<lambda>a. cmpk key a = 0) vs = None" by (auto simp: find_None_iff splits_at_def)
  then show ?thesis using 2 by (simp add: CAvl_LookupExact_def splits_at_def find_append)
qed (simp add: CAvl_LookupExact_def)

lemma neighbour_ok:
  assumes rep: "avl_rep h xs" and k: "keyed cmpk key xs" and r: "tree_root h = Some r"
    and s: "lookup_search cmpk key h r = Some (h, x, cmpk key x = 0)" and x: "x \<in> set xs"
    and nxt: "step h x = Some nxt" "\<And>d. nxt = Some d \<Longrightarrow> d \<in> set xs \<and> \<not> wrong (cmpk key d)"
  shows "neighbour cmpk key wrong step h = Some (h, if wrong (cmpk key x) then nxt else Some x)"
proof -
  have ce: "CAvl_compare_key_entry cmpk key d h = (h, cmpk key d)" if "d \<in> set xs" for d
    using k that by (simp add: CAvl_compare_key_entry_def Let_def keyed_def)
  show ?thesis
    using nxt ce [OF x] ce by (auto simp: neighbour_def CAvl_Lookup_def r s split: option.split)
qed

lemma first_of_mem: "first_of ys = Some d \<Longrightarrow> d \<in> set ys"
  by (cases ys) auto

lemma neighbour_next:
  assumes rep: "avl_rep h xs" and k: "keyed cmpk key xs" and w: "\<And>ord. ord > 0 \<Longrightarrow> wrong ord" "\<And>ord. ord < 0 \<Longrightarrow> \<not> wrong ord"
  shows "neighbour cmpk key wrong CAvl_GetNext h = Some (h, find (\<lambda>a. \<not> wrong (cmpk key a)) xs)"
  using lookup_cases [OF rep k]
proof cases
  case (2 r us x vs)
  have xs: "xs = us @ x # vs" and us: "\<forall>a\<in>set us. cmpk key a > 0" and vs: "\<forall>a\<in>set vs. cmpk key a < 0"
    using 2(3) by (auto simp: splits_at_def)
  have "neighbour cmpk key wrong CAvl_GetNext h = Some (h, if wrong (cmpk key x) then first_of vs else Some x)"
    using get_next_prev_ok(1) [OF rep [unfolded xs]] vs w(2) by (intro neighbour_ok [OF rep k 2(1,2)]) (auto simp: xs dest: first_of_mem)
  moreover have "find (\<lambda>a. \<not> wrong (cmpk key a)) us = None" "find (\<lambda>a. \<not> wrong (cmpk key a)) vs = first_of vs"
    using us vs w by (auto intro!: find_first)
  ultimately show ?thesis by (simp add: xs find_append)
qed (simp add: neighbour_def CAvl_Lookup_def)

lemma neighbour_prev:
  assumes rep: "avl_rep h xs" and k: "keyed cmpk key xs" and w: "\<And>ord. ord < 0 \<Longrightarrow> wrong ord" "\<And>ord. ord > 0 \<Longrightarrow> \<not> wrong ord"
  shows "neighbour cmpk key wrong CAvl_GetPrev h = Some (h, find (\<lambda>a. \<not> wrong (cmpk key a)) (rev xs))"
  using lookup_cases [OF rep k]
proof cases
  case (2 r us x vs)
  have xs: "xs = us @ x # vs" and us: "\<forall>a\<in>set us. cmpk key a > 0" and vs: "\<forall>a\<in>set vs. cmpk key a < 0"
    using 2(3) by (auto simp: splits_at_def)
  have "neighbour cmpk key wrong CAvl_GetPrev h = Some (h, if wrong (cmpk key x) then first_of (rev us) else Some x)"
    using get_next_prev_ok(2) [OF rep [unfolded xs]] us w(2) by (intro neighbour_ok [OF rep k 2(1,2)]) (auto simp: xs dest: first_of_mem)
  moreover have "find (\<lambda>a. \<not> wrong (cmpk key a)) (rev vs) = None" "find (\<lambda>a. \<not> wrong (cmpk key a)) (rev us) = first_of (rev us)"
    using us vs w by (auto intro!: find_first)
  ultimately show ?thesis by (simp add: xs find_append)
qed (simp add: neighbour_def CAvl_Lookup_def)

lemma neighbours_ok:
  assumes "avl_rep h xs" and "keyed cmpk key xs"
  shows "CAvl_GetFirstGreater cmpk key h = Some (h, find (\<lambda>a. cmpk key a < 0) xs)"
    and "CAvl_GetLastLesser cmpk key h = Some (h, find (\<lambda>a. cmpk key a > 0) (rev xs))"
    and "CAvl_GetFirstGreaterEqual cmpk key h = Some (h, find (\<lambda>a. cmpk key a \<le> 0) xs)"
    and "CAvl_GetLastLesserEqual cmpk key h = Some (h, find (\<lambda>a. cmpk key a \<ge> 0) (rev xs))"
  using neighbour_next [OF assms, of "\<lambda>ord. ord \<ge> 0"] neighbour_prev [OF assms, of "\<lambda>ord. ord \<le> 0"]
    neighbour_next [OF assms, of "\<lambda>ord. ord > 0"] neighbour_prev [OF assms, of "\<lambda>ord. ord < 0"]
  by (simp_all add: CAvl_GetFirstGreater_def CAvl_GetLastLesser_def CAvl_GetFirstGreaterEqual_def CAvl_GetLastLesserEqual_def not_le not_less)

section \<open>Verification\<close>

lemma verify_recurser_ok:
  assumes "is_tree h q t (Some r)" and "bal_ok h t" and "ascending cmp (inorder t)" and "cmp_order cmp (set_tree t)"
  shows "CAvl_verify_recurser cmp h r = Some (True, int (height t))"
  using assms
proof (induction t arbitrary: q r)
  case (Node a x b)
  note o = cmp_order_facts [OF Node.prems(4)]
  have rx: "r = x" and ta: "is_tree h (Some x) a (avl_link h x False)" and tb: "is_tree h (Some x) b (avl_link h x True)"
    using Node.prems(1) by simp_all
  have sub: "cmp_order cmp (set_tree a)" "cmp_order cmp (set_tree b)" using Node.prems(4) by (auto elim: cmp_order_subset)
  have asc: "ascending cmp (inorder a)" "ascending cmp (inorder b)"
    "\<And>z. z \<in> set_tree a \<Longrightarrow> cmp z x < 0" "\<And>z. z \<in> set_tree b \<Longrightarrow> cmp x z < 0"
    using Node.prems(3) by (auto simp: sorted_wrt_append)
  have A: "CAvl_verify_recurser cmp h l = Some (True, int (height a)) \<and> avl_parent h l = Some x \<and> cmp l x = -1" if "avl_link h x False = Some l" for l
    using Node.IH(1) [OF ta [unfolded that]] Node.prems(2) asc(1) asc(3) [of l] sub(1) is_tree_root [OF ta [unfolded that]] o(4) [of l x] by auto
  have B: "CAvl_verify_recurser cmp h d = Some (True, int (height b)) \<and> avl_parent h d = Some x \<and> cmp d x = 1" if "avl_link h x True = Some d" for d
    using Node.IH(2) [OF tb [unfolded that]] Node.prems(2) asc(2) asc(4) [of d] sub(2) is_tree_root [OF tb [unfolded that]] o(4) [of d x] o(1) [of x d]
    by auto
  have bal: "-1 \<le> avl_balance h x" "avl_balance h x \<le> 1" "avl_balance h x = int (height b) - int (height a)" using Node.prems(2) by auto
  have n: "avl_link h x False = None \<Longrightarrow> height a = 0" "avl_link h x True = None \<Longrightarrow> height b = 0"
    using is_tree_null [OF ta] is_tree_null [OF tb] by auto
  show ?case
    by (subst CAvl_verify_recurser.simps, cases "avl_link h x False"; cases "avl_link h x True")
      (use A B bal n in \<open>auto simp: rx CAvl_MAX_def\<close>)
qed simp

lemma verify_ok: "avl_rep h xs \<Longrightarrow> ascending cmp xs \<Longrightarrow> cmp_order cmp (set xs) \<Longrightarrow> CAvl_Verify cmp h = Some True"
proof -
  assume a: "avl_rep h xs" "ascending cmp xs" "cmp_order cmp (set xs)"
  then obtain T where T: "is_tree h None T (tree_root h)" "bal_ok h T" "inorder T = xs" by (auto simp: avl_rep_def)
  then show ?thesis
    using a(2,3) is_tree_root [of h None T] verify_recurser_ok [of h None T _ cmp]
    by (cases "tree_root h") (auto simp: CAvl_Verify_def)
qed

section \<open>The ordered set\<close>

lemma tree_insert_ascending:
  "ascending cmp xs \<Longrightarrow> cmp_order cmp (insert f (set xs)) \<Longrightarrow> ascending cmp (fst (tree_insert cmp f xs))"
proof (induction xs)
  case (Cons a as)
  note o = cmp_order_facts [OF Cons.prems(2)]
  have IH: "ascending cmp (fst (tree_insert cmp f as))"
    using Cons.prems by (intro Cons.IH) (auto intro: cmp_order_subset)
  have "cmp f z < 0" if "cmp f a < 0" "z \<in> set as" for z using Cons.prems(1) o(3) [of f a z] that by auto
  moreover have "cmp a f < 0" if "\<not> cmp f a < 0" "cmp f a \<noteq> 0" using o(1) [of f a] that by auto
  ultimately show ?case using IH Cons.prems(1) tree_insert_set [of cmp f as] by (auto simp: split_beta)
qed simp

lemma ascending_remove1: "ascending cmp xs \<Longrightarrow> distinct xs \<Longrightarrow> ascending cmp (remove1 x xs)"
  by (simp add: distinct_remove1_removeAll removeAll_filter_not_eq sorted_wrt_filter)

text \<open>Sequences of operations, on a store and on the list it represents; only entries in the set are removed.\<close>

datatype set_op = Op_Insert nat | Op_Remove nat

fun op_entry :: "set_op \<Rightarrow> nat" where
  "op_entry (Op_Insert f) = f"
| "op_entry (Op_Remove f) = f"

fun run_store :: "(nat \<Rightarrow> 's \<Rightarrow> ('s \<times> bool) option) \<Rightarrow> (nat \<Rightarrow> 's \<Rightarrow> 's option) \<Rightarrow> set_op list \<Rightarrow> 's \<Rightarrow> 's option" where
  "run_store ins rem [] s = Some s"
| "run_store ins rem (Op_Insert f # ops) s = (case ins f s of None \<Rightarrow> None | Some (s, _) \<Rightarrow> run_store ins rem ops s)"
| "run_store ins rem (Op_Remove f # ops) s = (case rem f s of None \<Rightarrow> None | Some s \<Rightarrow> run_store ins rem ops s)"

fun run_list :: "(nat \<Rightarrow> nat \<Rightarrow> int) \<Rightarrow> set_op list \<Rightarrow> nat list \<Rightarrow> nat list option" where
  "run_list cmp [] xs = Some xs"
| "run_list cmp (Op_Insert f # ops) xs = run_list cmp ops (fst (tree_insert cmp f xs))"
| "run_list cmp (Op_Remove f # ops) xs = (if f \<in> set xs then run_list cmp ops (remove1 f xs) else None)"

locale ordered_set =
  fixes rep :: "'s \<Rightarrow> nat list \<Rightarrow> bool" and ins :: "(nat \<Rightarrow> nat \<Rightarrow> int) \<Rightarrow> nat \<Rightarrow> 's \<Rightarrow> ('s \<times> bool) option"
    and rem :: "nat \<Rightarrow> 's \<Rightarrow> 's option" and fst_entry :: "'s \<Rightarrow> nat option option"
  assumes rep_distinct: "rep s xs \<Longrightarrow> distinct xs"
    and ins_law: "rep s xs \<Longrightarrow> ascending cmp xs \<Longrightarrow> cmp_order cmp (insert f (set xs)) \<Longrightarrow>
      \<exists>s'. ins cmp f s = Some (s', f \<notin> set xs) \<and> rep s' (fst (tree_insert cmp f xs))"
    and rem_law: "rep s xs \<Longrightarrow> f \<in> set xs \<Longrightarrow> \<exists>s'. rem f s = Some s' \<and> rep s' (remove1 f xs)"
    and first_law: "rep s xs \<Longrightarrow> fst_entry s = Some (first_of xs)"
begin

lemma run_refines:
  assumes "rep s xs" and "ascending cmp xs" and "cmp_order cmp S" and "set xs \<subseteq> S" and "op_entry ` set ops \<subseteq> S"
    and "run_list cmp ops xs = Some ys"
  shows "\<exists>s'. run_store (ins cmp) rem ops s = Some s' \<and> rep s' ys \<and> ascending cmp ys \<and> set ys \<subseteq> S"
  using assms
proof (induction ops arbitrary: s xs)
  case (Cons a ops)
  show ?case
  proof (cases a)
    case (Op_Insert f)
    have ord: "cmp_order cmp (insert f (set xs))" using Cons.prems(3-5) Op_Insert by (auto intro: cmp_order_subset)
    obtain s' where s': "ins cmp f s = Some (s', f \<notin> set xs)" "rep s' (fst (tree_insert cmp f xs))"
      using ins_law [OF Cons.prems(1,2) ord] by blast
    have "set (fst (tree_insert cmp f xs)) \<subseteq> S" using tree_insert_set [of cmp f xs] Cons.prems(4,5) Op_Insert by auto
    then show ?thesis
      using Cons.IH [OF s'(2) tree_insert_ascending [OF Cons.prems(2) ord] Cons.prems(3)] Cons.prems(5,6) s'(1) Op_Insert by auto
  next
    case (Op_Remove f)
    have f: "f \<in> set xs" using Cons.prems(6) Op_Remove by (auto split: if_splits)
    obtain s' where s': "rem f s = Some s'" "rep s' (remove1 f xs)" using rem_law [OF Cons.prems(1) f] by blast
    have "set (remove1 f xs) \<subseteq> S" using set_remove1_subset Cons.prems(4) by fast
    then show ?thesis
      using Cons.IH [OF s'(2) ascending_remove1 [OF Cons.prems(2) rep_distinct [OF Cons.prems(1)]] Cons.prems(3)]
        Cons.prems(5,6) s'(1) Op_Remove f by auto
  qed
qed auto

end

interpretation avl_set: ordered_set avl_rep SAvl_Insert SAvl_Remove SAvl_GetFirst
proof
  fix s :: avl and xs assume r: "avl_rep s xs"
  show "distinct xs" using r by (simp add: avl_rep_def)
  show "SAvl_GetFirst s = Some (first_of xs)" using get_first_last_ok(1) [OF r] by (simp add: SAvl_GetFirst_def)
  fix cmp f
  show "\<exists>s'. SAvl_Remove f s = Some s' \<and> avl_rep s' (remove1 f xs)" if "f \<in> set xs"
    using remove_ok [OF r that] by (simp add: SAvl_Remove_def)
  show "\<exists>s'. SAvl_Insert cmp f s = Some (s', f \<notin> set xs) \<and> avl_rep s' (fst (tree_insert cmp f xs))"
    if "ascending cmp xs" "cmp_order cmp (insert f (set xs))"
    using insert_ok [OF r that] by (auto simp: SAvl_Insert_def)
qed

text \<open>The height of a balanced tree is logarithmic.\<close>

lemma avl_height: "bal_ok h t \<Longrightarrow> 2 ^ (height t div 2) \<le> size t + 1"
proof (induction t rule: measure_induct_rule [of height])
  case (less t)
  show ?case
  proof (cases t)
    case (Node l x r)
    show ?thesis
    proof (cases "height t \<le> 1")
      case False
      define lo where "lo = (if height l \<le> height r then l else r)"
      define hi where "hi = (if height l \<le> height r then r else l)"
      have b: "bal_ok h lo" "bal_ok h hi" "height t = height hi + 1" "height hi \<le> height lo + 1" "size t = size lo + size hi + 1"
        "height lo \<le> height hi"
        using less.prems Node by (auto simp: lo_def hi_def)
      have e: "(height t - 2) div 2 + 1 = height t div 2" using False by simp
      have "2 ^ (height lo div 2) \<le> size lo + 1" "2 ^ (height hi div 2) \<le> size hi + 1" using less.IH b by auto
      moreover have "(2::nat) ^ ((height t - 2) div 2) \<le> 2 ^ (height lo div 2)" "(2::nat) ^ ((height t - 2) div 2) \<le> 2 ^ (height hi div 2)"
        using b(3,4,6) by (auto intro!: power_increasing div_le_mono)
      ultimately have "2 * 2 ^ ((height t - 2) div 2) \<le> size t + 1" using b(5) by linarith
      then show ?thesis unfolding e [symmetric] by simp
    qed (use Node in \<open>auto simp: le_Suc_eq\<close>)
  qed simp
qed

section \<open>Properties\<close>

lemma avl_rep_empty: "\<not> avl_fault t \<Longrightarrow> avl_rep (SAvl_Init t) []"
  by (auto simp: avl_rep_def SAvl_Init_def CAvl_Init_def intro!: exI [of _ Leaf])

text \<open>
  C37. Every sequence of insertions and removals on the AVL tree, starting from an initialised tree and with a comparison that is a
  total order, ends without a failed assertion or a null pointer being used. It leaves a tree whose entries from left to right
  are the ascending list that the same operations on a list give, with consistent parent links and balance factors (so
  that \<open>CAvl_Verify\<close> accepts it), of logarithmic height, and whose first entry is the head of the list.
\<close>

theorem avl_refines_ordered_set:
  assumes ord: "cmp_order cmp S" and ops: "op_entry ` set ops \<subseteq> S" and run: "run_list cmp ops [] = Some ys" and t: "\<not> avl_fault t"
  shows "\<exists>h T. run_store (SAvl_Insert cmp) SAvl_Remove ops (SAvl_Init t) = Some h \<and> \<not> avl_fault h
    \<and> is_tree h None T (tree_root h) \<and> inorder T = ys \<and> 2 ^ (height T div 2) \<le> length ys + 1
    \<and> CAvl_Verify cmp h = Some True \<and> SAvl_GetFirst h = Some (first_of ys)"
proof -
  obtain h where h: "run_store (SAvl_Insert cmp) SAvl_Remove ops (SAvl_Init t) = Some h" "avl_rep h ys" "ascending cmp ys" "set ys \<subseteq> S"
    using avl_set.run_refines [OF avl_rep_empty [OF t] _ ord _ ops run] by auto
  obtain T where T: "is_tree h None T (tree_root h)" "bal_ok h T" "inorder T = ys" using h(2) by (auto simp: avl_rep_def)
  have "size T = length ys" using T(3) length_inorder [of T] by simp
  then show ?thesis
    using h T(1,3) avl_height [OF T(2)] verify_ok [OF h(2,3) cmp_order_subset [OF ord h(4)]] avl_set.first_law [OF h(2)]
    by (auto simp: avl_rep_def)
qed

lemma B_COMPARE_order: "cmp_order B_COMPARE S"
proof -
  have "comparator B_COMPARE (\<lambda>x. x \<in> S)"
    by (rule comparator.intro) (rule B_COMPARE_sym, simp_all)
  then show ?thesis by (simp add: cmp_order_def B_COMPARE_def)
qed

theorem avl_refines_ordered_set_witness:
  "\<exists>h T. run_store (SAvl_Insert B_COMPARE) SAvl_Remove [Op_Insert 5, Op_Insert 3, Op_Insert 4, Op_Remove 3]
      (SAvl_Init \<lparr>tree_root = None, avl_parent = \<lambda>_. None, avl_link = \<lambda>_ _. None, avl_balance = \<lambda>_. 0, avl_fault = False\<rparr>) = Some h
    \<and> \<not> avl_fault h \<and> is_tree h None T (tree_root h) \<and> inorder T = [4, 5] \<and> 2 ^ (height T div 2) \<le> length [4 :: nat, 5] + 1
    \<and> CAvl_Verify B_COMPARE h = Some True \<and> SAvl_GetFirst h = Some (first_of [4, 5])"
  by (rule avl_refines_ordered_set [OF B_COMPARE_order subset_UNIV]) (simp_all add: B_COMPARE_def)

text \<open>
  Looking up a key that is ordered among the entries of a tree: the exact look-up finds the entry equal to the key if
  there is one, and the four neighbour look-ups find the first entry greater (or not less) and the last entry less (or not
  greater) than the key. They leave the tree as it is and end without a fault.
\<close>

theorem avl_lookups_search_the_list:
  assumes "avl_rep h xs" and "keyed cmpk key xs"
  shows "CAvl_LookupExact cmpk key h = Some (h, find (\<lambda>a. cmpk key a = 0) xs)
    \<and> CAvl_GetFirstGreater cmpk key h = Some (h, find (\<lambda>a. cmpk key a < 0) xs)
    \<and> CAvl_GetFirstGreaterEqual cmpk key h = Some (h, find (\<lambda>a. cmpk key a \<le> 0) xs)
    \<and> CAvl_GetLastLesser cmpk key h = Some (h, find (\<lambda>a. cmpk key a > 0) (rev xs))
    \<and> CAvl_GetLastLesserEqual cmpk key h = Some (h, find (\<lambda>a. cmpk key a \<ge> 0) (rev xs))"
  using lookup_exact_ok [OF assms] neighbours_ok [OF assms] by simp

lemma example_tree: "\<exists>h. avl_rep h [3, 5]"
proof -
  have "avl_rep (SAvl_Init \<lparr>tree_root = None, avl_parent = \<lambda>_. None, avl_link = \<lambda>_ _. None, avl_balance = \<lambda>_. 0, avl_fault = False\<rparr>) []"
    by (rule avl_rep_empty) simp
  from avl_set.ins_law [OF this, of B_COMPARE 5] obtain h where "avl_rep h [5]" by (auto simp: B_COMPARE_order)
  from avl_set.ins_law [OF this, of B_COMPARE 3] show ?thesis by (auto simp: B_COMPARE_order)
qed

theorem avl_lookups_search_the_list_witness:
  "\<exists>h. avl_rep h [3, 5] \<and> CAvl_LookupExact B_COMPARE 4 h = Some (h, None) \<and> CAvl_GetFirstGreater B_COMPARE 4 h = Some (h, Some 5)
    \<and> CAvl_GetLastLesserEqual B_COMPARE 4 h = Some (h, Some 3)"
proof -
  obtain h where h: "avl_rep h [3, 5]" using example_tree by blast
  have "keyed B_COMPARE (4 :: nat) [3, 5]" by (simp add: keyed_def B_COMPARE_def)
  from avl_lookups_search_the_list [OF h this] show ?thesis using h by (intro exI [of _ h]) (simp add: B_COMPARE_def)
qed

text \<open>The comparison of flows is such an order, and the tree of the fair queue ascends in it.\<close>

lemma compare_flows_sym: "compare_flows m b a = - compare_flows m a b"
  by (cases "time_of m a" "time_of m b" rule: linorder_cases) (auto simp: compare_flows_def Let_def B_COMPARE_def)

lemma compare_flows_order: "cmp_order (compare_flows m) S"
proof -
  have "comparator (compare_flows m) (\<lambda>x. x \<in> S)"
    by (rule comparator.intro) (rule compare_flows_sym, simp, simp, rule before_trans)
  moreover have "\<bar>compare_flows m a b\<bar> \<le> 1" for a b by (simp add: compare_flows_def Let_def B_COMPARE_def)
  ultimately show ?thesis unfolding cmp_order_def by simp
qed

lemma fair_queue_tree_steps:
  assumes q: "reach (qinit mtu weight) qstep_any m" and h: "avl_rep h (queued_tree m)"
  shows "SAvl_GetFirst h = Some (Tree_GetFirst m)" and "SAvl_IsEmpty h = (queued_tree m = [])"
    and "\<exists>h'. SAvl_Insert (compare_flows m) f h = Some (h', snd (Tree_Insert f m)) \<and> avl_rep h' (queued_tree (fst (Tree_Insert f m)))"
    and "f \<in> set (queued_tree m) \<Longrightarrow> \<exists>h'. SAvl_Remove f h = Some h' \<and> avl_rep h' (queued_tree (Tree_Remove f m))"
proof -
  have "sorted_wrt (before m) (queued_tree m)" using fairq.reach_inv [OF q] by (simp add: qinv_def tree_ok_def)
  then have asc: "ascending (compare_flows m) (queued_tree m)" by simp
  note i = avl_set.ins_law [OF h asc compare_flows_order] and n = tree_insert_new [OF asc compare_flows_order]
  show "SAvl_GetFirst h = Some (Tree_GetFirst m)"
    using avl_set.first_law [OF h] by (simp add: Tree_GetFirst_def first_of_def)
  obtain T where "is_tree h None T (tree_root h)" "inorder T = queued_tree m" using h by (auto simp: avl_rep_def)
  then show "SAvl_IsEmpty h = (queued_tree m = [])"
    using is_tree_null [of h None T] by (cases T) (auto simp: SAvl_IsEmpty_def CAvl_IsEmpty_def)
  show "\<exists>h'. SAvl_Insert (compare_flows m) f h = Some (h', snd (Tree_Insert f m)) \<and> avl_rep h' (queued_tree (fst (Tree_Insert f m)))"
    using i [of f] n [of f] by (simp add: Tree_Insert_def split_beta)
  show "\<exists>h'. SAvl_Remove f h = Some h' \<and> avl_rep h' (queued_tree (Tree_Remove f m))" if "f \<in> set (queued_tree m)"
    using avl_set.rem_law [OF h that] by (simp add: Tree_Remove_def Q_ASSERT_def)
qed

end
