(* ===== verification/Linked_List.thy ===== *)
theory Linked_List
  imports Prelude
begin

text \<open>
  \<open>structure/LinkedList1.h\<close>: the intrusive doubly linked list with which the event loop keeps its expired timers and
  its active limits. Nodes are addresses; the fields \<open>p\<close> and \<open>n\<close> of all nodes are in an explicit store beside the
  fields of the list itself, so the operations can be run on any object that has such nodes.

  A list represents a sequence of distinct nodes, and every operation does on the sequence what its name says. It writes
  only nodes of the sequence and the node it is given.
\<close>

section \<open>Operations\<close>

record LinkedList1 =
  ll_first :: "nat option"
  ll_last :: "nat option"
  ll_p :: "nat \<Rightarrow> nat option"
  ll_n :: "nat \<Rightarrow> nat option"

definition set_p :: "nat \<Rightarrow> nat option \<Rightarrow> LinkedList1 \<Rightarrow> LinkedList1" where
  "set_p x v l = l\<lparr>ll_p := (ll_p l)(x := v)\<rparr>"

definition set_n :: "nat \<Rightarrow> nat option \<Rightarrow> LinkedList1 \<Rightarrow> LinkedList1" where
  "set_n x v l = l\<lparr>ll_n := (ll_n l)(x := v)\<rparr>"

text \<open>The link that leads to what follows \<open>a\<close>, and the one that leads to what precedes \<open>b\<close>: a field of the node, or of the list.\<close>

definition set_after :: "nat option \<Rightarrow> nat option \<Rightarrow> LinkedList1 \<Rightarrow> LinkedList1" where
  "set_after a v l = (case a of Some x \<Rightarrow> set_n x v l | None \<Rightarrow> l\<lparr>ll_first := v\<rparr>)"

definition set_before :: "nat option \<Rightarrow> nat option \<Rightarrow> LinkedList1 \<Rightarrow> LinkedList1" where
  "set_before b v l = (case b of Some x \<Rightarrow> set_p x v l | None \<Rightarrow> l\<lparr>ll_last := v\<rparr>)"

definition LinkedList1_Init :: "LinkedList1 \<Rightarrow> LinkedList1" where
  "LinkedList1_Init l = l\<lparr>ll_first := None, ll_last := None\<rparr>"

definition LinkedList1_IsEmpty :: "LinkedList1 \<Rightarrow> bool" where
  "LinkedList1_IsEmpty l = (ll_first l = None)"

definition LinkedList1_GetFirst :: "LinkedList1 \<Rightarrow> nat option" where
  "LinkedList1_GetFirst l = ll_first l"

definition LinkedList1_GetLast :: "LinkedList1 \<Rightarrow> nat option" where
  "LinkedList1_GetLast l = ll_last l"

definition LinkedList1_Prepend :: "nat \<Rightarrow> LinkedList1 \<Rightarrow> LinkedList1" where
  "LinkedList1_Prepend node l =
    (let l = set_p node None l;
         l = set_n node (ll_first l) l;
         l = set_before (ll_first l) (Some node) l
     in l\<lparr>ll_first := Some node\<rparr>)"

definition LinkedList1_Append :: "nat \<Rightarrow> LinkedList1 \<Rightarrow> LinkedList1" where
  "LinkedList1_Append node l =
    (let l = set_p node (ll_last l) l;
         l = set_n node None l;
         l = set_after (ll_last l) (Some node) l
     in l\<lparr>ll_last := Some node\<rparr>)"

definition LinkedList1_InsertBefore :: "nat \<Rightarrow> nat \<Rightarrow> LinkedList1 \<Rightarrow> LinkedList1" where
  "LinkedList1_InsertBefore node target l =
    (let l = set_p node (ll_p l target) l;
         l = set_n node (Some target) l;
         l = set_after (ll_p l target) (Some node) l
     in set_p target (Some node) l)"

definition LinkedList1_InsertAfter :: "nat \<Rightarrow> nat \<Rightarrow> LinkedList1 \<Rightarrow> LinkedList1" where
  "LinkedList1_InsertAfter node target l =
    (let l = set_p node (Some target) l;
         l = set_n node (ll_n l target) l;
         l = set_before (ll_n l target) (Some node) l
     in set_n target (Some node) l)"

definition LinkedList1_Remove :: "nat \<Rightarrow> LinkedList1 \<Rightarrow> LinkedList1" where
  "LinkedList1_Remove node l =
    (let l = set_after (ll_p l node) (ll_n l node) l
     in set_before (ll_n l node) (ll_p l node) l)"

text \<open>The inserted list is passed by value; its nodes are in the same store.\<close>

definition LinkedList1_InsertListAfter :: "nat option \<times> nat option \<Rightarrow> nat option \<Rightarrow> LinkedList1 \<Rightarrow> LinkedList1" where
  "LinkedList1_InsertListAfter ins_list target l = (case ins_list of
      (Some f, Some e) \<Rightarrow>
       (let t_next = (case target of Some t \<Rightarrow> ll_n l t | None \<Rightarrow> ll_first l);
            l = set_p f target l;
            l = set_n e t_next l;
            l = set_after target (Some f) l
        in set_before t_next (Some e) l)
    | _ \<Rightarrow> l)"

definition LinkedList1Node_Next :: "nat \<Rightarrow> LinkedList1 \<Rightarrow> nat option" where
  "LinkedList1Node_Next node l = ll_n l node"

definition LinkedList1Node_Prev :: "nat \<Rightarrow> LinkedList1 \<Rightarrow> nat option" where
  "LinkedList1Node_Prev node l = ll_p l node"

lemmas list_defs = set_p_def set_n_def set_after_def set_before_def Let_def

section \<open>The sequence it represents\<close>

text \<open>The first node of a sequence, or what follows it, and the last node, or what precedes it.\<close>

definition head_or :: "nat list \<Rightarrow> nat option \<Rightarrow> nat option" where
  "head_or xs e = (case xs of [] \<Rightarrow> e | x # _ \<Rightarrow> Some x)"

definition last_or :: "nat list \<Rightarrow> nat option \<Rightarrow> nat option" where
  "last_or xs q = (if xs = [] then q else Some (last xs))"

text \<open>The nodes \<open>xs\<close> are linked both ways, between \<open>q\<close> and \<open>e\<close>.\<close>

fun seg :: "(nat \<Rightarrow> nat option) \<Rightarrow> (nat \<Rightarrow> nat option) \<Rightarrow> nat option \<Rightarrow> nat list \<Rightarrow> nat option \<Rightarrow> bool" where
  "seg p n q [] e = True"
| "seg p n q (x # xs) e = (p x = q \<and> n x = head_or xs e \<and> seg p n (Some x) xs e)"

definition list_rep :: "LinkedList1 \<Rightarrow> nat list \<Rightarrow> bool" where
  "list_rep l xs \<longleftrightarrow> distinct xs \<and> ll_first l = head_or xs None \<and> ll_last l = last_or xs None
     \<and> seg (ll_p l) (ll_n l) None xs None"

text \<open>Nodes outside \<open>S\<close> are as they were.\<close>

definition same_nodes :: "nat set \<Rightarrow> LinkedList1 \<Rightarrow> LinkedList1 \<Rightarrow> bool" where
  "same_nodes S l l' \<longleftrightarrow> (\<forall>x. x \<notin> S \<longrightarrow> ll_p l' x = ll_p l x \<and> ll_n l' x = ll_n l x)"

lemma head_or_simps [simp]: "head_or [] e = e" "head_or (x # xs) e = Some x"
  by (simp_all add: head_or_def)

lemma last_or_simps [simp]: "last_or [] q = q" "last_or (x # xs) q = last_or xs (Some x)" "last_or (xs @ [x]) q = Some x"
  by (simp_all add: last_or_def)

lemma head_or_append [simp]: "head_or (xs @ ys) e = head_or xs (head_or ys e)"
  by (cases xs) simp_all

lemma last_or_append [simp]: "last_or (xs @ ys) q = last_or ys (last_or xs q)"
  by (simp add: last_or_def)

lemma seg_append [simp]: "seg p n q (xs @ ys) e \<longleftrightarrow> seg p n q xs (head_or ys e) \<and> seg p n (last_or xs q) ys e"
  by (induction xs arbitrary: q) auto

lemma seg_cong: "(\<And>x. x \<in> set xs \<Longrightarrow> p' x = p x \<and> n' x = n x) \<Longrightarrow> seg p' n' q xs e = seg p n q xs e"
  by (induction xs arbitrary: q) auto

lemma head_or_Some: "head_or xs e = Some x \<longleftrightarrow> (xs = [] \<and> e = Some x \<or> (\<exists>ys. xs = x # ys))"
  by (cases xs) auto

lemma list_rep_same:
  assumes "list_rep l xs" and "same_nodes S l l'" and "S \<inter> set xs = {}" and "ll_first l' = ll_first l" and "ll_last l' = ll_last l"
  shows "list_rep l' xs"
proof -
  have "seg (ll_p l') (ll_n l') None xs None = seg (ll_p l) (ll_n l) None xs None"
    using assms(2,3) by (intro seg_cong) (auto simp: same_nodes_def)
  then show ?thesis using assms(1,4,5) by (simp add: list_rep_def)
qed

text \<open>Storing through a pointer that may be null.\<close>

definition upd :: "nat option \<Rightarrow> nat option \<Rightarrow> (nat \<Rightarrow> nat option) \<Rightarrow> nat \<Rightarrow> nat option" where
  "upd a v f = (case a of Some x \<Rightarrow> f(x := v) | None \<Rightarrow> f)"

lemma upd_simps [simp]: "upd None v f = f" "upd (Some x) v f = f(x := v)"
  by (simp_all add: upd_def)

lemma node_sel [simp]:
  "ll_p (set_p x v l) = (ll_p l)(x := v)" "ll_n (set_p x v l) = ll_n l" "ll_first (set_p x v l) = ll_first l" "ll_last (set_p x v l) = ll_last l"
  "ll_n (set_n x v l) = (ll_n l)(x := v)" "ll_p (set_n x v l) = ll_p l" "ll_first (set_n x v l) = ll_first l" "ll_last (set_n x v l) = ll_last l"
  "ll_n (set_after a v l) = upd a v (ll_n l)" "ll_p (set_after a v l) = ll_p l" "ll_last (set_after a v l) = ll_last l"
  "ll_first (set_after a v l) = (if a = None then v else ll_first l)"
  "ll_p (set_before a v l) = upd a v (ll_p l)" "ll_n (set_before a v l) = ll_n l" "ll_first (set_before a v l) = ll_first l"
  "ll_last (set_before a v l) = (if a = None then v else ll_last l)"
  by (simp_all add: list_defs upd_def split: option.splits)

lemma head_or_in: "head_or xs e = Some x \<Longrightarrow> x \<notin> set xs \<Longrightarrow> e = Some x"
  by (cases xs) auto

lemma last_or_in: "last_or xs q = Some x \<Longrightarrow> x \<notin> set xs \<Longrightarrow> q = Some x"
  by (auto simp: last_or_def split: if_splits)

lemma upd_other [simp]: "a \<noteq> Some x \<Longrightarrow> upd a v f x = f x"
  by (cases a) auto

lemma upd_head_or: "x \<notin> set bs \<Longrightarrow> upd (head_or bs None) w f x = f x"
  using head_or_in [of bs None x] by (intro upd_other) auto

lemma upd_last_or: "x \<notin> set as \<Longrightarrow> upd (last_or as None) w f x = f x"
  using last_or_in [of as None x] by (intro upd_other) auto

lemma seg_relink:
  assumes "seg p n q xs e" and "distinct xs"
  shows "seg p (upd (last_or xs None) v n) q xs v" and "seg (upd (head_or xs None) w p) n w xs e"
proof -
  show "seg (upd (head_or xs None) w p) n w xs e"
  proof (cases xs)
    case (Cons x ys)
    then have "seg (p(x := w)) n (Some x) ys e = seg p n (Some x) ys e" using assms(2) by (intro seg_cong) auto
    then show ?thesis using Cons assms(1) by simp
  qed simp
  show "seg p (upd (last_or xs None) v n) q xs v"
    using assms
  proof (induction xs rule: rev_induct)
    case (snoc x xs)
    then have "seg p (n(x := v)) q xs (Some x) = seg p n q xs (Some x)" by (intro seg_cong) auto
    then show ?case using snoc.prems by (simp add: fun_upd_def)
  qed simp
qed

text \<open>Two halves of a list are joined by writing the links at the seam.\<close>

lemma seam:
  assumes "seg p n None as e" and "seg p n q bs None" and "distinct (as @ bs)"
  shows "seg (upd (head_or bs None) w p) (upd (last_or as None) v n) None as v"
    and "seg (upd (head_or bs None) w p) (upd (last_or as None) v n) w bs None"
proof -
  let ?p = "upd (head_or bs None) w p" and ?n = "upd (last_or as None) v n"
  have "seg p ?n None as v" "seg ?p n w bs None" using seg_relink assms by auto
  moreover have "?p x = p x" if "x \<in> set as" for x using that assms(3) by (intro upd_head_or) auto
  moreover have "?n x = n x" if "x \<in> set bs" for x using that assms(3) by (intro upd_last_or) auto
  ultimately show "seg ?p ?n None as v" "seg ?p ?n w bs None" using seg_cong by metis+
qed

lemma list_rep_middle:
  assumes "seg (ll_p l) (ll_n l) None as e" and "seg (ll_p l) (ll_n l) q bs None" and "distinct (as @ bs)"
    and "ll_first l = head_or as f" and "ll_last l = last_or bs g"
  shows "list_rep (set_before (head_or bs None) (last_or as None) (set_after (last_or as None) (head_or bs None) l)) (as @ bs)"
  using seam [OF assms(1-3), of "last_or as None" "head_or bs None"] assms(3-5)
  by (cases as rule: rev_cases; cases bs) (auto simp: list_rep_def)

text \<open>Every operation on the sequence.\<close>

lemma list_Init: "list_rep (LinkedList1_Init l) []"
  by (simp add: list_rep_def LinkedList1_Init_def)

lemma list_First: "list_rep l xs \<Longrightarrow> LinkedList1_GetFirst l = head_or xs None"
  by (simp add: list_rep_def LinkedList1_GetFirst_def)

lemma list_Last: "list_rep l xs \<Longrightarrow> LinkedList1_GetLast l = last_or xs None"
  by (simp add: list_rep_def LinkedList1_GetLast_def)

lemma list_IsEmpty: "list_rep l xs \<Longrightarrow> LinkedList1_IsEmpty l = (xs = [])"
  by (cases xs) (simp_all add: list_rep_def LinkedList1_IsEmpty_def)

lemma list_Next_Prev:
  assumes "list_rep l (as @ x # bs)"
  shows "LinkedList1Node_Next x l = head_or bs None" and "LinkedList1Node_Prev x l = last_or as None"
  using assms by (simp_all add: list_rep_def LinkedList1Node_Next_def LinkedList1Node_Prev_def)

lemma list_Remove:
  assumes "list_rep l (as @ x # bs)"
  shows "list_rep (LinkedList1_Remove x l) (as @ bs)" and "same_nodes (set (as @ bs)) l (LinkedList1_Remove x l)"
proof -
  have s: "ll_p l x = last_or as None" "ll_n l x = head_or bs None" "seg (ll_p l) (ll_n l) None as (Some x)"
    "seg (ll_p l) (ll_n l) (Some x) bs None" "distinct (as @ bs)" "x \<notin> set as" "x \<notin> set bs"
    using assms by (auto simp: list_rep_def)
  have e: "LinkedList1_Remove x l = set_before (head_or bs None) (last_or as None) (set_after (last_or as None) (head_or bs None) l)"
    using s(6) by (simp add: LinkedList1_Remove_def s upd_last_or)
  show "list_rep (LinkedList1_Remove x l) (as @ bs)"
    using list_rep_middle [OF s(3,4,5), of "Some x" "Some x"] assms unfolding e by (simp add: list_rep_def)
  show "same_nodes (set (as @ bs)) l (LinkedList1_Remove x l)"
    unfolding e same_nodes_def by (simp add: upd_head_or upd_last_or)
qed

text \<open>
  Linking a sequence of fresh nodes in between two halves. All four insertions are instances.
\<close>

lemma list_splice:
  assumes l: "list_rep l (as @ bs)" and d: "distinct (as @ ms @ bs)" and m: "ms \<noteq> []"
    and same: "same_nodes (set ms) l k" and k: "ll_first k = ll_first l" "ll_last k = ll_last l"
    and s: "seg (ll_p k) (ll_n k) (last_or as None) ms (head_or bs None)"
  defines "r \<equiv> set_before (head_or bs None) (Some (last ms)) (set_after (last_or as None) (Some (hd ms)) k)"
  shows "list_rep r (as @ ms @ bs)" and "same_nodes (set (as @ ms @ bs)) l r"
proof -
  have seg_k: "seg (ll_p k) (ll_n k) None as (head_or bs None)" "seg (ll_p k) (ll_n k) (last_or as None) bs None"
    using l d same by (subst seg_cong [of _ _ "ll_p l" _ "ll_n l"]; auto simp: list_rep_def same_nodes_def)+
  have "distinct (as @ bs)" using d by auto
  note sm = seam [OF seg_k this, of "Some (last ms)" "Some (hd ms)"]
  have "seg (upd (head_or bs None) (Some (last ms)) (ll_p k)) (upd (last_or as None) (Some (hd ms)) (ll_n k))
      (last_or as None) ms (head_or bs None)"
    using s d by (subst seg_cong [of ms _ "ll_p k" _ "ll_n k"]) (auto intro!: upd_head_or upd_last_or)
  then show "list_rep r (as @ ms @ bs)"
    using sm l d m k by (cases as rule: rev_cases; cases bs; cases ms) (auto simp: list_rep_def r_def last_or_def)
  show "same_nodes (set (as @ ms @ bs)) l r"
    using same unfolding r_def same_nodes_def by (simp add: upd_head_or upd_last_or)
qed

lemma list_Append:
  assumes "list_rep l xs" and "x \<notin> set xs"
  shows "list_rep (LinkedList1_Append x l) (xs @ [x])" and "same_nodes (insert x (set xs)) l (LinkedList1_Append x l)"
proof -
  define k where "k = set_n x None (set_p x (ll_last l) l)"
  have "same_nodes (set [x]) l k" by (simp add: same_nodes_def k_def)
  moreover have "LinkedList1_Append x l = set_before (head_or [] None) (Some (last [x])) (set_after (last_or xs None) (Some (hd [x])) k)"
    using assms(1) by (simp add: LinkedList1_Append_def k_def list_rep_def Let_def set_before_def)
  ultimately show "list_rep (LinkedList1_Append x l) (xs @ [x])" "same_nodes (insert x (set xs)) l (LinkedList1_Append x l)"
    using list_splice [of l xs "[]" "[x]" k] assms by (auto simp: k_def list_rep_def)
qed

lemma list_Prepend:
  assumes "list_rep l xs" and "x \<notin> set xs"
  shows "list_rep (LinkedList1_Prepend x l) (x # xs)" and "same_nodes (insert x (set xs)) l (LinkedList1_Prepend x l)"
proof -
  define k where "k = set_n x (ll_first l) (set_p x None l)"
  have "same_nodes (set [x]) l k" by (simp add: same_nodes_def k_def)
  moreover have "LinkedList1_Prepend x l = set_before (head_or xs None) (Some (last [x])) (set_after (last_or [] None) (Some (hd [x])) k)"
    using assms(1) by (cases xs) (simp_all add: LinkedList1_Prepend_def k_def list_rep_def list_defs)
  ultimately show "list_rep (LinkedList1_Prepend x l) (x # xs)" "same_nodes (insert x (set xs)) l (LinkedList1_Prepend x l)"
    using list_splice [of l "[]" xs "[x]" k] assms by (auto simp: k_def list_rep_def)
qed

lemma list_InsertBefore:
  assumes "list_rep l (as @ t # bs)" and "x \<notin> set (as @ t # bs)"
  shows "list_rep (LinkedList1_InsertBefore x t l) (as @ x # t # bs)"
proof -
  define k where "k = set_n x (Some t) (set_p x (ll_p l t) l)"
  have "same_nodes (set [x]) l k" by (simp add: same_nodes_def k_def)
  moreover have "LinkedList1_InsertBefore x t l
      = set_before (head_or (t # bs) None) (Some (last [x])) (set_after (last_or as None) (Some (hd [x])) k)"
    using assms by (auto simp: LinkedList1_InsertBefore_def k_def list_rep_def Let_def set_before_def)
  ultimately show ?thesis
    using list_splice(1) [of l as "t # bs" "[x]" k] assms by (auto simp: k_def list_rep_def)
qed

lemma list_InsertAfter:
  assumes "list_rep l (as @ t # bs)" and "x \<notin> set (as @ t # bs)"
  shows "list_rep (LinkedList1_InsertAfter x t l) (as @ t # x # bs)"
proof -
  define k where "k = set_n x (ll_n l t) (set_p x (Some t) l)"
  have "same_nodes (set [x]) l k" by (simp add: same_nodes_def k_def)
  moreover have "LinkedList1_InsertAfter x t l
      = set_before (head_or bs None) (Some (last [x])) (set_after (last_or (as @ [t]) None) (Some (hd [x])) k)"
    using assms by (cases bs) (auto simp: LinkedList1_InsertAfter_def k_def list_rep_def list_defs)
  ultimately show ?thesis
    using list_splice(1) [of l "as @ [t]" bs "[x]" k] assms by (auto simp: k_def list_rep_def)
qed

lemma list_InsertListAfter:
  assumes "list_rep l (as @ bs)" and "list_rep \<lparr>ll_first = f, ll_last = e, ll_p = ll_p l, ll_n = ll_n l\<rparr> ms" and "set ms \<inter> set (as @ bs) = {}"
  shows "list_rep (LinkedList1_InsertListAfter (f, e) (last_or as None) l) (as @ ms @ bs)"
proof (cases "ms = []")
  case True
  then show ?thesis using assms by (simp add: list_rep_def LinkedList1_InsertListAfter_def)
next
  case False
  define k where "k = set_n (last ms) (head_or bs None) (set_p (hd ms) (last_or as None) l)"
  have fe: "f = Some (hd ms)" "e = Some (last ms)" using False assms(2) by (cases ms; simp add: list_rep_def last_or_def)+
  have nx: "(case last_or as None of Some t \<Rightarrow> ll_n l t | None \<Rightarrow> ll_first l) = head_or bs None"
    using assms(1) by (cases as rule: rev_cases) (auto simp: list_rep_def)
  have "seg (upd (head_or ms None) (last_or as None) (ll_p l)) (upd (last_or ms None) (head_or bs None) (ll_n l)) (last_or as None) ms (head_or bs None)"
    using assms(2) seg_relink(1) [of "ll_p l" "ll_n l" None ms None "head_or bs None"]
      seg_relink(2) [of "ll_p l" "upd (last_or ms None) (head_or bs None) (ll_n l)" None ms "head_or bs None" "last_or as None"]
    by (simp add: list_rep_def)
  then have s: "seg (ll_p k) (ll_n k) (last_or as None) ms (head_or bs None)"
    using False by (cases ms) (simp_all add: k_def last_or_def fun_upd_def)
  have sn: "same_nodes (set ms) l k" using False by (auto simp: same_nodes_def k_def)
  have d: "distinct (as @ ms @ bs)" "ll_first k = ll_first l" "ll_last k = ll_last l" using assms by (auto simp: k_def list_rep_def)
  have "LinkedList1_InsertListAfter (f, e) (last_or as None) l
      = set_before (head_or bs None) (Some (last ms)) (set_after (last_or as None) (Some (hd ms)) k)"
    using nx by (simp add: LinkedList1_InsertListAfter_def fe k_def Let_def)
  then show ?thesis using list_splice(1) [OF assms(1) d(1) False sn d(2,3) s] by simp
qed

section \<open>The contract\<close>

text \<open>
  What the event loop relies on: a list of distinct nodes to which a node is appended at the end, from any place of which
  one is removed, whose first node can be read, and of which each operation writes only the nodes of the list and its
  argument (\<open>keeps S s s'\<close>: nodes outside \<open>S\<close> are as they were).
\<close>

locale node_list =
  fixes rep :: "'s \<Rightarrow> nat list \<Rightarrow> bool" and append_node :: "nat \<Rightarrow> 's \<Rightarrow> 's" and remove_node :: "nat \<Rightarrow> 's \<Rightarrow> 's"
    and first_node :: "'s \<Rightarrow> nat option" and keeps :: "nat set \<Rightarrow> 's \<Rightarrow> 's \<Rightarrow> bool"
  assumes rep_distinct: "rep s xs \<Longrightarrow> distinct xs"
    and append_law: "rep s xs \<Longrightarrow> x \<notin> set xs \<Longrightarrow> rep (append_node x s) (xs @ [x]) \<and> keeps (insert x (set xs)) s (append_node x s)"
    and remove_law: "rep s xs \<Longrightarrow> x \<in> set xs \<Longrightarrow> rep (remove_node x s) (remove1 x xs) \<and> keeps (set xs) s (remove_node x s)"
    and first_law: "rep s xs \<Longrightarrow> first_node s = head_or xs None"
begin

lemma first_remove:
  "rep s xs \<Longrightarrow> first_node s = Some x \<Longrightarrow> xs \<noteq> [] \<and> x = hd xs \<and> rep (remove_node x s) (tl xs) \<and> keeps (set xs) s (remove_node x s)"
  using first_law [of s xs] remove_law [of s xs x] by (cases xs) auto

lemma first_none: "rep s xs \<Longrightarrow> first_node s = None \<longleftrightarrow> xs = []"
  using first_law [of s xs] by (cases xs) auto

lemma append_all: "rep s xs \<Longrightarrow> distinct (xs @ ys) \<Longrightarrow> rep (fold append_node ys s) (xs @ ys)"
proof (induction ys arbitrary: s xs)
  case (Cons y ys)
  then have "rep (append_node y s) (xs @ [y])" using append_law by auto
  then show ?case using Cons.IH [of "append_node y s" "xs @ [y]"] Cons.prems by simp
qed simp

end

lemma remove1_middle: "distinct xs \<Longrightarrow> x \<in> set xs \<Longrightarrow> \<exists>as bs. xs = as @ x # bs \<and> remove1 x xs = as @ bs"
  by (metis split_list_first remove1_append remove1.simps(2))

lemma same_nodes_mono: "same_nodes S l l' \<Longrightarrow> S \<subseteq> S' \<Longrightarrow> same_nodes S' l l'"
  by (auto simp: same_nodes_def)

interpretation ll: node_list list_rep LinkedList1_Append LinkedList1_Remove LinkedList1_GetFirst same_nodes
proof
  fix s xs x assume r: "list_rep s xs"
  then show d: "distinct xs" by (simp add: list_rep_def)
  show "LinkedList1_GetFirst s = head_or xs None" using r by (rule list_First)
  show "list_rep (LinkedList1_Append x s) (xs @ [x]) \<and> same_nodes (insert x (set xs)) s (LinkedList1_Append x s)" if "x \<notin> set xs"
    using list_Append [OF r that] by simp
  show "list_rep (LinkedList1_Remove x s) (remove1 x xs) \<and> same_nodes (set xs) s (LinkedList1_Remove x s)" if x: "x \<in> set xs"
  proof -
    obtain as bs where "xs = as @ x # bs" "remove1 x xs = as @ bs" using remove1_middle [OF d x] by blast
    then show ?thesis using list_Remove [of s as x bs] r by (auto intro: same_nodes_mono)
  qed
qed

end
