(* ===== verification/Timers.thy ===== *)
theory Timers
  imports Avl_Tree Linked_List "HOL-Library.Monad_Syntax" "HOL-Library.Product_Lexorder"
begin

text \<open>
  The timers of the event loop: \<open>system/BTime.h\<close> and the timer part of \<open>system/BReactor_badvpn.c\<close>.

  Running timers are in an AVL tree ordered by expiry time, expired ones in a linked list. A timer has one union for
  both: the list node overlays the two child links of the tree. The model keeps the overlay: there is one store of child
  links, and the list operations see it as the \<open>p\<close> and \<open>n\<close> of the nodes.

  The section after the definitions shows which nodes the operations of the tree write, which is what makes the overlay safe. The last ones relate
  the pointer structures to two sequences, the running timers by time and the expired ones in the order in which they will be
  dispatched, and show what every operation does to them.
\<close>

section \<open>BTime.h\<close>

abbreviation (input) INT64_MIN :: int where "INT64_MIN \<equiv> -9223372036854775808"
abbreviation (input) INT64_MAX :: int where "INT64_MAX \<equiv> 9223372036854775807"

definition add_int64_overflows :: "int \<Rightarrow> int \<Rightarrow> int" where
  "add_int64_overflows a b =
    (if (a < 0) \<noteq> (b < 0) then 0
     else if a < 0 then - of_bool (a < INT64_MIN - b)
     else of_bool (a > INT64_MAX - b))"

definition btime_add :: "int \<Rightarrow> int \<Rightarrow> int" where
  "btime_add t1 t2 =
    (let overflows = add_int64_overflows t1 t2
     in if overflows \<noteq> 0 then (if overflows > 0 then INT64_MAX else INT64_MIN) else t1 + t2)"

definition btime_getpast :: int where
  "btime_getpast = INT64_MIN"

text \<open>
  The clocks of the system: \<open>clock_gettime(CLOCK_MONOTONIC)\<close>, which may be missing, and \<open>gettimeofday\<close>, each as
  seconds and a fraction.
\<close>

record BTime_global =
  start_time :: int
  use_gettimeofday :: bool

definition BTime_Init :: "(int \<times> int) option \<Rightarrow> int \<times> int \<Rightarrow> BTime_global" where
  "BTime_Init monotonic timeofday = (case monotonic of
      None \<Rightarrow> (case timeofday of (tv_sec, tv_usec) \<Rightarrow>
        \<lparr>start_time = tv_sec * 1000 + tv_usec div 1000, use_gettimeofday = True\<rparr>)
    | Some (tv_sec, tv_nsec) \<Rightarrow>
        \<lparr>start_time = tv_sec * 1000 + tv_nsec div 1000000, use_gettimeofday = False\<rparr>)"

definition btime_gettime :: "int \<times> int \<Rightarrow> int \<times> int \<Rightarrow> BTime_global \<Rightarrow> int" where
  "btime_gettime monotonic timeofday g =
    (if use_gettimeofday g then (case timeofday of (tv_sec, tv_usec) \<Rightarrow> tv_sec * 1000 + tv_usec div 1000)
     else (case monotonic of (tv_sec, tv_nsec) \<Rightarrow> tv_sec * 1000 + tv_nsec div 1000000 - start_time g))"

section \<open>Timers\<close>

abbreviation (input) TIMER_STATE_INACTIVE :: nat where "TIMER_STATE_INACTIVE \<equiv> 1"
abbreviation (input) TIMER_STATE_RUNNING :: nat where "TIMER_STATE_RUNNING \<equiv> 2"
abbreviation (input) TIMER_STATE_EXPIRED :: nat where "TIMER_STATE_EXPIRED \<equiv> 3"
abbreviation (input) BTIMER_SET_ABSOLUTE :: nat where "BTIMER_SET_ABSOLUTE \<equiv> 1"
abbreviation (input) BTIMER_SET_RELATIVE :: nat where "BTIMER_SET_RELATIVE \<equiv> 2"

text \<open>
  The two collections of the reactor and the fields of all timer objects. The union \<open>u\<close> and the fields \<open>tree_parent\<close> and
  \<open>tree_balance\<close> are the link, parent and balance stores of \<open>timers_tree\<close>. \<open>timers_fault\<close> records a failed assertion.
\<close>

record timers =
  timers_tree :: avl
  expired_first :: "nat option"
  expired_last :: "nat option"
  timer_handler :: "nat \<Rightarrow> nat"
  absTime :: "nat \<Rightarrow> int"
  timer_state :: "nat \<Rightarrow> nat"
  is_small :: "nat \<Rightarrow> bool"
  timer_user :: "nat \<Rightarrow> nat"
  msTime :: "nat \<Rightarrow> int"
  timers_fault :: bool

text \<open>\<open>timers_expired_list\<close> with \<open>u.list_node\<close> of the timers as its nodes.\<close>

definition timers_expired_list :: "timers \<Rightarrow> LinkedList1" where
  "timers_expired_list s = \<lparr>ll_first = expired_first s, ll_last = expired_last s,
     ll_p = (\<lambda>a. avl_link (timers_tree s) a False), ll_n = (\<lambda>a. avl_link (timers_tree s) a True)\<rparr>"

definition put_expired_list :: "LinkedList1 \<Rightarrow> timers \<Rightarrow> timers" where
  "put_expired_list l s = s\<lparr>expired_first := ll_first l, expired_last := ll_last l,
     timers_tree := (timers_tree s)\<lparr>avl_link := (\<lambda>a side. if side then ll_n l a else ll_p l a)\<rparr>\<rparr>"

definition T_ASSERT :: "bool \<Rightarrow> timers \<Rightarrow> timers" where
  "T_ASSERT b s = s\<lparr>timers_fault := timers_fault s \<or> \<not> b\<rparr>"

definition set_timer_state :: "nat \<Rightarrow> nat \<Rightarrow> timers \<Rightarrow> timers" where
  "set_timer_state t v s = s\<lparr>timer_state := (timer_state s)(t := v)\<rparr>"

definition compare_timers :: "timers \<Rightarrow> nat \<Rightarrow> nat \<Rightarrow> int" where
  "compare_timers s t1 t2 =
    (let cmp = B_COMPARE (absTime s t1) (absTime s t2)
     in if cmp \<noteq> 0 then cmp else B_COMPARE t1 t2)"

definition assert_timer :: "nat \<Rightarrow> timers \<Rightarrow> timers" where
  "assert_timer bt s = T_ASSERT (timer_state s bt = TIMER_STATE_INACTIVE \<or> timer_state s bt = TIMER_STATE_RUNNING
     \<or> timer_state s bt = TIMER_STATE_EXPIRED) s"

text \<open>Moving one timer from the tree to the expired list: the same three statements in both functions below.\<close>

definition expire_timer :: "nat \<Rightarrow> timers \<Rightarrow> timers option" where
  "expire_timer timer s = do {
     tree \<leftarrow> CAvl_Remove timer (timers_tree s);
     let s = s\<lparr>timers_tree := tree\<rparr>;
     let s = put_expired_list (LinkedList1_Append timer (timers_expired_list s)) s;
     Some (set_timer_state timer TIMER_STATE_EXPIRED s) }"

partial_function (option) move_expired_timers :: "int \<Rightarrow> bool \<Rightarrow> timers \<Rightarrow> (timers \<times> bool) option" where
  "move_expired_timers now moved s = do {
     first \<leftarrow> CAvl_GetFirst (timers_tree s);
     (case first of
        None \<Rightarrow> Some (s, moved)
      | Some timer \<Rightarrow>
         let s = T_ASSERT (timer_state s timer = TIMER_STATE_RUNNING) s in
         if absTime s timer > now then Some (s, moved)
         else do { s \<leftarrow> expire_timer timer s; move_expired_timers now True s }) }"

text \<open>The loop of \<open>move_first_timers\<close>, and the whole function.\<close>

partial_function (option) move_same_timers :: "int \<Rightarrow> timers \<Rightarrow> timers option" where
  "move_same_timers first_time s = do {
     first \<leftarrow> CAvl_GetFirst (timers_tree s);
     (case first of
        None \<Rightarrow> Some s
      | Some timer \<Rightarrow>
         let s = T_ASSERT (timer_state s timer = TIMER_STATE_RUNNING) s;
             s = T_ASSERT (absTime s timer \<ge> first_time) s in
         if absTime s timer > first_time then Some s
         else do { s \<leftarrow> expire_timer timer s; move_same_timers first_time s }) }"

definition move_first_timers :: "timers \<Rightarrow> timers option" where
  "move_first_timers s = do {
     first \<leftarrow> CAvl_GetFirst (timers_tree s);
     (case first of
        None \<Rightarrow> Some (T_ASSERT False s)
      | Some first_timer \<Rightarrow>
         let s = T_ASSERT (timer_state s first_timer = TIMER_STATE_RUNNING) s;
             first_time = absTime s first_timer in
         do { s \<leftarrow> expire_timer first_timer s; move_same_timers first_time s }) }"

definition BSmallTimer_Init :: "nat \<Rightarrow> nat \<Rightarrow> timers \<Rightarrow> timers" where
  "BSmallTimer_Init bt handler s = s\<lparr>timer_handler := (timer_handler s)(bt := handler),
     timer_state := (timer_state s)(bt := TIMER_STATE_INACTIVE), is_small := (is_small s)(bt := True)\<rparr>"

definition BSmallTimer_IsRunning :: "nat \<Rightarrow> timers \<Rightarrow> timers \<times> bool" where
  "BSmallTimer_IsRunning bt s = (assert_timer bt s, timer_state s bt \<noteq> TIMER_STATE_INACTIVE)"

definition BTimer_Init :: "nat \<Rightarrow> int \<Rightarrow> nat \<Rightarrow> nat \<Rightarrow> timers \<Rightarrow> timers" where
  "BTimer_Init bt ms handler user s = s\<lparr>timer_handler := (timer_handler s)(bt := handler),
     timer_state := (timer_state s)(bt := TIMER_STATE_INACTIVE), is_small := (is_small s)(bt := False),
     timer_user := (timer_user s)(bt := user), msTime := (msTime s)(bt := ms)\<rparr>"

definition BTimer_IsRunning :: "nat \<Rightarrow> timers \<Rightarrow> timers \<times> bool" where
  "BTimer_IsRunning bt s = BSmallTimer_IsRunning bt s"

definition BReactor_RemoveSmallTimer :: "nat \<Rightarrow> timers \<Rightarrow> timers option" where
  "BReactor_RemoveSmallTimer bt s =
    (let s = assert_timer bt s in
     if timer_state s bt = TIMER_STATE_INACTIVE then Some s
     else do {
       s \<leftarrow> (if timer_state s bt = TIMER_STATE_EXPIRED
             then Some (put_expired_list (LinkedList1_Remove bt (timers_expired_list s)) s)
             else do { tree \<leftarrow> CAvl_Remove bt (timers_tree s); Some (s\<lparr>timers_tree := tree\<rparr>) });
       Some (set_timer_state bt TIMER_STATE_INACTIVE s) })"

text \<open>\<open>now\<close> is what \<open>btime_gettime\<close> returns; it is called in relative mode only.\<close>

definition BReactor_SetSmallTimer :: "int \<Rightarrow> nat \<Rightarrow> nat \<Rightarrow> int \<Rightarrow> timers \<Rightarrow> timers option" where
  "BReactor_SetSmallTimer now bt mode time s = do {
     let s = assert_timer bt s;
     let s = T_ASSERT (mode = BTIMER_SET_ABSOLUTE \<or> mode = BTIMER_SET_RELATIVE) s;
     s \<leftarrow> BReactor_RemoveSmallTimer bt s;
     let time = (if mode = BTIMER_SET_RELATIVE then btime_add now time else time);
     let s = s\<lparr>absTime := (absTime s)(bt := time)\<rparr>;
     let s = set_timer_state bt TIMER_STATE_RUNNING s;
     (tree, res, _) \<leftarrow> CAvl_Insert (compare_timers s) bt (timers_tree s);
     Some (T_ASSERT res (s\<lparr>timers_tree := tree\<rparr>)) }"

definition BReactor_SetTimer :: "int \<Rightarrow> nat \<Rightarrow> timers \<Rightarrow> timers option" where
  "BReactor_SetTimer now bt s = BReactor_SetSmallTimer now bt BTIMER_SET_RELATIVE (msTime s bt) s"

definition BReactor_SetTimerAfter :: "int \<Rightarrow> nat \<Rightarrow> int \<Rightarrow> timers \<Rightarrow> timers option" where
  "BReactor_SetTimerAfter now bt after s = BReactor_SetSmallTimer now bt BTIMER_SET_RELATIVE after s"

definition BReactor_SetTimerAbsolute :: "int \<Rightarrow> nat \<Rightarrow> int \<Rightarrow> timers \<Rightarrow> timers option" where
  "BReactor_SetTimerAbsolute now bt time s = BReactor_SetSmallTimer now bt BTIMER_SET_ABSOLUTE time s"

definition BReactor_RemoveTimer :: "nat \<Rightarrow> timers \<Rightarrow> timers option" where
  "BReactor_RemoveTimer bt s = BReactor_RemoveSmallTimer bt s"

section \<open>The nodes a tree operation writes\<close>

text \<open>All pointers of the tree and of its nodes lead into \<open>N\<close>; and links of nodes outside \<open>N\<close> are as they were.\<close>

definition within :: "nat set \<Rightarrow> avl \<Rightarrow> bool" where
  "within N h \<longleftrightarrow> set_option (tree_root h) \<subseteq> N
     \<and> (\<forall>a\<in>N. set_option (avl_parent h a) \<subseteq> N \<and> (\<forall>s. set_option (avl_link h a s) \<subseteq> N))"

definition framed :: "nat set \<Rightarrow> avl \<Rightarrow> avl \<Rightarrow> bool" where
  "framed N h h' \<longleftrightarrow> within N h' \<and> (\<forall>a. a \<notin> N \<longrightarrow> avl_link h' a = avl_link h a)"

lemma withinD:
  assumes "within N h"
  shows "tree_root h = Some a \<Longrightarrow> a \<in> N" and "a \<in> N \<Longrightarrow> avl_parent h a = Some b \<Longrightarrow> b \<in> N"
    and "a \<in> N \<Longrightarrow> avl_link h a s = Some b \<Longrightarrow> b \<in> N"
    and "a \<in> N \<Longrightarrow> set_option (avl_parent h a) \<subseteq> N" and "a \<in> N \<Longrightarrow> set_option (avl_link h a s) \<subseteq> N"
  using assms by (force simp: within_def)+

lemma framed_refl: "within N h \<Longrightarrow> framed N h h"
  by (simp add: framed_def)

lemma framed_trans: "framed N h h' \<Longrightarrow> framed N h' h'' \<Longrightarrow> framed N h h''"
  by (simp add: framed_def)

lemma framed_within: "framed N h h' \<Longrightarrow> within N h'"
  by (simp add: framed_def)

text \<open>The stores the operations are made of.\<close>

lemma assert_sel [simp]:
  "tree_root (A_ASSERT b h) = tree_root h" "avl_parent (A_ASSERT b h) = avl_parent h" "avl_link (A_ASSERT b h) = avl_link h"
  "avl_balance (A_ASSERT b h) = avl_balance h"
  by (simp_all add: A_ASSERT_def)

lemma framed_assert: "framed N h g \<Longrightarrow> framed N h (A_ASSERT b g)"
  by (simp add: framed_def within_def)

lemma framed_balance: "framed N h g \<Longrightarrow> framed N h (set_balance n b g)"
  by (simp add: framed_def within_def)

lemma framed_parent: "framed N h g \<Longrightarrow> set_option p \<subseteq> N \<Longrightarrow> framed N h (set_parent n p g)"
  by (auto simp: framed_def within_def)

lemma framed_parent_opt: "framed N h g \<Longrightarrow> set_option p \<subseteq> N \<Longrightarrow> framed N h (set_parent_opt c p g)"
  by (cases c) (simp_all add: set_parent_opt_def framed_parent)

lemma framed_link: "framed N h g \<Longrightarrow> n \<in> N \<Longrightarrow> set_option c \<subseteq> N \<Longrightarrow> framed N h (set_link n s c g)"
  by (auto simp: framed_def within_def)

lemma framed_down: "framed N h g \<Longrightarrow> set_option q \<subseteq> N \<Longrightarrow> set_option c \<subseteq> N \<Longrightarrow> framed N h (set_down_link q r c g)"
proof (cases q)
  case None
  assume "framed N h g" "set_option c \<subseteq> N"
  then show ?thesis using None by (auto simp: framed_def within_def set_down_link_def)
qed (simp add: set_down_link_def framed_link)

lemmas framed_stores = framed_assert framed_balance framed_parent framed_parent_opt framed_link framed_down

lemma framed_in:
  assumes "framed N h g" and "a \<in> N"
  shows "set_option (avl_parent g a) \<subseteq> N" and "set_option (avl_link g a s) \<subseteq> N"
    and "avl_link g a s = Some b \<Longrightarrow> b \<in> N" and "avl_parent g a = Some b \<Longrightarrow> b \<in> N"
  using withinD [OF framed_within [OF assms(1)]] assms(2) by blast+

lemma framed_rotate:
  assumes "framed N h g" and "r \<in> N" and "set_option q \<subseteq> N"
  shows "framed N h (CAvl_rotate r dir q g)"
proof (cases "avl_link g r (\<not> dir)")
  case None
  then show ?thesis using assms by (simp add: CAvl_rotate_def Let_def framed_stores)
next
  case (Some nr)
  then have "nr \<in> N" using framed_in(3) [OF assms(1,2)] by blast
  then show ?thesis
    using assms Some by (auto simp: CAvl_rotate_def Let_def intro!: framed_stores framed_in(2) [OF assms(1)])
qed

lemma framed_transform:
  assumes "framed N h g" and "node \<in> N"
  shows "framed N h (fst (rebalance_transform bside node delta g)) \<and> fst (snd (rebalance_transform bside node delta g)) \<in> N"
proof (cases "avl_link g node bside")
  case None
  then show ?thesis using assms by (simp add: rebalance_transform_def framed_stores)
next
  case (Some child)
  then have c: "child \<in> N" using framed_in(3) [OF assms] by blast
  have r: "framed N h (CAvl_rotate node (\<not> bside) (avl_parent g node) g)"
    by (intro framed_rotate assms framed_in(1) [OF assms])
  show ?thesis
  proof (cases "avl_link g child (\<not> bside)")
    case None
    then show ?thesis using Some assms r c by (auto simp: rebalance_transform_def Let_def intro!: framed_stores)
  next
    case (Some gchild)
    then have "gchild \<in> N" using framed_in(3) [OF assms(1) c] by blast
    moreover have r2: "framed N h (CAvl_rotate child bside (Some node) g)" using assms c by (auto intro: framed_rotate)
    moreover have "framed N h (CAvl_rotate node (\<not> bside) (avl_parent (CAvl_rotate child bside (Some node) g) node) (CAvl_rotate child bside (Some node) g))"
      by (intro framed_rotate r2 assms framed_in(1) [OF r2])
    ultimately show ?thesis using Some \<open>avl_link g node bside = Some child\<close> assms r c
      by (auto simp: rebalance_transform_def Let_def intro!: framed_stores)
  qed
qed

lemma framed_level:
  assumes "framed N h g" and "node \<in> N"
  shows "framed N h (fst (rebalance_level node side deltac g)) \<and> fst (snd (rebalance_level node side deltac g)) \<in> N"
proof -
  have "framed N h (set_balance node k (A_ASSERT b g))" for k b using assms(1) by (intro framed_stores)
  note this framed_transform [OF this assms(2)]
  then show ?thesis using assms(2) by (simp add: rebalance_level_def Let_def)
qed

lemma framed_rebalance: "CAvl_rebalance g node side deltac = Some g' \<Longrightarrow> framed N h g \<Longrightarrow> node \<in> N \<Longrightarrow> framed N h g'"
proof (induction rule: CAvl_rebalance.raw_induct [rotated 1, consumes 1])
  case (1 rec g node side deltac)
  let ?b = "deltac \<ge> -1 \<and> deltac \<le> 1 \<and> avl_balance g node \<ge> -1 \<and> avl_balance g node \<le> 1"
  obtain t m d where l: "rebalance_level node side deltac (A_ASSERT ?b g) = (t, m, d)" by (metis prod_cases3)
  have g: "framed N h (A_ASSERT ?b g)" using "1.prems" by (intro framed_assert)
  then have t: "framed N h t" "m \<in> N" using framed_level [of N h "A_ASSERT ?b g" node side deltac] "1.prems" l by auto
  show ?case
  proof (cases "deltac = 0")
    case True
    then show ?thesis using "1" g by simp
  next
    case False
    have "framed N h (A_ASSERT (d \<ge> -1 \<and> d \<le> 1) t)" using t(1) by (intro framed_assert)
    moreover have "p \<in> N" if "avl_parent t m = Some p" for p using framed_in(4) [OF t] that by simp
    ultimately show ?thesis using "1" False l by (auto simp: Let_def split: option.splits)
  qed
qed

lemma framed_swap:
  assumes f: "framed N h g" and n: "node \<in> N" "enode \<in> N" and q: "set_option np \<subseteq> N" "set_option ep \<subseteq> N"
  shows "framed N h (CAvl_swap_for_remove node enode np ep g)"
proof -
  have c: "framed N h (swap_connected node enode np g)" if "framed N h g" for g
    using framed_in [OF that n(1)] framed_in [OF that n(2)] that n q
    unfolding swap_connected_def Let_def by (intro framed_stores) (auto simp: parent_opt split: if_splits)
  have k: "framed N h (swap_children node enode s g)" if "framed N h g" for g s
    using framed_in [OF that n(1)] framed_in [OF that n(2)] that n
    unfolding swap_children_def Let_def by (intro framed_stores) auto
  have d: "framed N h (swap_apart node enode np ep g)" if "framed N h g" for g
    using framed_in [OF that n(2)] that n q unfolding swap_apart_def Let_def by (intro framed_stores k) auto
  have a: "framed N h (A_ASSERT b (A_ASSERT b' g))" for b b' using f by (intro framed_assert)
  show ?thesis using c [OF a] d [OF a] by (simp add: CAvl_swap_for_remove_def Let_def framed_balance)
qed

lemma framed_remove_single:
  assumes f: "framed N h g" and n: "node \<in> N" and r: "remove_single node g = Some g'"
  shows "framed N h g'"
proof -
  have k: "framed N h (CAvl_replace_subtree_fix_assoc node c (avl_parent g node) (A_ASSERT b g))" if "set_option c \<subseteq> N" for c b
    using framed_in(1) [OF f n] that f unfolding CAvl_replace_subtree_fix_assoc_def Let_def by (intro framed_stores) auto
  define child where "child = (if avl_link g node False \<noteq> None then avl_link g node False else avl_link g node True)"
  define b where "b = (avl_link g node False = None \<or> avl_link g node True = None)"
  have c: "set_option child \<subseteq> N" using framed_in(2) [OF f n] by (simp add: child_def)
  have e: "remove_single node g = (case avl_parent g node of
      Some p \<Rightarrow> CAvl_rebalance (CAvl_replace_subtree_fix_assoc node child (avl_parent g node) (A_ASSERT b g)) p (Some node = avl_link g p True) (-1)
    | None \<Rightarrow> Some (CAvl_replace_subtree_fix_assoc node child (avl_parent g node) (A_ASSERT b g)))"
    by (simp only: remove_single_def Let_def assert_sel child_def b_def)
  show ?thesis
    using r k [OF c, of b] framed_in(4) [OF f n] framed_rebalance unfolding e by (auto split: option.splits)
qed

lemma framed_subtree_max: "CAvl_subtree_max g n = Some m \<Longrightarrow> framed N h g \<Longrightarrow> n \<in> N \<Longrightarrow> m \<in> N"
proof (induction rule: CAvl_subtree_max.raw_induct [rotated 1, consumes 1])
  case (1 rec g n)
  then show ?case using framed_in(3) [OF "1.prems", of True] by (auto split: option.splits)
qed

lemma framed_Remove:
  assumes f: "framed N h g" and n: "node \<in> N" and r: "CAvl_Remove node g = Some g'"
  shows "framed N h g'"
proof -
  have a: "framed N h (A_ASSERT b g)" for b using f by (rule framed_assert)
  show ?thesis
  proof (cases "\<exists>l u. avl_link g node False = Some l \<and> avl_link g node True = Some u")
    case True
    then obtain l u where lu: "avl_link g node False = Some l" "avl_link g node True = Some u" by blast
    then obtain e where e: "CAvl_subtree_max (A_ASSERT (tree_root g \<noteq> None) g) l = Some e"
      "remove_single node (CAvl_swap_for_remove node e (avl_parent g node) (avl_parent g e) (A_ASSERT (tree_root g \<noteq> None) g)) = Some g'"
      using r by (auto simp: CAvl_Remove_def Let_def split: option.splits)
    have "e \<in> N" using framed_subtree_max [OF e(1) a] framed_in(3) [OF f n lu(1)] by simp
    then have "framed N h (CAvl_swap_for_remove node e (avl_parent g node) (avl_parent g e) (A_ASSERT (tree_root g \<noteq> None) g))"
      using framed_in(1) [OF f] n a by (intro framed_swap) auto
    then show ?thesis using framed_remove_single n e(2) by blast
  next
    case False
    then have "remove_single node (A_ASSERT (tree_root g \<noteq> None) g) = Some g'"
      using r by (auto simp: CAvl_Remove_def Let_def split: option.splits)
    then show ?thesis using framed_remove_single [OF a n] by blast
  qed
qed

lemma framed_search:
  "insert_search cmp node g c = Some r \<Longrightarrow> framed N h g \<Longrightarrow> c \<in> N \<Longrightarrow> framed N h (fst r) \<and> fst (snd r) \<in> N"
proof (induction rule: insert_search.raw_induct [rotated 1, consumes 1])
  case (1 rec cmp node g c)
  have a: "framed N h (A_ASSERT b g)" for b using "1.prems"(1) by (rule framed_assert)
  then show ?case
    using "1" framed_in(3) [OF "1.prems", of "cmp node c = 1"]
    by (auto simp: CAvl_compare_entries_def Let_def split: if_splits option.splits)
qed

lemma framed_leaf:
  assumes "framed N h g" and "c \<in> N"
  shows "framed (insert node N) h (init_leaf node (Some c) (set_link c side (Some node) g))"
proof -
  note i = framed_in(3,4) [OF assms(1)]
  have "set_option (tree_root g) \<subseteq> N" "\<And>a. a \<notin> N \<Longrightarrow> avl_link g a = avl_link h a" using assms(1) by (auto simp: framed_def within_def)
  then show ?thesis
    unfolding framed_def within_def
    using assms(2) by (intro conjI ballI allI impI) (auto dest: i split: if_splits)
qed

lemma framed_Insert:
  assumes "within N h" and "CAvl_Insert cmp node h = Some (h', True, e)"
  shows "framed (insert node N) h h'"
proof (cases "tree_root h")
  case None
  then have h': "h' = init_leaf node None (h\<lparr>tree_root := Some node\<rparr>)" using assms(2) by (simp add: CAvl_Insert_def)
  show ?thesis
    unfolding framed_def within_def h'
    by (intro conjI ballI allI impI) (auto dest: withinD(2,3) [OF assms(1)] split: if_splits)
next
  case (Some r)
  obtain t c side where s: "insert_search cmp node h r = Some (t, c, Some side)"
    and b: "CAvl_rebalance (init_leaf node (Some c) (set_link c side (Some node) t)) c side 1 = Some h'"
    using assms(2) Some by (auto simp: CAvl_Insert_def Let_def split: option.splits)
  have "framed N h t" "c \<in> N" using framed_search [OF s framed_refl [OF assms(1)] withinD(1) [OF assms(1) Some]] by auto
  then show ?thesis using framed_rebalance [OF b framed_leaf] by simp
qed

text \<open>A represented tree is such a set of nodes, and depends on nothing else.\<close>

lemma is_tree_within:
  "is_tree h q t p \<Longrightarrow> a \<in> set_tree t \<Longrightarrow>
     set_option (avl_parent h a) \<subseteq> set_option q \<union> set_tree t \<and> set_option (avl_link h a s) \<subseteq> set_tree t"
proof (induction t arbitrary: q p)
  case (Node l x r)
  have "set_option (avl_link h x s) \<subseteq> set_tree l \<union> set_tree r" for s
    using Node.prems(1) is_tree_root [of h "Some x" l] is_tree_root [of h "Some x" r] by (cases s) auto
  then show ?case using Node by fastforce
qed simp

lemma avl_rep_within: "avl_rep h xs \<Longrightarrow> within (set xs) h"
proof -
  assume "avl_rep h xs"
  then obtain T where T: "is_tree h None T (tree_root h)" "set_tree T = set xs" by (auto simp: avl_rep_def)
  then have "set_option (tree_root h) \<subseteq> set xs" using is_tree_root [of h None T] by auto
  then show ?thesis using is_tree_within [OF T(1)] T(2) by (simp add: within_def)
qed

lemma avl_rep_cong:
  assumes "avl_rep h xs" and "tree_root h' = tree_root h" and "avl_fault h' = avl_fault h" and "avl_parent h' = avl_parent h"
    and "avl_balance h' = avl_balance h" and "\<And>a. a \<in> set xs \<Longrightarrow> avl_link h' a = avl_link h a"
  shows "avl_rep h' xs"
proof -
  obtain T where T: "is_tree h None T (tree_root h)" "bal_ok h T" "inorder T = xs" using assms(1) by (auto simp: avl_rep_def)
  have "is_tree h' None T (tree_root h')" using T(1,3) assms by (subst is_tree_cong) auto
  moreover have "bal_ok h' T" using T assms by (subst bal_ok_cong) auto
  ultimately show ?thesis using assms(1,3) T(3) by (auto simp: avl_rep_def)
qed

section \<open>The sequences they represent\<close>

text \<open>
  Among the initialised timers \<open>T\<close> those in \<open>rs\<close> are running, by time of expiry, and those in \<open>es\<close> have
  expired, in the order of dispatch.
\<close>

definition timers_rep :: "nat set \<Rightarrow> timers \<Rightarrow> nat list \<Rightarrow> nat list \<Rightarrow> bool" where
  "timers_rep T s rs es \<longleftrightarrow> avl_rep (timers_tree s) rs \<and> list_rep (timers_expired_list s) es
     \<and> ascending (compare_timers s) rs \<and> set rs \<inter> set es = {} \<and> set rs \<union> set es \<subseteq> T
     \<and> (\<forall>t\<in>T. timer_state s t = (if t \<in> set rs then TIMER_STATE_RUNNING else if t \<in> set es then TIMER_STATE_EXPIRED
          else TIMER_STATE_INACTIVE))
     \<and> \<not> timers_fault s"

lemma compare_timers_sym: "compare_timers s b a = - compare_timers s a b"
  by (cases "absTime s a" "absTime s b" rule: linorder_cases) (auto simp: compare_timers_def Let_def B_COMPARE_def)

lemma compare_timers_less:
  "compare_timers s a b < 0 \<longleftrightarrow> absTime s a < absTime s b \<or> absTime s a = absTime s b \<and> a < b"
  by (auto simp: compare_timers_def Let_def B_COMPARE_def)

lemma compare_timers_order: "cmp_order (compare_timers s) S"
proof -
  have "comparator (compare_timers s) (\<lambda>x. x \<in> S)"
  proof (rule comparator.intro)
    show "compare_timers s b a = - compare_timers s a b" for a b by (rule compare_timers_sym)
    show "(compare_timers s a b = 0) = (a = b)" for a b by (auto simp: compare_timers_def Let_def)
    show "compare_timers s a c < 0" if "compare_timers s a b < 0" "compare_timers s b c < 0" for a b c
      using that unfolding compare_timers_less by linarith
  qed
  moreover have "\<bar>compare_timers s a b\<bar> \<le> 1" for a b by (simp add: compare_timers_def Let_def B_COMPARE_def)
  ultimately show ?thesis unfolding cmp_order_def by simp
qed

lemma compare_timers_cong: "absTime s' a = absTime s a \<Longrightarrow> absTime s' b = absTime s b \<Longrightarrow> compare_timers s' a b = compare_timers s a b"
  by (simp add: compare_timers_def)

text \<open>Each side of the overlay is untouched by an operation on the other.\<close>

lemma expired_list_other:
  assumes "list_rep (timers_expired_list s) es" and "framed N (timers_tree s) h" and "N \<inter> set es = {}"
  shows "list_rep (timers_expired_list (s\<lparr>timers_tree := h\<rparr>)) es"
  using assms(2,3) by (intro list_rep_same [OF assms(1), of N]) (auto simp: same_nodes_def framed_def timers_expired_list_def)

lemma put_expired_list_sel [simp]:
  "timers_expired_list (put_expired_list l s) = l" "absTime (put_expired_list l s) = absTime s"
  "timer_state (put_expired_list l s) = timer_state s" "timers_fault (put_expired_list l s) = timers_fault s"
  "tree_root (timers_tree (put_expired_list l s)) = tree_root (timers_tree s)"
  by (simp_all add: put_expired_list_def timers_expired_list_def)

lemma tree_other:
  assumes "avl_rep (timers_tree s) rs" and "same_nodes S (timers_expired_list s) l" and "S \<inter> set rs = {}"
  shows "avl_rep (timers_tree (put_expired_list l s)) rs"
proof (rule avl_rep_cong [OF assms(1)])
  fix a assume "a \<in> set rs"
  then have "a \<notin> S" using assms(3) by blast
  then show "avl_link (timers_tree (put_expired_list l s)) a = avl_link (timers_tree s) a"
    using assms(2) by (auto simp: same_nodes_def put_expired_list_def timers_expired_list_def)
qed (simp_all add: put_expired_list_def)

lemma tree_remove:
  assumes "timers_rep T s rs es" and "t \<in> set rs"
  obtains h where "CAvl_Remove t (timers_tree s) = Some h" "avl_rep h (remove1 t rs)" "list_rep (timers_expired_list (s\<lparr>timers_tree := h\<rparr>)) es"
proof -
  have r: "avl_rep (timers_tree s) rs" "list_rep (timers_expired_list s) es" "set rs \<inter> set es = {}" using assms(1) by (auto simp: timers_rep_def)
  obtain h where h: "CAvl_Remove t (timers_tree s) = Some h" "avl_rep h (remove1 t rs)"
    using avl_set.rem_law [OF r(1) assms(2)] by (auto simp: SAvl_Remove_def)
  have "framed (set rs) (timers_tree s) h" using framed_Remove [OF framed_refl [OF avl_rep_within [OF r(1)]] assms(2) h(1)] .
  then show ?thesis using that h expired_list_other [OF r(2) _ r(3)] by blast
qed

lemma ascending_cong: "(\<And>a b. a \<in> set xs \<Longrightarrow> b \<in> set xs \<Longrightarrow> f a b = g a b) \<Longrightarrow> ascending f xs = ascending g xs"
  by (induction xs) auto

lemma first_timer: "timers_rep T s rs es \<Longrightarrow> CAvl_GetFirst (timers_tree s) = Some (first_of rs)"
  using avl_set.first_law by (auto simp: timers_rep_def SAvl_GetFirst_def)

text \<open>The fields that only the operations of a timer's owner write.\<close>

definition same_fields :: "timers \<Rightarrow> timers \<Rightarrow> bool" where
  "same_fields s s' \<longleftrightarrow> absTime s' = absTime s \<and> timer_handler s' = timer_handler s \<and> is_small s' = is_small s
     \<and> timer_user s' = timer_user s \<and> msTime s' = msTime s"

lemma same_fields_refl [simp]: "same_fields s s"
  by (simp add: same_fields_def)

lemma same_fields_trans: "same_fields s s' \<Longrightarrow> same_fields s' s'' \<Longrightarrow> same_fields s s''"
  by (simp add: same_fields_def)

lemma T_ASSERT_True [simp]: "b \<Longrightarrow> T_ASSERT b s = s"
  by (simp add: T_ASSERT_def)

lemma expired_list_sel [simp]:
  "timers_expired_list (set_timer_state t v s) = timers_expired_list s"
  "timers_expired_list (s\<lparr>absTime := f\<rparr>) = timers_expired_list s"
  by (simp_all add: timers_expired_list_def set_timer_state_def)

lemma ascending_same: "absTime s' = absTime s \<Longrightarrow> ascending (compare_timers s') xs = ascending (compare_timers s) xs"
  by (intro ascending_cong compare_timers_cong) simp_all

lemma timers_repD:
  assumes "timers_rep T s rs es"
  shows "avl_rep (timers_tree s) rs" "list_rep (timers_expired_list s) es" "ascending (compare_timers s) rs"
    "set rs \<inter> set es = {}" "set rs \<subseteq> T" "set es \<subseteq> T" "\<not> timers_fault s" "distinct rs" "distinct es"
    "t \<in> T \<Longrightarrow> timer_state s t = (if t \<in> set rs then TIMER_STATE_RUNNING else if t \<in> set es then TIMER_STATE_EXPIRED else TIMER_STATE_INACTIVE)"
  using assms avl_set.rep_distinct ll.rep_distinct by (auto simp: timers_rep_def)

lemma expire_ok:
  assumes r: "timers_rep T s (t # rs) es"
  obtains s' where "expire_timer t s = Some s'" "timers_rep T s' rs (es @ [t])" "same_fields s s'"
proof -
  note d = timers_repD [OF r]
  obtain h where h: "CAvl_Remove t (timers_tree s) = Some h" "avl_rep h rs" "list_rep (timers_expired_list (s\<lparr>timers_tree := h\<rparr>)) es"
    using tree_remove [OF r, of t] by auto
  let ?s = "s\<lparr>timers_tree := h\<rparr>"
  let ?l = "LinkedList1_Append t (timers_expired_list ?s)"
  have t: "t \<notin> set es" "t \<notin> set rs" using d(4,8) by auto
  have l: "list_rep ?l (es @ [t])" "same_nodes (insert t (set es)) (timers_expired_list ?s) ?l"
    using ll.append_law [OF h(3) t(1)] by auto
  let ?r = "set_timer_state t TIMER_STATE_EXPIRED (put_expired_list ?l ?s)"
  have "avl_rep (timers_tree (put_expired_list ?l ?s)) rs"
    by (rule tree_other [OF _ l(2)]) (use h(2) d(4) t in auto)
  moreover have "ascending (compare_timers ?r) rs" using d(3) ascending_same [of ?r s] by (simp add: set_timer_state_def)
  ultimately have "timers_rep T ?r rs (es @ [t])"
    using l(1) d(4-7,10) t unfolding timers_rep_def expired_list_sel put_expired_list_sel
    by (intro conjI) (auto simp: set_timer_state_def)
  moreover have "same_fields s ?r"
    by (simp add: same_fields_def set_timer_state_def put_expired_list_def)
  ultimately show ?thesis using that [of ?r] h(1) by (simp add: expire_timer_def Let_def)
qed

lemma move_expired_ok:
  "timers_rep T s rs es \<Longrightarrow> \<exists>s'. move_expired_timers now moved s = Some (s', moved \<or> takeWhile (\<lambda>t. absTime s t \<le> now) rs \<noteq> [])
     \<and> timers_rep T s' (dropWhile (\<lambda>t. absTime s t \<le> now) rs) (es @ takeWhile (\<lambda>t. absTime s t \<le> now) rs) \<and> same_fields s s'"
proof (induction rs arbitrary: s es moved)
  case Nil
  then show ?case by (subst move_expired_timers.simps) (simp add: first_timer first_of_def)
next
  case (Cons t rs)
  have st: "timer_state s t = TIMER_STATE_RUNNING" using timers_repD [OF Cons.prems] by auto
  show ?case
  proof (cases "absTime s t \<le> now")
    case False
    then show ?thesis
      using Cons.prems st by (subst move_expired_timers.simps) (simp add: first_timer first_of_def Let_def)
  next
    case True
    obtain s' where s': "expire_timer t s = Some s'" "timers_rep T s' rs (es @ [t])" "same_fields s s'" using expire_ok [OF Cons.prems] .
    have a: "absTime s' = absTime s" using s'(3) by (simp add: same_fields_def)
    have "move_expired_timers now moved s = move_expired_timers now True s'"
      using Cons.prems st True s'(1) by (subst move_expired_timers.simps) (simp add: first_timer first_of_def Let_def)
    then show ?thesis using Cons.IH [OF s'(2), of True] True s'(3) a by (auto intro: same_fields_trans)
  qed
qed

lemma move_same_ok:
  "timers_rep T s rs es \<Longrightarrow> (\<forall>t\<in>set rs. absTime s t \<ge> ft) \<Longrightarrow> \<exists>s'. move_same_timers ft s = Some s'
     \<and> timers_rep T s' (dropWhile (\<lambda>t. absTime s t \<le> ft) rs) (es @ takeWhile (\<lambda>t. absTime s t \<le> ft) rs) \<and> same_fields s s'"
proof (induction rs arbitrary: s es)
  case Nil
  then show ?case by (subst move_same_timers.simps) (simp add: first_timer first_of_def)
next
  case (Cons t rs)
  have st: "timer_state s t = TIMER_STATE_RUNNING" using timers_repD [OF Cons.prems(1)] by auto
  show ?case
  proof (cases "absTime s t \<le> ft")
    case False
    then show ?thesis
      using Cons.prems st by (subst move_same_timers.simps) (simp add: first_timer first_of_def Let_def)
  next
    case True
    obtain s' where s': "expire_timer t s = Some s'" "timers_rep T s' rs (es @ [t])" "same_fields s s'" using expire_ok [OF Cons.prems(1)] .
    have a: "absTime s' = absTime s" using s'(3) by (simp add: same_fields_def)
    have "move_same_timers ft s = move_same_timers ft s'"
      using Cons.prems st True s'(1) by (subst move_same_timers.simps) (simp add: first_timer first_of_def Let_def)
    then show ?thesis using Cons.IH [OF s'(2)] Cons.prems(2) True s'(3) a by (auto intro: same_fields_trans)
  qed
qed

lemma move_first_ok:
  assumes r: "timers_rep T s (t # rs) es"
  defines "due \<equiv> \<lambda>u. absTime s u \<le> absTime s t"
  shows "\<exists>s'. move_first_timers s = Some s' \<and> timers_rep T s' (dropWhile due (t # rs)) (es @ takeWhile due (t # rs)) \<and> same_fields s s'"
proof -
  obtain s' where s': "expire_timer t s = Some s'" "timers_rep T s' rs (es @ [t])" "same_fields s s'" using expire_ok [OF r] .
  have a: "absTime s' = absTime s" using s'(3) by (simp add: same_fields_def)
  have st: "timer_state s t = TIMER_STATE_RUNNING" using timers_repD [OF r] by auto
  have "\<forall>u\<in>set rs. absTime s' u \<ge> absTime s t" using timers_repD(3) [OF r] unfolding a by (auto simp: compare_timers_less)
  from move_same_ok [OF s'(2) this] show ?thesis
    using r st s' a by (auto simp: move_first_timers_def first_timer first_of_def Let_def due_def intro: same_fields_trans)
qed

lemma remove1_other: "x \<notin> set xs \<Longrightarrow> remove1 x xs = xs"
  by (rule remove1_idem)

lemma remove_timer_ok:
  assumes r: "timers_rep T s rs es" and t: "t \<in> T"
  shows "\<exists>s'. BReactor_RemoveSmallTimer t s = Some s' \<and> timers_rep T s' (remove1 t rs) (remove1 t es) \<and> same_fields s s'"
proof -
  note d = timers_repD [OF r]
  have ok: "assert_timer t s = s" using d(10) [OF t] by (simp add: assert_timer_def)
  consider (idle) "t \<notin> set rs" "t \<notin> set es" | (running) "t \<in> set rs" "t \<notin> set es" | (expired) "t \<in> set es" "t \<notin> set rs" using d(4) by blast
  then show ?thesis
  proof cases
    case idle
    then show ?thesis using r d(10) [OF t] by (simp add: BReactor_RemoveSmallTimer_def ok remove1_other)
  next
    case running
    obtain h where h: "CAvl_Remove t (timers_tree s) = Some h" "avl_rep h (remove1 t rs)" "list_rep (timers_expired_list (s\<lparr>timers_tree := h\<rparr>)) es"
      using tree_remove [OF r running(1)] .
    let ?r = "set_timer_state t TIMER_STATE_INACTIVE (s\<lparr>timers_tree := h\<rparr>)"
    have "ascending (compare_timers ?r) (remove1 t rs)"
      using ascending_remove1 [OF d(3,8)] ascending_same [of ?r s] by (simp add: set_timer_state_def)
    then have "timers_rep T ?r (remove1 t rs) es"
      using h(2,3) d(4-8,10) running unfolding timers_rep_def expired_list_sel
      by (intro conjI) (auto simp: set_timer_state_def)
    then show ?thesis using h(1) d(10) [OF t] running
      by (simp add: BReactor_RemoveSmallTimer_def ok Let_def remove1_other same_fields_def set_timer_state_def)
  next
    case expired
    let ?l = "LinkedList1_Remove t (timers_expired_list s)"
    let ?r = "set_timer_state t TIMER_STATE_INACTIVE (put_expired_list ?l s)"
    have l: "list_rep ?l (remove1 t es)" "same_nodes (set es) (timers_expired_list s) ?l" using ll.remove_law [OF d(2) expired(1)] by auto
    have "avl_rep (timers_tree (put_expired_list ?l s)) rs" by (rule tree_other [OF d(1) l(2)]) (use d(4) in auto)
    moreover have "ascending (compare_timers ?r) rs" using d(3) ascending_same [of ?r s] by (simp add: set_timer_state_def)
    ultimately have "timers_rep T ?r rs (remove1 t es)"
      using l(1) d(4-7,9,10) expired unfolding timers_rep_def expired_list_sel put_expired_list_sel
      by (intro conjI) (auto simp: set_timer_state_def)
    then show ?thesis using d(10) [OF t] expired
      by (simp add: BReactor_RemoveSmallTimer_def ok Let_def remove1_other same_fields_def set_timer_state_def put_expired_list_def)
  qed
qed

lemma tree_insert_fresh:
  "ascending cmp xs \<Longrightarrow> cmp_order cmp (insert f (set xs)) \<Longrightarrow> set (fst (tree_insert cmp f xs)) = insert f (set xs)"
proof (induction xs)
  case (Cons a as)
  have "set (fst (tree_insert cmp f as)) = insert f (set as)"
    using Cons.prems by (intro Cons.IH) (auto intro: cmp_order_subset)
  moreover have "cmp f a = 0 \<Longrightarrow> f = a" using cmp_order_facts(2) [OF Cons.prems(2), of f a] by simp
  ultimately show ?case by (auto simp: split_beta)
qed simp

definition timer_deadline :: "int \<Rightarrow> nat \<Rightarrow> int \<Rightarrow> int" where
  "timer_deadline now mode time = (if mode = BTIMER_SET_RELATIVE then btime_add now time else time)"

lemma set_timer_ok:
  assumes r: "timers_rep T s rs es" and t: "t \<in> T" and m: "mode = BTIMER_SET_ABSOLUTE \<or> mode = BTIMER_SET_RELATIVE"
  shows "\<exists>s' rs'. BReactor_SetSmallTimer now t mode time s = Some s' \<and> timers_rep T s' rs' (remove1 t es)
     \<and> set rs' = insert t (set rs) \<and> same_fields (s\<lparr>absTime := (absTime s)(t := timer_deadline now mode time)\<rparr>) s'"
proof -
  have ok: "assert_timer t s = s" using timers_repD(10) [OF r t] by (simp add: assert_timer_def)
  obtain s1 where s1: "BReactor_RemoveSmallTimer t s = Some s1" "timers_rep T s1 (remove1 t rs) (remove1 t es)" "same_fields s s1"
    using remove_timer_ok [OF r t] by blast
  note d = timers_repD [OF s1(2)]
  have n: "t \<notin> set (remove1 t rs)" "t \<notin> set (remove1 t es)" using timers_repD(8,9) [OF r] by auto
  define s2 where "s2 = set_timer_state t TIMER_STATE_RUNNING (s1\<lparr>absTime := (absTime s1)(t := timer_deadline now mode time)\<rparr>)"
  have asc: "ascending (compare_timers s2) (remove1 t rs)"
    using d(3) n(1) by (subst ascending_cong [of _ _ "compare_timers s1"]) (auto simp: s2_def set_timer_state_def compare_timers_def)
  have tree: "timers_tree s2 = timers_tree s1" by (simp add: s2_def set_timer_state_def)
  obtain h e where h: "CAvl_Insert (compare_timers s2) t (timers_tree s2) = Some (h, True, e)"
    "avl_rep h (fst (tree_insert (compare_timers s2) t (remove1 t rs)))"
    using insert_ok [OF d(1) [folded tree] asc compare_timers_order, of t] n(1) by auto
  let ?rs = "fst (tree_insert (compare_timers s2) t (remove1 t rs))" and ?r = "s2\<lparr>timers_tree := h\<rparr>"
  have f: "framed (insert t (set (remove1 t rs))) (timers_tree s2) h"
    using framed_Insert [OF _ h(1)] avl_rep_within [OF d(1)] tree by simp
  have "list_rep (timers_expired_list s2) (remove1 t es)" using d(2) by (simp add: s2_def)
  from expired_list_other [OF this f] have l: "list_rep (timers_expired_list ?r) (remove1 t es)" using d(4) n(2) by auto
  have set: "set ?rs = insert t (set rs)"
    using tree_insert_fresh [OF asc compare_timers_order] timers_repD(8) [OF r] by auto
  have "ascending (compare_timers ?r) ?rs"
    using tree_insert_ascending [OF asc compare_timers_order] ascending_same [of ?r s2] by simp
  then have "timers_rep T ?r ?rs (remove1 t es)"
    using h(2) l d(4-7,10) t n timers_repD(8) [OF r] unfolding timers_rep_def set
    by (intro conjI) (auto simp: s2_def set_timer_state_def)
  moreover have "BReactor_SetSmallTimer now t mode time s = Some ?r"
    using m s1(1) h(1) by (auto simp: BReactor_SetSmallTimer_def ok Let_def s2_def timer_deadline_def)
  moreover have "same_fields (s\<lparr>absTime := (absTime s)(t := timer_deadline now mode time)\<rparr>) ?r"
    using s1(3) by (simp add: same_fields_def s2_def set_timer_state_def)
  ultimately show ?thesis using set by blast
qed

lemma btime_add_saturates:
  assumes "INT64_MIN \<le> t1" "t1 \<le> INT64_MAX" "INT64_MIN \<le> t2" "t2 \<le> INT64_MAX"
  shows "btime_add t1 t2 = max INT64_MIN (min INT64_MAX (t1 + t2))"
  using assms by (auto simp: btime_add_def add_int64_overflows_def Let_def of_bool_def)

section \<open>Dispatching and initialisation\<close>

text \<open>The timer part of one round of \<open>BReactor_Exec\<close>: the timer is taken off the expired list and is inactive when its handler is called.\<close>

definition dispatch_timer :: "nat \<Rightarrow> timers \<Rightarrow> timers" where
  "dispatch_timer timer s =
    (let s = T_ASSERT (timer_state s timer = TIMER_STATE_EXPIRED) s;
         s = put_expired_list (LinkedList1_Remove timer (timers_expired_list s)) s
     in set_timer_state timer TIMER_STATE_INACTIVE s)"

text \<open>The timer part of \<open>BReactor_Init\<close>.\<close>

definition timers_Init :: "timers \<Rightarrow> timers" where
  "timers_Init s =
    (let s = s\<lparr>timers_tree := CAvl_Init (timers_tree s)\<rparr>
     in put_expired_list (LinkedList1_Init (timers_expired_list s)) s)"

lemma dispatch_timer_ok:
  assumes r: "timers_rep T s rs (t # es)"
  shows "timers_rep T (dispatch_timer t s) rs es \<and> same_fields s (dispatch_timer t s)"
proof -
  have "timer_state s t = TIMER_STATE_EXPIRED" and t: "t \<in> T" using timers_repD [OF r] by auto
  then have "BReactor_RemoveSmallTimer t s = Some (dispatch_timer t s)"
    by (simp add: BReactor_RemoveSmallTimer_def dispatch_timer_def assert_timer_def Let_def)
  moreover have "t \<notin> set rs" using timers_repD(4) [OF r] by simp
  ultimately show ?thesis using remove_timer_ok [OF r t] by (simp add: remove1_other)
qed

lemma timers_init_ok:
  assumes "\<not> timers_fault s" and "\<not> avl_fault (timers_tree s)"
  shows "timers_rep {} (timers_Init s) [] []"
proof -
  let ?s = "s\<lparr>timers_tree := CAvl_Init (timers_tree s)\<rparr>"
  have "avl_rep (timers_tree ?s) []" using avl_rep_empty [OF assms(2)] by (simp add: SAvl_Init_def)
  from tree_other [OF this, of UNIV] have "avl_rep (timers_tree (timers_Init s)) []"
    by (simp add: timers_Init_def Let_def same_nodes_def)
  then show ?thesis using list_Init assms(1) by (simp add: timers_rep_def timers_Init_def Let_def)
qed

lemma timer_Init_ok:
  assumes r: "timers_rep T s rs es" and t: "t \<notin> T"
  shows "timers_rep (insert t T) (BSmallTimer_Init t h s) rs es" and "timers_rep (insert t T) (BTimer_Init t ms h u s) rs es"
proof -
  have n: "t \<notin> set rs" "t \<notin> set es" using timers_repD(5,6) [OF r] t by auto
  have "ascending (compare_timers (BSmallTimer_Init t h s)) rs" "ascending (compare_timers (BTimer_Init t ms h u s)) rs"
    using timers_repD(3) [OF r] ascending_same [of "BSmallTimer_Init t h s" s rs] ascending_same [of "BTimer_Init t ms h u s" s rs]
    by (simp_all add: BSmallTimer_Init_def BTimer_Init_def)
  then show "timers_rep (insert t T) (BSmallTimer_Init t h s) rs es" "timers_rep (insert t T) (BTimer_Init t ms h u s) rs es"
    using timers_repD [OF r] n unfolding timers_rep_def
    by (intro conjI; auto simp: BSmallTimer_Init_def BTimer_Init_def timers_expired_list_def)+
qed

section \<open>The deadline queue\<close>

text \<open>
  What timers promise: a map from timers to deadlines, the running timers by deadline (and by address among equal ones) and
  the timers that are due. \<open>None\<close>: an operation outside its precondition.
\<close>

datatype timer_op =
    Op_Set int nat nat int
  | Op_Stop nat
  | Op_Expire int
  | Op_ExpireFirst
  | Op_Dispatch

type_synonym deadlines = "(nat \<Rightarrow> int) \<times> nat list \<times> nat list"

fun spec_op :: "timer_op \<Rightarrow> deadlines \<Rightarrow> deadlines option" where
  "spec_op (Op_Set now t mode time) (dl, rs, es) =
    (if mode = BTIMER_SET_ABSOLUTE \<or> mode = BTIMER_SET_RELATIVE then
       (let dl = dl(t := timer_deadline now mode time)
        in Some (dl, insort_key (\<lambda>u. (dl u, u)) t (remove1 t rs), remove1 t es))
     else None)"
| "spec_op (Op_Stop t) (dl, rs, es) = Some (dl, remove1 t rs, remove1 t es)"
| "spec_op (Op_Expire now) (dl, rs, es) = Some (dl, filter (\<lambda>t. dl t > now) rs, es @ filter (\<lambda>t. dl t \<le> now) rs)"
| "spec_op Op_ExpireFirst (dl, rs, es) = (case rs of
     [] \<Rightarrow> None
   | t # _ \<Rightarrow> Some (dl, filter (\<lambda>u. dl u > dl t) rs, es @ filter (\<lambda>u. dl u = dl t) rs))"
| "spec_op Op_Dispatch (dl, rs, es) = (case es of [] \<Rightarrow> None | t # es \<Rightarrow> Some (dl, rs, es))"

fun run_op :: "timer_op \<Rightarrow> timers \<Rightarrow> timers option" where
  "run_op (Op_Set now t mode time) s = BReactor_SetSmallTimer now t mode time s"
| "run_op (Op_Stop t) s = BReactor_RemoveSmallTimer t s"
| "run_op (Op_Expire now) s = map_option fst (move_expired_timers now False s)"
| "run_op Op_ExpireFirst s = move_first_timers s"
| "run_op Op_Dispatch s = (case LinkedList1_GetFirst (timers_expired_list s) of None \<Rightarrow> None | Some t \<Rightarrow> Some (dispatch_timer t s))"

fun op_timers :: "timer_op \<Rightarrow> nat set" where
  "op_timers (Op_Set now t mode time) = {t}"
| "op_timers (Op_Stop t) = {t}"
| "op_timers op = {}"

lemma ascending_key: "ascending (compare_timers s) xs \<longleftrightarrow> sorted (map (\<lambda>u. (absTime s u, u)) xs) \<and> distinct xs"
proof (induction xs)
  case (Cons a xs)
  have "compare_timers s a x < 0 \<longleftrightarrow> (absTime s a, a) \<le> (absTime s x, x) \<and> a \<noteq> x" for x
    by (auto simp: compare_timers_less)
  with Cons show ?case by auto
qed simp

lemma ascending_unique:
  assumes "ascending (compare_timers s) xs" "ascending (compare_timers s) ys" "set xs = set ys"
  shows "xs = ys"
proof -
  let ?k = "\<lambda>u. (absTime s u, u)"
  have i: "inj ?k" by (rule injI) simp
  have "map ?k xs = map ?k ys"
    using assms i by (intro sorted_distinct_set_unique) (auto simp: ascending_key distinct_map intro: inj_on_subset)
  then show ?thesis using i by (simp add: inj_map_eq_map)
qed

lemma takeWhile_due:
  "ascending (compare_timers s) rs \<Longrightarrow> takeWhile (\<lambda>t. absTime s t \<le> now) rs = filter (\<lambda>t. absTime s t \<le> now) rs
     \<and> dropWhile (\<lambda>t. absTime s t \<le> now) rs = filter (\<lambda>t. absTime s t > now) rs"
proof (induction rs)
  case (Cons t rs)
  have "\<forall>u\<in>set rs. absTime s t \<le> absTime s u" using Cons.prems by (auto simp: compare_timers_less)
  then show ?case using Cons by (force intro: filter_False [symmetric] filter_True [symmetric] simp: not_le)
qed simp

text \<open>One operation on the pointer structure does what the specification says.\<close>

lemma run_op_refines:
  assumes r: "timers_rep T s rs es" and dl: "absTime s = dl" and op: "op_timers op \<subseteq> T" and sp: "spec_op op (dl, rs, es) = Some (dl', rs', es')"
  shows "\<exists>s'. run_op op s = Some s' \<and> timers_rep T s' rs' es' \<and> absTime s' = dl'"
proof (cases op)
  case (Op_Set now t mode time)
  then have m: "mode = BTIMER_SET_ABSOLUTE \<or> mode = BTIMER_SET_RELATIVE" and t: "t \<in> T" using sp op by (auto split: if_splits)
  obtain s' us where s': "BReactor_SetSmallTimer now t mode time s = Some s'" "timers_rep T s' us (remove1 t es)"
    "set us = insert t (set rs)" "same_fields (s\<lparr>absTime := (absTime s)(t := timer_deadline now mode time)\<rparr>) s'"
    using set_timer_ok [OF r t m] by blast
  have e: "dl' = absTime s'" "rs' = insort_key (\<lambda>u. (absTime s' u, u)) t (remove1 t rs)" "es' = remove1 t es"
    using sp m s'(4) dl Op_Set by (auto simp: Let_def same_fields_def)
  have a: "absTime s' u = absTime s u" if "u \<noteq> t" for u using s'(4) that by (simp add: same_fields_def)
  have m: "map (\<lambda>u. (absTime s' u, u)) (remove1 t rs) = map (\<lambda>u. (absTime s u, u)) (remove1 t rs)"
    using a timers_repD(8) [OF r] by auto
  have "ascending (compare_timers s) (remove1 t rs)" using ascending_remove1 timers_repD(3,8) [OF r] by blast
  then have "sorted (map (\<lambda>u. (absTime s' u, u)) (remove1 t rs))" unfolding m ascending_key by simp
  then have "ascending (compare_timers s') rs'"
    using timers_repD(8) [OF r] unfolding e(2) ascending_key by (simp only: sorted_insort_key distinct_insort) simp
  moreover have "set rs' = set us" using s'(3) timers_repD(8) [OF r] unfolding e(2) by (auto simp: set_insort_key)
  ultimately have "rs' = us" using ascending_unique timers_repD(3) [OF s'(2)] by blast
  then show ?thesis using s'(1,2) e Op_Set by auto
next
  case (Op_Stop t)
  then show ?thesis using remove_timer_ok [OF r, of t] op sp dl by (auto simp: same_fields_def)
next
  case (Op_Expire now)
  then show ?thesis
    using move_expired_ok [OF r, of now False] takeWhile_due [OF timers_repD(3) [OF r], of now] sp dl by (auto simp: same_fields_def)
next
  case Op_ExpireFirst
  then obtain t us where rs: "rs = t # us" using sp by (cases rs) auto
  have "\<forall>u\<in>set rs. absTime s t \<le> absTime s u" using timers_repD(3) [OF r] rs by (auto simp: compare_timers_less)
  then have "filter (\<lambda>u. absTime s u = absTime s t) rs = filter (\<lambda>u. absTime s u \<le> absTime s t) rs" by (intro filter_cong) auto
  then show ?thesis
    using move_first_ok [OF r [unfolded rs]] takeWhile_due [OF timers_repD(3) [OF r], of "absTime s t"] sp dl rs Op_ExpireFirst
    by (auto simp: same_fields_def)
next
  case Op_Dispatch
  then obtain t us where es: "es = t # us" using sp by (cases es) auto
  then show ?thesis using dispatch_timer_ok [of T s rs t us] list_First [OF timers_repD(2) [OF r]] r sp dl Op_Dispatch
    by (auto simp: same_fields_def)
qed

fun spec_ops :: "timer_op list \<Rightarrow> deadlines \<Rightarrow> deadlines option" where
  "spec_ops [] d = Some d"
| "spec_ops (op # ops) d = Option.bind (spec_op op d) (spec_ops ops)"

fun run_ops :: "('op \<Rightarrow> 's \<Rightarrow> 's option) \<Rightarrow> 'op list \<Rightarrow> 's \<Rightarrow> 's option" where
  "run_ops step [] s = Some s"
| "run_ops step (op # ops) s = Option.bind (step op s) (run_ops step ops)"

text \<open>The contract the event loop relies on: an implementation whose every step is a step of the deadline queue.\<close>

locale deadline_queue =
  fixes rep :: "'s \<Rightarrow> nat list \<Rightarrow> nat list \<Rightarrow> bool" and deadline :: "'s \<Rightarrow> nat \<Rightarrow> int"
    and step :: "timer_op \<Rightarrow> 's \<Rightarrow> 's option" and allowed :: "timer_op \<Rightarrow> bool"
  assumes step_refines: "rep s rs es \<Longrightarrow> allowed op \<Longrightarrow> spec_op op (deadline s, rs, es) = Some (dl', rs', es') \<Longrightarrow>
      \<exists>s'. step op s = Some s' \<and> rep s' rs' es' \<and> deadline s' = dl'"
begin

lemma run_refines:
  "rep s rs es \<Longrightarrow> list_all allowed ops \<Longrightarrow> spec_ops ops (deadline s, rs, es) = Some (dl', rs', es') \<Longrightarrow>
     \<exists>s'. run_ops step ops s = Some s' \<and> rep s' rs' es' \<and> deadline s' = dl'"
proof (induction ops arbitrary: s rs es)
  case (Cons op ops)
  then obtain dl1 rs1 es1 where o: "spec_op op (deadline s, rs, es) = Some (dl1, rs1, es1)" "spec_ops ops (dl1, rs1, es1) = Some (dl', rs', es')"
    by (auto simp: Option.bind_eq_Some_conv)
  obtain s1 where s1: "step op s = Some s1" "rep s1 rs1 es1" "deadline s1 = dl1"
    using step_refines [OF Cons.prems(1) _ o(1)] Cons.prems(2) by auto
  then show ?case using Cons.IH [OF s1(2)] Cons.prems(2) o(2) by auto
qed auto

lemma stop_then_never_due:
  assumes "rep s rs es" and "allowed (Op_Stop t)" and "distinct rs" and "distinct es"
  shows "\<exists>s' rs' es'. step (Op_Stop t) s = Some s' \<and> rep s' rs' es' \<and> t \<notin> set rs' \<and> t \<notin> set es'"
proof -
  obtain s' where "step (Op_Stop t) s = Some s'" "rep s' (remove1 t rs) (remove1 t es)"
    using step_refines [OF assms(1,2), of "deadline s" "remove1 t rs" "remove1 t es"] by auto
  moreover have "t \<notin> set (remove1 t rs)" "t \<notin> set (remove1 t es)" using assms(3,4) by auto
  ultimately show ?thesis by blast
qed

end

interpretation tq: deadline_queue "timers_rep T" absTime run_op "\<lambda>op. op_timers op \<subseteq> T" for T
  by unfold_locales (rule run_op_refines [OF _ refl])

section \<open>Properties\<close>

lemma timers_start:
  "timers_rep T s rs es \<Longrightarrow> distinct ts \<Longrightarrow> set ts \<inter> T = {} \<Longrightarrow> timers_rep (T \<union> set ts) (fold (\<lambda>t. BSmallTimer_Init t h) ts s) rs es"
proof (induction ts arbitrary: s T)
  case (Cons t ts)
  then have "timers_rep (insert t T) (BSmallTimer_Init t h s) rs es" using timer_Init_ok(1) by auto
  from Cons.IH [OF this] Cons.prems show ?case by auto
qed simp

lemma absTime_start: "absTime (fold (\<lambda>t. BSmallTimer_Init t h) ts (timers_Init s)) = absTime s"
proof -
  have "absTime (fold (\<lambda>t. BSmallTimer_Init t h) ts s) = absTime s" for s
    by (induction ts arbitrary: s) (simp_all add: BSmallTimer_Init_def)
  then show ?thesis by (simp add: timers_Init_def Let_def)
qed

text \<open>
  C40. Timers implement a deadline queue. After any sequence of setting, stopping, expiring and dispatching timers that
  are initialised, no assertion has failed and every loop has ended; the tree holds the running timers by deadline, the list the
  expired ones in the order in which they became due, with timers due at once ordered by deadline, although both
  structures share the memory of the child links; and the state of each timer says where it is.
\<close>

theorem timers_refine_deadline_queue:
  assumes "\<not> timers_fault s" and "\<not> avl_fault (timers_tree s)" and "distinct ts" and "list_all (\<lambda>op. op_timers op \<subseteq> set ts) ops"
    and "spec_ops ops (absTime s, [], []) = Some (dl, rs, es)"
  shows "\<exists>s'. run_ops run_op ops (fold (\<lambda>t. BSmallTimer_Init t h) ts (timers_Init s)) = Some s'
    \<and> timers_rep (set ts) s' rs es \<and> absTime s' = dl \<and> sorted (map (\<lambda>t. (dl t, t)) rs)"
proof -
  have "timers_rep (set ts) (fold (\<lambda>t. BSmallTimer_Init t h) ts (timers_Init s)) [] []"
    using timers_start [OF timers_init_ok [OF assms(1,2)] assms(3)] by simp
  from tq.run_refines [OF this assms(4)] obtain s' where
    s': "run_ops run_op ops (fold (\<lambda>t. BSmallTimer_Init t h) ts (timers_Init s)) = Some s'" "timers_rep (set ts) s' rs es" "absTime s' = dl"
    using assms(5) by (auto simp: absTime_start)
  have "sorted (map (\<lambda>t. (dl t, t)) rs)" using timers_repD(3) [OF s'(2)] s'(3) by (simp add: ascending_key)
  with s' show ?thesis by blast
qed

definition example_timers :: timers where
  "example_timers = \<lparr>timers_tree = \<lparr>tree_root = None, avl_parent = \<lambda>_. None, avl_link = \<lambda>_ _. None, avl_balance = \<lambda>_. 0, avl_fault = False\<rparr>,
     expired_first = None, expired_last = None, timer_handler = \<lambda>_. 0, absTime = \<lambda>_. 0, timer_state = \<lambda>_. 0, is_small = \<lambda>_. True,
     timer_user = \<lambda>_. 0, msTime = \<lambda>_. 0, timers_fault = False\<rparr>"

theorem timers_refine_deadline_queue_witness:
  "\<exists>s' dl. run_ops run_op [Op_Set 100 7 2 50, Op_Set 100 8 2 20, Op_Set 100 9 2 50, Op_Expire 130, Op_Dispatch, Op_ExpireFirst, Op_Stop 7]
      (fold (\<lambda>t. BSmallTimer_Init t 0) [7, 8, 9] (timers_Init example_timers)) = Some s'
    \<and> timers_rep (set [7, 8, 9]) s' [] [9] \<and> absTime s' = dl \<and> sorted (map (\<lambda>t. (dl t, t)) [])"
  using timers_refine_deadline_queue [of example_timers "[7, 8, 9]"
      "[Op_Set 100 7 2 50, Op_Set 100 8 2 20, Op_Set 100 9 2 50, Op_Expire 130, Op_Dispatch, Op_ExpireFirst, Op_Stop 7]" _ "[]" "[9]" 0]
  by (auto simp: example_timers_def timer_deadline_def btime_add_def add_int64_overflows_def)

end
