(* ===== verification/Reactor.thy ===== *)
theory Reactor
  imports Timers Pending
begin

text \<open>
  The event loop: \<open>system/BReactor_badvpn.c\<close> for the build with \<open>BADVPN_USE_EPOLL\<close>. One round of \<open>BReactor_Exec\<close> runs
  a pending job if there is one, else dispatches an expired timer, else the next file descriptor event, and waits for
  events only when nothing is left to do.

  The kernel is a parameter: the operations \<open>epoll_ctl\<close>, \<open>epoll_wait\<close> and the clock act on an opaque state, and
  \<open>kernel_ok\<close> states what the code relies on. Handlers are the clients: each round returns the call it makes, and
  the client then performs operations on the reactor, in any number and order that their documentation allows. The
  reachable states are those of rounds and client operations in any interleaving.
\<close>

section \<open>State\<close>

abbreviation (input) BREACTOR_READ :: "32 word" where "BREACTOR_READ \<equiv> 1"
abbreviation (input) BREACTOR_WRITE :: "32 word" where "BREACTOR_WRITE \<equiv> 2"
abbreviation (input) BREACTOR_ERROR :: "32 word" where "BREACTOR_ERROR \<equiv> 4"
abbreviation (input) BREACTOR_HUP :: "32 word" where "BREACTOR_HUP \<equiv> 8"
abbreviation (input) EPOLLIN :: "32 word" where "EPOLLIN \<equiv> 1"
abbreviation (input) EPOLLOUT :: "32 word" where "EPOLLOUT \<equiv> 4"
abbreviation (input) EPOLLERR :: "32 word" where "EPOLLERR \<equiv> 8"
abbreviation (input) EPOLLHUP :: "32 word" where "EPOLLHUP \<equiv> 16"
abbreviation (input) BSYSTEM_MAX_RESULTS :: nat where "BSYSTEM_MAX_RESULTS \<equiv> 64"

text \<open>
  The system calls. \<open>k_ctl\<close> takes an operation, a descriptor and an event with its user pointer and says whether it
  succeeded; \<open>k_wait\<close> takes a timeout (\<open>-1\<close>: none) and returns the events with their pointers, or an error that is
  \<open>EINTR\<close> or not, or blocks for ever (\<open>None\<close>); \<open>k_time\<close> is \<open>btime_gettime\<close>.
\<close>

datatype ctl_op = EPOLL_CTL_ADD | EPOLL_CTL_MOD | EPOLL_CTL_DEL

datatype epoll_answer = EP_Events "(32 word \<times> nat) list" | EP_Error bool

record 'k kernel_ops =
  k_ctl :: "ctl_op \<Rightarrow> int \<Rightarrow> 32 word \<times> nat option \<Rightarrow> 'k \<Rightarrow> bool \<times> 'k"
  k_wait :: "int \<Rightarrow> 'k \<Rightarrow> (epoll_answer \<times> 'k) option"
  k_time :: "'k \<Rightarrow> int \<times> 'k"

text \<open>
  The reactor, and the fields of the objects used with it: file descriptors (\<open>fd_\<close>, \<open>waitEvents\<close>,
  \<open>epoll_returned_ptr\<close>, which is the index of an entry of \<open>epoll_results\<close>) and limits. \<open>epoll_results\<close> are the entries
  that \<open>epoll_wait\<close> wrote.
\<close>

record 'k BReactor =
  exiting :: bool
  exit_code :: int
  pending_jobs :: "nat BPendingGroup"
  r_timers :: timers
  active_limits_list :: LinkedList1
  limit_max :: "nat \<Rightarrow> int"
  limit_count :: "nat \<Rightarrow> int"
  r_kernel :: 'k
  epoll_results :: "(32 word \<times> nat option) list"
  epoll_results_num :: nat
  epoll_results_pos :: nat
  fd_num :: "nat \<Rightarrow> int"
  fd_handler :: "nat \<Rightarrow> nat"
  fd_user :: "nat \<Rightarrow> nat"
  fd_active :: "nat \<Rightarrow> bool"
  waitEvents :: "nat \<Rightarrow> 32 word"
  epoll_returned_ptr :: "nat \<Rightarrow> nat option"
  r_fault :: bool

text \<open>A call of a handler: of a job, of the two kinds of timers, of a file descriptor with its events.\<close>

datatype call =
    Job_handler nat nat
  | Small_handler nat nat
  | Heavy_handler nat nat
  | Fd_handler nat nat "32 word"

definition E_ASSERT :: "bool \<Rightarrow> 'k BReactor \<Rightarrow> 'k BReactor" where
  "E_ASSERT b s = s\<lparr>r_fault := r_fault s \<or> \<not> b\<rparr>"

section \<open>Waiting for events\<close>

definition set_returned_ptr :: "nat \<Rightarrow> nat option \<Rightarrow> 'k BReactor \<Rightarrow> 'k BReactor" where
  "set_returned_ptr b v s = s\<lparr>epoll_returned_ptr := (epoll_returned_ptr s)(b := v)\<rparr>"

text \<open>The loop of \<open>set_epoll_fd_pointers\<close> from entry \<open>i\<close> on, \<open>n\<close> times.\<close>

fun set_fd_pointers :: "nat \<Rightarrow> nat \<Rightarrow> 'k BReactor \<Rightarrow> 'k BReactor" where
  "set_fd_pointers i 0 s = s"
| "set_fd_pointers i (Suc n) s =
    (case snd (epoll_results s ! i) of
       None \<Rightarrow> E_ASSERT False s
     | Some bfd \<Rightarrow>
        let s = E_ASSERT (fd_active s bfd) s;
            s = E_ASSERT (epoll_returned_ptr s bfd = None) s
        in set_fd_pointers (Suc i) n (set_returned_ptr bfd (Some i) s))"

definition set_epoll_fd_pointers :: "'k BReactor \<Rightarrow> 'k BReactor" where
  "set_epoll_fd_pointers s = set_fd_pointers 0 (epoll_results_num s) s"

definition on_timers :: "(timers \<Rightarrow> timers option) \<Rightarrow> 'k BReactor \<Rightarrow> 'k BReactor option" where
  "on_timers f s = do { tm \<leftarrow> f (r_timers s); Some (s\<lparr>r_timers := tm\<rparr>) }"

definition get_time :: "'k kernel_ops \<Rightarrow> 'k BReactor \<Rightarrow> int \<times> 'k BReactor" where
  "get_time K s = (case k_time K (r_kernel s) of (now, k) \<Rightarrow> (now, s\<lparr>r_kernel := k\<rparr>))"

text \<open>
  The loop around \<open>epoll_wait\<close>; \<open>timeout\<close> is \<open>timeout_abs\<close> if \<open>have_timeout\<close> is set. Each round
  says whether it leaves the loop; the label \<open>try_again\<close> is a function of its own.
  The relative timeout is the difference of a deadline after \<open>now\<close> and a time of the clock, which is not negative, so it does not
  leave the 64-bit range; what exceeds an \<open>int\<close> is cut off as in the code.
\<close>

definition try_again :: "'k kernel_ops \<Rightarrow> int option \<Rightarrow> int \<Rightarrow> 'k BReactor \<Rightarrow> (bool \<times> int \<times> 'k BReactor) option" where
  "try_again K timeout now s = (case timeout of
      None \<Rightarrow> Some (False, now, s)
    | Some timeout_abs \<Rightarrow> (case get_time K s of (now, s) \<Rightarrow>
        if now \<ge> timeout_abs then do { s \<leftarrow> on_timers move_first_timers s; Some (True, now, s) }
        else Some (False, now, s)))"

definition wait_once :: "'k kernel_ops \<Rightarrow> int option \<Rightarrow> int \<Rightarrow> 'k BReactor \<Rightarrow> (bool \<times> int \<times> 'k BReactor) option" where
  "wait_once K timeout now s =
    (let timeout_rel = (case timeout of Some timeout_abs \<Rightarrow> timeout_abs - now | None \<Rightarrow> 0);
         timeout_rel_trunc = (if timeout \<noteq> None \<and> timeout_rel > int INT_MAX then int INT_MAX else timeout_rel)
     in case k_wait K (if timeout \<noteq> None then timeout_rel_trunc else -1) (r_kernel s) of None \<Rightarrow> None | Some (answer, k) \<Rightarrow>
       let s = s\<lparr>r_kernel := k\<rparr>
       in case answer of
         EP_Error eintr \<Rightarrow> if eintr then try_again K timeout now s else Some (True, now, E_ASSERT False s)
       | EP_Events evs \<Rightarrow>
           let waitres = length evs;
               s = E_ASSERT (\<not> waitres = 0 \<or> timeout \<noteq> None) s;
               s = E_ASSERT (waitres \<le> BSYSTEM_MAX_RESULTS) s
           in if waitres \<noteq> 0 \<or> timeout_rel_trunc = timeout_rel then
                (if waitres \<noteq> 0 then
                   Some (True, now, set_epoll_fd_pointers
                     (s\<lparr>epoll_results := map (map_prod id Some) evs, epoll_results_num := waitres\<rparr>))
                 else do { s \<leftarrow> on_timers move_first_timers s; Some (True, now, s) })
              else try_again K timeout now s)"

partial_function (option) wait_loop :: "'k kernel_ops \<Rightarrow> int option \<Rightarrow> int \<Rightarrow> 'k BReactor \<Rightarrow> 'k BReactor option" where
  "wait_loop K timeout now s = do {
     (leave, now, s) \<leftarrow> wait_once K timeout now s;
     if leave then Some s else wait_loop K timeout now s }"

partial_function (option) reset_limits :: "'k BReactor \<Rightarrow> 'k BReactor option" where
  "reset_limits s = (case LinkedList1_GetFirst (active_limits_list s) of
      None \<Rightarrow> Some s
    | Some limit \<Rightarrow>
       (let s = E_ASSERT (limit_count s limit > 0) s;
            s = s\<lparr>limit_count := (limit_count s)(limit := 0)\<rparr>
        in reset_limits (s\<lparr>active_limits_list := LinkedList1_Remove limit (active_limits_list s)\<rparr>)))"

definition wait_for_events :: "'k kernel_ops \<Rightarrow> 'k BReactor \<Rightarrow> 'k BReactor option" where
  "wait_for_events K s = do {
     let s = E_ASSERT (\<not> BPendingGroup_HasJobs (pending_jobs s)) s;
     let s = E_ASSERT (LinkedList1_IsEmpty (timers_expired_list (r_timers s))) s;
     let s = E_ASSERT (epoll_results_pos s = epoll_results_num s) s;
     let s = s\<lparr>epoll_results_num := 0, epoll_results_pos := 0\<rparr>;
     first \<leftarrow> CAvl_GetFirst (timers_tree (r_timers s));
     (case first of
        None \<Rightarrow> do { s \<leftarrow> wait_loop K None 0 s; reset_limits s }
      | Some first_timer \<Rightarrow>
         let s = E_ASSERT (timer_state (r_timers s) first_timer = TIMER_STATE_RUNNING) s in
         (case get_time K s of (now, s) \<Rightarrow> do {
            (tm, moved) \<leftarrow> move_expired_timers now False (r_timers s);
            let s = s\<lparr>r_timers := tm\<rparr>;
            (if moved then Some s
             else do {
               s \<leftarrow> wait_loop K (Some (absTime (r_timers s) first_timer)) now s;
               reset_limits s }) })) }"

section \<open>The event loop\<close>

text \<open>The dispatch of a file descriptor event: the rest of the round after the entry was found.\<close>

definition fd_events :: "32 word \<Rightarrow> 32 word \<Rightarrow> 32 word" where
  "fd_events wanted got =
    (let events = 0;
         events = (if wanted AND BREACTOR_READ \<noteq> 0 \<and> got AND EPOLLIN \<noteq> 0 then events OR BREACTOR_READ else events);
         events = (if wanted AND BREACTOR_WRITE \<noteq> 0 \<and> got AND EPOLLOUT \<noteq> 0 then events OR BREACTOR_WRITE else events);
         events = (if got AND EPOLLERR \<noteq> 0 then events OR BREACTOR_ERROR else events)
     in if got AND EPOLLHUP \<noteq> 0 then events OR BREACTOR_HUP else events)"

definition dispatch_fd :: "'k BReactor \<Rightarrow> 'k BReactor \<times> call option" where
  "dispatch_fd s =
    (let i = epoll_results_pos s;
         event = epoll_results s ! i;
         s = s\<lparr>epoll_results_pos := i + 1\<rparr>
     in case snd event of
       None \<Rightarrow> (s, None)
     | Some bfd \<Rightarrow>
        (let s = E_ASSERT (fd_active s bfd) s;
             s = E_ASSERT (epoll_returned_ptr s bfd = Some i) s;
             s = set_returned_ptr bfd None s;
             events = fd_events (waitEvents s bfd) (fst event)
         in if events = 0 then (s, None)
            else (s, Some (Fd_handler (fd_handler s bfd) (fd_user s bfd) events))))"

text \<open>One round of \<open>BReactor_Exec\<close>, with the handler it calls.\<close>

definition exec_round :: "'k kernel_ops \<Rightarrow> 'k BReactor \<Rightarrow> ('k BReactor \<times> call option) option" where
  "exec_round K s =
    (if BPendingGroup_HasJobs (pending_jobs s) then
       (case BPendingGroup_ExecuteJob (pending_jobs s) of (g, job) \<Rightarrow>
         Some (s\<lparr>pending_jobs := g\<rparr>, map_option (\<lambda>(p, h). Job_handler h p) job))
     else case LinkedList1_GetFirst (timers_expired_list (r_timers s)) of
       Some timer \<Rightarrow>
        (let tm = dispatch_timer timer (r_timers s)
         in Some (s\<lparr>r_timers := tm\<rparr>,
              Some (if is_small tm timer then Small_handler (timer_handler tm timer) timer
                    else Heavy_handler (timer_handler tm timer) (timer_user tm timer))))
     | None \<Rightarrow>
        if epoll_results_pos s < epoll_results_num s then Some (dispatch_fd s)
        else do { s \<leftarrow> wait_for_events K s; Some (s, None) })"

text \<open>\<open>hnd\<close> is what the handlers do with the reactor.\<close>

partial_function (option) BReactor_Exec :: "'k kernel_ops \<Rightarrow> (call \<Rightarrow> 'k BReactor \<Rightarrow> 'k BReactor) \<Rightarrow> 'k BReactor \<Rightarrow> ('k BReactor \<times> int) option" where
  "BReactor_Exec K hnd s =
    (if exiting s then Some (s, exit_code s)
     else do {
       (s, c) \<leftarrow> exec_round K s;
       BReactor_Exec K hnd (case c of None \<Rightarrow> s | Some c \<Rightarrow> hnd c s) })"

partial_function (option) BReactor_Synchronize :: "(call \<Rightarrow> 'k BReactor \<Rightarrow> 'k BReactor) \<Rightarrow> nat \<Rightarrow> 'k BReactor \<Rightarrow> ('k BReactor \<times> bool) option" where
  "BReactor_Synchronize hnd ref s =
    (if exiting s then Some (s, False)
     else let s = E_ASSERT (BPendingGroup_HasJobs (pending_jobs s)) s in
       if BPendingGroup_PeekJob (pending_jobs s) = Some ref then Some (s, True)
       else (case BPendingGroup_ExecuteJob (pending_jobs s) of
          (g, None) \<Rightarrow> Some (s, False)
        | (g, Some (p, h)) \<Rightarrow> BReactor_Synchronize hnd ref (hnd (Job_handler h p) (s\<lparr>pending_jobs := g\<rparr>))))"

section \<open>Operations of the clients\<close>

definition BReactor_Quit :: "int \<Rightarrow> 'k BReactor \<Rightarrow> 'k BReactor" where
  "BReactor_Quit code s = s\<lparr>exiting := True, exit_code := code\<rparr>"

definition reactor_set_timer :: "'k kernel_ops \<Rightarrow> nat \<Rightarrow> nat \<Rightarrow> int \<Rightarrow> 'k BReactor \<Rightarrow> 'k BReactor option" where
  "reactor_set_timer K bt mode time s =
    (case (if mode = BTIMER_SET_RELATIVE then get_time K s else (0, s)) of (now, s) \<Rightarrow>
       on_timers (BReactor_SetSmallTimer now bt mode time) s)"

definition BFileDescriptor_Init :: "nat \<Rightarrow> int \<Rightarrow> nat \<Rightarrow> nat \<Rightarrow> 'k BReactor \<Rightarrow> 'k BReactor" where
  "BFileDescriptor_Init bs fd handler user s = s\<lparr>fd_num := (fd_num s)(bs := fd), fd_handler := (fd_handler s)(bs := handler),
     fd_user := (fd_user s)(bs := user), fd_active := (fd_active s)(bs := False)\<rparr>"

definition BReactor_AddFileDescriptor :: "'k kernel_ops \<Rightarrow> nat \<Rightarrow> 'k BReactor \<Rightarrow> 'k BReactor \<times> bool" where
  "BReactor_AddFileDescriptor K bs s =
    (let s = E_ASSERT (\<not> fd_active s bs) s
     in case k_ctl K EPOLL_CTL_ADD (fd_num s bs) (0, Some bs) (r_kernel s) of (ok, k) \<Rightarrow>
       let s = s\<lparr>r_kernel := k\<rparr> in
       if \<not> ok then (s, False)
       else (let s = set_returned_ptr bs None s
             in (s\<lparr>fd_active := (fd_active s)(bs := True), waitEvents := (waitEvents s)(bs := 0)\<rparr>, True)))"

text \<open>Writing null into an entry of the results.\<close>

definition clear_result :: "nat \<Rightarrow> 'k BReactor \<Rightarrow> 'k BReactor" where
  "clear_result i s = s\<lparr>epoll_results := (epoll_results s)[i := (fst (epoll_results s ! i), None)]\<rparr>"

definition BReactor_RemoveFileDescriptor :: "'k kernel_ops \<Rightarrow> nat \<Rightarrow> 'k BReactor \<Rightarrow> 'k BReactor" where
  "BReactor_RemoveFileDescriptor K bs s =
    (let s = E_ASSERT (fd_active s bs) s;
         s = s\<lparr>fd_active := (fd_active s)(bs := False)\<rparr>
     in case k_ctl K EPOLL_CTL_DEL (fd_num s bs) (0, None) (r_kernel s) of (ok, k) \<Rightarrow>
       let s = E_ASSERT ok (s\<lparr>r_kernel := k\<rparr>) in
       case epoll_returned_ptr s bs of None \<Rightarrow> s | Some i \<Rightarrow> clear_result i s)"

definition BReactor_SetFileDescriptorEvents :: "'k kernel_ops \<Rightarrow> nat \<Rightarrow> 32 word \<Rightarrow> 'k BReactor \<Rightarrow> 'k BReactor" where
  "BReactor_SetFileDescriptorEvents K bs events s =
    (let s = E_ASSERT (fd_active s bs) s;
         s = E_ASSERT (events AND NOT (BREACTOR_READ OR BREACTOR_WRITE) = 0) s
     in if waitEvents s bs = events then s
        else let eevents = 0;
                 eevents = (if events AND BREACTOR_READ \<noteq> 0 then eevents OR EPOLLIN else eevents);
                 eevents = (if events AND BREACTOR_WRITE \<noteq> 0 then eevents OR EPOLLOUT else eevents)
             in case k_ctl K EPOLL_CTL_MOD (fd_num s bs) (eevents, Some bs) (r_kernel s) of (ok, k) \<Rightarrow>
               (let s = E_ASSERT ok (s\<lparr>r_kernel := k\<rparr>)
                in s\<lparr>waitEvents := (waitEvents s)(bs := events)\<rparr>))"

definition BReactorLimit_Init :: "nat \<Rightarrow> int \<Rightarrow> 'k BReactor \<Rightarrow> 'k BReactor" where
  "BReactorLimit_Init x limit s =
    (let s = E_ASSERT (limit > 0) s
     in s\<lparr>limit_max := (limit_max s)(x := limit), limit_count := (limit_count s)(x := 0)\<rparr>)"

definition BReactorLimit_Free :: "nat \<Rightarrow> 'k BReactor \<Rightarrow> 'k BReactor" where
  "BReactorLimit_Free x s =
    (if limit_count s x > 0 then s\<lparr>active_limits_list := LinkedList1_Remove x (active_limits_list s)\<rparr> else s)"

definition BReactorLimit_Increment :: "nat \<Rightarrow> 'k BReactor \<Rightarrow> 'k BReactor \<times> bool" where
  "BReactorLimit_Increment x s =
    (if limit_count s x \<ge> limit_max s x then (s, False)
     else let s = s\<lparr>limit_count := (limit_count s)(x := limit_count s x + 1)\<rparr>
          in (if limit_count s x = 1 then s\<lparr>active_limits_list := LinkedList1_Append x (active_limits_list s)\<rparr> else s, True))"

definition BReactorLimit_SetLimit :: "nat \<Rightarrow> int \<Rightarrow> 'k BReactor \<Rightarrow> 'k BReactor" where
  "BReactorLimit_SetLimit x limit s =
    (let s = E_ASSERT (limit > 0) s in s\<lparr>limit_max := (limit_max s)(x := limit)\<rparr>)"

text \<open>
  \<open>BReactor_Init\<close> on uninitialised memory; \<open>efd\<close> is what \<open>epoll_create\<close> gives, the state of a kernel with
  an empty epoll instance, if it succeeds. \<open>BReactor_Free\<close> asserts that nothing is left and that
  closing the epoll instance (\<open>close_ok\<close>) succeeds.
\<close>

definition BReactor_Init :: "'k option \<Rightarrow> 'k BReactor \<Rightarrow> 'k BReactor option" where
  "BReactor_Init efd s =
    (let s = s\<lparr>exiting := False, pending_jobs := BPendingGroup_Init (pending_jobs s), r_timers := timers_Init (r_timers s),
          active_limits_list := LinkedList1_Init (active_limits_list s)\<rparr>
     in case efd of None \<Rightarrow> None | Some k \<Rightarrow> Some (s\<lparr>r_kernel := k, epoll_results_num := 0, epoll_results_pos := 0\<rparr>))"

definition BReactor_Free :: "bool \<Rightarrow> 'k BReactor \<Rightarrow> 'k BReactor" where
  "BReactor_Free close_ok s =
    (let s = E_ASSERT (\<not> BPendingGroup_HasJobs (pending_jobs s)) s;
         s = E_ASSERT (CAvl_IsEmpty (timers_tree (r_timers s))) s;
         s = E_ASSERT (LinkedList1_IsEmpty (timers_expired_list (r_timers s))) s;
         s = E_ASSERT (LinkedList1_IsEmpty (active_limits_list s)) s
     in E_ASSERT close_ok s)"

section \<open>What the code relies on\<close>

text \<open>
  The documented behaviour of the system calls. \<open>watched k\<close> are the descriptors of the epoll instance with their user
  pointers and \<open>clock k\<close> is the time. A descriptor that is watched is not added again, and can be changed and deleted;
  a wait with a timeout returns; it returns at most as many events as asked for, for different watched descriptors, none only
  if the timeout has passed, and fails only when interrupted; the clock does not go back.
\<close>

definition ctl_ok :: "'k kernel_ops \<Rightarrow> ('k \<Rightarrow> int \<Rightarrow> nat option) \<Rightarrow> ('k \<Rightarrow> int) \<Rightarrow> bool" where
  "ctl_ok K watched clock \<longleftrightarrow> (\<forall>op fd ev k ok k'. k_ctl K op fd ev k = (ok, k') \<longrightarrow> clock k \<le> clock k' \<and>
     (case op of
        EPOLL_CTL_ADD \<Rightarrow> if ok then watched k fd = None \<and> watched k' = (watched k)(fd := snd ev) else watched k' = watched k
      | EPOLL_CTL_MOD \<Rightarrow> watched k fd \<noteq> None \<longrightarrow> ok \<and> watched k' = (watched k)(fd := snd ev)
      | EPOLL_CTL_DEL \<Rightarrow> watched k fd \<noteq> None \<longrightarrow> ok \<and> watched k' = (watched k)(fd := None)))"

definition wait_ok :: "'k kernel_ops \<Rightarrow> ('k \<Rightarrow> int \<Rightarrow> nat option) \<Rightarrow> ('k \<Rightarrow> int) \<Rightarrow> bool" where
  "wait_ok K watched clock \<longleftrightarrow> (\<forall>t k. 0 \<le> t \<longrightarrow> k_wait K t k \<noteq> None) \<and> (\<forall>t k ans k'. k_wait K t k = Some (ans, k') \<longrightarrow> clock k \<le> clock k' \<and> watched k' = watched k \<and>
     (case ans of
        EP_Error eintr \<Rightarrow> eintr
      | EP_Events evs \<Rightarrow> length evs \<le> BSYSTEM_MAX_RESULTS \<and> distinct (map snd evs)
          \<and> (\<forall>b\<in>set (map snd evs). \<exists>fd. watched k fd = Some b)
          \<and> (evs = [] \<longrightarrow> 0 \<le> t \<and> clock k + t \<le> clock k')))"

definition time_ok :: "'k kernel_ops \<Rightarrow> ('k \<Rightarrow> int \<Rightarrow> nat option) \<Rightarrow> ('k \<Rightarrow> int) \<Rightarrow> bool" where
  "time_ok K watched clock \<longleftrightarrow> (\<forall>k now k'. k_time K k = (now, k') \<longrightarrow>
     now = clock k' \<and> clock k \<le> clock k' \<and> watched k' = watched k)"

definition kernel_ok :: "'k kernel_ops \<Rightarrow> ('k \<Rightarrow> int \<Rightarrow> nat option) \<Rightarrow> ('k \<Rightarrow> int) \<Rightarrow> bool" where
  "kernel_ok K watched clock \<longleftrightarrow> ctl_ok K watched clock \<and> wait_ok K watched clock \<and> time_ok K watched clock"

text \<open>The objects the clients have initialised and not freed.\<close>

record live =
  live_jobs :: "nat set"
  live_timers :: "nat set"
  live_fds :: "nat set"
  live_limits :: "nat set"

text \<open>
  What clients may do, as the header documents it: initialise objects, use initialised ones in the state the operation
  requires, free what is not in use, and make other system calls, which do not touch the epoll instance.
\<close>

inductive client_step :: "'k kernel_ops \<Rightarrow> ('k \<Rightarrow> int \<Rightarrow> nat option) \<Rightarrow> ('k \<Rightarrow> int) \<Rightarrow> live \<times> 'k BReactor \<Rightarrow> live \<times> 'k BReactor \<Rightarrow> bool"
  for K watched clock where
  job_init: "p \<notin> live_jobs l \<Longrightarrow> client_step K watched clock (l, s)
    (l\<lparr>live_jobs := insert p (live_jobs l)\<rparr>, s\<lparr>pending_jobs := BSmallPending_Init p h (pending_jobs s)\<rparr>)"
| job_free: "p \<in> live_jobs l \<Longrightarrow> client_step K watched clock (l, s)
    (l\<lparr>live_jobs := live_jobs l - {p}\<rparr>, s\<lparr>pending_jobs := BSmallPending_Free p (pending_jobs s)\<rparr>)"
| job_set: "p \<in> live_jobs l \<Longrightarrow> client_step K watched clock (l, s) (l, s\<lparr>pending_jobs := BSmallPending_Set p (pending_jobs s)\<rparr>)"
| job_unset: "p \<in> live_jobs l \<Longrightarrow> client_step K watched clock (l, s) (l, s\<lparr>pending_jobs := BSmallPending_Unset p (pending_jobs s)\<rparr>)"
| timer_init: "t \<notin> live_timers l \<Longrightarrow> tm = BSmallTimer_Init t h (r_timers s) \<or> tm = BTimer_Init t ms h u (r_timers s) \<Longrightarrow>
    client_step K watched clock (l, s) (l\<lparr>live_timers := insert t (live_timers l)\<rparr>, s\<lparr>r_timers := tm\<rparr>)"
| timer_forget: "t \<in> live_timers l \<Longrightarrow> \<not> snd (BSmallTimer_IsRunning t (r_timers s)) \<Longrightarrow>
    client_step K watched clock (l, s) (l\<lparr>live_timers := live_timers l - {t}\<rparr>, s)"
| timer_set: "t \<in> live_timers l \<Longrightarrow> mode = BTIMER_SET_ABSOLUTE \<or> mode = BTIMER_SET_RELATIVE \<Longrightarrow> reactor_set_timer K t mode time s = Some s' \<Longrightarrow>
    client_step K watched clock (l, s) (l, s')"
| timer_remove: "t \<in> live_timers l \<Longrightarrow> on_timers (BReactor_RemoveSmallTimer t) s = Some s' \<Longrightarrow> client_step K watched clock (l, s) (l, s')"
| fd_init: "b \<notin> live_fds l \<Longrightarrow> client_step K watched clock (l, s) (l\<lparr>live_fds := insert b (live_fds l)\<rparr>, BFileDescriptor_Init b fd h u s)"
| fd_forget: "b \<in> live_fds l \<Longrightarrow> \<not> fd_active s b \<Longrightarrow> client_step K watched clock (l, s) (l\<lparr>live_fds := live_fds l - {b}\<rparr>, s)"
| fd_add: "b \<in> live_fds l \<Longrightarrow> \<not> fd_active s b \<Longrightarrow> client_step K watched clock (l, s) (l, fst (BReactor_AddFileDescriptor K b s))"
| fd_remove: "b \<in> live_fds l \<Longrightarrow> fd_active s b \<Longrightarrow> client_step K watched clock (l, s) (l, BReactor_RemoveFileDescriptor K b s)"
| fd_set: "b \<in> live_fds l \<Longrightarrow> fd_active s b \<Longrightarrow> events AND NOT (BREACTOR_READ OR BREACTOR_WRITE) = 0 \<Longrightarrow>
    client_step K watched clock (l, s) (l, BReactor_SetFileDescriptorEvents K b events s)"
| limit_init: "x \<notin> live_limits l \<Longrightarrow> limit > 0 \<Longrightarrow>
    client_step K watched clock (l, s) (l\<lparr>live_limits := insert x (live_limits l)\<rparr>, BReactorLimit_Init x limit s)"
| limit_free: "x \<in> live_limits l \<Longrightarrow> client_step K watched clock (l, s) (l\<lparr>live_limits := live_limits l - {x}\<rparr>, BReactorLimit_Free x s)"
| limit_increment: "x \<in> live_limits l \<Longrightarrow> client_step K watched clock (l, s) (l, fst (BReactorLimit_Increment x s))"
| limit_set: "x \<in> live_limits l \<Longrightarrow> limit > 0 \<Longrightarrow> client_step K watched clock (l, s) (l, BReactorLimit_SetLimit x limit s)"
| quit: "client_step K watched clock (l, s) (l, BReactor_Quit code s)"
| system: "watched k' = watched (r_kernel s) \<Longrightarrow> clock (r_kernel s) \<le> clock k' \<Longrightarrow> client_step K watched clock (l, s) (l, s\<lparr>r_kernel := k'\<rparr>)"

inductive reactor_step :: "'k kernel_ops \<Rightarrow> ('k \<Rightarrow> int \<Rightarrow> nat option) \<Rightarrow> ('k \<Rightarrow> int) \<Rightarrow> live \<times> 'k BReactor \<Rightarrow> live \<times> 'k BReactor \<Rightarrow> bool"
  for K watched clock where
  client: "client_step K watched clock w w' \<Longrightarrow> reactor_step K watched clock w w'"
| round: "\<not> exiting s \<Longrightarrow> exec_round K s = Some (s', c) \<Longrightarrow> reactor_step K watched clock (l, s) (l, s')"

definition reactor_start :: "('k \<Rightarrow> int \<Rightarrow> nat option) \<Rightarrow> live \<times> 'k BReactor \<Rightarrow> bool" where
  "reactor_start watched w \<longleftrightarrow> fst w = \<lparr>live_jobs = {}, live_timers = {}, live_fds = {}, live_limits = {}\<rparr>
     \<and> (\<exists>k s. BReactor_Init (Some k) s = Some (snd w) \<and> watched k = (\<lambda>_. None) \<and> \<not> r_fault s
          \<and> \<not> timers_fault (r_timers s) \<and> \<not> avl_fault (timers_tree (r_timers s)))"

section \<open>The invariant\<close>

definition jobs_ok :: "live \<Rightarrow> 'k BReactor \<Rightarrow> bool" where
  "jobs_ok l s \<longleftrightarrow> (\<exists>xs. job_stack (live_jobs l) (pending_jobs s) xs)"

text \<open>Expired timers are dispatched in the order of their deadlines, which have passed.\<close>

definition expired_ok :: "int \<Rightarrow> timers \<Rightarrow> nat list \<Rightarrow> bool" where
  "expired_ok now tm es \<longleftrightarrow> ascending (compare_timers tm) es \<and> (\<forall>t\<in>set es. absTime tm t \<le> now)"

definition timers_ok :: "('k \<Rightarrow> int) \<Rightarrow> live \<Rightarrow> 'k BReactor \<Rightarrow> bool" where
  "timers_ok clock l s \<longleftrightarrow> (\<exists>rs es. timers_rep (live_timers l) (r_timers s) rs es \<and> expired_ok (clock (r_kernel s)) (r_timers s) es)"

definition limits_ok :: "live \<Rightarrow> 'k BReactor \<Rightarrow> bool" where
  "limits_ok l s \<longleftrightarrow> (\<exists>xs. list_rep (active_limits_list s) xs \<and> set xs = {x \<in> live_limits l. limit_count s x > 0})
     \<and> (\<forall>x\<in>live_limits l. limit_max s x > 0 \<and> limit_count s x \<ge> 0)"

text \<open>The watched descriptors are the active ones, and each entry still to be dispatched is linked both ways with its descriptor.\<close>

definition fds_ok :: "('k \<Rightarrow> int \<Rightarrow> nat option) \<Rightarrow> live \<Rightarrow> 'k BReactor \<Rightarrow> bool" where
  "fds_ok watched l s \<longleftrightarrow>
     (\<forall>fd b. watched (r_kernel s) fd = Some b \<longleftrightarrow> b \<in> live_fds l \<and> fd_active s b \<and> fd_num s b = fd)
     \<and> epoll_results_pos s \<le> epoll_results_num s \<and> epoll_results_num s \<le> length (epoll_results s)
     \<and> (\<forall>i b. epoll_results_pos s \<le> i \<and> i < epoll_results_num s \<and> snd (epoll_results s ! i) = Some b
          \<longleftrightarrow> b \<in> live_fds l \<and> fd_active s b \<and> epoll_returned_ptr s b = Some i)"

definition rinv :: "('k \<Rightarrow> int \<Rightarrow> nat option) \<Rightarrow> ('k \<Rightarrow> int) \<Rightarrow> live \<times> 'k BReactor \<Rightarrow> bool" where
  "rinv watched clock = (\<lambda>(l, s). jobs_ok l s \<and> timers_ok clock l s \<and> limits_ok l s \<and> fds_ok watched l s \<and> \<not> r_fault s)"

lemmas ok_defs = jobs_ok_def timers_ok_def limits_ok_def fds_ok_def

lemma E_ASSERT_True [simp]: "b \<Longrightarrow> E_ASSERT b s = s"
  by (simp add: E_ASSERT_def)

text \<open>Each part of the invariant depends on its own fields only.\<close>

lemma ok_other [simp]:
  "timers_ok clock l (s\<lparr>pending_jobs := g\<rparr>) = timers_ok clock l s" "limits_ok l (s\<lparr>pending_jobs := g\<rparr>) = limits_ok l s"
  "fds_ok watched l (s\<lparr>pending_jobs := g\<rparr>) = fds_ok watched l s"
  "jobs_ok l (s\<lparr>r_timers := tm\<rparr>) = jobs_ok l s" "limits_ok l (s\<lparr>r_timers := tm\<rparr>) = limits_ok l s"
  "fds_ok watched l (s\<lparr>r_timers := tm\<rparr>) = fds_ok watched l s"
  "jobs_ok l (s\<lparr>active_limits_list := a\<rparr>) = jobs_ok l s" "timers_ok clock l (s\<lparr>active_limits_list := a\<rparr>) = timers_ok clock l s"
  "fds_ok watched l (s\<lparr>active_limits_list := a\<rparr>) = fds_ok watched l s"
  "jobs_ok l (s\<lparr>limit_max := m\<rparr>) = jobs_ok l s" "timers_ok clock l (s\<lparr>limit_max := m\<rparr>) = timers_ok clock l s"
  "fds_ok watched l (s\<lparr>limit_max := m\<rparr>) = fds_ok watched l s"
  "jobs_ok l (s\<lparr>limit_count := m\<rparr>) = jobs_ok l s" "timers_ok clock l (s\<lparr>limit_count := m\<rparr>) = timers_ok clock l s"
  "fds_ok watched l (s\<lparr>limit_count := m\<rparr>) = fds_ok watched l s"
  by (simp_all add: ok_defs)

lemma ok_live [simp]:
  "timers_ok clock (l\<lparr>live_jobs := S\<rparr>) s = timers_ok clock l s" "limits_ok (l\<lparr>live_jobs := S\<rparr>) s = limits_ok l s"
  "fds_ok watched (l\<lparr>live_jobs := S\<rparr>) s = fds_ok watched l s"
  "jobs_ok (l\<lparr>live_timers := S\<rparr>) s = jobs_ok l s" "limits_ok (l\<lparr>live_timers := S\<rparr>) s = limits_ok l s"
  "fds_ok watched (l\<lparr>live_timers := S\<rparr>) s = fds_ok watched l s"
  "jobs_ok (l\<lparr>live_fds := S\<rparr>) s = jobs_ok l s" "limits_ok (l\<lparr>live_fds := S\<rparr>) s = limits_ok l s"
  "timers_ok clock (l\<lparr>live_fds := S\<rparr>) s = timers_ok clock l s"
  "jobs_ok (l\<lparr>live_limits := S\<rparr>) s = jobs_ok l s" "timers_ok clock (l\<lparr>live_limits := S\<rparr>) s = timers_ok clock l s"
  "fds_ok watched (l\<lparr>live_limits := S\<rparr>) s = fds_ok watched l s"
  by (simp_all add: ok_defs)

text \<open>Operations on file descriptors leave the other parts alone.\<close>

definition same_others :: "'k BReactor \<Rightarrow> 'k BReactor \<Rightarrow> bool" where
  "same_others s s' \<longleftrightarrow> pending_jobs s' = pending_jobs s \<and> r_timers s' = r_timers s \<and> active_limits_list s' = active_limits_list s
     \<and> limit_max s' = limit_max s \<and> limit_count s' = limit_count s"

lemma expired_ok_later: "expired_ok now tm es \<Longrightarrow> now \<le> now' \<Longrightarrow> expired_ok now' tm es"
  by (auto simp: expired_ok_def)

lemma same_others_inv:
  assumes "rinv watched clock (l, s)" and "same_others s s'" and "clock (r_kernel s) \<le> clock (r_kernel s')"
    and "fds_ok watched l' s'" and "\<not> r_fault s'" and "l' = l\<lparr>live_fds := S\<rparr>"
  shows "rinv watched clock (l', s')"
  using assms expired_ok_later unfolding rinv_def same_others_def jobs_ok_def timers_ok_def limits_ok_def
  by (auto 5 3)

subsection \<open>Clients\<close>

lemma inv_jobs:
  assumes "rinv watched clock (l, s)" and "job_stack J g xs"
  shows "rinv watched clock (l\<lparr>live_jobs := J\<rparr>, s\<lparr>pending_jobs := g\<rparr>)"
  using assms by (auto simp: rinv_def jobs_ok_def)

lemma inv_timers:
  assumes "rinv watched clock (l, s)" and "timers_rep T tm rs es" and "expired_ok (clock (r_kernel s)) tm es"
  shows "rinv watched clock (l\<lparr>live_timers := T\<rparr>, s\<lparr>r_timers := tm\<rparr>)"
  using assms by (auto simp: rinv_def timers_ok_def)

lemma inv_limits:
  assumes "rinv watched clock (l, s)" and "limits_ok (l\<lparr>live_limits := L\<rparr>) (s\<lparr>active_limits_list := a, limit_max := m, limit_count := c\<rparr>)"
  shows "rinv watched clock (l\<lparr>live_limits := L\<rparr>, s\<lparr>active_limits_list := a, limit_max := m, limit_count := c\<rparr>)"
  using assms by (auto simp: rinv_def)

lemma inv_kernel:
  assumes "rinv watched clock (l, s)" and "watched k = watched (r_kernel s)" and "clock (r_kernel s) \<le> clock k"
  shows "rinv watched clock (l, s\<lparr>r_kernel := k\<rparr>)"
proof (rule same_others_inv [OF assms(1), where S = "live_fds l"])
  show "fds_ok watched l (s\<lparr>r_kernel := k\<rparr>)" using assms(1,2) by (simp add: rinv_def fds_ok_def)
qed (use assms in \<open>simp_all add: same_others_def rinv_def\<close>)

lemma kernel_okD:
  assumes "kernel_ok K watched clock"
  shows "k_ctl K op fd ev k = (ok, k') \<Longrightarrow> clock k \<le> clock k'"
    and "k_ctl K EPOLL_CTL_ADD fd ev k = (True, k') \<Longrightarrow> watched k fd = None \<and> watched k' = (watched k)(fd := snd ev)"
    and "k_ctl K EPOLL_CTL_ADD fd ev k = (False, k') \<Longrightarrow> watched k' = watched k"
    and "k_ctl K EPOLL_CTL_MOD fd ev k = (ok, k') \<Longrightarrow> watched k fd \<noteq> None \<Longrightarrow> ok \<and> watched k' = (watched k)(fd := snd ev)"
    and "k_ctl K EPOLL_CTL_DEL fd ev k = (ok, k') \<Longrightarrow> watched k fd \<noteq> None \<Longrightarrow> ok \<and> watched k' = (watched k)(fd := None)"
    and "k_time K k = (now, k') \<Longrightarrow> now = clock k' \<and> clock k \<le> clock k' \<and> watched k' = watched k"
    and "k_wait K t k = Some (ans, k') \<Longrightarrow> clock k \<le> clock k' \<and> watched k' = watched k"
    and "k_wait K t k = Some (EP_Error e, k') \<Longrightarrow> e"
    and "k_wait K t k = Some (EP_Events evs, k') \<Longrightarrow> length evs \<le> BSYSTEM_MAX_RESULTS \<and> distinct (map snd evs)
          \<and> (\<forall>b\<in>set (map snd evs). \<exists>fd. watched k fd = Some b) \<and> (evs = [] \<longrightarrow> 0 \<le> t \<and> clock k + t \<le> clock k')"
    and "0 \<le> t \<Longrightarrow> k_wait K t k \<noteq> None"
proof -
  have c: "ctl_ok K watched clock" and w: "wait_ok K watched clock" and t: "time_ok K watched clock" using assms by (auto simp: kernel_ok_def)
  show "k_ctl K op fd ev k = (ok, k') \<Longrightarrow> clock k \<le> clock k'" using c unfolding ctl_ok_def by blast
  show "k_ctl K EPOLL_CTL_ADD fd ev k = (True, k') \<Longrightarrow> watched k fd = None \<and> watched k' = (watched k)(fd := snd ev)"
    "k_ctl K EPOLL_CTL_ADD fd ev k = (False, k') \<Longrightarrow> watched k' = watched k"
    using c [unfolded ctl_ok_def, rule_format, of EPOLL_CTL_ADD fd ev k True k'] c [unfolded ctl_ok_def, rule_format, of EPOLL_CTL_ADD fd ev k False k'] by auto
  show "k_ctl K EPOLL_CTL_MOD fd ev k = (ok, k') \<Longrightarrow> watched k fd \<noteq> None \<Longrightarrow> ok \<and> watched k' = (watched k)(fd := snd ev)"
    using c [unfolded ctl_ok_def, rule_format, of EPOLL_CTL_MOD fd ev k ok k'] by auto
  show "k_ctl K EPOLL_CTL_DEL fd ev k = (ok, k') \<Longrightarrow> watched k fd \<noteq> None \<Longrightarrow> ok \<and> watched k' = (watched k)(fd := None)"
    using c [unfolded ctl_ok_def, rule_format, of EPOLL_CTL_DEL fd ev k ok k'] by auto
  show "k_time K k = (now, k') \<Longrightarrow> now = clock k' \<and> clock k \<le> clock k' \<and> watched k' = watched k" using t by (auto simp: time_ok_def)
  show "k_wait K t k = Some (ans, k') \<Longrightarrow> clock k \<le> clock k' \<and> watched k' = watched k" using w by (auto simp: wait_ok_def)
  show "k_wait K t k = Some (EP_Error e, k') \<Longrightarrow> e" using w [unfolded wait_ok_def, THEN conjunct2, rule_format, of t k "EP_Error e" k'] by simp
  show "k_wait K t k = Some (EP_Events evs, k') \<Longrightarrow> length evs \<le> BSYSTEM_MAX_RESULTS \<and> distinct (map snd evs)
          \<and> (\<forall>b\<in>set (map snd evs). \<exists>fd. watched k fd = Some b) \<and> (evs = [] \<longrightarrow> 0 \<le> t \<and> clock k + t \<le> clock k')"
    using w [unfolded wait_ok_def, THEN conjunct2, rule_format, of t k "EP_Events evs" k'] by simp
  show "0 \<le> t \<Longrightarrow> k_wait K t k \<noteq> None" using w unfolding wait_ok_def by blast
qed

lemma get_time_ok:
  assumes K: "kernel_ok K watched clock" and s: "get_time K s = (now, s')"
  shows "s' = s\<lparr>r_kernel := r_kernel s'\<rparr>" and "now = clock (r_kernel s')" and "clock (r_kernel s) \<le> clock (r_kernel s')"
    and "watched (r_kernel s') = watched (r_kernel s)" and "rinv watched clock (l, s) \<Longrightarrow> rinv watched clock (l, s')"
proof -
  obtain k where k: "k_time K (r_kernel s) = (now, k)" "s' = s\<lparr>r_kernel := k\<rparr>" using s by (auto simp: get_time_def split: prod.splits)
  note t = kernel_okD(6) [OF K k(1)]
  show "s' = s\<lparr>r_kernel := r_kernel s'\<rparr>" "now = clock (r_kernel s')" "clock (r_kernel s) \<le> clock (r_kernel s')"
    "watched (r_kernel s') = watched (r_kernel s)" using t k(2) by simp_all
  show "rinv watched clock (l, s) \<Longrightarrow> rinv watched clock (l, s')" using inv_kernel [of watched clock l s k] t k(2) by simp
qed

lemma fds_okD:
  assumes "fds_ok watched l s"
  shows "watched (r_kernel s) fd = Some b \<longleftrightarrow> b \<in> live_fds l \<and> fd_active s b \<and> fd_num s b = fd"
    and "epoll_results_pos s \<le> epoll_results_num s" and "epoll_results_num s \<le> length (epoll_results s)"
    and "epoll_results_pos s \<le> i \<and> i < epoll_results_num s \<and> snd (epoll_results s ! i) = Some b
      \<longleftrightarrow> b \<in> live_fds l \<and> fd_active s b \<and> epoll_returned_ptr s b = Some i"
  using assms unfolding fds_ok_def by blast+

lemma inv_fd_init:
  assumes r: "rinv watched clock (l, s)" and b: "b \<notin> live_fds l"
  shows "rinv watched clock (l\<lparr>live_fds := insert b (live_fds l)\<rparr>, BFileDescriptor_Init b fd h u s)"
proof (rule same_others_inv [OF r])
  have f: "fds_ok watched l s" using r by (simp add: rinv_def)
  note d = fds_okD [OF f]
  show "fds_ok watched (l\<lparr>live_fds := insert b (live_fds l)\<rparr>) (BFileDescriptor_Init b fd h u s)"
    unfolding fds_ok_def BFileDescriptor_Init_def using b d by (auto split: if_splits)
qed (use r in \<open>simp_all add: rinv_def same_others_def BFileDescriptor_Init_def\<close>)

lemma inv_fd_forget:
  assumes r: "rinv watched clock (l, s)" and b: "\<not> fd_active s b"
  shows "rinv watched clock (l\<lparr>live_fds := live_fds l - {b}\<rparr>, s)"
proof (rule same_others_inv [OF r])
  have f: "fds_ok watched l s" using r by (simp add: rinv_def)
  note d = fds_okD [OF f]
  show "fds_ok watched (l\<lparr>live_fds := live_fds l - {b}\<rparr>) s" unfolding fds_ok_def using b d by auto
qed (use r in \<open>simp_all add: rinv_def same_others_def\<close>)

lemma inv_fd_add:
  assumes K: "kernel_ok K watched clock" and r: "rinv watched clock (l, s)" and b: "b \<in> live_fds l" "\<not> fd_active s b"
  shows "rinv watched clock (l, fst (BReactor_AddFileDescriptor K b s))"
proof -
  have f: "fds_ok watched l s" using r by (simp add: rinv_def)
  note d = fds_okD [OF f]
  obtain ok k where k: "k_ctl K EPOLL_CTL_ADD (fd_num s b) (0, Some b) (r_kernel s) = (ok, k)" by fastforce
  have c: "clock (r_kernel s) \<le> clock k" using kernel_okD(1) [OF K k] .
  show ?thesis
  proof (cases ok)
    case False
    then have "watched k = watched (r_kernel s)" using kernel_okD(3) [OF K] k by simp
    with False show ?thesis using inv_kernel [OF r _ c] b(2) k by (simp add: BReactor_AddFileDescriptor_def Let_def)
  next
    case True
    then have w: "watched (r_kernel s) (fd_num s b) = None" "watched k = (watched (r_kernel s))(fd_num s b := Some b)"
      using kernel_okD(2) [OF K] k by auto
    have u: "fd_num s c \<noteq> fd_num s b" if "c \<in> live_fds l" "fd_active s c" for c using d(1) [of "fd_num s b" c] w(1) that by auto
    let ?s = "fst (BReactor_AddFileDescriptor K b s)"
    have e: "?s = set_returned_ptr b None (s\<lparr>r_kernel := k\<rparr>)\<lparr>fd_active := (fd_active s)(b := True), waitEvents := (waitEvents s)(b := 0)\<rparr>"
      using b(2) k True by (simp add: BReactor_AddFileDescriptor_def Let_def set_returned_ptr_def)
    show ?thesis
    proof (rule same_others_inv [OF r, where S = "live_fds l"])
      show "fds_ok watched l ?s" unfolding e fds_ok_def set_returned_ptr_def using b d w u by (auto split: if_splits)
    qed (use r c in \<open>simp_all add: e rinv_def same_others_def set_returned_ptr_def\<close>)
  qed
qed

lemma inv_fd_remove:
  assumes K: "kernel_ok K watched clock" and r: "rinv watched clock (l, s)" and b: "b \<in> live_fds l" "fd_active s b"
  shows "rinv watched clock (l, BReactor_RemoveFileDescriptor K b s)"
proof -
  have f: "fds_ok watched l s" using r by (simp add: rinv_def)
  note d = fds_okD [OF f]
  obtain ok k where k: "k_ctl K EPOLL_CTL_DEL (fd_num s b) (0, None) (r_kernel s) = (ok, k)" by fastforce
  have w0: "watched (r_kernel s) (fd_num s b) = Some b" using d(1) b by blast
  then have w: "ok" "watched k = (watched (r_kernel s))(fd_num s b := None)" using kernel_okD(5) [OF K k] by auto
  have u: "c = b" if "c \<in> live_fds l" "fd_active s c" "fd_num s c = fd_num s b" for c using d(1) [of "fd_num s b" c] w0 that by (metis option.inject)
  let ?s = "BReactor_RemoveFileDescriptor K b s" and ?t = "s\<lparr>fd_active := (fd_active s)(b := False), r_kernel := k\<rparr>"
  have e: "?s = (case epoll_returned_ptr s b of None \<Rightarrow> ?t | Some i \<Rightarrow> clear_result i ?t)"
    using b(2) k w(1) by (simp add: BReactor_RemoveFileDescriptor_def Let_def split: option.split)
  show ?thesis
  proof (rule same_others_inv [OF r, where S = "live_fds l"])
    show "fds_ok watched l ?s"
    proof (cases "epoll_returned_ptr s b")
      case None
      then show ?thesis unfolding e fds_ok_def using b d w u by (auto split: if_splits)
    next
      case (Some i)
      then have i: "epoll_results_pos s \<le> i" "i < epoll_results_num s" using d(4) b by blast+
      have n: "snd ((epoll_results s)[i := (fst (epoll_results s ! i), None)] ! j) = Some c \<longleftrightarrow> j \<noteq> i \<and> snd (epoll_results s ! j) = Some c" for j c
        using i d(3) by (cases "j = i") auto
      have m: "c = b \<longleftrightarrow> j = i" if "epoll_results_pos s \<le> j" "j < epoll_results_num s" "snd (epoll_results s ! j) = Some c" for j c
        using d(4) [of j c] d(4) [of i b] that b Some by auto
      have m': "c = b" if "c \<in> live_fds l" "fd_active s c" "epoll_returned_ptr s c = Some i" for c
        using d(4) [of i c] d(4) [of i b] that b Some by auto
      have s: "?s = ?t\<lparr>epoll_results := (epoll_results s)[i := (fst (epoll_results s ! i), None)]\<rparr>"
        unfolding e by (simp add: Some clear_result_def)
      have "watched k fd = Some c \<longleftrightarrow> c \<in> live_fds l \<and> ((fd_active s)(b := False)) c \<and> fd_num s c = fd" for fd c
        using d(1) [of fd c] u [of c] w0 unfolding w(2) by (cases "fd = fd_num s b") auto
      moreover have "epoll_results_pos s \<le> j \<and> j < epoll_results_num s \<and> j \<noteq> i \<and> snd (epoll_results s ! j) = Some c
          \<longleftrightarrow> c \<in> live_fds l \<and> ((fd_active s)(b := False)) c \<and> epoll_returned_ptr s c = Some j" for j c
        using d(4) [of j c] m [of j c] m' [of c] Some by auto
      ultimately show ?thesis unfolding s fds_ok_def using d(2,3) n by simp
    qed
  qed (use r kernel_okD(1) [OF K k] in \<open>auto simp: e rinv_def same_others_def clear_result_def split: option.splits\<close>)
qed

lemma inv_fd_set:
  assumes K: "kernel_ok K watched clock" and r: "rinv watched clock (l, s)" and b: "b \<in> live_fds l" "fd_active s b"
    and ev: "events AND NOT (BREACTOR_READ OR BREACTOR_WRITE) = 0"
  shows "rinv watched clock (l, BReactor_SetFileDescriptorEvents K b events s)"
proof (cases "waitEvents s b = events")
  case True
  then show ?thesis using r b ev by (simp add: BReactor_SetFileDescriptorEvents_def)
next
  case False
  have f: "fds_ok watched l s" using r by (simp add: rinv_def)
  note d = fds_okD [OF f]
  define ee where "ee = (if events AND BREACTOR_WRITE \<noteq> 0 then (if events AND BREACTOR_READ \<noteq> 0 then 0 OR EPOLLIN else 0) OR EPOLLOUT
     else (if events AND BREACTOR_READ \<noteq> 0 then 0 OR EPOLLIN else 0))"
  obtain ok k where k: "k_ctl K EPOLL_CTL_MOD (fd_num s b) (ee, Some b) (r_kernel s) = (ok, k)" by fastforce
  have w0: "watched (r_kernel s) (fd_num s b) = Some b" using d(1) b by blast
  then have w: "ok" "watched k = watched (r_kernel s)" using kernel_okD(4) [OF K k] by auto
  have "BReactor_SetFileDescriptorEvents K b events s = s\<lparr>r_kernel := k, waitEvents := (waitEvents s)(b := events)\<rparr>"
    using b(2) k w(1) False ev unfolding ee_def by (simp add: BReactor_SetFileDescriptorEvents_def Let_def split del: if_split)
  moreover have "rinv watched clock (l, s\<lparr>r_kernel := k\<rparr>)" using inv_kernel [OF r w(2) kernel_okD(1) [OF K k]] .
  ultimately show ?thesis unfolding rinv_def ok_defs by simp
qed

lemma limits_okD:
  assumes "limits_ok l s"
  obtains xs where "list_rep (active_limits_list s) xs" "set xs = {x \<in> live_limits l. limit_count s x > 0}"
    "\<And>x. x \<in> live_limits l \<Longrightarrow> limit_max s x > 0 \<and> limit_count s x \<ge> 0"
  using assms unfolding limits_ok_def by blast

lemma inv_limit_ops:
  assumes r: "rinv watched clock (l, s)"
  shows "x \<notin> live_limits l \<Longrightarrow> limit > 0 \<Longrightarrow> rinv watched clock (l\<lparr>live_limits := insert x (live_limits l)\<rparr>, BReactorLimit_Init x limit s)"
    and "x \<in> live_limits l \<Longrightarrow> rinv watched clock (l\<lparr>live_limits := live_limits l - {x}\<rparr>, BReactorLimit_Free x s)"
    and "x \<in> live_limits l \<Longrightarrow> rinv watched clock (l, fst (BReactorLimit_Increment x s))"
    and "x \<in> live_limits l \<Longrightarrow> limit > 0 \<Longrightarrow> rinv watched clock (l, BReactorLimit_SetLimit x limit s)"
proof -
  obtain xs where xs: "list_rep (active_limits_list s) xs" "set xs = {x \<in> live_limits l. limit_count s x > 0}"
    "\<And>x. x \<in> live_limits l \<Longrightarrow> limit_max s x > 0 \<and> limit_count s x \<ge> 0"
    using r by (auto simp: rinv_def elim: limits_okD)
  show "rinv watched clock (l\<lparr>live_limits := insert x (live_limits l)\<rparr>, BReactorLimit_Init x limit s)" if "x \<notin> live_limits l" "limit > 0"
    using r that xs unfolding rinv_def BReactorLimit_Init_def limits_ok_def by (auto intro!: exI [of _ xs])
  show "rinv watched clock (l, BReactorLimit_SetLimit x limit s)" if "x \<in> live_limits l" "limit > 0"
    using r that xs unfolding rinv_def BReactorLimit_SetLimit_def limits_ok_def by (auto intro!: exI [of _ xs])
  show "rinv watched clock (l\<lparr>live_limits := live_limits l - {x}\<rparr>, BReactorLimit_Free x s)" if x: "x \<in> live_limits l"
  proof (cases "limit_count s x > 0")
    case True
    then have "x \<in> set xs" using x xs(2) by simp
    from ll.remove_law [OF xs(1) this] have "list_rep (LinkedList1_Remove x (active_limits_list s)) (remove1 x xs)" by simp
    moreover have "set (remove1 x xs) = set xs - {x}" using ll.rep_distinct [OF xs(1)] by simp
    ultimately show ?thesis
      using r True xs unfolding rinv_def BReactorLimit_Free_def limits_ok_def by (auto intro!: exI [of _ "remove1 x xs"])
  next
    case False
    then show ?thesis using r xs unfolding rinv_def BReactorLimit_Free_def limits_ok_def by (auto intro!: exI [of _ xs])
  qed
  show "rinv watched clock (l, fst (BReactorLimit_Increment x s))" if x: "x \<in> live_limits l"
  proof (cases "limit_count s x = 0")
    case True
    then have "x \<notin> set xs" "limit_max s x > 0" using x xs by auto
    from ll.append_law [OF xs(1) this(1)] have "list_rep (LinkedList1_Append x (active_limits_list s)) (xs @ [x])" by simp
    then show ?thesis
      using r True x xs \<open>limit_max s x > 0\<close> unfolding rinv_def BReactorLimit_Increment_def limits_ok_def by (auto intro!: exI [of _ "xs @ [x]"])
  next
    case False
    then have "limit_count s x > 0" using xs(3) [OF x] by linarith
    then show ?thesis
      using r x xs unfolding rinv_def BReactorLimit_Increment_def limits_ok_def by (auto simp: Let_def intro!: exI [of _ xs])
  qed
qed

lemma inv_timer_ops:
  assumes K: "kernel_ok K watched clock" and r: "rinv watched clock (l, s)"
  shows "t \<notin> live_timers l \<Longrightarrow> tm = BSmallTimer_Init t h (r_timers s) \<or> tm = BTimer_Init t ms h u (r_timers s) \<Longrightarrow>
      rinv watched clock (l\<lparr>live_timers := insert t (live_timers l)\<rparr>, s\<lparr>r_timers := tm\<rparr>)"
    and "t \<in> live_timers l \<Longrightarrow> \<not> snd (BSmallTimer_IsRunning t (r_timers s)) \<Longrightarrow> rinv watched clock (l\<lparr>live_timers := live_timers l - {t}\<rparr>, s)"
    and "t \<in> live_timers l \<Longrightarrow> mode = BTIMER_SET_ABSOLUTE \<or> mode = BTIMER_SET_RELATIVE \<Longrightarrow>
      \<exists>s'. reactor_set_timer K t mode time s = Some s' \<and> rinv watched clock (l, s')"
    and "t \<in> live_timers l \<Longrightarrow> \<exists>s'. on_timers (BReactor_RemoveSmallTimer t) s = Some s' \<and> rinv watched clock (l, s')"
proof -
  obtain rs es where t0: "timers_rep (live_timers l) (r_timers s) rs es" "expired_ok (clock (r_kernel s)) (r_timers s) es"
    using r by (auto simp: rinv_def timers_ok_def)
  note d = timers_repD [OF t0(1)]
  show "rinv watched clock (l\<lparr>live_timers := insert t (live_timers l)\<rparr>, s\<lparr>r_timers := tm\<rparr>)"
    if "t \<notin> live_timers l" "tm = BSmallTimer_Init t h (r_timers s) \<or> tm = BTimer_Init t ms h u (r_timers s)"
  proof (rule inv_timers [OF r])
    show "timers_rep (insert t (live_timers l)) tm rs es" using that timer_Init_ok [OF t0(1)] by auto
    have "absTime tm = absTime (r_timers s)" using that(2) by (auto simp: BSmallTimer_Init_def BTimer_Init_def)
    then show "expired_ok (clock (r_kernel s)) tm es" using t0(2) ascending_same [of tm "r_timers s" es] by (simp add: expired_ok_def)
  qed
  show "rinv watched clock (l\<lparr>live_timers := live_timers l - {t}\<rparr>, s)" if "t \<in> live_timers l" "\<not> snd (BSmallTimer_IsRunning t (r_timers s))"
  proof -
    have "timer_state (r_timers s) t = TIMER_STATE_INACTIVE" using that(2) by (simp add: BSmallTimer_IsRunning_def)
    then have "t \<notin> set rs" "t \<notin> set es" using d(10) [OF that(1)] by (cases "t \<in> set rs"; cases "t \<in> set es"; simp)+
    then have "timers_rep (live_timers l - {t}) (r_timers s) rs es" using t0(1) by (auto simp: timers_rep_def)
    from inv_timers [OF r this t0(2)] show ?thesis by simp
  qed
  have stop: "expired_ok now tm (remove1 t es)" if "now \<ge> clock (r_kernel s)" "\<And>u. u \<noteq> t \<Longrightarrow> absTime tm u = absTime (r_timers s) u" for tm now t
  proof -
    have "ascending (compare_timers (r_timers s)) (remove1 t es)" using t0(2) d(9) ascending_remove1 by (auto simp: expired_ok_def)
    moreover have "ascending (compare_timers tm) (remove1 t es) = ascending (compare_timers (r_timers s)) (remove1 t es)"
      using that(2) d(9) by (intro ascending_cong compare_timers_cong) auto
    ultimately show ?thesis using t0(2) that d(9) by (auto simp: expired_ok_def)
  qed
  show "\<exists>s'. on_timers (BReactor_RemoveSmallTimer t) s = Some s' \<and> rinv watched clock (l, s')" if t: "t \<in> live_timers l"
  proof -
    obtain tm where tm: "BReactor_RemoveSmallTimer t (r_timers s) = Some tm" "timers_rep (live_timers l) tm (remove1 t rs) (remove1 t es)"
      "same_fields (r_timers s) tm" using remove_timer_ok [OF t0(1) t] by blast
    then have "expired_ok (clock (r_kernel s)) tm (remove1 t es)" by (intro stop) (auto simp: same_fields_def)
    from inv_timers [OF r tm(2) this] show ?thesis using tm(1) by (simp add: on_timers_def)
  qed
  show "\<exists>s'. reactor_set_timer K t mode time s = Some s' \<and> rinv watched clock (l, s')"
    if t: "t \<in> live_timers l" "mode = BTIMER_SET_ABSOLUTE \<or> mode = BTIMER_SET_RELATIVE"
  proof -
    obtain now s1 where s1: "(if mode = BTIMER_SET_RELATIVE then get_time K s else (0, s)) = (now, s1)" by fastforce
    have i1: "rinv watched clock (l, s1)" "r_timers s1 = r_timers s" "clock (r_kernel s) \<le> clock (r_kernel s1)"
      using s1 r get_time_ok(3,5) [OF K, of s] by (auto simp: get_time_def split: if_splits prod.splits)
    obtain tm rs' where tm: "BReactor_SetSmallTimer now t mode time (r_timers s) = Some tm" "timers_rep (live_timers l) tm rs' (remove1 t es)"
      "same_fields ((r_timers s)\<lparr>absTime := (absTime (r_timers s))(t := timer_deadline now mode time)\<rparr>) tm" using set_timer_ok [OF t0(1) t] by blast
    then have "expired_ok (clock (r_kernel s1)) tm (remove1 t es)" using i1(3) by (intro stop) (auto simp: same_fields_def)
    from inv_timers [OF i1(1) tm(2) this] show ?thesis using tm(1) s1 i1(2) by (simp add: reactor_set_timer_def on_timers_def)
  qed
qed

lemma client_inv:
  assumes K: "kernel_ok K watched clock" and c: "client_step K watched clock w w'" and r: "rinv watched clock w"
  shows "rinv watched clock w'"
  using c
proof cases
  case (job_init p l s h)
  obtain xs where "job_stack (live_jobs l) (pending_jobs s) xs" using r job_init(1) by (auto simp: rinv_def jobs_ok_def)
  then show ?thesis using inv_jobs job_stack_Init r job_init by metis
next
  case (job_free p l s)
  obtain xs where "job_stack (live_jobs l) (pending_jobs s) xs" using r job_free(1) by (auto simp: rinv_def jobs_ok_def)
  then show ?thesis using inv_jobs job_stack_Free r job_free by metis
next
  case (job_set p l s)
  obtain xs where "job_stack (live_jobs l) (pending_jobs s) xs" using r job_set(1) by (auto simp: rinv_def jobs_ok_def)
  from inv_jobs [OF r [unfolded job_set(1)] pq.stack_set [OF this job_set(3)]] show ?thesis using job_set by simp
next
  case (job_unset p l s)
  obtain xs where "job_stack (live_jobs l) (pending_jobs s) xs" using r job_unset(1) by (auto simp: rinv_def jobs_ok_def)
  from inv_jobs [OF r [unfolded job_unset(1)] pq.stack_unset [OF this job_unset(3)]] show ?thesis using job_unset by simp
next
  case timer_init
  then show ?thesis using inv_timer_ops(1) [OF K] r by blast
next
  case timer_forget
  then show ?thesis using inv_timer_ops(2) [OF K] r by blast
next
  case (timer_set t l mode time s s')
  then show ?thesis using inv_timer_ops(3) [OF K, of l s t mode time] r by auto
next
  case (timer_remove t l s s')
  then show ?thesis using inv_timer_ops(4) [OF K, of l s t] r by auto
next
  case fd_init
  then show ?thesis using inv_fd_init r by blast
next
  case fd_forget
  then show ?thesis using inv_fd_forget r by blast
next
  case fd_add
  then show ?thesis using inv_fd_add [OF K] r by blast
next
  case fd_remove
  then show ?thesis using inv_fd_remove [OF K] r by blast
next
  case fd_set
  then show ?thesis using inv_fd_set [OF K] r by blast
next
  case limit_init
  then show ?thesis using inv_limit_ops(1) r by blast
next
  case limit_free
  then show ?thesis using inv_limit_ops(2) r by blast
next
  case limit_increment
  then show ?thesis using inv_limit_ops(3) r by blast
next
  case limit_set
  then show ?thesis using inv_limit_ops(4) r by blast
next
  case (quit l s code)
  then show ?thesis using r by (simp add: rinv_def ok_defs BReactor_Quit_def)
next
  case (system k' s l)
  then show ?thesis using inv_kernel [of watched clock l s k'] r by simp
qed

subsection \<open>Waiting\<close>

lemma set_fd_pointers_ok:
  assumes "i + n \<le> length (epoll_results s)" and "distinct (map snd (take n (drop i (epoll_results s))))"
    and "\<And>j. i \<le> j \<Longrightarrow> j < i + n \<Longrightarrow> \<exists>b. snd (epoll_results s ! j) = Some b \<and> fd_active s b \<and> epoll_returned_ptr s b = None"
  shows "\<exists>p. set_fd_pointers i n s = s\<lparr>epoll_returned_ptr := p\<rparr>
    \<and> (\<forall>b. (\<forall>j. i \<le> j \<and> j < i + n \<longrightarrow> snd (epoll_results s ! j) \<noteq> Some b) \<longrightarrow> p b = epoll_returned_ptr s b)
    \<and> (\<forall>j b. i \<le> j \<and> j < i + n \<and> snd (epoll_results s ! j) = Some b \<longrightarrow> p b = Some j)"
  using assms
proof (induction n arbitrary: i s)
  case 0
  show ?case by (intro exI [of _ "epoll_returned_ptr s"] conjI allI impI) auto
next
  case (Suc n)
  obtain b where b: "snd (epoll_results s ! i) = Some b" "fd_active s b" "epoll_returned_ptr s b = None" using Suc.prems(3) [of i] by auto
  have dr: "drop i (epoll_results s) = epoll_results s ! i # drop (Suc i) (epoll_results s)" using Suc.prems(1) by (simp add: Cons_nth_drop_Suc)
  have later: "snd (epoll_results s ! j) \<noteq> Some b" if "Suc i \<le> j" "j < Suc i + n" for j
  proof -
    have "epoll_results s ! j \<in> set (take n (drop (Suc i) (epoll_results s)))"
      using that Suc.prems(1) by (auto simp: in_set_conv_nth intro!: exI [of _ "j - Suc i"])
    then have "snd (epoll_results s ! j) \<in> snd ` set (take n (drop (Suc i) (epoll_results s)))" by (rule imageI)
    moreover have "snd (epoll_results s ! i) \<notin> snd ` set (take n (drop (Suc i) (epoll_results s)))" using Suc.prems(2) unfolding dr by simp
    ultimately show ?thesis using b(1) by metis
  qed
  let ?s = "set_returned_ptr b (Some i) s"
  have "\<exists>p. set_fd_pointers (Suc i) n ?s = ?s\<lparr>epoll_returned_ptr := p\<rparr>
    \<and> (\<forall>c. (\<forall>j. Suc i \<le> j \<and> j < Suc i + n \<longrightarrow> snd (epoll_results ?s ! j) \<noteq> Some c) \<longrightarrow> p c = epoll_returned_ptr ?s c)
    \<and> (\<forall>j c. Suc i \<le> j \<and> j < Suc i + n \<and> snd (epoll_results ?s ! j) = Some c \<longrightarrow> p c = Some j)"
  proof (rule Suc.IH)
    show "distinct (map snd (take n (drop (Suc i) (epoll_results ?s))))" using Suc.prems(2) unfolding dr by (simp add: set_returned_ptr_def)
    show "\<exists>c. snd (epoll_results ?s ! j) = Some c \<and> fd_active ?s c \<and> epoll_returned_ptr ?s c = None" if "Suc i \<le> j" "j < Suc i + n" for j
      using Suc.prems(3) [of j] later [OF that] that by (auto simp: set_returned_ptr_def)
  qed (use Suc.prems(1) in \<open>simp add: set_returned_ptr_def\<close>)
  then obtain p where p: "set_fd_pointers (Suc i) n ?s = ?s\<lparr>epoll_returned_ptr := p\<rparr>"
    "\<And>c. (\<And>j. Suc i \<le> j \<Longrightarrow> j < Suc i + n \<Longrightarrow> snd (epoll_results s ! j) \<noteq> Some c) \<Longrightarrow> p c = epoll_returned_ptr ?s c"
    "\<And>j c. Suc i \<le> j \<Longrightarrow> j < Suc i + n \<Longrightarrow> snd (epoll_results s ! j) = Some c \<Longrightarrow> p c = Some j"
    unfolding set_returned_ptr_def by simp metis
  have "p b = Some i" using p(2) [of b] later by (simp add: set_returned_ptr_def)
  then have "p c = Some j" if "i \<le> j" "j < i + Suc n" "snd (epoll_results s ! j) = Some c" for j c
    using p(3) [of j c] that b(1) by (cases "j = i") auto
  moreover have "p c = epoll_returned_ptr s c" if "\<And>j. i \<le> j \<Longrightarrow> j < i + Suc n \<Longrightarrow> snd (epoll_results s ! j) \<noteq> Some c" for c
    using p(2) [of c] that that [of i] b(1) by (auto simp: set_returned_ptr_def)
  moreover have "set_fd_pointers i (Suc n) s = s\<lparr>epoll_returned_ptr := p\<rparr>" using b p(1) by (simp add: set_returned_ptr_def)
  ultimately show ?case by blast
qed

text \<open>The state while the loop waits: nothing to dispatch, and \<open>timeout\<close> is the deadline of the first timer, still ahead at \<open>now\<close>.\<close>

definition waiting :: "('k \<Rightarrow> int \<Rightarrow> nat option) \<Rightarrow> ('k \<Rightarrow> int) \<Rightarrow> live \<Rightarrow> int option \<Rightarrow> int \<Rightarrow> nat list \<Rightarrow> 'k BReactor \<Rightarrow> bool" where
  "waiting watched clock l timeout now rs s \<longleftrightarrow> rinv watched clock (l, s) \<and> timers_rep (live_timers l) (r_timers s) rs []
     \<and> epoll_results_pos s = 0 \<and> epoll_results_num s = 0
     \<and> (case timeout of None \<Rightarrow> rs = []
        | Some deadline \<Rightarrow> rs \<noteq> [] \<and> deadline = absTime (r_timers s) (hd rs) \<and> now < deadline \<and> now \<le> clock (r_kernel s))"

text \<open>
  What a wait that ends leaves: the first timers expired, or events of active descriptors. Jobs and limits are as they were.
\<close>

definition waited :: "('k \<Rightarrow> int \<Rightarrow> nat option) \<Rightarrow> ('k \<Rightarrow> int) \<Rightarrow> live \<Rightarrow> 'k BReactor \<Rightarrow> 'k BReactor \<Rightarrow> bool" where
  "waited watched clock l s s' \<longleftrightarrow> rinv watched clock (l, s') \<and> pending_jobs s' = pending_jobs s \<and> exiting s' = exiting s
     \<and> (LinkedList1_GetFirst (timers_expired_list (r_timers s')) \<noteq> None \<or> epoll_results_pos s' < epoll_results_num s')"

lemma ascending_takeWhile: "ascending cmp xs \<Longrightarrow> ascending cmp (takeWhile P xs)"
  by (metis sorted_wrt_append takeWhile_dropWhile_id)

lemma first_timers_ok:
  assumes r: "rinv watched clock (l, s)" and t: "timers_rep (live_timers l) (r_timers s) (t # rs) []" and c: "absTime (r_timers s) t \<le> clock (r_kernel s)"
  shows "\<exists>s'. on_timers move_first_timers s = Some s' \<and> waited watched clock l s s'"
proof -
  let ?due = "\<lambda>u. absTime (r_timers s) u \<le> absTime (r_timers s) t"
  obtain tm where tm: "move_first_timers (r_timers s) = Some tm" "timers_rep (live_timers l) tm (dropWhile ?due (t # rs)) (takeWhile ?due (t # rs))"
    "same_fields (r_timers s) tm" using move_first_ok [OF t] by auto
  have a: "absTime tm = absTime (r_timers s)" using tm(3) by (simp add: same_fields_def)
  have "ascending (compare_timers tm) (takeWhile ?due (t # rs))"
    using ascending_takeWhile [OF timers_repD(3) [OF t]] ascending_same [OF a] by blast
  moreover have "absTime tm u \<le> clock (r_kernel s)" if "u \<in> set (takeWhile ?due (t # rs))" for u
    using set_takeWhileD [OF that] c unfolding a by simp
  ultimately have "expired_ok (clock (r_kernel s)) tm (takeWhile ?due (t # rs))" by (simp add: expired_ok_def)
  from inv_timers [OF r tm(2) this] have "rinv watched clock (l, s\<lparr>r_timers := tm\<rparr>)" by simp
  moreover have "LinkedList1_GetFirst (timers_expired_list tm) = Some t" using ll.first_law [OF timers_repD(2) [OF tm(2)]] by simp
  ultimately show ?thesis using tm(1) by (simp add: on_timers_def waited_def)
qed

lemma waiting_deadline:
  assumes "waiting watched clock l (Some deadline) now rs s"
  obtains t us where "rs = t # us" "timers_rep (live_timers l) (r_timers s) (t # us) []" "deadline = absTime (r_timers s) t" "now < deadline"
  using assms by (cases rs) (auto simp: waiting_def)

text \<open>A new reading of the clock, or none.\<close>

lemma waiting_later:
  assumes w: "waiting watched clock l timeout now rs s" and k: "watched k = watched (r_kernel s)" "clock (r_kernel s) \<le> clock k"
  shows "waiting watched clock l timeout now rs (s\<lparr>r_kernel := k\<rparr>)"
proof -
  have "rinv watched clock (l, s\<lparr>r_kernel := k\<rparr>)" using inv_kernel [OF _ k] w by (simp add: waiting_def)
  then show ?thesis using w k(2) unfolding waiting_def by (auto split: option.splits)
qed

lemma try_again_ok:
  assumes K: "kernel_ok K watched clock" and w: "waiting watched clock l timeout now rs s"
  shows "\<exists>leave now' s'. try_again K timeout now s = Some (leave, now', s')
    \<and> (if leave then waited watched clock l s s' else waiting watched clock l timeout now' rs s'
        \<and> pending_jobs s' = pending_jobs s \<and> exiting s' = exiting s \<and> (timeout \<noteq> None \<longrightarrow> clock (r_kernel s) \<le> now')
        \<and> r_kernel s' = (if timeout = None then r_kernel s else snd (k_time K (r_kernel s))))"
proof (cases timeout)
  case None
  then show ?thesis using w by (auto simp: try_again_def)
next
  case (Some deadline)
  obtain now' s1 where g: "get_time K s = (now', s1)" by fastforce
  note t = get_time_ok [OF K g]
  have s1: "s1 = s\<lparr>r_kernel := snd (k_time K (r_kernel s))\<rparr>" using g by (auto simp: get_time_def split: prod.splits)
  have w1: "waiting watched clock l timeout now rs s1" using waiting_later [OF w t(4,3)] t(1) by simp
  show ?thesis
  proof (cases "now' \<ge> deadline")
    case True
    obtain t0 us where rs: "timers_rep (live_timers l) (r_timers s1) (t0 # us) []" "deadline = absTime (r_timers s1) t0"
      using waiting_deadline [OF w1 [unfolded Some]] by metis
    obtain s' where "on_timers move_first_timers s1 = Some s'" "waited watched clock l s1 s'"
      using first_timers_ok [OF _ rs(1)] w1 rs(2) True t(2) by (auto simp: waiting_def)
    then show ?thesis using True g s1 by (auto simp: try_again_def Some waited_def)
  next
    case False
    then have "waiting watched clock l timeout now' rs s1" using w1 t(2) by (simp add: waiting_def Some)
    then show ?thesis using False g t(2,3) s1 by (auto simp: try_again_def Some)
  qed
qed

text \<open>
  Only finitely many interruptions are still to come: \<open>intr\<close> counts them. This is what an end of the loop depends on,
  beside the kernel.
\<close>

definition finite_interrupts :: "'k kernel_ops \<Rightarrow> ('k \<Rightarrow> nat) \<Rightarrow> bool" where
  "finite_interrupts K intr \<longleftrightarrow> (\<forall>t k ans k'. k_wait K t k = Some (ans, k') \<longrightarrow>
      (case ans of EP_Error _ \<Rightarrow> intr k' < intr k | EP_Events _ \<Rightarrow> intr k' \<le> intr k))
    \<and> (\<forall>k. intr (snd (k_time K k)) \<le> intr k)"

lemma finite_interruptsD:
  assumes "finite_interrupts K intr"
  shows "k_wait K t k = Some (EP_Error e, k') \<Longrightarrow> intr k' < intr k" and "k_wait K t k = Some (EP_Events evs, k') \<Longrightarrow> intr k' \<le> intr k"
    and "intr (snd (k_time K k)) \<le> intr k"
  using assms unfolding finite_interrupts_def by fastforce+

definition wait_continues :: "'k kernel_ops \<Rightarrow> int option \<Rightarrow> int \<Rightarrow> 'k BReactor \<Rightarrow> int \<Rightarrow> 'k BReactor \<Rightarrow> bool" where
  "wait_continues K timeout now s now' s' \<longleftrightarrow> pending_jobs s' = pending_jobs s \<and> exiting s' = exiting s
     \<and> (\<forall>intr. finite_interrupts K intr \<longrightarrow> intr (r_kernel s') < intr (r_kernel s)
          \<or> intr (r_kernel s') \<le> intr (r_kernel s) \<and> timeout \<noteq> None \<and> now < now')"

lemma results_arrived:
  assumes K: "kernel_ok K watched clock" and w: "waiting watched clock l timeout now rs s" and ne: "evs \<noteq> []"
    and a: "k_wait K t (r_kernel s) = Some (EP_Events evs, k)"
  shows "waited watched clock l s (set_epoll_fd_pointers (s\<lparr>r_kernel := k, epoll_results := map (map_prod id Some) evs, epoll_results_num := length evs\<rparr>))"
proof -
  let ?r = "map (map_prod id Some) evs" let ?s = "s\<lparr>r_kernel := k, epoll_results := ?r, epoll_results_num := length evs\<rparr>"
  note e = kernel_okD(9) [OF K a] and c = kernel_okD(7) [OF K a]
  have r: "rinv watched clock (l, s)" and p: "epoll_results_pos s = 0" "epoll_results_num s = 0" using w by (auto simp: waiting_def)
  have f: "fds_ok watched l s" using r by (simp add: rinv_def)
  note d = fds_okD [OF f]
  have entry: "snd (?r ! j) = Some (snd (evs ! j))" if "j < length evs" for j using that by simp
  have act: "snd (evs ! j) \<in> live_fds l \<and> fd_active s (snd (evs ! j))" if "j < length evs" for j
    using e d(1) that by fastforce
  have ptr: "epoll_returned_ptr s b = None" if "b \<in> live_fds l" "fd_active s b" for b
    using d(4) [of _ b] p that by (cases "epoll_returned_ptr s b") auto
  have "distinct (map snd (take (length evs) (drop 0 (epoll_results ?s))))" using e by (auto simp: distinct_map comp_inj_on inj_on_def)
  moreover have "\<exists>b. snd (epoll_results ?s ! j) = Some b \<and> fd_active ?s b \<and> epoll_returned_ptr ?s b = None" if "0 \<le> j" "j < 0 + length evs" for j
    using entry [of j] act [of j] ptr [of "snd (evs ! j)"] that by simp
  moreover have "0 + length evs \<le> length (epoll_results ?s)" by simp
  ultimately obtain q where q: "set_epoll_fd_pointers ?s = ?s\<lparr>epoll_returned_ptr := q\<rparr>"
    "\<And>b. (\<And>j. j < length evs \<Longrightarrow> snd (?r ! j) \<noteq> Some b) \<Longrightarrow> q b = epoll_returned_ptr s b"
    "\<And>j b. j < length evs \<Longrightarrow> snd (?r ! j) = Some b \<Longrightarrow> q b = Some j"
    using set_fd_pointers_ok [of 0 "length evs" ?s] unfolding set_epoll_fd_pointers_def by auto
  have link: "i < length evs \<and> snd (?r ! i) = Some b \<longleftrightarrow> b \<in> live_fds l \<and> fd_active s b \<and> q b = Some i" for i b
    using q(2) [of b] q(3) [of i b] q(3) [of _ b] act ptr [of b] entry by fastforce
  have "rinv watched clock (l, ?s\<lparr>epoll_returned_ptr := q\<rparr>)"
  proof (rule same_others_inv [OF r, where S = "live_fds l"])
    show "fds_ok watched l (?s\<lparr>epoll_returned_ptr := q\<rparr>)" unfolding fds_ok_def using d(1) c p link by simp
  qed (use r c in \<open>simp_all add: same_others_def rinv_def\<close>)
  then show ?thesis using ne p unfolding q(1) by (simp add: waited_def)
qed

lemma wait_once_ok:
  assumes K: "kernel_ok K watched clock" and w: "waiting watched clock l timeout now rs s"
  shows "wait_once K timeout now s = None \<and> timeout = None \<or> (\<exists>leave now' s'. wait_once K timeout now s = Some (leave, now', s')
    \<and> (if leave then waited watched clock l s s' else waiting watched clock l timeout now' rs s' \<and> wait_continues K timeout now s now' s'))"
proof (cases "wait_once K timeout now s = None \<and> timeout = None")
  case blocked: False
  define rel where "rel = (case timeout of Some deadline \<Rightarrow> deadline - now | None \<Rightarrow> 0)"
  define trunc where "trunc = (if timeout \<noteq> None \<and> rel > int INT_MAX then int INT_MAX else rel)"
  have "k_wait K (if timeout \<noteq> None then trunc else -1) (r_kernel s) \<noteq> None"
  proof (cases timeout)
    case None
    then show ?thesis using blocked by (auto simp: wait_once_def Let_def split: option.splits)
  next
    case (Some deadline)
    then have "0 \<le> trunc" using w by (simp add: trunc_def rel_def waiting_def)
    then show ?thesis using kernel_okD(10) [OF K] Some by simp
  qed
  then obtain ans k where a: "k_wait K (if timeout \<noteq> None then trunc else -1) (r_kernel s) = Some (ans, k)" by auto
  note c = kernel_okD(7) [OF K a]
  have wk: "waiting watched clock l timeout now rs (s\<lparr>r_kernel := k\<rparr>)" using waiting_later [OF w] c by simp
  obtain leave now' s' where t: "try_again K timeout now (s\<lparr>r_kernel := k\<rparr>) = Some (leave, now', s')"
    "if leave then waited watched clock l (s\<lparr>r_kernel := k\<rparr>) s' else waiting watched clock l timeout now' rs s'
        \<and> pending_jobs s' = pending_jobs s \<and> exiting s' = exiting s \<and> (timeout \<noteq> None \<longrightarrow> clock k \<le> now')
        \<and> r_kernel s' = (if timeout = None then k else snd (k_time K k))"
    using try_again_ok [OF K wk] by (simp cong: if_cong) blast
  have wd: "waited watched clock l (s\<lparr>r_kernel := k\<rparr>) x = waited watched clock l s x" for x by (simp add: waited_def)
  show ?thesis
  proof (cases ans)
    case (EP_Error e)
    then have e: "e" using kernel_okD(8) [OF K] a by simp
    have "intr (r_kernel s') < intr (r_kernel s)" if "\<not> leave" "finite_interrupts K intr" for intr
    proof -
      have "r_kernel s' = k \<or> r_kernel s' = snd (k_time K k)" using t(2) that(1) by (auto split: if_splits)
      moreover have "intr k < intr (r_kernel s)" "intr (snd (k_time K k)) \<le> intr k"
        using finite_interruptsD(1,3) [OF that(2)] a EP_Error by auto
      ultimately show ?thesis by auto
    qed
    then have "wait_once K timeout now s = Some (leave, now', s')" "\<not> leave \<Longrightarrow> wait_continues K timeout now s now' s'"
      using a EP_Error e t unfolding wait_once_def Let_def rel_def [symmetric] trunc_def [symmetric] by (auto simp: wait_continues_def)
    then show ?thesis using t(2) by (auto simp: wd)
  next
    case (EP_Events evs)
    note ev = kernel_okD(9) [OF K a [unfolded EP_Events]]
    show ?thesis
    proof (cases "evs = []")
      case False
      then have "wait_once K timeout now s = Some (True, now, set_epoll_fd_pointers
           (s\<lparr>r_kernel := k, epoll_results := map (map_prod id Some) evs, epoll_results_num := length evs\<rparr>))"
        using a EP_Events ev unfolding wait_once_def Let_def rel_def [symmetric] trunc_def [symmetric] by simp
      then show ?thesis using results_arrived [OF K w False a [unfolded EP_Events]] by auto
    next
      case True
      then have "timeout \<noteq> None" "clock (r_kernel s) + trunc \<le> clock k" using ev by (auto split: if_splits)
      then obtain deadline where d: "timeout = Some deadline" "rel = deadline - now" by (auto simp: rel_def)
      obtain t0 us where rs: "timers_rep (live_timers l) (r_timers s) (t0 # us) []" "deadline = absTime (r_timers s) t0" "now < deadline"
        using waiting_deadline [OF w [unfolded d(1)]] by metis
      have now: "now \<le> clock (r_kernel s)" using w by (simp add: waiting_def d)
      show ?thesis
      proof (cases "trunc = rel")
        case same: True
        then have "absTime (r_timers s) t0 \<le> clock k" using \<open>clock (r_kernel s) + trunc \<le> clock k\<close> now d(2) rs(2) by linarith
        then obtain s'' where "on_timers move_first_timers (s\<lparr>r_kernel := k\<rparr>) = Some s''" "waited watched clock l s s''"
          using first_timers_ok [of watched clock l "s\<lparr>r_kernel := k\<rparr>"] wk rs(1) by (auto simp: waiting_def wd)
        then show ?thesis
          using a EP_Events True same d(1) unfolding wait_once_def Let_def rel_def [symmetric] trunc_def [symmetric] by auto
      next
        case False
        have "now < clock k" using False \<open>clock (r_kernel s) + trunc \<le> clock k\<close> now unfolding trunc_def by (auto split: if_splits)
        then have "\<not> leave \<Longrightarrow> now < now'" using t(2) d(1) by auto
        moreover have "intr (r_kernel s') \<le> intr (r_kernel s)" if "\<not> leave" "finite_interrupts K intr" for intr
          using finite_interruptsD(2,3) [OF that(2)] a EP_Events t(2) that(1) d(1) by (fastforce intro: order_trans)
        ultimately have "\<not> leave \<Longrightarrow> wait_continues K timeout now s now' s'" using t(2) d(1) by (auto simp: wait_continues_def)
        moreover have "wait_once K timeout now s = Some (leave, now', s')"
          using a EP_Events True False d(1) t(1) unfolding wait_once_def Let_def rel_def [symmetric] trunc_def [symmetric] by auto
        ultimately show ?thesis using t(2) by (auto simp: wd)
      qed
    qed
  qed
qed blast

lemma waited_trans: "waited watched clock l s' s'' \<Longrightarrow> pending_jobs s' = pending_jobs s \<Longrightarrow> exiting s' = exiting s \<Longrightarrow> waited watched clock l s s''"
  by (simp add: waited_def)

text \<open>Every wait that ends, ends well.\<close>

lemma wait_loop_ok:
  "wait_loop K timeout now s = Some s' \<Longrightarrow> kernel_ok K watched clock \<Longrightarrow> waiting watched clock l timeout now rs s \<Longrightarrow> waited watched clock l s s'"
proof (induction rule: wait_loop.raw_induct [rotated 1, consumes 1])
  case (1 rec K timeout now s s')
  obtain leave now' s1 where o: "wait_once K timeout now s = Some (leave, now', s1)"
    "if leave then waited watched clock l s s1 else waiting watched clock l timeout now' rs s1 \<and> wait_continues K timeout now s now' s1"
    using wait_once_ok [OF "1.prems"] "1.hyps" by auto
  show ?case
  proof (cases leave)
    case True
    then show ?thesis using "1.hyps" o by simp
  next
    case False
    then have "rec K timeout now' s1 = Some s'" using "1.hyps" o(1) by simp
    then have "waited watched clock l s1 s'" using "1.IH" [of K timeout now' s1 s'] "1.prems"(1) o(2) False by simp
    then show ?thesis using o(2) False by (auto simp: wait_continues_def intro: waited_trans)
  qed
qed

text \<open>With a deadline and finitely many interruptions it ends.\<close>

lemma wait_loop_ends:
  assumes K: "kernel_ok K watched clock" and f: "finite_interrupts K intr" and t: "timeout \<noteq> None"
  shows "waiting watched clock l timeout now rs s \<Longrightarrow> \<exists>s'. wait_loop K timeout now s = Some s'"
proof (induction "(intr (r_kernel s), nat (case timeout of None \<Rightarrow> 0 | Some d \<Rightarrow> d - now))" arbitrary: now s
    rule: wf_induct_rule [OF wf_lex_prod [OF wf_less_than wf_less_than]])
  case (1 now s)
  obtain leave now' s1 where o: "wait_once K timeout now s = Some (leave, now', s1)"
    "if leave then waited watched clock l s s1 else waiting watched clock l timeout now' rs s1 \<and> wait_continues K timeout now s now' s1"
    using wait_once_ok [OF K "1.prems"] t by auto
  show ?case
  proof (cases leave)
    case True
    then show ?thesis using o(1) by (subst wait_loop.simps) simp
  next
    case False
    then have w: "waiting watched clock l timeout now' rs s1" and c: "intr (r_kernel s1) < intr (r_kernel s)
        \<or> intr (r_kernel s1) \<le> intr (r_kernel s) \<and> timeout \<noteq> None \<and> now < now'" using o(2) f by (auto simp: wait_continues_def)
    have "\<exists>s'. wait_loop K timeout now' s1 = Some s'"
      using c w "1.prems" by (intro "1.hyps" w) (auto simp: waiting_def)
    then show ?thesis using o(1) False by (subst wait_loop.simps) simp
  qed
qed

lemma reset_limits_ok:
  "list_rep (active_limits_list s) xs \<Longrightarrow> (\<forall>x\<in>set xs. limit_count s x > 0) \<Longrightarrow>
     \<exists>a. reset_limits s = Some (s\<lparr>active_limits_list := a, limit_count := \<lambda>x. if x \<in> set xs then 0 else limit_count s x\<rparr>) \<and> list_rep a []"
proof (induction xs arbitrary: s)
  case Nil
  then show ?case using ll.first_law [OF Nil.prems(1)] by (subst reset_limits.simps) (auto intro!: exI [of _ "active_limits_list s"])
next
  case (Cons x xs)
  have x: "LinkedList1_GetFirst (active_limits_list s) = Some x" "list_rep (LinkedList1_Remove x (active_limits_list s)) xs" "x \<notin> set xs"
    using ll.first_law [OF Cons.prems(1)] ll.remove_law [OF Cons.prems(1), of x] ll.rep_distinct [OF Cons.prems(1)] by auto
  let ?s = "s\<lparr>limit_count := (limit_count s)(x := 0), active_limits_list := LinkedList1_Remove x (active_limits_list s)\<rparr>"
  have "list_rep (active_limits_list ?s) xs" "\<forall>y\<in>set xs. limit_count ?s y > 0" using Cons.prems(2) x by auto
  from Cons.IH [OF this] obtain a where e1: "reset_limits ?s = Some (?s\<lparr>active_limits_list := a, limit_count := \<lambda>y. if y \<in> set xs then 0 else limit_count ?s y\<rparr>)" and a: "list_rep a []"
    by blast
  have e2: "reset_limits s = reset_limits ?s" using x(1) Cons.prems(2) by (subst reset_limits.simps) (simp add: Let_def)
  have e3: "(\<lambda>y. if y \<in> set xs then 0 else limit_count ?s y) = (\<lambda>y. if y \<in> set (x # xs) then 0 else limit_count s y)" by auto
  show ?case using a e1 unfolding e2 e3 by (intro exI [of _ a]) simp
qed

lemma limits_reset:
  assumes r: "rinv watched clock (l, s)"
  shows "\<exists>s'. reset_limits s = Some s' \<and> rinv watched clock (l, s') \<and> (\<forall>x\<in>live_limits l. limit_count s' x = 0)
    \<and> pending_jobs s' = pending_jobs s \<and> exiting s' = exiting s \<and> r_timers s' = r_timers s
    \<and> epoll_results_pos s' = epoll_results_pos s \<and> epoll_results_num s' = epoll_results_num s"
proof -
  obtain xs where xs: "list_rep (active_limits_list s) xs" "set xs = {x \<in> live_limits l. limit_count s x > 0}"
    "\<And>x. x \<in> live_limits l \<Longrightarrow> limit_max s x > 0 \<and> limit_count s x \<ge> 0"
    using r by (auto simp: rinv_def elim: limits_okD)
  let ?c = "\<lambda>x. if x \<in> set xs then 0 else limit_count s x"
  obtain a where a: "reset_limits s = Some (s\<lparr>active_limits_list := a, limit_count := ?c\<rparr>)" "list_rep a []"
    using reset_limits_ok [OF xs(1)] xs(2) by blast
  have z: "?c x = 0" if "x \<in> live_limits l" for x using that xs(2) xs(3) [OF that] by auto
  have "limits_ok l (s\<lparr>active_limits_list := a, limit_count := ?c\<rparr>)"
    unfolding limits_ok_def using a(2) xs(2,3) by (auto intro!: exI [of _ "[]"])
  then have "rinv watched clock (l, s\<lparr>active_limits_list := a, limit_count := ?c\<rparr>)" using r by (simp add: rinv_def)
  then show ?thesis using a(1) z by simp
qed

text \<open>Nothing is left to dispatch: the only state in which the loop waits.\<close>

definition reactor_idle :: "'k BReactor \<Rightarrow> bool" where
  "reactor_idle s \<longleftrightarrow> \<not> BPendingGroup_HasJobs (pending_jobs s) \<and> LinkedList1_GetFirst (timers_expired_list (r_timers s)) = None
     \<and> \<not> epoll_results_pos s < epoll_results_num s"

lemma timers_running_unique:
  assumes "timers_rep T s rs es" and "timers_rep T s ts es'"
  shows "rs = ts"
proof (rule ascending_unique [OF timers_repD(3) [OF assms(1)] timers_repD(3) [OF assms(2)]])
  have "timer_state s u = TIMER_STATE_RUNNING \<longleftrightarrow> u \<in> set rs" "timer_state s u = TIMER_STATE_RUNNING \<longleftrightarrow> u \<in> set ts" if "u \<in> T" for u
    using timers_repD(10) [OF assms(1) that] timers_repD(10) [OF assms(2) that] by (auto split: if_splits)
  then show "set rs = set ts" using timers_repD(5) [OF assms(1)] timers_repD(5) [OF assms(2)] by blast
qed

text \<open>The state before the loop, and what \<open>wait_for_events\<close> does with its end: the limits are reset.\<close>

lemma wait_start:
  assumes K: "kernel_ok K watched clock" and r: "rinv watched clock (l, s)" and i: "reactor_idle s"
  obtains (timers) s' where "wait_for_events K s = Some s'" "waited watched clock l s s'" "limit_count s' = limit_count s"
      "\<And>t rs. timers_rep (live_timers l) (r_timers s) (t # rs) [] \<Longrightarrow> absTime (r_timers s) t \<le> fst (k_time K (r_kernel s))"
      "r_kernel s' = snd (k_time K (r_kernel s))"
  | (loop) timeout now rs s1 where "wait_for_events K s = Option.bind (wait_loop K timeout now s1) reset_limits"
      "waiting watched clock l timeout now rs s1" "pending_jobs s1 = pending_jobs s" "exiting s1 = exiting s"
      "timers_rep (live_timers l) (r_timers s) rs []"
      "\<And>t rs. timers_rep (live_timers l) (r_timers s) (t # rs) [] \<Longrightarrow> fst (k_time K (r_kernel s)) < absTime (r_timers s) t"
proof -
  obtain rs es where t0: "timers_rep (live_timers l) (r_timers s) rs es" "expired_ok (clock (r_kernel s)) (r_timers s) es"
    using r by (auto simp: rinv_def timers_ok_def)
  have es: "es = []" using ll.first_none [OF timers_repD(2) [OF t0(1)]] i by (simp add: reactor_idle_def)
  have same: "rs = t # ts" if "timers_rep (live_timers l) (r_timers s) (t # ts) []" for t ts
    using timers_running_unique [OF t0(1) [unfolded es] that] .
  have f: "fds_ok watched l s" using r by (simp add: rinv_def)
  note d = fds_okD [OF f]
  have pos: "epoll_results_pos s = epoll_results_num s" using d(2) i by (simp add: reactor_idle_def)
  have em: "LinkedList1_IsEmpty (timers_expired_list (r_timers s))" using i by (simp add: reactor_idle_def LinkedList1_IsEmpty_def LinkedList1_GetFirst_def)
  let ?s = "s\<lparr>epoll_results_num := 0, epoll_results_pos := 0\<rparr>"
  have r1: "rinv watched clock (l, ?s)"
  proof (rule same_others_inv [OF r, where S = "live_fds l"])
    have "\<not> (b \<in> live_fds l \<and> fd_active s b \<and> epoll_returned_ptr s b = Some i)" for i b using d(4) [of i b] pos by linarith
    then show "fds_ok watched l ?s" unfolding fds_ok_def using d(1) by auto
  qed (use r in \<open>simp_all add: same_others_def rinv_def\<close>)
  have eq: "wait_for_events K s = (case first_of rs of
        None \<Rightarrow> Option.bind (wait_loop K None 0 ?s) reset_limits
      | Some first_timer \<Rightarrow> (case get_time K ?s of (now, s) \<Rightarrow> Option.bind (move_expired_timers now False (r_timers s)) (\<lambda>(tm, moved).
          if moved then Some (s\<lparr>r_timers := tm\<rparr>)
          else Option.bind (wait_loop K (Some (absTime tm first_timer)) now (s\<lparr>r_timers := tm\<rparr>)) reset_limits)))"
    using i pos em first_timer [OF t0(1)] timers_repD(5,10) [OF t0(1)]
    by (cases rs; cases "get_time K ?s")
      (simp_all add: wait_for_events_def reactor_idle_def Let_def first_of_def cong: if_cong)
  show ?thesis
  proof (cases rs)
    case Nil
    then have "waiting watched clock l None 0 [] ?s" using r1 t0(1) es by (simp add: waiting_def)
    moreover have "wait_for_events K s = Option.bind (wait_loop K None 0 ?s) reset_limits" using eq Nil by (simp add: first_of_def)
    moreover have "fst (k_time K (r_kernel s)) < absTime (r_timers s) u" if "timers_rep (live_timers l) (r_timers s) (u # vs) []" for u vs
      using same [OF that] Nil by simp
    ultimately show ?thesis using loop [of None 0 ?s "[]"] Nil t0(1) es by simp
  next
    case (Cons t us)
    obtain now s2 where g: "get_time K ?s = (now, s2)" by fastforce
    note gt = get_time_ok [OF K g]
    have now: "now = fst (k_time K (r_kernel s))" "r_kernel s2 = snd (k_time K (r_kernel s))"
      using g by (auto simp: get_time_def split: prod.splits)
    have r2: "rinv watched clock (l, s2)" using gt(5) r1 by blast
    have s2: "r_timers s2 = r_timers s" "limit_count s2 = limit_count s" "pending_jobs s2 = pending_jobs s" "exiting s2 = exiting s" "epoll_results_num s2 = 0" "epoll_results_pos s2 = 0"
      by (subst gt(1), simp)+
    let ?due = "\<lambda>u. absTime (r_timers s) u \<le> now"
    obtain tm where tm: "move_expired_timers now False (r_timers s) = Some (tm, takeWhile ?due rs \<noteq> [])"
      "timers_rep (live_timers l) tm (dropWhile ?due rs) (takeWhile ?due rs)" "same_fields (r_timers s) tm"
      using move_expired_ok [OF t0(1), of now False] es by auto
    have a: "absTime tm = absTime (r_timers s)" using tm(3) by (simp add: same_fields_def)
    have "expired_ok (clock (r_kernel s2)) tm (takeWhile ?due rs)"
      using ascending_takeWhile [OF timers_repD(3) [OF t0(1)]] ascending_same [OF a] set_takeWhileD [of _ ?due rs] gt(2)
      by (auto simp: expired_ok_def a)
    from inv_timers [OF r2 tm(2) this] have r3: "rinv watched clock (l, s2\<lparr>r_timers := tm\<rparr>)" by simp
    show ?thesis
    proof (cases "?due t")
      case True
      then have f: "LinkedList1_GetFirst (timers_expired_list tm) = Some t" using ll.first_law [OF timers_repD(2) [OF tm(2)]] Cons by simp
      then have "waited watched clock l s (s2\<lparr>r_timers := tm\<rparr>)" using r3 s2 by (simp add: waited_def)
      moreover have "absTime (r_timers s) u \<le> fst (k_time K (r_kernel s))" if "timers_rep (live_timers l) (r_timers s) (u # vs) []" for u vs
        using same [OF that] True Cons now(1) by simp
      moreover have "wait_for_events K s = Some (s2\<lparr>r_timers := tm\<rparr>)" using eq g tm(1) s2(1) True Cons by (simp add: first_of_def)
      ultimately show ?thesis using timers s2(2) now(2) by simp
    next
      case False
      then have "waiting watched clock l (Some (absTime tm t)) now rs (s2\<lparr>r_timers := tm\<rparr>)"
        using r3 tm(2) Cons s2 a gt(2) by (simp add: waiting_def)
      moreover have "wait_for_events K s = Option.bind (wait_loop K (Some (absTime tm t)) now (s2\<lparr>r_timers := tm\<rparr>)) reset_limits"
        using eq g tm(1) s2(1) False Cons by (simp add: first_of_def)
      moreover have "fst (k_time K (r_kernel s)) < absTime (r_timers s) u" if "timers_rep (live_timers l) (r_timers s) (u # vs) []" for u vs
        using same [OF that] False Cons now(1) by simp
      ultimately show ?thesis using loop s2 t0(1) es by simp
    qed
  qed
qed

lemma wait_ok_inv:
  assumes K: "kernel_ok K watched clock" and r: "rinv watched clock (l, s)" and i: "reactor_idle s" and w: "wait_for_events K s = Some s'"
  shows "waited watched clock l s s'"
proof (rule wait_start [OF K r i])
  fix timeout now rs s1
  assume s1: "wait_for_events K s = Option.bind (wait_loop K timeout now s1) reset_limits" "waiting watched clock l timeout now rs s1"
    "pending_jobs s1 = pending_jobs s" "exiting s1 = exiting s"
  from s1(1) w have "Option.bind (wait_loop K timeout now s1) reset_limits = Some s'" by simp
  then obtain s2 where s2: "wait_loop K timeout now s1 = Some s2" "reset_limits s2 = Some s'" by (auto simp: bind_eq_Some_conv)
  have "waited watched clock l s1 s2" using wait_loop_ok [OF s2(1) K s1(2)] .
  then show ?thesis using limits_reset [of watched clock l s2] s2(2) s1(3,4) by (auto simp: waited_def)
qed (use w in simp)

subsection \<open>Rounds\<close>

lemma dispatch_fd_inv:
  assumes r: "rinv watched clock (l, s)" and p: "epoll_results_pos s < epoll_results_num s"
  shows "rinv watched clock (l, fst (dispatch_fd s))"
proof (rule same_others_inv [OF r, where S = "live_fds l"])
  have f: "fds_ok watched l s" and nf: "\<not> r_fault s" using r by (auto simp: rinv_def)
  note d = fds_okD [OF f]
  let ?i = "epoll_results_pos s"
  have s: "fst (dispatch_fd s) = (case snd (epoll_results s ! ?i) of None \<Rightarrow> s\<lparr>epoll_results_pos := ?i + 1\<rparr>
      | Some b \<Rightarrow> s\<lparr>epoll_results_pos := ?i + 1, epoll_returned_ptr := (epoll_returned_ptr s)(b := None)\<rparr>)"
  proof (cases "snd (epoll_results s ! ?i)")
    case (Some b)
    then have "fd_active s b" "epoll_returned_ptr s b = Some ?i" using d(4) [of ?i b] p by auto
    then show ?thesis using Some by (simp add: dispatch_fd_def Let_def set_returned_ptr_def)
  qed (simp add: dispatch_fd_def Let_def)
  show "fds_ok watched l (fst (dispatch_fd s))"
  proof (cases "snd (epoll_results s ! ?i)")
    case None
    have "?i + 1 \<le> j \<and> j < epoll_results_num s \<and> snd (epoll_results s ! j) = Some b
        \<longleftrightarrow> b \<in> live_fds l \<and> fd_active s b \<and> epoll_returned_ptr s b = Some j" for j b
      using d(4) [of j b] None by (cases "j = ?i") auto
    then show ?thesis unfolding s None fds_ok_def using d(1,3) p by auto
  next
    case (Some b)
    have "b \<in> live_fds l \<and> fd_active s b \<and> epoll_returned_ptr s b = Some ?i" using d(4) [of ?i b] Some p by auto
    then have "?i + 1 \<le> j \<and> j < epoll_results_num s \<and> snd (epoll_results s ! j) = Some c
        \<longleftrightarrow> c \<in> live_fds l \<and> fd_active s c \<and> ((epoll_returned_ptr s)(b := None)) c = Some j" for j c
      using d(4) [of j c] d(4) [of j b] Some by (cases "j = ?i"; cases "c = b") auto
    then show ?thesis unfolding s Some fds_ok_def using d(1,3) p by auto
  qed
  show "same_others s (fst (dispatch_fd s))" "clock (r_kernel s) \<le> clock (r_kernel (fst (dispatch_fd s)))" "\<not> r_fault (fst (dispatch_fd s))"
    using nf unfolding s by (auto simp: same_others_def split: option.splits)
qed simp

lemma round_inv:
  assumes K: "kernel_ok K watched clock" and r: "rinv watched clock (l, s)" and e: "exec_round K s = Some (s', c)"
  shows "rinv watched clock (l, s')"
proof -
  obtain xs where xs: "job_stack (live_jobs l) (pending_jobs s) xs" using r by (auto simp: rinv_def jobs_ok_def)
  obtain rs es where t0: "timers_rep (live_timers l) (r_timers s) rs es" "expired_ok (clock (r_kernel s)) (r_timers s) es"
    using r by (auto simp: rinv_def timers_ok_def)
  show ?thesis
  proof (cases "BPendingGroup_HasJobs (pending_jobs s)")
    case True
    then obtain p ys where "xs = p # ys" using xs by (cases xs) (auto simp: job_stack_def pending_defs)
    then have "job_stack (live_jobs l) (fst (BPendingGroup_ExecuteJob (pending_jobs s))) ys" using job_stack_Execute xs by blast
    from inv_jobs [OF r this] show ?thesis using e True by (auto simp: exec_round_def split: prod.splits)
  next
    case noj: False
    show ?thesis
    proof (cases "LinkedList1_GetFirst (timers_expired_list (r_timers s))")
      case (Some t)
      then obtain us where es: "es = t # us" using ll.first_law [OF timers_repD(2) [OF t0(1)]] by (cases es) auto
      have tm: "timers_rep (live_timers l) (dispatch_timer t (r_timers s)) rs us" "same_fields (r_timers s) (dispatch_timer t (r_timers s))"
        using dispatch_timer_ok t0(1) es by blast+
      then have a: "absTime (dispatch_timer t (r_timers s)) = absTime (r_timers s)" by (simp add: same_fields_def)
      have "expired_ok (clock (r_kernel s)) (dispatch_timer t (r_timers s)) us"
        using t0(2) es ascending_same [OF a, of us] by (simp add: expired_ok_def a)
      from inv_timers [OF r tm(1) this] show ?thesis using e noj Some by (auto simp: exec_round_def Let_def)
    next
      case None
      show ?thesis
      proof (cases "epoll_results_pos s < epoll_results_num s")
        case True
        then have "s' = fst (dispatch_fd s)" using e noj None by (auto simp: exec_round_def)
        then show ?thesis using dispatch_fd_inv [OF r True] by simp
      next
        case False
        then have "wait_for_events K s = Some s'" "reactor_idle s" using e noj None by (auto simp: exec_round_def reactor_idle_def bind_eq_Some_conv)
        then show ?thesis using wait_ok_inv [OF K r] by (simp add: waited_def)
      qed
    qed
  qed
qed

lemma start_inv:
  assumes "reactor_start watched w"
  shows "rinv watched clock w"
proof -
  obtain k s where w: "fst w = \<lparr>live_jobs = {}, live_timers = {}, live_fds = {}, live_limits = {}\<rparr>" "BReactor_Init (Some k) s = Some (snd w)"
    "watched k = (\<lambda>_. None)" "\<not> r_fault s" "\<not> timers_fault (r_timers s)" "\<not> avl_fault (timers_tree (r_timers s))"
    using assms by (auto simp: reactor_start_def)
  have "timers_rep {} (timers_Init (r_timers s)) [] []" using timers_init_ok w(5,6) by blast
  moreover have e: "snd w = s\<lparr>exiting := False, pending_jobs := BPendingGroup_Init (pending_jobs s), r_timers := timers_Init (r_timers s),
      active_limits_list := LinkedList1_Init (active_limits_list s), r_kernel := k, epoll_results_num := 0, epoll_results_pos := 0\<rparr>"
    using w(2) by (simp add: BReactor_Init_def Let_def)
  ultimately have "timers_ok clock (fst w) (snd w)" unfolding w(1) timers_ok_def by (auto simp: expired_ok_def intro!: exI [of _ "[]"])
  moreover have "limits_ok (fst w) (snd w)" unfolding w(1) e using list_Init by (auto simp: limits_ok_def intro!: exI [of _ "[]"])
  moreover have "jobs_ok (fst w) (snd w)" unfolding w(1) e using job_stack_start by (auto simp: jobs_ok_def)
  moreover have "fds_ok watched (fst w) (snd w)" unfolding w(1) e using w(3) by (auto simp: fds_ok_def)
  moreover have "\<not> r_fault (snd w)" using w(4) unfolding e by simp
  ultimately show ?thesis by (simp add: rinv_def split_beta)
qed

definition reactor_initial :: "'k kernel_ops \<Rightarrow> ('k \<Rightarrow> int \<Rightarrow> nat option) \<Rightarrow> ('k \<Rightarrow> int) \<Rightarrow> live \<times> 'k BReactor \<Rightarrow> bool" where
  "reactor_initial K watched clock w \<longleftrightarrow> kernel_ok K watched clock \<and> reactor_start watched w"

interpretation loop: invariant_system "reactor_initial K watched clock" "\<lambda>w w'. kernel_ok K watched clock \<and> reactor_step K watched clock w w'" "rinv watched clock"
  for K watched clock
proof
  show "rinv watched clock w" if "reactor_initial K watched clock w" for w using that unfolding reactor_initial_def by (blast intro: start_inv)
  show "rinv watched clock w'" if "rinv watched clock w" "kernel_ok K watched clock \<and> reactor_step K watched clock w w'" for w w'
    using that by (auto elim!: reactor_step.cases intro: client_inv round_inv)
qed

lemma seg_unique: "seg p n q xs None \<Longrightarrow> seg p n q' ys None \<Longrightarrow> head_or xs None = head_or ys None \<Longrightarrow> xs = ys"
proof (induction xs arbitrary: ys q q')
  case (Cons x xs)
  then show ?case by (cases ys) auto
qed (auto simp: head_or_def split: list.splits)

lemma list_rep_unique: "list_rep l xs \<Longrightarrow> list_rep l ys \<Longrightarrow> xs = ys"
  unfolding list_rep_def by (metis seg_unique)

text \<open>
  Steps of clients, with the codes given to \<open>BReactor_Quit\<close> on the way.
\<close>

inductive client_quits :: "'k kernel_ops \<Rightarrow> ('k \<Rightarrow> int \<Rightarrow> nat option) \<Rightarrow> ('k \<Rightarrow> int) \<Rightarrow> live \<times> 'k BReactor \<Rightarrow> int list \<Rightarrow> live \<times> 'k BReactor \<Rightarrow> bool"
  for K watched clock w where
  no_step: "client_quits K watched clock w [] w"
| other_step: "client_quits K watched clock w cs (l, s) \<Longrightarrow> client_step K watched clock (l, s) (l', s') \<Longrightarrow>
    (\<nexists>code. (l', s') = (l, BReactor_Quit code s)) \<Longrightarrow> client_quits K watched clock w cs (l', s')"
| quit_step: "client_quits K watched clock w cs (l, s) \<Longrightarrow> client_quits K watched clock w (cs @ [code]) (l, BReactor_Quit code s)"

text \<open>No other operation makes the loop exit or touches the code.\<close>

lemma on_timers_exit: "on_timers f s = Some s' \<Longrightarrow> exiting s' = exiting s \<and> exit_code s' = exit_code s"
  by (auto simp: on_timers_def bind_eq_Some_conv)

lemma get_time_exit: "exiting (snd (get_time K s)) = exiting s" "exit_code (snd (get_time K s)) = exit_code s"
  by (simp_all add: get_time_def split: prod.split)

lemma set_timer_exit: "reactor_set_timer K t mode time s = Some s' \<Longrightarrow> exiting s' = exiting s \<and> exit_code s' = exit_code s"
  using get_time_exit [of K s] by (auto simp: reactor_set_timer_def split: prod.splits if_splits dest!: on_timers_exit)

lemma other_step_exit:
  assumes "client_step K watched clock (l, s) (l', s')" and "\<nexists>code. (l', s') = (l, BReactor_Quit code s)"
  shows "exiting s' = exiting s \<and> exit_code s' = exit_code s"
  using assms(1)
proof cases
  case (quit code)
  then show ?thesis using assms(2) by blast
qed (auto simp: BFileDescriptor_Init_def BReactor_AddFileDescriptor_def BReactor_RemoveFileDescriptor_def BReactor_SetFileDescriptorEvents_def
    BReactorLimit_Init_def BReactorLimit_Free_def BReactorLimit_Increment_def BReactorLimit_SetLimit_def E_ASSERT_def set_returned_ptr_def clear_result_def Let_def
    dest: set_timer_exit on_timers_exit split: prod.splits option.splits)

lemma client_quits_exit:
  "client_quits K watched clock w cs w' \<Longrightarrow>
     exiting (snd w') = (exiting (snd w) \<or> cs \<noteq> []) \<and> exit_code (snd w') = (if cs = [] then exit_code (snd w) else last cs)"
proof (induction rule: client_quits.induct)
  case (other_step cs l s l' s')
  then show ?case using other_step_exit [OF other_step.hyps(2,3)] by simp
qed (simp_all add: BReactor_Quit_def)

lemma client_quits_steps: "client_quits K watched clock w cs w' \<Longrightarrow> (client_step K watched clock)\<^sup>*\<^sup>* w w'"
  by (induction rule: client_quits.induct) (auto intro: rtranclp.rtrancl_into_rtrancl quit)

text \<open>
  The loop as a whole: what a handler does are steps of clients, among them calls of \<open>BReactor_Quit\<close> with the codes \<open>quits\<close>. \<open>P\<close> is what the clients
  know at the start of each round, such as which objects they have initialised.
\<close>

definition handlers_ok :: "'k kernel_ops \<Rightarrow> ('k \<Rightarrow> int \<Rightarrow> nat option) \<Rightarrow> ('k \<Rightarrow> int) \<Rightarrow> (live \<times> 'k BReactor \<Rightarrow> bool)
    \<Rightarrow> (call \<Rightarrow> 'k BReactor \<Rightarrow> 'k BReactor) \<Rightarrow> (call \<Rightarrow> 'k BReactor \<Rightarrow> int list) \<Rightarrow> bool" where
  "handlers_ok K watched clock P hnd quits \<longleftrightarrow> (\<forall>l s s1 c. P (l, s) \<and> \<not> exiting s \<and> exec_round K s = Some (s1, c) \<longrightarrow>
     (case c of
        None \<Rightarrow> P (l, s1)
      | Some c \<Rightarrow> \<exists>l'. client_quits K watched clock (l, s1) (quits c s1) (l', hnd c s1) \<and> P (l', hnd c s1)))"

lemma clients_inv: "(client_step K watched clock)\<^sup>*\<^sup>* w w' \<Longrightarrow> kernel_ok K watched clock \<Longrightarrow> rinv watched clock w \<Longrightarrow> rinv watched clock w'"
  by (induction rule: rtranclp_induct) (auto intro: client_inv)

text \<open>The state after at most \<open>n\<close> rounds with their handlers.\<close>

fun run_rounds :: "'k kernel_ops \<Rightarrow> (call \<Rightarrow> 'k BReactor \<Rightarrow> 'k BReactor) \<Rightarrow> nat \<Rightarrow> 'k BReactor \<Rightarrow> 'k BReactor option" where
  "run_rounds K hnd 0 s = Some s"
| "run_rounds K hnd (Suc n) s =
    (if exiting s then Some s
     else do { (s, c) \<leftarrow> exec_round K s; run_rounds K hnd n (case c of None \<Rightarrow> s | Some c \<Rightarrow> hnd c s) })"

lemma dispatch_fd_exit: "exiting (fst (dispatch_fd s)) = exiting s"
  by (simp add: dispatch_fd_def E_ASSERT_def set_returned_ptr_def Let_def split: option.split)

lemma round_exit:
  assumes K: "kernel_ok K watched clock" and r: "rinv watched clock (l, s)" and e: "exec_round K s = Some (s', c)"
  shows "exiting s' = exiting s"
proof (cases "reactor_idle s")
  case True
  then have "wait_for_events K s = Some s'" using e by (auto simp: exec_round_def reactor_idle_def bind_eq_Some_conv)
  then show ?thesis using wait_ok_inv [OF K r True] by (simp add: waited_def)
next
  case False
  then show ?thesis using e dispatch_fd_exit [of s]
    by (auto simp: exec_round_def reactor_idle_def Let_def split: if_splits prod.splits option.splits)
qed

text \<open>A round with its handler: the invariants, and whether the handler made the loop exit.\<close>

lemma round_handler:
  assumes K: "kernel_ok K watched clock" and h: "handlers_ok K watched clock P hnd quits" and r: "rinv watched clock (l, s)" "P (l, s)" "\<not> exiting s"
    and e: "exec_round K s = Some (s1, c)"
  obtains l' where "rinv watched clock (l', case c of None \<Rightarrow> s1 | Some c \<Rightarrow> hnd c s1)" "P (l', case c of None \<Rightarrow> s1 | Some c \<Rightarrow> hnd c s1)"
    "exiting (case c of None \<Rightarrow> s1 | Some c \<Rightarrow> hnd c s1) \<longleftrightarrow> (case c of None \<Rightarrow> False | Some c \<Rightarrow> quits c s1 \<noteq> [])"
    "\<And>d. c = Some d \<Longrightarrow> quits d s1 \<noteq> [] \<Longrightarrow> exit_code (hnd d s1) = last (quits d s1)"
proof -
  have r1: "rinv watched clock (l, s1)" using round_inv [OF K r(1) e] .
  have x: "\<not> exiting s1" using round_exit [OF K r(1) e] r(3) by simp
  show thesis
  proof (cases c)
    case None
    then show ?thesis using that [of l] r1 x h [unfolded handlers_ok_def, rule_format, of l s s1 c] r(2,3) e by simp
  next
    case (Some d)
    obtain l' where l': "client_quits K watched clock (l, s1) (quits d s1) (l', hnd d s1)" "P (l', hnd d s1)"
      using h [unfolded handlers_ok_def, rule_format, of l s s1 c] r(2,3) e Some by auto
    show ?thesis
      using that [of l'] Some l'(2) clients_inv [OF client_quits_steps [OF l'(1)] K r1] client_quits_exit [OF l'(1)] x by simp
  qed
qed

lemma rounds_inv:
  "run_rounds K hnd n s = Some s' \<Longrightarrow> kernel_ok K watched clock \<Longrightarrow> handlers_ok K watched clock P hnd quits \<Longrightarrow> rinv watched clock (l, s) \<Longrightarrow> P (l, s) \<Longrightarrow>
     \<exists>l'. rinv watched clock (l', s') \<and> P (l', s')"
proof (induction n arbitrary: l s)
  case (Suc n)
  show ?case
  proof (cases "exiting s")
    case False
    with Suc.prems(1) obtain s1 c where e: "exec_round K s = Some (s1, c)" "run_rounds K hnd n (case c of None \<Rightarrow> s1 | Some c \<Rightarrow> hnd c s1) = Some s'"
      by (auto simp: bind_eq_Some_conv)
    show ?thesis
      by (rule round_handler [OF Suc.prems(2,3,4,5) False e(1)]) (rule Suc.IH [OF e(2) Suc.prems(2,3)])
  qed (use Suc.prems in auto)
qed auto

text \<open>The round in which the loop was made to exit is the first in which a handler called \<open>BReactor_Quit\<close>.\<close>

lemma rounds_exit:
  "run_rounds K hnd n s = Some s' \<Longrightarrow> kernel_ok K watched clock \<Longrightarrow> handlers_ok K watched clock P hnd quits \<Longrightarrow> rinv watched clock (l, s) \<Longrightarrow> P (l, s) \<Longrightarrow>
     \<not> exiting s \<Longrightarrow> exiting s' \<Longrightarrow>
     \<exists>m s0 s1 c. run_rounds K hnd m s = Some s0 \<and> \<not> exiting s0 \<and> exec_round K s0 = Some (s1, Some c) \<and> quits c s1 \<noteq> []
       \<and> s' = hnd c s1 \<and> exit_code s' = last (quits c s1)"
proof (induction n arbitrary: l s)
  case (Suc n)
  let ?next = "\<lambda>s1 c. case c of None \<Rightarrow> s1 | Some c \<Rightarrow> hnd c s1"
  from Suc.prems(1,6) obtain s1 c where e: "exec_round K s = Some (s1, c)" "run_rounds K hnd n (?next s1 c) = Some s'"
    by (auto simp: bind_eq_Some_conv)
  obtain l' where l': "rinv watched clock (l', ?next s1 c)" "P (l', ?next s1 c)"
    "exiting (?next s1 c) \<longleftrightarrow> (case c of None \<Rightarrow> False | Some c \<Rightarrow> quits c s1 \<noteq> [])"
    "\<And>d. c = Some d \<Longrightarrow> quits d s1 \<noteq> [] \<Longrightarrow> exit_code (hnd d s1) = last (quits d s1)"
    by (rule round_handler [OF Suc.prems(2,3,4,5,6) e(1)], rule that)
  show ?case
  proof (cases "exiting (?next s1 c)")
    case True
    then obtain d where d: "c = Some d" "quits d s1 \<noteq> []" using l'(3) by (cases c) auto
    have "s' = hnd d s1" using e(2) True d(1) by (cases n) auto
    then show ?thesis using e(1) d l'(4) Suc.prems(6) by (intro exI [of _ 0] exI [of _ s] exI [of _ s1] exI [of _ d]) simp
  next
    case False
    from Suc.IH [OF e(2) Suc.prems(2,3) l'(1,2) False Suc.prems(7)] obtain m s0 s2 d where
      "run_rounds K hnd m (?next s1 c) = Some s0" "\<not> exiting s0" "exec_round K s0 = Some (s2, Some d)" "quits d s2 \<noteq> []"
      "s' = hnd d s2" "exit_code s' = last (quits d s2)" by blast
    moreover from this(1) have "run_rounds K hnd (Suc m) s = Some s0" using e(1) Suc.prems(6) by simp
    ultimately show ?thesis by blast
  qed
qed auto

lemma rounds_step: "run_rounds K hnd m s = Some s0 \<Longrightarrow> \<not> exiting s0 \<Longrightarrow> exec_round K s0 = Some (s1, c) \<Longrightarrow>
  run_rounds K hnd (Suc m) s = Some (case c of None \<Rightarrow> s1 | Some c \<Rightarrow> hnd c s1)"
proof (induction m arbitrary: s)
  case (Suc m)
  have x: "\<not> exiting s" using Suc.prems(1,2) by auto
  then obtain a b where e: "exec_round K s = Some (a, b)" "run_rounds K hnd m (case b of None \<Rightarrow> a | Some c \<Rightarrow> hnd c a) = Some s0"
    using Suc.prems(1) by (auto simp: bind_eq_Some_conv)
  show ?case using Suc.IH [OF e(2) Suc.prems(2,3)] x e(1) by (subst run_rounds.simps(2)) simp
qed simp

lemma Exec_rounds: "BReactor_Exec K hnd s = Some r \<Longrightarrow> \<exists>n. run_rounds K hnd n s = Some (fst r) \<and> exiting (fst r) \<and> snd r = exit_code (fst r)"
proof (induction rule: BReactor_Exec.raw_induct [rotated 1, consumes 1])
  case (1 rec K hnd s r)
  show ?case
  proof (cases "exiting s")
    case True
    then show ?thesis using "1.hyps" by (auto intro: exI [of _ 0])
  next
    case False
    then obtain s1 c where e: "exec_round K s = Some (s1, c)" "rec K hnd (case c of None \<Rightarrow> s1 | Some c \<Rightarrow> hnd c s1) = Some r"
      using "1.hyps" by (auto simp: bind_eq_Some_conv)
    obtain n where "run_rounds K hnd n (case c of None \<Rightarrow> s1 | Some c \<Rightarrow> hnd c s1) = Some (fst r)" "exiting (fst r)" "snd r = exit_code (fst r)"
      using "1.IH" [OF e(2)] by blast
    then show ?thesis using False e(1) by (intro exI [of _ "Suc n"]) simp
  qed
qed

lemma rounds_Exec: "run_rounds K hnd n s = Some s' \<Longrightarrow> exiting s' \<Longrightarrow> BReactor_Exec K hnd s = Some (s', exit_code s')"
proof (induction n arbitrary: s)
  case (Suc n)
  then show ?case by (subst BReactor_Exec.simps) (auto simp: bind_eq_Some_conv split: if_splits)
qed (simp add: BReactor_Exec.simps)

text \<open>\<open>BReactor_Synchronize\<close> runs jobs until the given one is on top of the stack, and does not run that one, or until some handler quits.\<close>

lemma Synchronize_stops:
  "BReactor_Synchronize hnd ref s = Some r \<Longrightarrow> snd r \<Longrightarrow> \<not> exiting (fst r) \<and> BPendingGroup_PeekJob (pending_jobs (fst r)) = Some ref"
proof (induction rule: BReactor_Synchronize.raw_induct [rotated 1, consumes 1])
  case (1 rec hnd ref s r)
  then show ?case by (auto simp: Let_def E_ASSERT_def split: if_splits prod.splits option.splits)
qed

lemma bit_masks:
  fixes w :: "32 word"
  shows "(w AND 1 = 0) = (\<not> bit w 0)" "(w AND 2 = 0) = (\<not> bit w 1)" "(w AND 4 = 0) = (\<not> bit w 2)" "(w AND 8 = 0) = (\<not> bit w 3)"
    "(w AND 16 = 0) = (\<not> bit w 4)"
  using and_exp_eq_0_iff_not_bit [of w 0] and_exp_eq_0_iff_not_bit [of w 1] and_exp_eq_0_iff_not_bit [of w 2]
    and_exp_eq_0_iff_not_bit [of w 3] and_exp_eq_0_iff_not_bit [of w 4] by simp_all

lemma fd_events_bits:
  "bit (fd_events w g) n \<longleftrightarrow> n = 0 \<and> bit w 0 \<and> bit g 0 \<or> n = 1 \<and> bit w 1 \<and> bit g 2 \<or> n = 2 \<and> bit g 3 \<or> n = 3 \<and> bit g 4"
proof -
  have c: "bit (1 :: 32 word) n = (n = 0)" "bit (2 :: 32 word) n = (n = 1)" "bit (4 :: 32 word) n = (n = 2)" "bit (8 :: 32 word) n = (n = 3)"
    using bit_exp_iff [of 0 n, where 'a = "32 word"] bit_exp_iff [of 1 n, where 'a = "32 word"] bit_exp_iff [of 2 n, where 'a = "32 word"]
      bit_exp_iff [of 3 n, where 'a = "32 word"] by auto
  have i: "bit (if P then x OR y else x) n = (bit x n \<or> P \<and> bit y n)" for P and x y :: "32 word" by (simp add: bit_or_iff)
  show ?thesis unfolding fd_events_def Let_def bit_masks i c by auto
qed

section \<open>Properties\<close>

text \<open>The states of the loop and its clients that a kernel as documented allows.\<close>

definition reactor_reach :: "'k kernel_ops \<Rightarrow> ('k \<Rightarrow> int \<Rightarrow> nat option) \<Rightarrow> ('k \<Rightarrow> int) \<Rightarrow> live \<times> 'k BReactor \<Rightarrow> bool" where
  "reactor_reach K watched clock = reach (reactor_initial K watched clock) (\<lambda>w w'. kernel_ok K watched clock \<and> reactor_step K watched clock w w')"

lemma reactor_reachD:
  assumes "reactor_reach K watched clock (l, s)"
  shows "rinv watched clock (l, s)" and "kernel_ok K watched clock"
proof -
  show "rinv watched clock (l, s)" using loop.reach_inv assms unfolding reactor_reach_def .
  show "kernel_ok K watched clock" using assms unfolding reactor_reach_def
    by (cases rule: reach.cases) (auto simp: reactor_initial_def)
qed

text \<open>When the clients have freed their objects, \<open>BReactor_Free\<close> finds nothing left.\<close>

lemma Free_finds_nothing:
  assumes r: "reactor_reach K watched clock (l, s)" and l: "live_jobs l = {}" "live_timers l = {}" "live_limits l = {}"
  shows "\<not> r_fault (BReactor_Free True s)"
proof -
  note i = reactor_reachD(1) [OF r]
  obtain js where j: "job_stack {} (pending_jobs s) js" using i l by (auto simp: rinv_def jobs_ok_def)
  obtain rs es where t: "timers_rep {} (r_timers s) rs es" using i l by (auto simp: rinv_def timers_ok_def)
  obtain xs where x: "list_rep (active_limits_list s) xs" "xs = []" using i l by (auto simp: rinv_def limits_ok_def)
  have "js = []" "rs = []" "es = []" using job_stackD(1,2) [OF j] timers_repD(5,6) [OF t] by auto
  then have "\<not> BPendingGroup_HasJobs (pending_jobs s)" "CAvl_IsEmpty (timers_tree (r_timers s))"
    "LinkedList1_GetFirst (timers_expired_list (r_timers s)) = None" "LinkedList1_GetFirst (active_limits_list s) = None"
    using linked_first [OF job_stackD(3) [OF j]] first_timer [OF t] ll.first_law [OF timers_repD(2) [OF t]] ll.first_law [OF x(1)] x(2)
    by (auto simp: pending_defs CAvl_IsEmpty_def CAvl_GetFirst_def split: option.splits)
  then show ?thesis using i by (simp add: BReactor_Free_def LinkedList1_IsEmpty_def LinkedList1_GetFirst_def rinv_def)
qed

text \<open>
  A small system for examples: its epoll instance reports the descriptor 3 as readable and hung up whenever it is watched, and waits for
  nothing else but the timeout; the clock only moves while waiting.
\<close>

definition demo_kernel :: "((int \<Rightarrow> nat option) \<times> int) kernel_ops" where
  "demo_kernel = \<lparr>
     k_ctl = (\<lambda>op fd ev (w, now). case op of
        EPOLL_CTL_ADD \<Rightarrow> if w fd = None then (True, (w(fd := snd ev), now)) else (False, (w, now))
      | EPOLL_CTL_MOD \<Rightarrow> (w fd \<noteq> None, (w(fd := if w fd = None then None else snd ev), now))
      | EPOLL_CTL_DEL \<Rightarrow> (w fd \<noteq> None, (w(fd := None), now))),
     k_wait = (\<lambda>t (w, now). case w 3 of
        Some b \<Rightarrow> Some (EP_Events [(EPOLLIN OR EPOLLHUP, b)], (w, now))
      | None \<Rightarrow> if 0 \<le> t then Some (EP_Events [], (w, now + t)) else None),
     k_time = (\<lambda>(w, now). (now, (w, now)))\<rparr>"

definition demo_start :: "((int \<Rightarrow> nat option) \<times> int) BReactor" where
  "demo_start = \<lparr>exiting = False, exit_code = 0,
     pending_jobs = BPendingGroup_Init \<lparr>list_first = Some 9, node_next = \<lambda>_. None, node_prev = \<lambda>_. None, job_handler = \<lambda>_. 0\<rparr>,
     r_timers = timers_Init example_timers, active_limits_list = LinkedList1_Init \<lparr>ll_first = Some 9, ll_last = None, ll_p = \<lambda>_. None, ll_n = \<lambda>_. None\<rparr>,
     limit_max = \<lambda>_. 0, limit_count = \<lambda>_. 0, r_kernel = (\<lambda>_. None, 50), epoll_results = [], epoll_results_num = 0, epoll_results_pos = 0,
     fd_num = \<lambda>_. 0, fd_handler = \<lambda>_. 0, fd_user = \<lambda>_. 0, fd_active = \<lambda>_. False, waitEvents = \<lambda>_. 0, epoll_returned_ptr = \<lambda>_. None, r_fault = False\<rparr>"

definition no_live :: live where
  "no_live = \<lparr>live_jobs = {}, live_timers = {}, live_fds = {}, live_limits = {}\<rparr>"

definition demo_jobs :: "((int \<Rightarrow> nat option) \<times> int) BReactor" where
  "demo_jobs = demo_start\<lparr>pending_jobs := BSmallPending_Set 6 (BSmallPending_Init 6 11 (pending_jobs demo_start))\<rparr>"

definition demo_fd :: "((int \<Rightarrow> nat option) \<times> int) BReactor" where
  "demo_fd = BReactor_SetFileDescriptorEvents demo_kernel 4 BREACTOR_READ
     (fst (BReactor_AddFileDescriptor demo_kernel 4 (BFileDescriptor_Init 4 3 10 20 demo_start)))"

definition demo_got :: "((int \<Rightarrow> nat option) \<times> int) BReactor" where
  "demo_got = demo_fd\<lparr>epoll_results := [(17, Some 4)], epoll_results_num := 1, epoll_returned_ptr := (epoll_returned_ptr demo_fd)(4 := Some 0)\<rparr>"

lemma demo_kernel_ok: "kernel_ok demo_kernel fst snd"
  by (auto simp: kernel_ok_def ctl_ok_def wait_ok_def time_ok_def demo_kernel_def fun_eq_iff split: ctl_op.splits option.splits if_splits prod.splits)

lemma demo_interrupts: "finite_interrupts demo_kernel (\<lambda>_. 0)"
  by (auto simp: finite_interrupts_def demo_kernel_def split: option.splits if_splits)

lemma demo_reach_start: "reactor_reach demo_kernel fst snd (no_live, demo_start)"
proof -
  let ?s = "demo_start\<lparr>exiting := True, pending_jobs := \<lparr>list_first = Some 9, node_next = \<lambda>_. None, node_prev = \<lambda>_. None, job_handler = \<lambda>_. 0\<rparr>,
    r_timers := example_timers, active_limits_list := \<lparr>ll_first = Some 9, ll_last = None, ll_p = \<lambda>_. None, ll_n = \<lambda>_. None\<rparr>\<rparr>"
  have "BReactor_Init (Some (\<lambda>_. None, 50)) ?s = Some demo_start" by (simp add: BReactor_Init_def demo_start_def Let_def)
  moreover have "\<not> r_fault ?s" "\<not> timers_fault (r_timers ?s)" "\<not> avl_fault (timers_tree (r_timers ?s))"
    by (simp_all add: demo_start_def example_timers_def)
  ultimately have "reactor_start fst (no_live, demo_start)" unfolding reactor_start_def no_live_def by fastforce
  then show ?thesis unfolding reactor_reach_def by (intro reach_start) (simp add: reactor_initial_def demo_kernel_ok)
qed

lemma demo_client: "reactor_reach demo_kernel fst snd w \<Longrightarrow> client_step demo_kernel fst snd w w' \<Longrightarrow> reactor_reach demo_kernel fst snd w'"
  unfolding reactor_reach_def by (erule reach_step) (simp add: demo_kernel_ok client)

lemma demo_reach_jobs: "reactor_reach demo_kernel fst snd (no_live\<lparr>live_jobs := {6}\<rparr>, demo_jobs)"
proof -
  have "client_step demo_kernel fst snd (no_live, demo_start)
      (no_live\<lparr>live_jobs := {6}\<rparr>, demo_start\<lparr>pending_jobs := BSmallPending_Init 6 11 (pending_jobs demo_start)\<rparr>)"
    using job_init [of 6 no_live demo_kernel fst snd demo_start 11] by (simp add: no_live_def)
  from demo_client [OF demo_client [OF demo_reach_start this] job_set [of 6]] show ?thesis
    by (simp add: demo_jobs_def no_live_def)
qed

lemma demo_added:
  "fst (BReactor_AddFileDescriptor demo_kernel 4 (BFileDescriptor_Init 4 3 10 20 demo_start)) = demo_start\<lparr>r_kernel := ([3 \<mapsto> 4], 50),
     fd_num := (\<lambda>_. 0)(4 := 3), fd_handler := (\<lambda>_. 0)(4 := 10), fd_user := (\<lambda>_. 0)(4 := 20), fd_active := (\<lambda>_. False)(4 := True),
     waitEvents := (\<lambda>_. 0)(4 := 0), epoll_returned_ptr := (\<lambda>_. None)(4 := None)\<rparr>"
  by (simp add: BFileDescriptor_Init_def BReactor_AddFileDescriptor_def set_returned_ptr_def demo_kernel_def demo_start_def Let_def)

lemma demo_fd_eq:
  "demo_fd = demo_start\<lparr>r_kernel := ([3 \<mapsto> 4], 50), fd_num := (\<lambda>_. 0)(4 := 3), fd_handler := (\<lambda>_. 0)(4 := 10), fd_user := (\<lambda>_. 0)(4 := 20),
     fd_active := (\<lambda>_. False)(4 := True), waitEvents := (\<lambda>_. 0)(4 := 1), epoll_returned_ptr := (\<lambda>_. None)(4 := None)\<rparr>"
  unfolding demo_fd_def demo_added by (simp add: BReactor_SetFileDescriptorEvents_def demo_kernel_def demo_start_def Let_def)

lemma demo_start_idle:
  "\<not> BPendingGroup_HasJobs (pending_jobs demo_start)" "LinkedList1_GetFirst (timers_expired_list (r_timers demo_start)) = None"
  "LinkedList1_IsEmpty (timers_expired_list (r_timers demo_start))" "LinkedList1_GetFirst (active_limits_list demo_start) = None"
  "CAvl_GetFirst (timers_tree (r_timers demo_start)) = Some None"
  "epoll_results_num demo_start = 0" "epoll_results_pos demo_start = 0" "\<not> exiting demo_start" "\<not> r_fault demo_start"
proof -
  have "job_stack {} (pending_jobs demo_start) []" by (simp add: demo_start_def job_stack_start)
  then show "\<not> BPendingGroup_HasJobs (pending_jobs demo_start)" using linked_first [OF job_stackD(3), of _ _ "[]"] by (auto simp: pending_defs)
  have t: "timers_rep {} (r_timers demo_start) [] []" by (simp add: demo_start_def timers_init_ok example_timers_def)
  show "LinkedList1_GetFirst (timers_expired_list (r_timers demo_start)) = None" using ll.first_law [OF timers_repD(2) [OF t]] by simp
  then show "LinkedList1_IsEmpty (timers_expired_list (r_timers demo_start))" by (simp add: LinkedList1_IsEmpty_def LinkedList1_GetFirst_def)
  show "CAvl_GetFirst (timers_tree (r_timers demo_start)) = Some None" using first_timer [OF t] by simp
qed (simp_all add: demo_start_def LinkedList1_Init_def LinkedList1_GetFirst_def)

lemma demo_fd_wait: "wait_for_events demo_kernel demo_fd = Some demo_got"
  unfolding wait_for_events_def Let_def
  by (simp add: demo_fd_eq demo_got_def demo_start_idle wait_loop.simps wait_once_def demo_kernel_def set_epoll_fd_pointers_def set_returned_ptr_def reset_limits.simps)

lemma demo_reach_fd: "reactor_reach demo_kernel fst snd (no_live\<lparr>live_fds := {4}\<rparr>, demo_fd)"
proof -
  let ?l = "no_live\<lparr>live_fds := {4}\<rparr>"
  let ?s1 = "BFileDescriptor_Init 4 3 10 20 demo_start"
  let ?s2 = "fst (BReactor_AddFileDescriptor demo_kernel 4 ?s1)"
  have "client_step demo_kernel fst snd (no_live, demo_start) (?l, ?s1)"
    using fd_init [of 4 no_live demo_kernel fst snd demo_start 3 10 20] by (simp add: no_live_def)
  moreover have "client_step demo_kernel fst snd (?l, ?s1) (?l, ?s2)"
    by (rule fd_add) (simp_all add: no_live_def BFileDescriptor_Init_def)
  moreover have "client_step demo_kernel fst snd (?l, ?s2) (?l, demo_fd)"
    unfolding demo_fd_def by (rule fd_set) (simp_all add: no_live_def demo_added)
  ultimately show ?thesis using demo_reach_start demo_client by blast
qed

lemma demo_reach_got: "reactor_reach demo_kernel fst snd (no_live\<lparr>live_fds := {4}\<rparr>, demo_got)"
proof -
  have "exec_round demo_kernel demo_fd = Some (demo_got, None)"
    using demo_fd_wait by (simp add: exec_round_def) (simp add: demo_fd_eq demo_start_idle)
  then have "reactor_step demo_kernel fst snd (no_live\<lparr>live_fds := {4}\<rparr>, demo_fd) (no_live\<lparr>live_fds := {4}\<rparr>, demo_got)"
    by (intro round) (simp_all add: demo_fd_eq demo_start_idle)
  with demo_reach_fd show ?thesis unfolding reactor_reach_def by (blast intro: reach_step demo_kernel_ok)
qed

text \<open>
  C7. Whatever the clients and the kernel do within their contracts, no assertion of the event loop ever fails, not in
  the timers and their tree either. The descriptors the kernel watches are exactly the active ones, and the events
  still to be dispatched are events of active descriptors, each linked with its entry.
\<close>

theorem reactor_never_faults:
  assumes "reactor_reach K watched clock (l, s)"
  shows "\<not> r_fault s \<and> \<not> timers_fault (r_timers s) \<and> \<not> avl_fault (timers_tree (r_timers s))
    \<and> (\<forall>fd b. watched (r_kernel s) fd = Some b \<longleftrightarrow> b \<in> live_fds l \<and> fd_active s b \<and> fd_num s b = fd)
    \<and> (\<forall>i b. epoll_results_pos s \<le> i \<and> i < epoll_results_num s \<and> snd (epoll_results s ! i) = Some b
         \<longleftrightarrow> b \<in> live_fds l \<and> fd_active s b \<and> epoll_returned_ptr s b = Some i)"
  using reactor_reachD(1) [OF assms] by (auto simp: rinv_def fds_ok_def timers_ok_def timers_rep_def avl_rep_def)

theorem reactor_never_faults_witness:
  "\<not> r_fault demo_got \<and> \<not> timers_fault (r_timers demo_got) \<and> fst (r_kernel demo_got) 3 = Some 4 \<and> fd_active demo_got 4
    \<and> snd (epoll_results demo_got ! 0) = Some 4 \<and> epoll_returned_ptr demo_got 4 = Some 0"
  using reactor_never_faults [OF demo_reach_got] by (auto simp: demo_got_def demo_fd_eq demo_start_idle)

definition expired_call :: "timers \<Rightarrow> nat \<Rightarrow> call" where
  "expired_call tm t = (if is_small tm t then Small_handler (timer_handler tm t) t else Heavy_handler (timer_handler tm t) (timer_user tm t))"

text \<open>
  C8. The order of dispatch. A round runs the job on top of the stack if there is one; else the handler of the first expired
  timer, whose deadline has passed and is not after that of any other expired timer; else it takes the next descriptor event; and it
  waits only when nothing of this is left.
\<close>

theorem reactor_dispatch_order:
  assumes "reactor_reach K watched clock (l, s)" and "job_stack (live_jobs l) (pending_jobs s) xs" and "timers_rep (live_timers l) (r_timers s) rs es"
  shows "exec_round K s =
      (case xs of
         p # _ \<Rightarrow> Some (s\<lparr>pending_jobs := fst (BPendingGroup_ExecuteJob (pending_jobs s))\<rparr>, Some (Job_handler (job_handler (pending_jobs s) p) p))
       | [] \<Rightarrow> (case es of
           t # _ \<Rightarrow> Some (s\<lparr>r_timers := dispatch_timer t (r_timers s)\<rparr>, Some (expired_call (r_timers s) t))
         | [] \<Rightarrow> if epoll_results_pos s < epoll_results_num s then Some (dispatch_fd s)
                 else map_option (\<lambda>s'. (s', None)) (wait_for_events K s)))
    \<and> sorted (map (absTime (r_timers s)) es) \<and> (\<forall>t\<in>set es. absTime (r_timers s) t \<le> clock (r_kernel s))"
proof -
  have j: "BPendingGroup_HasJobs (pending_jobs s) = (xs \<noteq> [])"
    using linked_first [OF job_stackD(3) [OF assms(2)]] by (cases xs) (auto simp: pending_defs)
  have f: "LinkedList1_GetFirst (timers_expired_list (r_timers s)) = head_or es None" using ll.first_law timers_repD(2) [OF assms(3)] by blast
  have "exec_round K s = (case xs of
         p # _ \<Rightarrow> Some (s\<lparr>pending_jobs := fst (BPendingGroup_ExecuteJob (pending_jobs s))\<rparr>, Some (Job_handler (job_handler (pending_jobs s) p) p))
       | [] \<Rightarrow> (case es of
           t # _ \<Rightarrow> Some (s\<lparr>r_timers := dispatch_timer t (r_timers s)\<rparr>, Some (expired_call (r_timers s) t))
         | [] \<Rightarrow> if epoll_results_pos s < epoll_results_num s then Some (dispatch_fd s)
                 else map_option (\<lambda>s'. (s', None)) (wait_for_events K s)))"
  proof (cases xs)
    case (Cons p ys)
    then show ?thesis using job_stack_Execute [of "live_jobs l" "pending_jobs s" p ys] assms(2) j
      by (auto simp: exec_round_def split: prod.splits)
  next
    case Nil
    show ?thesis
    proof (cases es)
      case (Cons t us)
      then have "same_fields (r_timers s) (dispatch_timer t (r_timers s))" using dispatch_timer_ok assms(3) by blast
      then show ?thesis using Nil Cons j f by (simp add: exec_round_def Let_def expired_call_def same_fields_def)
    qed (use Nil j f in \<open>simp add: exec_round_def map_option_case split: option.split\<close>)
  qed
  moreover obtain rs' es' where e: "timers_rep (live_timers l) (r_timers s) rs' es'" "expired_ok (clock (r_kernel s)) (r_timers s) es'"
    using reactor_reachD(1) [OF assms(1)] by (auto simp: rinv_def timers_ok_def)
  moreover have "es' = es" using list_rep_unique timers_repD(2) [OF e(1)] timers_repD(2) [OF assms(3)] by blast
  moreover have "ascending (compare_timers tm) zs \<Longrightarrow> sorted (map (absTime tm) zs)" for tm zs
    by (induction zs) (auto simp: compare_timers_less)
  ultimately show ?thesis by (simp add: expired_ok_def)
qed

theorem reactor_dispatch_order_witness:
  "map_option snd (exec_round demo_kernel demo_jobs) = Some (Some (Job_handler 11 6))"
proof -
  have "job_stack {} (pending_jobs demo_start) []" by (simp add: demo_start_def job_stack_start)
  from pq.stack_set [OF job_stack_Init [OF this, of 6 11], of 6] have "job_stack {6} (pending_jobs demo_jobs) [6]" by (simp add: demo_jobs_def)
  moreover have "timers_rep {} (r_timers demo_jobs) [] []" by (simp add: demo_jobs_def demo_start_def timers_init_ok example_timers_def)
  ultimately have "map_option snd (exec_round demo_kernel demo_jobs) = Some (Some (Job_handler (job_handler (pending_jobs demo_jobs) 6) 6))"
    using reactor_dispatch_order [OF demo_reach_jobs, of "[6]" "[]" "[]"] by (simp add: no_live_def)
  moreover have "job_handler (pending_jobs demo_jobs) 6 = 11"
    by (simp add: demo_jobs_def BSmallPending_Set_def BSmallPending_Init_def pending_defs Let_def split: option.split)
  ultimately show ?thesis by simp
qed

text \<open>
  C9. A descriptor that was removed is not dispatched any more, even if its event was already fetched: no entry still to come
  leads to it. And when a round takes the next entry, an entry that was cleared calls nobody; otherwise the
  descriptor is active, and its handler is called unless nothing happened that it waits for. The handler gets read and write events only as far as it
  asked for them, and errors and hang-ups always.
\<close>

theorem reactor_fd_events:
  assumes r: "reactor_reach K watched clock (l, s)"
  shows "(b \<in> live_fds l \<and> fd_active s b \<longrightarrow>
      (\<forall>i. epoll_results_pos s \<le> i \<and> i < epoll_results_num s \<longrightarrow> snd (epoll_results (BReactor_RemoveFileDescriptor K b s) ! i) \<noteq> Some b))
    \<and> (epoll_results_pos s < epoll_results_num s \<longrightarrow>
        (case epoll_results s ! epoll_results_pos s of
           (got, None) \<Rightarrow> snd (dispatch_fd s) = None
         | (got, Some c) \<Rightarrow> c \<in> live_fds l \<and> fd_active s c
             \<and> snd (dispatch_fd s) = (let ev = fd_events (waitEvents s c) got in if ev = 0 then None else Some (Fd_handler (fd_handler s c) (fd_user s c) ev))
             \<and> (\<forall>n. bit (fd_events (waitEvents s c) got) n \<longleftrightarrow> n = 0 \<and> bit (waitEvents s c) 0 \<and> bit got 0
                  \<or> n = 1 \<and> bit (waitEvents s c) 1 \<and> bit got 2 \<or> n = 2 \<and> bit got 3 \<or> n = 3 \<and> bit got 4)))"
proof (intro conjI impI)
  note K = reactor_reachD(2) [OF r] and i = reactor_reachD(1) [OF r]
  have f: "fds_ok watched l s" using i by (simp add: rinv_def)
  show "\<forall>i. epoll_results_pos s \<le> i \<and> i < epoll_results_num s \<longrightarrow> snd (epoll_results (BReactor_RemoveFileDescriptor K b s) ! i) \<noteq> Some b"
    if "b \<in> live_fds l \<and> fd_active s b"
  proof -
    have "rinv watched clock (l, BReactor_RemoveFileDescriptor K b s)" using inv_fd_remove [OF K i] that by blast
    then have g: "fds_ok watched l (BReactor_RemoveFileDescriptor K b s)" by (simp add: rinv_def)
    have "\<not> fd_active (BReactor_RemoveFileDescriptor K b s) b" "epoll_results_pos (BReactor_RemoveFileDescriptor K b s) = epoll_results_pos s"
      "epoll_results_num (BReactor_RemoveFileDescriptor K b s) = epoll_results_num s"
      by (simp_all add: BReactor_RemoveFileDescriptor_def Let_def clear_result_def E_ASSERT_def split: prod.split option.split)
    then show ?thesis using fds_okD(4) [OF g, of _ b] by auto
  qed
  assume p: "epoll_results_pos s < epoll_results_num s"
  note d = fds_okD(4) [OF f, of "epoll_results_pos s"]
  obtain got e where e: "epoll_results s ! epoll_results_pos s = (got, e)" by fastforce
  show "case epoll_results s ! epoll_results_pos s of
           (got, None) \<Rightarrow> snd (dispatch_fd s) = None
         | (got, Some c) \<Rightarrow> c \<in> live_fds l \<and> fd_active s c
             \<and> snd (dispatch_fd s) = (let ev = fd_events (waitEvents s c) got in if ev = 0 then None else Some (Fd_handler (fd_handler s c) (fd_user s c) ev))
             \<and> (\<forall>n. bit (fd_events (waitEvents s c) got) n \<longleftrightarrow> n = 0 \<and> bit (waitEvents s c) 0 \<and> bit got 0
                  \<or> n = 1 \<and> bit (waitEvents s c) 1 \<and> bit got 2 \<or> n = 2 \<and> bit got 3 \<or> n = 3 \<and> bit got 4)"
  proof (cases e)
    case (Some c)
    then have "c \<in> live_fds l \<and> fd_active s c \<and> epoll_returned_ptr s c = Some (epoll_results_pos s)" using d [of c] p e by auto
    then show ?thesis using e Some fd_events_bits by (simp add: dispatch_fd_def Let_def set_returned_ptr_def)
  qed (use e in \<open>simp add: dispatch_fd_def Let_def\<close>)
qed

theorem reactor_fd_events_witness:
  "snd (dispatch_fd demo_got) = Some (Fd_handler 10 20 (BREACTOR_READ OR BREACTOR_HUP))
    \<and> snd (epoll_results (BReactor_RemoveFileDescriptor demo_kernel 4 demo_got) ! 0) \<noteq> Some 4"
proof -
  note g = reactor_fd_events [OF demo_reach_got, of 4]
  have d: "epoll_results_pos demo_got = 0" "epoll_results_num demo_got = 1" "epoll_results demo_got = [(17, Some 4)]" "waitEvents demo_got 4 = 1"
    "fd_active demo_got 4" "fd_handler demo_got 4 = 10" "fd_user demo_got 4 = 20"
    by (simp_all add: demo_got_def demo_fd_eq demo_start_idle)
  show ?thesis using g by (simp add: d fd_events_def no_live_def)
qed

text \<open>
  C10. Waiting ends. If a timer is running and only finitely many interruptions come, \<open>wait_for_events\<close> returns, with
  something to dispatch. If the first timer has expired when the function looks at the clock, it returns at once, without a call that waits, and
  the limits stay as they are; otherwise, whether the wait ended with events or by its timeout, every limit counts from zero again.
\<close>

theorem wait_for_events_returns:
  assumes r: "reactor_reach K watched clock (l, s)" and f: "finite_interrupts K intr" and i: "reactor_idle s"
    and t: "timers_rep (live_timers l) (r_timers s) (t # rs) []"
  shows "\<exists>s'. wait_for_events K s = Some s' \<and> \<not> reactor_idle s' \<and> \<not> r_fault s'
    \<and> (if absTime (r_timers s) t \<le> fst (k_time K (r_kernel s))
       then limit_count s' = limit_count s \<and> r_kernel s' = snd (k_time K (r_kernel s))
       else \<forall>x\<in>live_limits l. limit_count s' x = 0)"
proof -
  note K = reactor_reachD(2) [OF r] and inv = reactor_reachD(1) [OF r]
  have w: "wait_for_events K s = Some s' \<Longrightarrow> \<not> reactor_idle s' \<and> \<not> r_fault s'" for s'
    using wait_ok_inv [OF K inv i] by (auto simp: waited_def reactor_idle_def rinv_def)
  show ?thesis
  proof (rule wait_start [OF K inv i])
    fix s' assume s': "wait_for_events K s = Some s'" "limit_count s' = limit_count s" "r_kernel s' = snd (k_time K (r_kernel s))"
      "\<And>t rs. timers_rep (live_timers l) (r_timers s) (t # rs) [] \<Longrightarrow> absTime (r_timers s) t \<le> fst (k_time K (r_kernel s))"
    then show ?thesis using w s'(4) [OF t] by auto
  next
    fix timeout now us s1
    assume s1: "wait_for_events K s = Option.bind (wait_loop K timeout now s1) reset_limits" "waiting watched clock l timeout now us s1"
      "timers_rep (live_timers l) (r_timers s) us []"
      "\<And>t rs. timers_rep (live_timers l) (r_timers s) (t # rs) [] \<Longrightarrow> fst (k_time K (r_kernel s)) < absTime (r_timers s) t"
    have "us = t # rs" using timers_running_unique [OF s1(3) t] .
    then have "timeout \<noteq> None" using s1(2) by (cases timeout) (auto simp: waiting_def)
    with s1(2) obtain s2 where s2: "wait_loop K timeout now s1 = Some s2" using wait_loop_ends [OF K f] by blast
    then have "rinv watched clock (l, s2)" using wait_loop_ok [OF s2 K s1(2)] by (simp add: waited_def)
    then obtain s' where "reset_limits s2 = Some s'" "\<forall>x\<in>live_limits l. limit_count s' x = 0" using limits_reset by blast
    then show ?thesis using s1(1) s2 w s1(4) [OF t] by auto
  qed
qed

theorem wait_for_events_returns_witness:
  "\<exists>s s'. reactor_set_timer demo_kernel 5 BTIMER_SET_ABSOLUTE 100 (demo_start\<lparr>r_timers := BSmallTimer_Init 5 12 (r_timers demo_start)\<rparr>) = Some s
     \<and> wait_for_events demo_kernel s = Some s' \<and> \<not> reactor_idle s' \<and> \<not> r_fault s'"
proof -
  let ?l = "no_live\<lparr>live_timers := {5}\<rparr>" and ?s = "demo_start\<lparr>r_timers := BSmallTimer_Init 5 12 (r_timers demo_start)\<rparr>"
  have "timers_rep {} (r_timers demo_start) [] []" by (simp add: demo_start_def timers_init_ok example_timers_def)
  then have "timers_rep {5} (r_timers ?s) [] []" using timer_Init_ok(1) [of "{}" _ "[]" "[]" 5 12] by simp
  from set_timer_ok [OF this, of 5 BTIMER_SET_ABSOLUTE 0 100] obtain tm rs where
    tm: "BReactor_SetSmallTimer 0 5 1 100 (r_timers ?s) = Some tm" "timers_rep {5} tm rs []" "set rs = {5}" by auto
  then have rs: "rs = 5 # tl rs" by (cases rs) auto
  let ?s1 = "?s\<lparr>r_timers := tm\<rparr>"
  have s1: "reactor_set_timer demo_kernel 5 BTIMER_SET_ABSOLUTE 100 ?s = Some ?s1" using tm(1) by (simp add: reactor_set_timer_def on_timers_def)
  have "client_step demo_kernel fst snd (no_live, demo_start) (?l, ?s)"
    using timer_init [of 5 no_live "BSmallTimer_Init 5 12 (r_timers demo_start)" 12 demo_start 0 0 demo_kernel fst snd] by (simp add: no_live_def)
  from demo_client [OF demo_client [OF demo_reach_start this] timer_set [of 5 _ BTIMER_SET_ABSOLUTE demo_kernel 100, OF _ _ s1]]
  have r: "reactor_reach demo_kernel fst snd (?l, ?s1)" by (simp add: no_live_def)
  have "LinkedList1_GetFirst (timers_expired_list tm) = None" using ll.first_law [OF timers_repD(2) [OF tm(2)]] by simp
  then have "reactor_idle ?s1" by (simp add: reactor_idle_def demo_start_idle)
  moreover have "timers_rep (live_timers ?l) (r_timers ?s1) (5 # tl rs) []" using tm(2) rs by (simp add: no_live_def)
  ultimately show ?thesis using wait_for_events_returns [OF r demo_interrupts] s1 by blast
qed

text \<open>
  C11. The event loop returns exactly when, after some number of rounds in which no handler did so, a handler calls \<open>BReactor_Quit\<close>. It
  returns right after that handler, with the code of the last call the handler made; and if the handlers keep to the rules for clients, what it
  leaves is a reactor in order.
\<close>

theorem Exec_returns_exit_code:
  assumes "reactor_reach K watched clock (l, s)" and "handlers_ok K watched clock P hnd quits" and "P (l, s)" and "\<not> exiting s"
  shows "(BReactor_Exec K hnd s = Some (s', code) \<longleftrightarrow>
      (\<exists>n s0 s1 c. run_rounds K hnd n s = Some s0 \<and> \<not> exiting s0 \<and> exec_round K s0 = Some (s1, Some c)
        \<and> quits c s1 \<noteq> [] \<and> s' = hnd c s1 \<and> code = last (quits c s1)))
    \<and> (BReactor_Exec K hnd s = Some (s', code) \<longrightarrow> \<not> r_fault s' \<and> \<not> timers_fault (r_timers s') \<and> (\<exists>l'. P (l', s')))"
proof -
  note K = reactor_reachD(2) [OF assms(1)] and inv = reactor_reachD(1) [OF assms(1)]
  have e: "BReactor_Exec K hnd s = Some (s', code) \<longleftrightarrow> (\<exists>n. run_rounds K hnd n s = Some s') \<and> exiting s' \<and> code = exit_code s'"
    using Exec_rounds [of K hnd s "(s', code)"] rounds_Exec [of K hnd _ s s'] by auto
  have quitting: "(\<exists>n. run_rounds K hnd n s = Some s') \<and> exiting s' \<and> exit_code s' = last (quits c s1)"
    if t: "run_rounds K hnd n s = Some s0" "\<not> exiting s0" "exec_round K s0 = Some (s1, Some c)" "quits c s1 \<noteq> []" "s' = hnd c s1" for n s0 s1 c
  proof -
    obtain l0 where "rinv watched clock (l0, s0)" "P (l0, s0)" using rounds_inv [OF t(1) K assms(2) inv assms(3)] by blast
    then have "exiting s' \<and> exit_code s' = last (quits c s1)"
      using t by (elim round_handler [OF K assms(2) _ _ t(2,3)]) simp_all
    moreover have "run_rounds K hnd (Suc n) s = Some s'" using rounds_step [OF t(1-3)] t(5) by (simp del: run_rounds.simps)
    ultimately show ?thesis by blast
  qed
  have "\<not> r_fault s' \<and> \<not> timers_fault (r_timers s') \<and> (\<exists>l'. P (l', s'))" if "run_rounds K hnd n s = Some s'" for n
    using rounds_inv [OF that K assms(2) inv assms(3)] by (auto simp: rinv_def timers_ok_def timers_rep_def)
  then show ?thesis using e quitting rounds_exit [OF _ K assms(2) inv assms(3,4)] by metis
qed

text \<open>A handler that calls \<open>BReactor_Quit\<close> twice.\<close>

theorem Exec_returns_exit_code_witness:
  "\<exists>s'. BReactor_Exec demo_kernel (\<lambda>c s. BReactor_Quit 7 (BReactor_Quit 5 s)) demo_jobs = Some (s', 7) \<and> \<not> r_fault s'"
proof -
  let ?h = "\<lambda>(c :: call) s. BReactor_Quit 7 (BReactor_Quit 5 s)"
  have "client_quits demo_kernel fst snd (l, s) [5, 7] (l, BReactor_Quit 7 (BReactor_Quit 5 s))" for l s
    using quit_step [OF quit_step [OF no_step, of demo_kernel fst snd l s 5], of 7] by simp
  then have h: "handlers_ok demo_kernel fst snd (\<lambda>_. True) ?h (\<lambda>c s. [5, 7])"
    unfolding handlers_ok_def by (auto split: option.split)
  obtain s1 where s1: "exec_round demo_kernel demo_jobs = Some (s1, Some (Job_handler 11 6))"
    by (simp add: exec_round_def demo_jobs_def demo_start_def BSmallPending_Set_def BSmallPending_Init_def pending_defs)
  have x: "\<not> exiting demo_jobs" by (simp add: demo_jobs_def demo_start_idle)
  then have "\<exists>n s0 s2 c. run_rounds demo_kernel ?h n demo_jobs = Some s0 \<and> \<not> exiting s0 \<and> exec_round demo_kernel s0 = Some (s2, Some c)
      \<and> [5, 7] \<noteq> ([] :: int list) \<and> ?h (Job_handler 11 6) s1 = ?h c s2 \<and> (7::int) = last [5, 7]"
    using s1 by (intro exI [of _ 0] exI [of _ demo_jobs] exI [of _ s1] exI [of _ "Job_handler 11 6"]) simp
  then show ?thesis using Exec_returns_exit_code [OF demo_reach_jobs h TrueI x, of "?h (Job_handler 11 6) s1" 7] by blast
qed

end
