(* ===== verification/Connection.thy ===== *)
theory Connection
  imports Reactor Net_Proto
begin

text \<open>
  Stream connections over sockets: \<open>system/BConnection_unix.c\<close> with the interfaces \<open>flow/StreamPassInterface.h\<close> and
  \<open>flow/StreamRecvInterface.h\<close> through which they are used. A connection is a client of the event loop of the theory
  \<open>Reactor\<close>: its operations act on that state, so that its jobs, limits and its file descriptor are the ones of the loop.

  What \<open>read\<close>, \<open>write\<close> and the other calls on sockets answer is an argument. The handlers of the user are events of a
  trace; all calls of them are the last thing their function does.
\<close>

section \<open>State\<close>

datatype si_state = SI_STATE_NONE | SI_STATE_OPERATION_PENDING | SI_STATE_BUSY | SI_STATE_DONE_PENDING

text \<open>
  \<open>StreamPassInterface\<close> and \<open>StreamRecvInterface\<close> have the same fields and the same code; \<open>'d\<close> is what stands for the pointer to
  the data: the data itself when they are sent, the address of the buffer when they are received.
  The jobs are embedded objects, known by their addresses.
\<close>

record 'd stream_if =
  job_operation :: nat
  job_operation_data :: 'd
  job_operation_len :: int
  job_done :: nat
  job_done_len :: int
  si_state :: si_state
  has_handler_done :: bool
  si_fault :: bool

datatype send_state = SEND_STATE_NOT_INITED | SEND_STATE_READY | SEND_STATE_BUSY

datatype recv_state = RECV_STATE_NOT_INITED | RECV_STATE_READY | RECV_STATE_BUSY | RECV_STATE_INITED_CLOSED
  | RECV_STATE_NOT_INITED_CLOSED

record BConnection =
  con_fd :: int
  close_fd :: bool
  is_hupd :: bool
  con_bfd :: nat
  wait_events :: "32 word"
  send_limit :: nat
  send_iface :: "bytes stream_if"
  send_job :: nat
  busy_data :: bytes
  busy_data_len :: int
  send_st :: send_state
  recv_limit :: nat
  recv_iface :: "nat stream_if"
  recv_job :: nat
  recv_busy_data :: nat
  busy_data_avail :: int
  recv_st :: recv_state
  con_err :: bool
  con_fault :: bool

record BConnector =
  ctr_fd :: int
  ctr_connected :: bool
  have_bfd :: bool
  ctr_bfd :: nat
  ctr_job :: nat
  ctr_fault :: bool

datatype con_report = BCONNECTION_EVENT_ERROR | BCONNECTION_EVENT_RECVCLOSED

text \<open>The trace: calls of the user, system calls that transfer data or close a descriptor, and calls of the user's handlers.\<close>

datatype conn_event =
    Call_Send bytes
  | Wrote bytes
  | Done_Send int
  | Off_Send
  | Call_Recv nat int
  | Got nat bytes
  | Done_Recv int
  | Off_Recv
  | Con_Handler con_report
  | Ctr_Handler bool
  | Closed int

record 'k cworld =
  rx :: "'k BReactor"
  con :: BConnection
  ctr :: BConnector
  ctrace :: "conn_event list"

text \<open>Answers of \<open>write\<close> and \<open>read\<close>; an error is \<open>EAGAIN\<close> or not.\<close>

datatype write_answer = W_Bytes int | W_Error bool

datatype read_answer = R_Bytes bytes | R_Error bool

section \<open>The stream interfaces\<close>

definition I_ASSERT :: "bool \<Rightarrow> 'd stream_if \<Rightarrow> 'd stream_if" where
  "I_ASSERT b i = i\<lparr>si_fault := si_fault i \<or> \<not> b\<rparr>"

definition StreamPassInterface_Init :: "'d stream_if \<Rightarrow> nat BPendingGroup \<Rightarrow> 'd stream_if \<times> nat BPendingGroup" where
  "StreamPassInterface_Init i g =
    (let i = i\<lparr>has_handler_done := False\<rparr>;
         g = BSmallPending_Init (job_operation i) 1 g;
         g = BSmallPending_Init (job_done i) 2 g
     in (i\<lparr>si_state := SI_STATE_NONE\<rparr>, g))"

definition StreamPassInterface_Free :: "'d stream_if \<Rightarrow> nat BPendingGroup \<Rightarrow> nat BPendingGroup" where
  "StreamPassInterface_Free i g = BSmallPending_Free (job_operation i) (BSmallPending_Free (job_done i) g)"

definition StreamPassInterface_Done :: "int \<Rightarrow> 'd stream_if \<Rightarrow> nat BPendingGroup \<Rightarrow> 'd stream_if \<times> nat BPendingGroup" where
  "StreamPassInterface_Done data_len i g =
    (let i = I_ASSERT (si_state i = SI_STATE_BUSY) i;
         i = I_ASSERT (data_len > 0) i;
         i = I_ASSERT (data_len \<le> job_operation_len i) i;
         i = i\<lparr>job_done_len := data_len\<rparr>;
         g = BSmallPending_Set (job_done i) g
     in (i\<lparr>si_state := SI_STATE_DONE_PENDING\<rparr>, g))"

definition StreamPassInterface_Sender_Init :: "'d stream_if \<Rightarrow> 'd stream_if" where
  "StreamPassInterface_Sender_Init i =
    (let i = I_ASSERT (\<not> has_handler_done i) i in i\<lparr>has_handler_done := True\<rparr>)"

definition StreamPassInterface_Sender_Send :: "'d \<Rightarrow> int \<Rightarrow> 'd stream_if \<Rightarrow> nat BPendingGroup \<Rightarrow> 'd stream_if \<times> nat BPendingGroup" where
  "StreamPassInterface_Sender_Send data data_len i g =
    (let i = I_ASSERT (data_len > 0) i;
         i = I_ASSERT (si_state i = SI_STATE_NONE) i;
         i = I_ASSERT (has_handler_done i) i;
         i = i\<lparr>job_operation_data := data, job_operation_len := data_len\<rparr>;
         g = BSmallPending_Set (job_operation i) g
     in (i\<lparr>si_state := SI_STATE_OPERATION_PENDING\<rparr>, g))"

text \<open>The handlers of the two jobs, up to their last statement, which calls \<open>handler_operation\<close> or \<open>handler_done\<close>.\<close>

definition StreamPassInterface_job_operation :: "'d stream_if \<Rightarrow> 'd stream_if" where
  "StreamPassInterface_job_operation i =
    (let i = I_ASSERT (si_state i = SI_STATE_OPERATION_PENDING) i in i\<lparr>si_state := SI_STATE_BUSY\<rparr>)"

definition StreamPassInterface_job_done :: "'d stream_if \<Rightarrow> 'd stream_if" where
  "StreamPassInterface_job_done i =
    (let i = I_ASSERT (si_state i = SI_STATE_DONE_PENDING) i in i\<lparr>si_state := SI_STATE_NONE\<rparr>)"

definition StreamRecvInterface_Init :: "'d stream_if \<Rightarrow> nat BPendingGroup \<Rightarrow> 'd stream_if \<times> nat BPendingGroup" where
  "StreamRecvInterface_Init = StreamPassInterface_Init"

definition StreamRecvInterface_Free :: "'d stream_if \<Rightarrow> nat BPendingGroup \<Rightarrow> nat BPendingGroup" where
  "StreamRecvInterface_Free = StreamPassInterface_Free"

definition StreamRecvInterface_Done :: "int \<Rightarrow> 'd stream_if \<Rightarrow> nat BPendingGroup \<Rightarrow> 'd stream_if \<times> nat BPendingGroup" where
  "StreamRecvInterface_Done = StreamPassInterface_Done"

definition StreamRecvInterface_Receiver_Init :: "'d stream_if \<Rightarrow> 'd stream_if" where
  "StreamRecvInterface_Receiver_Init = StreamPassInterface_Sender_Init"

definition StreamRecvInterface_Receiver_Recv :: "'d \<Rightarrow> int \<Rightarrow> 'd stream_if \<Rightarrow> nat BPendingGroup \<Rightarrow> 'd stream_if \<times> nat BPendingGroup" where
  "StreamRecvInterface_Receiver_Recv = StreamPassInterface_Sender_Send"

definition StreamRecvInterface_job_operation :: "'d stream_if \<Rightarrow> 'd stream_if" where
  "StreamRecvInterface_job_operation = StreamPassInterface_job_operation"

definition StreamRecvInterface_job_done :: "'d stream_if \<Rightarrow> 'd stream_if" where
  "StreamRecvInterface_job_done = StreamPassInterface_job_done"

section \<open>Sending and receiving\<close>

definition N_ASSERT :: "bool \<Rightarrow> 'k cworld \<Rightarrow> 'k cworld" where
  "N_ASSERT b w = w\<lparr>con := (con w)\<lparr>con_fault := con_fault (con w) \<or> \<not> b\<rparr>\<rparr>"

definition emit :: "conn_event \<Rightarrow> 'k cworld \<Rightarrow> 'k cworld" where
  "emit e w = w\<lparr>ctrace := ctrace w @ [e]\<rparr>"

definition con_jobs :: "(nat BPendingGroup \<Rightarrow> nat BPendingGroup) \<Rightarrow> 'k cworld \<Rightarrow> 'k cworld" where
  "con_jobs f w = w\<lparr>rx := (rx w)\<lparr>pending_jobs := f (pending_jobs (rx w))\<rparr>\<rparr>"

definition on_send_iface :: "(bytes stream_if \<Rightarrow> nat BPendingGroup \<Rightarrow> bytes stream_if \<times> nat BPendingGroup) \<Rightarrow> 'k cworld \<Rightarrow> 'k cworld" where
  "on_send_iface f w = (case f (send_iface (con w)) (pending_jobs (rx w)) of (i, g) \<Rightarrow>
     w\<lparr>con := (con w)\<lparr>send_iface := i\<rparr>, rx := (rx w)\<lparr>pending_jobs := g\<rparr>\<rparr>)"

definition on_recv_iface :: "(nat stream_if \<Rightarrow> nat BPendingGroup \<Rightarrow> nat stream_if \<times> nat BPendingGroup) \<Rightarrow> 'k cworld \<Rightarrow> 'k cworld" where
  "on_recv_iface f w = (case f (recv_iface (con w)) (pending_jobs (rx w)) of (i, g) \<Rightarrow>
     w\<lparr>con := (con w)\<lparr>recv_iface := i\<rparr>, rx := (rx w)\<lparr>pending_jobs := g\<rparr>\<rparr>)"

definition set_wait_events :: "'k kernel_ops \<Rightarrow> 32 word \<Rightarrow> 'k cworld \<Rightarrow> 'k cworld" where
  "set_wait_events K ev w =
     w\<lparr>con := (con w)\<lparr>wait_events := ev\<rparr>, rx := BReactor_SetFileDescriptorEvents K (con_bfd (con w)) ev (rx w)\<rparr>"

definition connection_report_error :: "'k cworld \<Rightarrow> 'k cworld" where
  "connection_report_error w =
    (let w = N_ASSERT (\<not> con_err (con w)) w
     in emit (Con_Handler BCONNECTION_EVENT_ERROR) (w\<lparr>con := (con w)\<lparr>con_err := True\<rparr>\<rparr>))"

definition connection_send_unix :: "'k kernel_ops \<Rightarrow> write_answer \<Rightarrow> 'k cworld \<Rightarrow> 'k cworld" where
  "connection_send_unix K ans w =
    (let w = N_ASSERT (\<not> con_err (con w)) w;
         w = N_ASSERT (send_st (con w) = SEND_STATE_BUSY) w
     in case (if \<not> is_hupd (con w) then BReactorLimit_Increment (send_limit (con w)) (rx w) else (rx w, True)) of (s, allowed) \<Rightarrow>
       let w = w\<lparr>rx := s\<rparr> in
       if \<not> allowed then set_wait_events K (wait_events (con w) OR BREACTOR_WRITE) w
       else case ans of
         W_Error again \<Rightarrow>
           if \<not> is_hupd (con w) \<and> again then set_wait_events K (wait_events (con w) OR BREACTOR_WRITE) w
           else connection_report_error w
       | W_Bytes b \<Rightarrow>
           (let w = emit (Wrote (take (nat b) (busy_data (con w)))) w;
                w = N_ASSERT (b > 0) w;
                w = N_ASSERT (b \<le> busy_data_len (con w)) w;
                w = w\<lparr>con := (con w)\<lparr>send_st := SEND_STATE_READY\<rparr>\<rparr>
            in on_send_iface (StreamPassInterface_Done b) w))"

definition connection_recv :: "'k kernel_ops \<Rightarrow> read_answer \<Rightarrow> 'k cworld \<Rightarrow> 'k cworld" where
  "connection_recv K ans w =
    (let w = N_ASSERT (\<not> con_err (con w)) w;
         w = N_ASSERT (recv_st (con w) = RECV_STATE_BUSY) w
     in case (if \<not> is_hupd (con w) then BReactorLimit_Increment (recv_limit (con w)) (rx w) else (rx w, True)) of (s, allowed) \<Rightarrow>
       let w = w\<lparr>rx := s\<rparr> in
       if \<not> allowed then set_wait_events K (wait_events (con w) OR BREACTOR_READ) w
       else case ans of
         R_Error again \<Rightarrow>
           if \<not> is_hupd (con w) \<and> again then set_wait_events K (wait_events (con w) OR BREACTOR_READ) w
           else connection_report_error w
       | R_Bytes bs \<Rightarrow>
           (let w = emit (Got (recv_busy_data (con w)) bs) w in
            if bs = [] then emit (Con_Handler BCONNECTION_EVENT_RECVCLOSED) (w\<lparr>con := (con w)\<lparr>recv_st := RECV_STATE_INITED_CLOSED\<rparr>\<rparr>)
            else let w = N_ASSERT (int (length bs) > 0) w;
                     w = N_ASSERT (int (length bs) \<le> busy_data_avail (con w)) w;
                     w = w\<lparr>con := (con w)\<lparr>recv_st := RECV_STATE_READY\<rparr>\<rparr>
                 in on_recv_iface (StreamRecvInterface_Done (int (length bs))) w))"

definition connection_fd_handler :: "'k kernel_ops \<Rightarrow> 32 word \<Rightarrow> write_answer \<Rightarrow> read_answer \<Rightarrow> 'k cworld \<Rightarrow> 'k cworld" where
  "connection_fd_handler K events wans rans w =
    (let w = N_ASSERT (\<not> con_err (con w)) w;
         w = N_ASSERT (\<not> is_hupd (con w)) w;
         w = set_wait_events K (wait_events (con w) AND NOT events) w;
         w = (if events AND BREACTOR_HUP \<noteq> 0
              then w\<lparr>rx := BReactor_RemoveFileDescriptor K (con_bfd (con w)) (rx w), con := (con w)\<lparr>is_hupd := True\<rparr>\<rparr> else w);
         have_send = (events AND BREACTOR_WRITE \<noteq> 0 \<or> events AND (BREACTOR_ERROR OR BREACTOR_HUP) \<noteq> 0 \<and> send_st (con w) = SEND_STATE_BUSY);
         w = (if have_send then N_ASSERT (send_st (con w) = SEND_STATE_BUSY) w else w);
         have_recv = (events AND BREACTOR_READ \<noteq> 0 \<or> events AND (BREACTOR_ERROR OR BREACTOR_HUP) \<noteq> 0 \<and> recv_st (con w) = RECV_STATE_BUSY);
         w = (if have_recv then N_ASSERT (recv_st (con w) = RECV_STATE_BUSY) w else w)
     in if have_send then
          connection_send_unix K wans (if have_recv then con_jobs (BSmallPending_Set (recv_job (con w))) w else w)
        else if have_recv then connection_recv K rans w
        else if \<not> is_hupd (con w) then connection_report_error w
        else w)"

definition connection_send_job_handler :: "'k kernel_ops \<Rightarrow> write_answer \<Rightarrow> 'k cworld \<Rightarrow> 'k cworld" where
  "connection_send_job_handler K wans w =
    (let w = N_ASSERT (\<not> con_err (con w)) w;
         w = N_ASSERT (send_st (con w) = SEND_STATE_BUSY) w
     in connection_send_unix K wans w)"

definition connection_recv_job_handler :: "'k kernel_ops \<Rightarrow> read_answer \<Rightarrow> 'k cworld \<Rightarrow> 'k cworld" where
  "connection_recv_job_handler K rans w =
    (let w = N_ASSERT (\<not> con_err (con w)) w;
         w = N_ASSERT (recv_st (con w) = RECV_STATE_BUSY) w
     in connection_recv K rans w)"

definition connection_send_if_handler_send :: "'k kernel_ops \<Rightarrow> write_answer \<Rightarrow> bytes \<Rightarrow> int \<Rightarrow> 'k cworld \<Rightarrow> 'k cworld" where
  "connection_send_if_handler_send K wans data data_len w =
    (let w = N_ASSERT (\<not> con_err (con w)) w;
         w = N_ASSERT (send_st (con w) = SEND_STATE_READY) w;
         w = N_ASSERT (data_len > 0) w;
         w = w\<lparr>con := (con w)\<lparr>busy_data := data, busy_data_len := data_len, send_st := SEND_STATE_BUSY\<rparr>\<rparr>
     in connection_send_unix K wans w)"

definition connection_recv_if_handler_recv :: "'k kernel_ops \<Rightarrow> read_answer \<Rightarrow> nat \<Rightarrow> int \<Rightarrow> 'k cworld \<Rightarrow> 'k cworld" where
  "connection_recv_if_handler_recv K rans data data_avail w =
    (let w = N_ASSERT (\<not> con_err (con w)) w;
         w = N_ASSERT (recv_st (con w) = RECV_STATE_READY) w;
         w = N_ASSERT (data_avail > 0) w;
         w = w\<lparr>con := (con w)\<lparr>recv_busy_data := data, busy_data_avail := data_avail, recv_st := RECV_STATE_BUSY\<rparr>\<rparr>
     in connection_recv K rans w)"

text \<open>
  The jobs of a connection: the loop found the job at the address \<open>p\<close>, and its handler runs. \<open>None\<close>: it is not a job of this
  connection.
\<close>

definition con_job_handler :: "'k kernel_ops \<Rightarrow> write_answer \<Rightarrow> read_answer \<Rightarrow> nat \<Rightarrow> 'k cworld \<Rightarrow> 'k cworld option" where
  "con_job_handler K wans rans p w =
    (let c = con w; i = send_iface c; j = recv_iface c in
     if p = job_operation i then
       Some (connection_send_if_handler_send K wans (job_operation_data i) (job_operation_len i)
         (w\<lparr>con := c\<lparr>send_iface := StreamPassInterface_job_operation i\<rparr>\<rparr>))
     else if p = job_done i then
       Some (emit (Done_Send (job_done_len i)) (w\<lparr>con := c\<lparr>send_iface := StreamPassInterface_job_done i\<rparr>\<rparr>))
     else if p = send_job c then Some (connection_send_job_handler K wans w)
     else if p = job_operation j then
       Some (connection_recv_if_handler_recv K rans (job_operation_data j) (job_operation_len j)
         (w\<lparr>con := c\<lparr>recv_iface := StreamRecvInterface_job_operation j\<rparr>\<rparr>))
     else if p = job_done j then
       Some (emit (Done_Recv (job_done_len j)) (w\<lparr>con := c\<lparr>recv_iface := StreamRecvInterface_job_done j\<rparr>\<rparr>))
     else if p = recv_job c then Some (connection_recv_job_handler K rans w)
     else None)"

section \<open>Operations of the user\<close>

definition BConnection_SendAsync_Init :: "'k cworld \<Rightarrow> 'k cworld" where
  "BConnection_SendAsync_Init w =
    (let w = N_ASSERT (\<not> con_err (con w)) w;
         w = N_ASSERT (send_st (con w) = SEND_STATE_NOT_INITED) w;
         w = on_send_iface StreamPassInterface_Init w;
         w = con_jobs (BSmallPending_Init (send_job (con w)) 3) w
     in w\<lparr>con := (con w)\<lparr>send_st := SEND_STATE_READY\<rparr>\<rparr>)"

definition BConnection_SendAsync_Free :: "'k kernel_ops \<Rightarrow> 'k cworld \<Rightarrow> 'k cworld" where
  "BConnection_SendAsync_Free K w =
    (let w = N_ASSERT (send_st (con w) = SEND_STATE_READY \<or> send_st (con w) = SEND_STATE_BUSY) w;
         w = (if \<not> is_hupd (con w) then set_wait_events K (wait_events (con w) AND NOT BREACTOR_WRITE) w else w);
         w = con_jobs (BSmallPending_Free (send_job (con w))) w;
         w = con_jobs (StreamPassInterface_Free (send_iface (con w))) w
     in emit Off_Send (w\<lparr>con := (con w)\<lparr>send_st := SEND_STATE_NOT_INITED\<rparr>\<rparr>))"

definition BConnection_RecvAsync_Init :: "'k cworld \<Rightarrow> 'k cworld" where
  "BConnection_RecvAsync_Init w =
    (let w = N_ASSERT (\<not> con_err (con w)) w;
         w = N_ASSERT (recv_st (con w) = RECV_STATE_NOT_INITED) w;
         w = on_recv_iface StreamRecvInterface_Init w;
         w = con_jobs (BSmallPending_Init (recv_job (con w)) 4) w
     in w\<lparr>con := (con w)\<lparr>recv_st := RECV_STATE_READY\<rparr>\<rparr>)"

definition BConnection_RecvAsync_Free :: "'k kernel_ops \<Rightarrow> 'k cworld \<Rightarrow> 'k cworld" where
  "BConnection_RecvAsync_Free K w =
    (let w = N_ASSERT (recv_st (con w) = RECV_STATE_READY \<or> recv_st (con w) = RECV_STATE_BUSY \<or> recv_st (con w) = RECV_STATE_INITED_CLOSED) w;
         w = (if \<not> is_hupd (con w) then set_wait_events K (wait_events (con w) AND NOT BREACTOR_READ) w else w);
         w = con_jobs (BSmallPending_Free (recv_job (con w))) w;
         w = con_jobs (StreamRecvInterface_Free (recv_iface (con w))) w
     in emit Off_Recv (w\<lparr>con := (con w)\<lparr>recv_st := RECV_STATE_NOT_INITED\<rparr>\<rparr>))"

text \<open>The user's calls through the interfaces.\<close>

definition user_send :: "bytes \<Rightarrow> 'k cworld \<Rightarrow> 'k cworld" where
  "user_send data w = emit (Call_Send data) (on_send_iface (StreamPassInterface_Sender_Send data (int (length data))) w)"

definition user_recv :: "nat \<Rightarrow> int \<Rightarrow> 'k cworld \<Rightarrow> 'k cworld" where
  "user_recv buf avail w = emit (Call_Recv buf avail) (on_recv_iface (StreamRecvInterface_Receiver_Recv buf avail) w)"

text \<open>
  \<open>BConnection_Init\<close> takes the descriptor from a listener (\<open>job\<close> is its default job; \<open>fd\<close> what \<open>accept\<close> returned), from the connector
  of the state, or from the caller; \<open>nonblocking\<close> is whether the descriptor could be made non-blocking. \<open>None\<close>: \<open>accept\<close> failed, and there is
  nothing to close.
\<close>

datatype con_source =
    BCONNECTION_SOURCE_TYPE_LISTENER nat int
  | BCONNECTION_SOURCE_TYPE_CONNECTOR
  | BCONNECTION_SOURCE_TYPE_PIPE int bool

definition take_source :: "con_source \<Rightarrow> bool \<Rightarrow> 'k cworld \<Rightarrow> 'k cworld \<times> bool option" where
  "take_source source nonblocking w = (case source of
      BCONNECTION_SOURCE_TYPE_LISTENER job fd \<Rightarrow>
       (let w = N_ASSERT (BSmallPending_IsSet job (pending_jobs (rx w))) w;
            w = con_jobs (BSmallPending_Unset job) w;
            w = w\<lparr>con := (con w)\<lparr>con_fd := fd\<rparr>\<rparr>
        in if fd < 0 then (w, None)
           else (w\<lparr>con := (con w)\<lparr>close_fd := True\<rparr>\<rparr>, Some nonblocking))
    | BCONNECTION_SOURCE_TYPE_CONNECTOR \<Rightarrow>
       (let w = N_ASSERT (ctr_fd (ctr w) \<ge> 0) w;
            w = N_ASSERT (ctr_connected (ctr w)) w;
            w = N_ASSERT (\<not> have_bfd (ctr w)) w;
            w = N_ASSERT (\<not> BSmallPending_IsSet (ctr_job (ctr w)) (pending_jobs (rx w))) w
        in (w\<lparr>con := (con w)\<lparr>con_fd := ctr_fd (ctr w), close_fd := True\<rparr>, ctr := (ctr w)\<lparr>ctr_fd := -1\<rparr>\<rparr>, Some True))
    | BCONNECTION_SOURCE_TYPE_PIPE pipefd close_it \<Rightarrow>
       (let w = N_ASSERT (pipefd \<ge> 0) w
        in (w\<lparr>con := (con w)\<lparr>con_fd := pipefd, close_fd := close_it\<rparr>\<rparr>, Some nonblocking)))"

definition con_close :: "'k cworld \<Rightarrow> 'k cworld" where
  "con_close w = (if close_fd (con w) then emit (Closed (con_fd (con w))) w else w)"

definition BConnection_Init :: "'k kernel_ops \<Rightarrow> con_source \<Rightarrow> bool \<Rightarrow> 'k cworld \<Rightarrow> 'k cworld \<times> bool" where
  "BConnection_Init K source nonblocking w =
    (case take_source source nonblocking w of
       (w, None) \<Rightarrow> (w, False)
     | (w, Some ok) \<Rightarrow>
     if \<not> ok then (con_close w, False)
     else let w = w\<lparr>con := (con w)\<lparr>is_hupd := False\<rparr>\<rparr>;
              s = BFileDescriptor_Init (con_bfd (con w)) (con_fd (con w)) 5 (con_bfd (con w)) (rx w)
          in case BReactor_AddFileDescriptor K (con_bfd (con w)) s of (s, added) \<Rightarrow>
            let w = w\<lparr>rx := s\<rparr> in
            if \<not> added then (con_close w, False)
            else (w\<lparr>rx := BReactorLimit_Init (recv_limit (con w)) 2 (BReactorLimit_Init (send_limit (con w)) 2 s),
                   con := (con w)\<lparr>wait_events := 0, send_st := SEND_STATE_NOT_INITED, recv_st := RECV_STATE_NOT_INITED, con_err := False\<rparr>\<rparr>, True))"

definition BConnection_Free :: "'k kernel_ops \<Rightarrow> 'k cworld \<Rightarrow> 'k cworld" where
  "BConnection_Free K w =
    (let w = N_ASSERT (send_st (con w) = SEND_STATE_NOT_INITED) w;
         w = N_ASSERT (recv_st (con w) = RECV_STATE_NOT_INITED \<or> recv_st (con w) = RECV_STATE_NOT_INITED_CLOSED) w;
         s = BReactorLimit_Free (send_limit (con w)) (BReactorLimit_Free (recv_limit (con w)) (rx w));
         s = (if \<not> is_hupd (con w) then BReactor_RemoveFileDescriptor K (con_bfd (con w)) s else s)
     in con_close (w\<lparr>rx := s\<rparr>))"
section \<open>Addresses and the connector\<close>

datatype sockaddr = AF_INET "32 word" "16 word" | AF_INET6 bytes "16 word" | AF_UNIX string

abbreviation (input) sockaddr_in_size :: nat where "sockaddr_in_size \<equiv> 16"
abbreviation (input) sockaddr_in6_size :: nat where "sockaddr_in6_size \<equiv> 28"
abbreviation (input) sun_path_offset :: nat where "sun_path_offset \<equiv> 2"
abbreviation (input) MAX_UNIX_SOCKET_PATH :: nat where "MAX_UNIX_SOCKET_PATH \<equiv> 200"

text \<open>A system address with its length; \<open>None\<close>: an assertion fails.\<close>

definition build_unix_address :: "string \<Rightarrow> (sockaddr \<times> nat) option" where
  "build_unix_address socket_path =
    (if length socket_path > MAX_UNIX_SOCKET_PATH then None
     else Some (AF_UNIX socket_path, sun_path_offset + length socket_path + 1))"

definition addr_socket_to_sys :: "BAddr \<Rightarrow> (sockaddr \<times> nat) option" where
  "addr_socket_to_sys addr = (case addr of
      BAddr_IPv4 ip port \<Rightarrow> Some (AF_INET ip port, sockaddr_in_size)
    | BAddr_IPv6 ip port \<Rightarrow> Some (AF_INET6 ip port, sockaddr_in6_size)
    | BAddr_None \<Rightarrow> None)"

definition addr_sys_to_socket :: "sockaddr \<times> nat \<Rightarrow> BAddr option" where
  "addr_sys_to_socket a = (case a of
      (AF_INET ip port, len) \<Rightarrow> if len = sockaddr_in_size then Some (BAddr_IPv4 ip port) else None
    | (AF_INET6 ip port, len) \<Rightarrow> if len = sockaddr_in6_size then Some (BAddr_IPv6 ip port) else None
    | (AF_UNIX _, _) \<Rightarrow> Some BAddr_None)"

definition BConnection_AddressSupported :: "BAddr \<Rightarrow> bool" where
  "BConnection_AddressSupported addr = (case addr of BAddr_IPv4 _ _ \<Rightarrow> True | BAddr_IPv6 _ _ \<Rightarrow> True | BAddr_None \<Rightarrow> False)"

datatype liscon_from = BLISCON_FROM_ADDR BAddr | BLISCON_FROM_UNIX string

datatype connect_answer = Connected | In_Progress | Refused

definition R_ASSERT_ctr :: "bool \<Rightarrow> 'k cworld \<Rightarrow> 'k cworld" where
  "R_ASSERT_ctr b w = w\<lparr>ctr := (ctr w)\<lparr>ctr_fault := ctr_fault (ctr w) \<or> \<not> b\<rparr>\<rparr>"

text \<open>
  The arguments after the address are what \<open>socket\<close>, \<open>badvpn_set_nonblocking\<close> and \<open>connect\<close> answer; \<open>connect\<close> is told the address the
  first \<open>let\<close> builds.
\<close>

definition BConnector_InitFrom :: "'k kernel_ops \<Rightarrow> liscon_from \<Rightarrow> int \<Rightarrow> bool \<Rightarrow> (sockaddr \<times> nat \<Rightarrow> connect_answer) \<Rightarrow> 'k cworld \<Rightarrow> 'k cworld \<times> bool" where
  "BConnector_InitFrom K from fd nonblocking connect w =
    (case (case from of
             BLISCON_FROM_UNIX path \<Rightarrow> build_unix_address path
           | BLISCON_FROM_ADDR addr \<Rightarrow> if BConnection_AddressSupported addr then addr_socket_to_sys addr else None) of
       None \<Rightarrow> (w, False)
     | Some sysaddr \<Rightarrow>
        let w = con_jobs (BSmallPending_Init (ctr_job (ctr w)) 6) w;
            w = w\<lparr>ctr := (ctr w)\<lparr>ctr_fd := fd\<rparr>\<rparr>;
            fail1 = (\<lambda>w. (con_jobs (BSmallPending_Free (ctr_job (ctr w))) w, False));
            fail2 = (\<lambda>w. fail1 (emit (Closed (ctr_fd (ctr w))) w))
        in if fd < 0 then fail1 w
           else if \<not> nonblocking then fail2 w
           else if connect sysaddr = Refused then fail2 w
           else let w = w\<lparr>ctr := (ctr w)\<lparr>ctr_connected := False, have_bfd := False\<rparr>\<rparr> in
             if connect sysaddr = In_Progress then
               (let bfd = ctr_bfd (ctr w); s = BFileDescriptor_Init bfd (ctr_fd (ctr w)) 7 bfd (rx w)
                in case BReactor_AddFileDescriptor K bfd s of (s, added) \<Rightarrow>
                  let w = w\<lparr>rx := s\<rparr> in
                  if \<not> added then fail2 w
                  else (w\<lparr>rx := BReactor_SetFileDescriptorEvents K bfd BREACTOR_WRITE s, ctr := (ctr w)\<lparr>have_bfd := True\<rparr>\<rparr>, True))
             else (con_jobs (BSmallPending_Set (ctr_job (ctr w))) (w\<lparr>ctr := (ctr w)\<lparr>ctr_connected := True\<rparr>\<rparr>), True))"

text \<open>\<open>so_error\<close> is what \<open>getsockopt\<close> reports: \<open>None\<close> if it fails.\<close>

definition connector_fd_handler :: "'k kernel_ops \<Rightarrow> int option \<Rightarrow> 'k cworld \<Rightarrow> 'k cworld" where
  "connector_fd_handler K so_error w =
    (let w = R_ASSERT_ctr (ctr_fd (ctr w) \<ge> 0) w;
         w = R_ASSERT_ctr (\<not> ctr_connected (ctr w)) w;
         w = R_ASSERT_ctr (have_bfd (ctr w)) w;
         w = w\<lparr>rx := BReactor_RemoveFileDescriptor K (ctr_bfd (ctr w)) (rx w), ctr := (ctr w)\<lparr>have_bfd := False\<rparr>\<rparr>;
         w = (if so_error = Some 0 then w\<lparr>ctr := (ctr w)\<lparr>ctr_connected := True\<rparr>\<rparr> else w)
     in emit (Ctr_Handler (\<not> ctr_connected (ctr w))) w)"

definition connector_job_handler :: "'k cworld \<Rightarrow> 'k cworld" where
  "connector_job_handler w =
    (let w = R_ASSERT_ctr (ctr_fd (ctr w) \<ge> 0) w;
         w = R_ASSERT_ctr (ctr_connected (ctr w)) w;
         w = R_ASSERT_ctr (\<not> have_bfd (ctr w)) w
     in emit (Ctr_Handler False) w)"

definition BConnector_Free :: "'k kernel_ops \<Rightarrow> 'k cworld \<Rightarrow> 'k cworld" where
  "BConnector_Free K w =
    (let w = (if have_bfd (ctr w) then w\<lparr>rx := BReactor_RemoveFileDescriptor K (ctr_bfd (ctr w)) (rx w)\<rparr> else w);
         w = (if ctr_fd (ctr w) \<noteq> -1 then emit (Closed (ctr_fd (ctr w))) w else w)
     in con_jobs (BSmallPending_Free (ctr_job (ctr w))) w)"

section \<open>What the code relies on\<close>

text \<open>
  \<open>write\<close> on a stream socket with data transfers some of it or fails, and \<open>read\<close> returns at most what was asked for.
\<close>

definition write_ok :: "int \<Rightarrow> write_answer \<Rightarrow> bool" where
  "write_ok len ans = (case ans of W_Bytes b \<Rightarrow> 0 < b \<and> b \<le> len | W_Error _ \<Rightarrow> True)"

definition read_ok :: "int \<Rightarrow> read_answer \<Rightarrow> bool" where
  "read_ok avail ans = (case ans of R_Bytes bs \<Rightarrow> int (length bs) \<le> avail | R_Error _ \<Rightarrow> True)"

text \<open>
  The expected answers: for a descriptor that has not hung up, a direction that is waited for and whose readiness was not reported gives no
  data; the error is returned or \<open>EAGAIN\<close>. The kernel does not promise this: data may arrive between the event and the call. It is no hypothesis
  of the properties below but singles out the runs in which an error event arrives alone and the transfer succeeds all the same (\<open>stale_step\<close>).
\<close>

definition error_ok :: "32 word \<Rightarrow> 32 word \<Rightarrow> write_answer \<Rightarrow> read_answer \<Rightarrow> bool" where
  "error_ok wanted events wans rans \<longleftrightarrow> bit events 3 \<or>
     ((bit wanted 1 \<and> \<not> bit events 1 \<longrightarrow> (\<forall>b. wans \<noteq> W_Bytes b)) \<and> (bit wanted 0 \<and> \<not> bit events 0 \<longrightarrow> (\<forall>bs. rans \<noteq> R_Bytes bs)))"

section \<open>The invariant\<close>

definition send_jobs :: "BConnection \<Rightarrow> nat set" where
  "send_jobs c = {job_operation (send_iface c), job_done (send_iface c), send_job c}"

definition recv_jobs :: "BConnection \<Rightarrow> nat set" where
  "recv_jobs c = {job_operation (recv_iface c), job_done (recv_iface c), recv_job c}"

text \<open>\<open>X\<close> are the pending jobs.\<close>

definition if_ok :: "'d stream_if \<Rightarrow> bool \<Rightarrow> nat set \<Rightarrow> bool" where
  "if_ok i busy X \<longleftrightarrow> (job_operation i \<in> X \<longleftrightarrow> si_state i = SI_STATE_OPERATION_PENDING) \<and> (job_done i \<in> X \<longleftrightarrow> si_state i = SI_STATE_DONE_PENDING)
     \<and> (si_state i = SI_STATE_BUSY \<longleftrightarrow> busy)"

definition send_ok :: "live \<Rightarrow> BConnection \<Rightarrow> nat set \<Rightarrow> bool" where
  "send_ok l c X \<longleftrightarrow>
     (if send_st c = SEND_STATE_NOT_INITED then send_jobs c \<inter> live_jobs l = {}
      else send_jobs c \<subseteq> live_jobs l \<and> send_job c \<notin> X \<and> if_ok (send_iface c) (send_st c = SEND_STATE_BUSY) X
        \<and> (si_state (send_iface c) = SI_STATE_OPERATION_PENDING \<or> si_state (send_iface c) = SI_STATE_BUSY \<longrightarrow>
             job_operation_len (send_iface c) = int (length (job_operation_data (send_iface c))) \<and> 0 < job_operation_len (send_iface c))
        \<and> (send_st c = SEND_STATE_BUSY \<longrightarrow> busy_data c = job_operation_data (send_iface c) \<and> busy_data_len c = job_operation_len (send_iface c)))"

definition recv_ok :: "live \<Rightarrow> BConnection \<Rightarrow> nat set \<Rightarrow> bool" where
  "recv_ok l c X \<longleftrightarrow> recv_st c \<noteq> RECV_STATE_NOT_INITED_CLOSED \<and>
     (if recv_st c = RECV_STATE_NOT_INITED then recv_jobs c \<inter> live_jobs l = {}
      else recv_jobs c \<subseteq> live_jobs l \<and> (recv_job c \<in> X \<longrightarrow> recv_st c = RECV_STATE_BUSY)
        \<and> if_ok (recv_iface c) (recv_st c = RECV_STATE_BUSY \<or> recv_st c = RECV_STATE_INITED_CLOSED) X
        \<and> (si_state (recv_iface c) = SI_STATE_OPERATION_PENDING \<or> si_state (recv_iface c) = SI_STATE_BUSY \<longrightarrow> 0 < job_operation_len (recv_iface c))
        \<and> (recv_st c = RECV_STATE_BUSY \<longrightarrow> recv_busy_data c = job_operation_data (recv_iface c) \<and> busy_data_avail c = job_operation_len (recv_iface c)))"

definition only_rw :: "32 word \<Rightarrow> bool" where
  "only_rw e \<longleftrightarrow> e AND NOT (BREACTOR_READ OR BREACTOR_WRITE) = 0"

definition bfd_ok :: "live \<Rightarrow> 'k BReactor \<Rightarrow> BConnection \<Rightarrow> bool" where
  "bfd_ok l s c \<longleftrightarrow> con_bfd c \<in> live_fds l \<and> fd_active s (con_bfd c) = (\<not> is_hupd c) \<and> send_limit c \<in> live_limits l \<and> recv_limit c \<in> live_limits l
     \<and> only_rw (wait_events c)
     \<and> (\<not> is_hupd c \<longrightarrow> waitEvents s (con_bfd c) = wait_events c
          \<and> (bit (wait_events c) 1 \<longrightarrow> send_st c = SEND_STATE_BUSY) \<and> (bit (wait_events c) 0 \<longrightarrow> recv_st c = RECV_STATE_BUSY))"

definition fault_free :: "BConnection \<Rightarrow> bool" where
  "fault_free c \<longleftrightarrow> \<not> con_fault c \<and> \<not> si_fault (send_iface c) \<and> \<not> si_fault (recv_iface c)"

definition con_ok :: "live \<Rightarrow> 'k BReactor \<Rightarrow> BConnection \<Rightarrow> nat set \<Rightarrow> bool" where
  "con_ok l s c X \<longleftrightarrow> distinct [job_operation (send_iface c), job_done (send_iface c), send_job c,
        job_operation (recv_iface c), job_done (recv_iface c), recv_job c]
     \<and> send_limit c \<noteq> recv_limit c \<and> send_ok l c X \<and> recv_ok l c X \<and> bfd_ok l s c \<and> fault_free c"

text \<open>
  No lost wake-up: an operation that is busy has the event loop watch its descriptor, or its job is pending.
\<close>

definition send_wakes :: "BConnection \<Rightarrow> bool" where
  "send_wakes c \<longleftrightarrow> (\<not> con_err c \<and> send_st c = SEND_STATE_BUSY \<longrightarrow> \<not> is_hupd c \<and> bit (wait_events c) 1)"

definition recv_wakes :: "BConnection \<Rightarrow> nat set \<Rightarrow> bool" where
  "recv_wakes c X \<longleftrightarrow> (\<not> con_err c \<and> recv_st c = RECV_STATE_BUSY \<longrightarrow> recv_job c \<in> X \<or> \<not> is_hupd c \<and> bit (wait_events c) 0)"

text \<open>
  The protocol of the trace. A call is followed by one transfer, of a part of the data or into the given buffer, then by the user's handler
  with the number of bytes transferred; nothing is transferred after the end of the stream.
\<close>

datatype send_mode = Send_Idle | Send_Asked bytes | Send_Written int

datatype recv_mode = Recv_Idle | Recv_Asked nat int | Recv_Filled int | Recv_Closed

fun send_next :: "send_mode option \<Rightarrow> conn_event \<Rightarrow> send_mode option" where
  "send_next (Some m) (Call_Send d) = (if m = Send_Idle \<and> d \<noteq> [] then Some (Send_Asked d) else None)"
| "send_next (Some m) (Wrote bs) = (case m of Send_Asked d \<Rightarrow> if bs \<noteq> [] \<and> bs = take (length bs) d then Some (Send_Written (int (length bs))) else None | _ \<Rightarrow> None)"
| "send_next (Some m) (Done_Send n) = (if m = Send_Written n then Some Send_Idle else None)"
| "send_next (Some m) Off_Send = Some Send_Idle"
| "send_next m _ = m"

fun recv_next :: "recv_mode option \<Rightarrow> conn_event \<Rightarrow> recv_mode option" where
  "recv_next (Some m) (Call_Recv a n) = (if m = Recv_Idle \<and> 0 < n then Some (Recv_Asked a n) else None)"
| "recv_next (Some m) (Got a bs) = (case m of
      Recv_Asked b n \<Rightarrow> if a \<noteq> b \<or> int (length bs) > n then None else if bs = [] then Some Recv_Closed else Some (Recv_Filled (int (length bs)))
    | _ \<Rightarrow> None)"
| "recv_next (Some m) (Done_Recv n) = (if m = Recv_Filled n then Some Recv_Idle else None)"
| "recv_next (Some m) (Con_Handler BCONNECTION_EVENT_RECVCLOSED) = (if m = Recv_Closed then Some m else None)"
| "recv_next (Some m) Off_Recv = Some Recv_Idle"
| "recv_next m _ = m"

definition send_mode_of :: "BConnection \<Rightarrow> send_mode" where
  "send_mode_of c = (if send_st c = SEND_STATE_NOT_INITED then Send_Idle else case si_state (send_iface c) of
      SI_STATE_NONE \<Rightarrow> Send_Idle
    | SI_STATE_DONE_PENDING \<Rightarrow> Send_Written (job_done_len (send_iface c))
    | _ \<Rightarrow> Send_Asked (job_operation_data (send_iface c)))"

definition recv_mode_of :: "BConnection \<Rightarrow> recv_mode" where
  "recv_mode_of c = (if recv_st c = RECV_STATE_NOT_INITED then Recv_Idle else if recv_st c = RECV_STATE_INITED_CLOSED then Recv_Closed
     else case si_state (recv_iface c) of
      SI_STATE_NONE \<Rightarrow> Recv_Idle
    | SI_STATE_DONE_PENDING \<Rightarrow> Recv_Filled (job_done_len (recv_iface c))
    | _ \<Rightarrow> Recv_Asked (job_operation_data (recv_iface c)) (job_operation_len (recv_iface c)))"

definition trace_ok :: "BConnection \<Rightarrow> conn_event list \<Rightarrow> bool" where
  "trace_ok c tr \<longleftrightarrow> foldl send_next (Some Send_Idle) tr = Some (send_mode_of c) \<and> foldl recv_next (Some Recv_Idle) tr = Some (recv_mode_of c)"

section \<open>Effects of the operations on the reactor\<close>

lemma SetFileDescriptorEvents_frame [simp]:
  "pending_jobs (BReactor_SetFileDescriptorEvents K b ev s) = pending_jobs s"
  "fd_active (BReactor_SetFileDescriptorEvents K b ev s) = fd_active s"
  "fd_num (BReactor_SetFileDescriptorEvents K b ev s) = fd_num s"
  "waitEvents (BReactor_SetFileDescriptorEvents K b ev s) = (waitEvents s)(b := ev)"
  by (auto simp: BReactor_SetFileDescriptorEvents_def Let_def E_ASSERT_def fun_eq_iff split: prod.split)

lemma RemoveFileDescriptor_frame [simp]:
  "pending_jobs (BReactor_RemoveFileDescriptor K b s) = pending_jobs s"
  "fd_active (BReactor_RemoveFileDescriptor K b s) = (fd_active s)(b := False)"
  "fd_num (BReactor_RemoveFileDescriptor K b s) = fd_num s"
  "waitEvents (BReactor_RemoveFileDescriptor K b s) = waitEvents s"
  by (auto simp: BReactor_RemoveFileDescriptor_def Let_def E_ASSERT_def clear_result_def split: prod.split option.split)

lemma Increment_frame [simp]:
  "pending_jobs (fst (BReactorLimit_Increment x s)) = pending_jobs s" "fd_active (fst (BReactorLimit_Increment x s)) = fd_active s"
  "fd_num (fst (BReactorLimit_Increment x s)) = fd_num s" "waitEvents (fst (BReactorLimit_Increment x s)) = waitEvents s"
  by (auto simp: BReactorLimit_Increment_def Let_def)

section \<open>Preservation\<close>

definition settled :: "live \<Rightarrow> 'k cworld \<Rightarrow> bool" where
  "settled l w \<longleftrightarrow> (\<exists>xs. job_stack (live_jobs l) (pending_jobs (rx w)) xs \<and> con_ok l (rx w) (con w) (set xs) \<and> trace_ok (con w) (ctrace w)
     \<and> send_wakes (con w) \<and> recv_wakes (con w) (set xs))"

lemma assert_True [simp]: "b \<Longrightarrow> N_ASSERT b w = w" "b \<Longrightarrow> I_ASSERT b i = i"
  by (simp_all add: N_ASSERT_def I_ASSERT_def)

lemma assert_eq: "\<not> P \<Longrightarrow> N_ASSERT (\<not> P) w = w" "Q \<Longrightarrow> N_ASSERT Q w = w"
  by simp_all

lemma emit_simps [simp]: "rx (emit e w) = rx w" "con (emit e w) = con w" "ctr (emit e w) = ctr w" "ctrace (emit e w) = ctrace w @ [e]"
  by (simp_all add: emit_def)

lemma set_wait_events_simps [simp]:
  "con (set_wait_events K ev w) = (con w)\<lparr>wait_events := ev\<rparr>" "ctrace (set_wait_events K ev w) = ctrace w"
  "rx (set_wait_events K ev w) = BReactor_SetFileDescriptorEvents K (con_bfd (con w)) ev (rx w)"
  by (simp_all add: set_wait_events_def)

lemma con_jobs_simps [simp]:
  "con (con_jobs f w) = con w" "ctrace (con_jobs f w) = ctrace w" "rx (con_jobs f w) = (rx w)\<lparr>pending_jobs := f (pending_jobs (rx w))\<rparr>"
  by (simp_all add: con_jobs_def)

lemma bit_1_2: "bit (1 :: 32 word) n \<longleftrightarrow> n = 0" "bit (2 :: 32 word) n \<longleftrightarrow> n = Suc 0"
  using bit_exp_iff [of 0 n, where 'a = "32 word"] bit_exp_iff [of 1 n, where 'a = "32 word"] by auto

lemma only_rw_bits: "only_rw e \<longleftrightarrow> (\<forall>n. bit e n \<longrightarrow> n = 0 \<or> n = Suc 0)"
proof -
  have "only_rw e \<longleftrightarrow> (\<forall>n. n < 32 \<longrightarrow> bit e n \<longrightarrow> n = 0 \<or> n = Suc 0)"
    unfolding only_rw_def unfolding bit_eq_iff bit_and_iff bit_not_iff bit_or_iff bit_1_2 bit_0_eq by auto
  moreover have "n < 32" if "bit e n" for n using bit_imp_le_length [OF that] by simp
  ultimately show ?thesis by blast
qed

lemma wait_bits:
  fixes e :: "32 word"
  shows "bit (e OR 2) 0 = bit e 0" "bit (e OR 2) (Suc 0)" "bit (e OR 1) 0" "bit (e OR 1) (Suc 0) = bit e (Suc 0)"
    "only_rw e \<Longrightarrow> only_rw (e OR 2)" "only_rw e \<Longrightarrow> only_rw (e OR 1)"
    "only_rw e \<Longrightarrow> only_rw (e AND NOT f)" "bit (e AND NOT f) n \<Longrightarrow> bit e n" "bit (e AND NOT f) n \<Longrightarrow> \<not> bit f n"
proof -
  show "bit (e OR 2) 0 = bit e 0" "bit (e OR 2) (Suc 0)" "bit (e OR 1) 0" "bit (e OR 1) (Suc 0) = bit e (Suc 0)" by (simp_all add: bit_or_iff bit_1_2)
  show "only_rw e \<Longrightarrow> only_rw (e OR 2)" "only_rw e \<Longrightarrow> only_rw (e OR 1)" "only_rw e \<Longrightarrow> only_rw (e AND NOT f)"
    unfolding only_rw_bits bit_or_iff bit_and_iff bit_1_2 by blast+
  show "bit (e AND NOT f) n \<Longrightarrow> bit e n" "bit (e AND NOT f) n \<Longrightarrow> \<not> bit f n" by (auto simp: bit_and_iff bit_not_iff)
qed

lemmas inv_parts = con_ok_def send_ok_def recv_ok_def bfd_ok_def fault_free_def send_jobs_def recv_jobs_def if_ok_def

text \<open>Each part of the invariant depends on its own fields.\<close>

lemma send_ok_frame [simp]:
  "send_ok l (c\<lparr>wait_events := e\<rparr>) X = send_ok l c X" "send_ok l (c\<lparr>con_err := b\<rparr>) X = send_ok l c X" "send_ok l (c\<lparr>is_hupd := b\<rparr>) X = send_ok l c X"
  "send_ok l (c\<lparr>recv_st := rs\<rparr>) X = send_ok l c X" "send_ok l (c\<lparr>recv_iface := i\<rparr>) X = send_ok l c X"
  "send_ok l (c\<lparr>recv_busy_data := d\<rparr>) X = send_ok l c X" "send_ok l (c\<lparr>busy_data_avail := n\<rparr>) X = send_ok l c X"
  by (simp_all add: send_ok_def send_jobs_def)

lemma recv_ok_frame [simp]:
  "recv_ok l (c\<lparr>wait_events := e\<rparr>) X = recv_ok l c X" "recv_ok l (c\<lparr>con_err := b\<rparr>) X = recv_ok l c X" "recv_ok l (c\<lparr>is_hupd := b\<rparr>) X = recv_ok l c X"
  "recv_ok l (c\<lparr>send_st := ss\<rparr>) X = recv_ok l c X" "recv_ok l (c\<lparr>send_iface := j\<rparr>) X = recv_ok l c X"
  "recv_ok l (c\<lparr>busy_data := bs\<rparr>) X = recv_ok l c X" "recv_ok l (c\<lparr>busy_data_len := n\<rparr>) X = recv_ok l c X"
  by (simp_all add: recv_ok_def recv_jobs_def)

lemma mode_frame [simp]:
  "send_mode_of (c\<lparr>wait_events := e\<rparr>) = send_mode_of c" "send_mode_of (c\<lparr>con_err := b\<rparr>) = send_mode_of c"
  "send_mode_of (c\<lparr>is_hupd := b\<rparr>) = send_mode_of c" "send_mode_of (c\<lparr>recv_st := rs\<rparr>) = send_mode_of c"
  "send_mode_of (c\<lparr>recv_iface := i\<rparr>) = send_mode_of c" "send_mode_of (c\<lparr>recv_busy_data := d\<rparr>) = send_mode_of c"
  "send_mode_of (c\<lparr>busy_data_avail := n\<rparr>) = send_mode_of c"
  "recv_mode_of (c\<lparr>wait_events := e\<rparr>) = recv_mode_of c" "recv_mode_of (c\<lparr>con_err := b\<rparr>) = recv_mode_of c"
  "recv_mode_of (c\<lparr>is_hupd := b\<rparr>) = recv_mode_of c" "recv_mode_of (c\<lparr>send_st := ss\<rparr>) = recv_mode_of c"
  "recv_mode_of (c\<lparr>send_iface := j\<rparr>) = recv_mode_of c" "recv_mode_of (c\<lparr>busy_data := bs\<rparr>) = recv_mode_of c"
  "recv_mode_of (c\<lparr>busy_data_len := n\<rparr>) = recv_mode_of c"
  by (simp_all add: send_mode_of_def recv_mode_of_def cong: si_state.case_cong)

lemma other_jobs: "p \<notin> send_jobs c \<Longrightarrow> send_ok l c (insert p X) = send_ok l c X" "p \<notin> recv_jobs c \<Longrightarrow> recv_ok l c (insert p X) = recv_ok l c X"
  by (auto simp: send_ok_def recv_ok_def send_jobs_def recv_jobs_def if_ok_def)

lemmas con_parts = con_ok_def bfd_ok_def fault_free_def

text \<open>Waiting for the descriptor is a step of a client, and restores the wake-up.\<close>

lemma wait_step:
  assumes "bfd_ok l s c" and "\<not> is_hupd c" and "only_rw ev"
  shows "client_step K watched clock (l, s) (l, BReactor_SetFileDescriptorEvents K (con_bfd c) ev s)"
  using assms by (intro fd_set) (auto simp: bfd_ok_def only_rw_def)

lemma limit_step:
  assumes "bfd_ok l s c" and "lim = send_limit c \<or> lim = recv_limit c"
    and "(s', allowed) = (if \<not> is_hupd c then BReactorLimit_Increment lim s else (s, True))"
  shows "(client_step K watched clock)\<^sup>*\<^sup>* (l, s) (l, s')" and "pending_jobs s' = pending_jobs s" and "fd_active s' = fd_active s"
    and "waitEvents s' = waitEvents s" and "\<not> allowed \<Longrightarrow> \<not> is_hupd c" and "bfd_ok l s' c"
proof -
  have e: "is_hupd c \<and> s' = s \<and> allowed \<or> \<not> is_hupd c \<and> s' = fst (BReactorLimit_Increment lim s)"
    using assms(3) by (metis fst_conv snd_conv)
  have "client_step K watched clock (l, s) (l, fst (BReactorLimit_Increment lim s))" using assms(1,2) by (intro limit_increment) (auto simp: bfd_ok_def)
  with e show "(client_step K watched clock)\<^sup>*\<^sup>* (l, s) (l, s')" by (auto intro: r_into_rtranclp)
  show f: "pending_jobs s' = pending_jobs s" "fd_active s' = fd_active s" "waitEvents s' = waitEvents s" "\<not> allowed \<Longrightarrow> \<not> is_hupd c" using e by auto
  show "bfd_ok l s' c" using assms(1) f by (simp add: bfd_ok_def)
qed

lemma send_settles:
  assumes j: "job_stack (live_jobs l) (pending_jobs (rx w)) xs" and c: "con_ok l (rx w) (con w) (set xs)"
    and b: "send_st (con w) = SEND_STATE_BUSY" "\<not> con_err (con w)" and a: "write_ok (busy_data_len (con w)) ans"
    and n: "\<And>b. \<not> is_hupd (con w) \<Longrightarrow> bit (wait_events (con w)) 1 \<Longrightarrow> ans \<noteq> W_Bytes b"
    and t: "trace_ok (con w) (ctrace w)" and r: "recv_wakes (con w) (set xs)"
  shows "(client_step K watched clock)\<^sup>*\<^sup>* (l, rx w) (l, rx (connection_send_unix K ans w)) \<and> settled l (connection_send_unix K ans w)"
proof -
  obtain s allowed where s: "(s, allowed) = (if \<not> is_hupd (con w) then BReactorLimit_Increment (send_limit (con w)) (rx w) else (rx w, True))"
    by (metis surj_pair)
  have bf: "bfd_ok l (rx w) (con w)" using c by (simp add: con_ok_def)
  note st = limit_step [OF bf _ s, simplified]
  have u: "connection_send_unix K ans w = (if \<not> allowed then set_wait_events K (wait_events (con w) OR 2) (w\<lparr>rx := s\<rparr>)
     else case ans of W_Error again \<Rightarrow> if \<not> is_hupd (con w) \<and> again then set_wait_events K (wait_events (con w) OR 2) (w\<lparr>rx := s\<rparr>)
         else connection_report_error (w\<lparr>rx := s\<rparr>)
       | W_Bytes b \<Rightarrow> on_send_iface (StreamPassInterface_Done b)
           ((emit (Wrote (take (nat b) (busy_data (con w)))) (w\<lparr>rx := s\<rparr>))\<lparr>con := (con w)\<lparr>send_st := SEND_STATE_READY\<rparr>\<rparr>))"
    unfolding connection_send_unix_def Let_def assert_eq(1) [OF b(2)] assert_eq(2) [OF b(1)] s [symmetric] using a
    by (cases ans) (simp_all add: write_ok_def)
  consider (wait) "\<not> is_hupd (con w)" "connection_send_unix K ans w = set_wait_events K (wait_events (con w) OR 2) (w\<lparr>rx := s\<rparr>)"
    | (err) "connection_send_unix K ans w = connection_report_error (w\<lparr>rx := s\<rparr>)"
    | (data) b where "ans = W_Bytes b" "connection_send_unix K ans w = on_send_iface (StreamPassInterface_Done b)
           ((emit (Wrote (take (nat b) (busy_data (con w)))) (w\<lparr>rx := s\<rparr>))\<lparr>con := (con w)\<lparr>send_st := SEND_STATE_READY\<rparr>\<rparr>)"
    using u st(5) by (auto split: write_answer.splits if_splits)
  then show ?thesis
  proof cases
    case wait
    have "client_step K watched clock (l, s) (l, BReactor_SetFileDescriptorEvents K (con_bfd (con w)) (wait_events (con w) OR 2) s)"
      using wait_step [OF st(6) wait(1)] wait_bits(5) bf by (auto simp: bfd_ok_def)
    from rtranclp.rtrancl_into_rtrancl [OF st(1) this] have "(client_step K watched clock)\<^sup>*\<^sup>* (l, rx w) (l, rx (connection_send_unix K ans w))" using wait(2) by simp
    moreover have "con_ok l (rx (connection_send_unix K ans w)) (con (connection_send_unix K ans w)) (set xs)"
      using c b(1) wait wait_bits(1,5) [of "wait_events (con w)"] st(3) by (simp add: con_parts)
    moreover have "recv_wakes (con (connection_send_unix K ans w)) (set xs)" using r wait wait_bits(1) by (simp add: recv_wakes_def)
    ultimately show ?thesis unfolding settled_def using j t wait wait_bits(2) st(2)
      by (intro conjI exI [of _ xs]) (simp_all add: trace_ok_def send_wakes_def)
  next
    case err
    have e: "connection_report_error (w\<lparr>rx := s\<rparr>) = emit (Con_Handler BCONNECTION_EVENT_ERROR) (w\<lparr>rx := s, con := (con w)\<lparr>con_err := True\<rparr>\<rparr>)"
      using b(2) by (simp add: connection_report_error_def)
    show ?thesis unfolding settled_def err e using j c t st
      by (intro conjI exI [of _ xs]) (simp_all add: trace_ok_def send_wakes_def recv_wakes_def con_parts)
  next
    case (data b')
    let ?i = "send_iface (con w)"
    have i: "si_state ?i = SI_STATE_BUSY" "0 < b'" "b' \<le> job_operation_len ?i" "job_operation_len ?i = int (length (job_operation_data ?i))"
      "busy_data (con w) = job_operation_data ?i" "job_done ?i \<in> live_jobs l"
      using c b(1) a data(1) by (auto simp: inv_parts write_ok_def)
    have e: "connection_send_unix K ans w = w\<lparr>rx := s\<lparr>pending_jobs := BSmallPending_Set (job_done ?i) (pending_jobs (rx w))\<rparr>,
      con := (con w)\<lparr>send_st := SEND_STATE_READY, send_iface := ?i\<lparr>job_done_len := b', si_state := SI_STATE_DONE_PENDING\<rparr>\<rparr>,
      ctrace := ctrace w @ [Wrote (take (nat b') (job_operation_data ?i))]\<rparr>"
      using i st(2) unfolding data(2) on_send_iface_def StreamPassInterface_Done_def Let_def by (simp add: emit_def)
    have js: "job_stack (live_jobs l) (BSmallPending_Set (job_done ?i) (pending_jobs (rx w))) (job_done ?i # remove1 (job_done ?i) xs)"
      using pq.stack_set [OF j i(6)] .
    have x: "set (job_done ?i # remove1 (job_done ?i) xs) = insert (job_done ?i) (set xs)" using job_stackD(1) [OF j] by auto
    have nw: "\<not> is_hupd (con w) \<Longrightarrow> \<not> bit (wait_events (con w)) (Suc 0)" using n data(1) by auto
    have "client_step K watched clock (l, s) (l, s\<lparr>pending_jobs := BSmallPending_Set (job_done ?i) (pending_jobs (rx w))\<rparr>)"
      using job_set [OF i(6), of K watched clock s] st(2) by simp
    from rtranclp.rtrancl_into_rtrancl [OF st(1) this] have "(client_step K watched clock)\<^sup>*\<^sup>* (l, rx w) (l, rx (connection_send_unix K ans w))" unfolding e by simp
    moreover have "con_ok l (rx (connection_send_unix K ans w)) (con (connection_send_unix K ans w)) (insert (job_done ?i) (set xs))"
    proof -
      have "job_done ?i \<notin> recv_jobs (con w)" using c by (auto simp: con_ok_def recv_jobs_def)
      moreover have "send_ok l (con (connection_send_unix K ans w)) (insert (job_done ?i) (set xs))"
        using c b(1) i unfolding e by (auto simp: con_ok_def send_ok_def send_jobs_def if_ok_def)
      ultimately show ?thesis using c nw st(3,4) i other_jobs(2) [of "job_done ?i" "con w" l "set xs"] unfolding e by (simp add: con_parts)
    qed
    moreover have "take (nat b') (job_operation_data ?i) = take (length (take (nat b') (job_operation_data ?i))) (job_operation_data ?i)"
      "take (nat b') (job_operation_data ?i) \<noteq> []" "int (length (take (nat b') (job_operation_data ?i))) = b'" using i by auto
    then have "trace_ok (con (connection_send_unix K ans w)) (ctrace (connection_send_unix K ans w))"
      using t b(1) i unfolding e by (simp add: trace_ok_def) (simp add: send_mode_of_def)
    ultimately show ?thesis unfolding settled_def using js x r
      by (intro conjI exI [of _ "job_done ?i # remove1 (job_done ?i) xs"]) (simp_all add: e send_wakes_def recv_wakes_def)
  qed
qed

lemma recv_settles:
  assumes j: "job_stack (live_jobs l) (pending_jobs (rx w)) xs" and c: "con_ok l (rx w) (con w) (set xs)"
    and b: "recv_st (con w) = RECV_STATE_BUSY" "\<not> con_err (con w)" "recv_job (con w) \<notin> set xs" and a: "read_ok (busy_data_avail (con w)) ans"
    and n: "\<And>bs. \<not> is_hupd (con w) \<Longrightarrow> bit (wait_events (con w)) 0 \<Longrightarrow> ans \<noteq> R_Bytes bs"
    and t: "trace_ok (con w) (ctrace w)" and r: "send_wakes (con w)"
  shows "(client_step K watched clock)\<^sup>*\<^sup>* (l, rx w) (l, rx (connection_recv K ans w)) \<and> settled l (connection_recv K ans w)"
proof -
  obtain s allowed where s: "(s, allowed) = (if \<not> is_hupd (con w) then BReactorLimit_Increment (recv_limit (con w)) (rx w) else (rx w, True))"
    by (metis surj_pair)
  have bf: "bfd_ok l (rx w) (con w)" using c by (simp add: con_ok_def)
  note st = limit_step [OF bf _ s, simplified]
  let ?w = "connection_recv K ans w" and ?i = "recv_iface (con w)"
  have i: "si_state ?i = SI_STATE_BUSY" "job_done ?i \<in> live_jobs l" "recv_busy_data (con w) = job_operation_data ?i"
    "busy_data_avail (con w) = job_operation_len ?i"
    using c b(1) by (auto simp: inv_parts)
  have u: "?w = (if \<not> allowed then set_wait_events K (wait_events (con w) OR 1) (w\<lparr>rx := s\<rparr>)
     else case ans of R_Error again \<Rightarrow> if \<not> is_hupd (con w) \<and> again then set_wait_events K (wait_events (con w) OR 1) (w\<lparr>rx := s\<rparr>)
         else connection_report_error (w\<lparr>rx := s\<rparr>)
       | R_Bytes bs \<Rightarrow>
           let w1 = emit (Got (recv_busy_data (con w)) bs) (w\<lparr>rx := s\<rparr>) in
           if bs = [] then emit (Con_Handler BCONNECTION_EVENT_RECVCLOSED) (w1\<lparr>con := (con w)\<lparr>recv_st := RECV_STATE_INITED_CLOSED\<rparr>\<rparr>)
           else on_recv_iface (StreamRecvInterface_Done (int (length bs))) (w1\<lparr>con := (con w)\<lparr>recv_st := RECV_STATE_READY\<rparr>\<rparr>))"
    unfolding connection_recv_def Let_def assert_eq(1) [OF b(2)] assert_eq(2) [OF b(1)] s [symmetric] using a
    by (cases ans) (simp_all add: read_ok_def)
  consider (wait) "\<not> is_hupd (con w)" "?w = set_wait_events K (wait_events (con w) OR 1) (w\<lparr>rx := s\<rparr>)"
    | (err) "?w = connection_report_error (w\<lparr>rx := s\<rparr>)"
    | (closed) "ans = R_Bytes []" "?w = emit (Con_Handler BCONNECTION_EVENT_RECVCLOSED)
         ((emit (Got (recv_busy_data (con w)) []) (w\<lparr>rx := s\<rparr>))\<lparr>con := (con w)\<lparr>recv_st := RECV_STATE_INITED_CLOSED\<rparr>\<rparr>)"
    | (data) bs where "ans = R_Bytes bs" "bs \<noteq> []" "?w = on_recv_iface (StreamRecvInterface_Done (int (length bs)))
         ((emit (Got (recv_busy_data (con w)) bs) (w\<lparr>rx := s\<rparr>))\<lparr>con := (con w)\<lparr>recv_st := RECV_STATE_READY\<rparr>\<rparr>)"
    using u st(5) by (auto simp: Let_def split: read_answer.splits if_splits)
  then show ?thesis
  proof cases
    case wait
    have "client_step K watched clock (l, s) (l, BReactor_SetFileDescriptorEvents K (con_bfd (con w)) (wait_events (con w) OR 1) s)"
      using wait_step [OF st(6) wait(1)] wait_bits(6) bf by (auto simp: bfd_ok_def)
    from rtranclp.rtrancl_into_rtrancl [OF st(1) this] have "(client_step K watched clock)\<^sup>*\<^sup>* (l, rx w) (l, rx ?w)" using wait(2) by simp
    moreover have "con_ok l (rx ?w) (con ?w) (set xs)"
      using c b(1) wait wait_bits(4,6) [of "wait_events (con w)"] st(3) by (simp add: con_parts)
    moreover have "send_wakes (con ?w)" using r wait wait_bits(4) by (simp add: send_wakes_def)
    ultimately show ?thesis unfolding settled_def using j t wait wait_bits(3) st(2)
      by (intro conjI exI [of _ xs]) (simp_all add: trace_ok_def recv_wakes_def)
  next
    case err
    have e: "connection_report_error (w\<lparr>rx := s\<rparr>) = emit (Con_Handler BCONNECTION_EVENT_ERROR) (w\<lparr>rx := s, con := (con w)\<lparr>con_err := True\<rparr>\<rparr>)"
      using b(2) by (simp add: connection_report_error_def)
    show ?thesis unfolding settled_def err e using j c t st
      by (intro conjI exI [of _ xs]) (simp_all add: trace_ok_def send_wakes_def recv_wakes_def con_parts)
  next
    case closed
    have nw: "\<not> is_hupd (con w) \<Longrightarrow> \<not> bit (wait_events (con w)) 0" using n closed(1) by auto
    have "recv_ok l ((con w)\<lparr>recv_st := RECV_STATE_INITED_CLOSED\<rparr>) (set xs)"
      using c b i by (auto simp: con_ok_def recv_ok_def recv_jobs_def if_ok_def)
    then have "con_ok l (rx ?w) (con ?w) (set xs)" using c nw st(3,4) closed(2) by (simp add: con_parts)
    moreover have "foldl recv_next (Some Recv_Idle) (ctrace w) = Some (Recv_Asked (job_operation_data ?i) (job_operation_len ?i))"
      "0 < job_operation_len ?i" using t b(1) i(1) c by (auto simp: trace_ok_def recv_mode_of_def inv_parts)
    then have "trace_ok (con ?w) (ctrace ?w)"
      using t i(3) unfolding closed(2) by (simp add: trace_ok_def) (simp add: recv_mode_of_def)
    ultimately show ?thesis unfolding settled_def using j r st(1,2) closed(2)
      by (intro conjI exI [of _ xs]) (simp_all add: send_wakes_def recv_wakes_def)
  next
    case (data bs)
    have len: "int (length bs) \<le> job_operation_len ?i" using a data(1) i(4) by (simp add: read_ok_def)
    have e: "?w = w\<lparr>rx := s\<lparr>pending_jobs := BSmallPending_Set (job_done ?i) (pending_jobs (rx w))\<rparr>,
      con := (con w)\<lparr>recv_st := RECV_STATE_READY, recv_iface := ?i\<lparr>job_done_len := int (length bs), si_state := SI_STATE_DONE_PENDING\<rparr>\<rparr>,
      ctrace := ctrace w @ [Got (job_operation_data ?i) bs]\<rparr>"
      using i len data(2) st(2) unfolding data(3) on_recv_iface_def StreamRecvInterface_Done_def StreamPassInterface_Done_def Let_def by (simp add: emit_def)
    have js: "job_stack (live_jobs l) (BSmallPending_Set (job_done ?i) (pending_jobs (rx w))) (job_done ?i # remove1 (job_done ?i) xs)"
      using pq.stack_set [OF j i(2)] .
    have x: "set (job_done ?i # remove1 (job_done ?i) xs) = insert (job_done ?i) (set xs)" using job_stackD(1) [OF j] by auto
    have nw: "\<not> is_hupd (con w) \<Longrightarrow> \<not> bit (wait_events (con w)) 0" using n data(1) by auto
    have "client_step K watched clock (l, s) (l, s\<lparr>pending_jobs := BSmallPending_Set (job_done ?i) (pending_jobs (rx w))\<rparr>)"
      using job_set [OF i(2), of K watched clock s] st(2) by simp
    from rtranclp.rtrancl_into_rtrancl [OF st(1) this] have "(client_step K watched clock)\<^sup>*\<^sup>* (l, rx w) (l, rx ?w)" unfolding e by simp
    moreover have "con_ok l (rx ?w) (con ?w) (insert (job_done ?i) (set xs))"
    proof -
      have "job_done ?i \<notin> send_jobs (con w)" using c by (auto simp: con_ok_def send_jobs_def)
      moreover have "recv_ok l (con ?w) (insert (job_done ?i) (set xs))"
        using c b i unfolding e by (auto simp: con_ok_def recv_ok_def recv_jobs_def if_ok_def)
      ultimately show ?thesis using c nw st(3,4) i other_jobs(1) [of "job_done ?i" "con w" l "set xs"] unfolding e by (simp add: con_parts)
    qed
    moreover have "foldl recv_next (Some Recv_Idle) (ctrace w) = Some (Recv_Asked (job_operation_data ?i) (job_operation_len ?i))"
      using t b(1) i(1) by (simp add: trace_ok_def recv_mode_of_def)
    then have "trace_ok (con ?w) (ctrace ?w)" using t len data(2) unfolding e by (simp add: trace_ok_def) (simp add: recv_mode_of_def)
    ultimately show ?thesis unfolding settled_def using js x r
      by (intro conjI exI [of _ "job_done ?i # remove1 (job_done ?i) xs"]) (simp_all add: e send_wakes_def recv_wakes_def)
  qed
qed

lemma event_masks: "(e AND (BREACTOR_ERROR OR BREACTOR_HUP) = 0) \<longleftrightarrow> \<not> bit e 2 \<and> \<not> bit e 3"
proof -
  have "e AND (BREACTOR_ERROR OR BREACTOR_HUP) = (e AND 4) OR (e AND 8)" by (rule bit.conj_disj_distrib)
  then show ?thesis by (auto simp: bit_masks or_eq_0_iff simp flip: bit_masks)
qed

lemma report_error_settles:
  assumes "job_stack (live_jobs l) (pending_jobs (rx w)) xs" and "con_ok l (rx w) (con w) (set xs)" and "\<not> con_err (con w)"
    and "trace_ok (con w) (ctrace w)"
  shows "settled l (connection_report_error w) \<and> rx (connection_report_error w) = rx w"
  using assms unfolding settled_def connection_report_error_def Let_def
  by (auto intro!: exI [of _ xs] simp: trace_ok_def send_wakes_def recv_wakes_def con_parts)

text \<open>The first half of the handler: the events are cleared, and after a hang-up the descriptor is not watched any more.\<close>

lemma handled_events:
  assumes c: "con_ok l (rx w) (con w) X" and h: "\<not> is_hupd (con w)"
    and w1: "w1 = set_wait_events K (wait_events (con w) AND NOT events) w"
    and w2: "w2 = (if hup then w1\<lparr>rx := BReactor_RemoveFileDescriptor K (con_bfd (con w1)) (rx w1), con := (con w1)\<lparr>is_hupd := True\<rparr>\<rparr> else w1)"
  shows "(client_step K watched clock)\<^sup>*\<^sup>* (l, rx w) (l, rx w2)" and "con_ok l (rx w2) (con w2) X"
    and "con w2 = (con w)\<lparr>wait_events := wait_events (con w) AND NOT events, is_hupd := hup\<rparr>" and "ctrace w2 = ctrace w"
    and "pending_jobs (rx w2) = pending_jobs (rx w)"
proof -
  have bf: "bfd_ok l (rx w) (con w)" using c by (simp add: con_ok_def)
  have o: "only_rw (wait_events (con w) AND NOT events)" using bf wait_bits(7) by (auto simp: bfd_ok_def)
  have s1: "client_step K watched clock (l, rx w) (l, rx w1)" unfolding w1 using wait_step [OF bf h o] by simp
  have s2: "client_step K watched clock (l, rx w1) (l, BReactor_RemoveFileDescriptor K (con_bfd (con w1)) (rx w1))"
    using bf h unfolding w1 by (intro fd_remove) (auto simp: bfd_ok_def)
  show "(client_step K watched clock)\<^sup>*\<^sup>* (l, rx w) (l, rx w2)"
    using s1 s2 unfolding w2 by (cases hup) (auto intro: r_into_rtranclp converse_rtranclp_into_rtranclp)
  show "con w2 = (con w)\<lparr>wait_events := wait_events (con w) AND NOT events, is_hupd := hup\<rparr>" "ctrace w2 = ctrace w"
    "pending_jobs (rx w2) = pending_jobs (rx w)" unfolding w2 w1 using h by (cases hup; simp)+
  show "con_ok l (rx w2) (con w2) X"
    using c o h wait_bits(8) [of "wait_events (con w)" events] unfolding w2 w1 by (cases hup) (simp_all add: con_parts)
qed

lemma fd_handler_settles:
  assumes s: "settled l w" and j: "job_stack (live_jobs l) (pending_jobs (rx w)) []" and e: "\<not> con_err (con w)" and h: "\<not> is_hupd (con w)"
    and ev: "bit events 0 \<Longrightarrow> bit (wait_events (con w)) 0" "bit events 1 \<Longrightarrow> bit (wait_events (con w)) 1"
    and len: "write_ok (job_operation_len (send_iface (con w))) wans" "read_ok (job_operation_len (recv_iface (con w))) rans"
    and a: "error_ok (wait_events (con w)) events wans rans"
  shows "(client_step K watched clock)\<^sup>*\<^sup>* (l, rx w) (l, rx (connection_fd_handler K events wans rans w))
    \<and> settled l (connection_fd_handler K events wans rans w)"
proof -
  obtain xs where xs: "job_stack (live_jobs l) (pending_jobs (rx w)) xs" "con_ok l (rx w) (con w) (set xs)" "trace_ok (con w) (ctrace w)"
    "send_wakes (con w)" "recv_wakes (con w) (set xs)" using s by (auto simp: settled_def)
  have "list_first (pending_jobs (rx w)) = None" using linked_first [OF job_stackD(3) [OF j]] by simp
  then have "xs = []" using linked_first [OF job_stackD(3) [OF xs(1)]] by (cases xs) auto
  note xs = xs [unfolded this]
  let ?c = "con w"
  define w1 where "w1 = set_wait_events K (wait_events ?c AND NOT events) w"
  define w2 where "w2 = (if bit events 3 then w1\<lparr>rx := BReactor_RemoveFileDescriptor K (con_bfd (con w1)) (rx w1), con := (con w1)\<lparr>is_hupd := True\<rparr>\<rparr> else w1)"
  note d = handled_events [OF xs(2) h w1_def w2_def, simplified]
  define have_send where "have_send \<longleftrightarrow> (bit events 1 \<or> bit events 2 \<or> bit events 3) \<and> send_st ?c = SEND_STATE_BUSY"
  define have_recv where "have_recv \<longleftrightarrow> (bit events 0 \<or> bit events 2 \<or> bit events 3) \<and> recv_st ?c = RECV_STATE_BUSY"
  have l: "send_st ?c = SEND_STATE_BUSY \<Longrightarrow> write_ok (busy_data_len ?c) wans" "recv_st ?c = RECV_STATE_BUSY \<Longrightarrow> read_ok (busy_data_avail ?c) rans"
    using xs(2) len by (auto simp: con_ok_def send_ok_def recv_ok_def)
  have busy: "bit events 1 \<Longrightarrow> send_st ?c = SEND_STATE_BUSY" "bit events 0 \<Longrightarrow> recv_st ?c = RECV_STATE_BUSY"
    using ev xs(2) h by (auto simp: con_parts)
  have u: "connection_fd_handler K events wans rans w =
    (if have_send then connection_send_unix K wans (if have_recv then con_jobs (BSmallPending_Set (recv_job ?c)) w2 else w2)
     else if have_recv then connection_recv K rans w2
     else if \<not> bit events 3 then connection_report_error w2 else w2)"
  proof -
    have f: "send_st (con w2) = send_st ?c" "recv_st (con w2) = recv_st ?c" "recv_job (con w2) = recv_job ?c" "is_hupd (con w2) = bit events 3"
      using d(3) by simp_all
    show ?thesis
      unfolding connection_fd_handler_def Let_def assert_eq(1) [OF e] assert_eq(1) [OF h] bit_masks event_masks not_not w1_def [symmetric] w2_def [symmetric] f
      using busy f by (auto simp: have_send_def have_recv_def)
  qed
  have t2: "trace_ok (con w2) (ctrace w2)" using xs(3) d(3,4) by (simp add: trace_ok_def)
  have j2: "job_stack (live_jobs l) (pending_jobs (rx w2)) []" using j d(5) by simp
  have sb: "\<not> bit events 3 \<and> bit (wait_events ?c AND NOT events) 1" if "send_st ?c = SEND_STATE_BUSY" "\<not> have_send"
    using that xs(4) e by (auto simp: send_wakes_def have_send_def bit_and_iff bit_not_iff)
  have rb: "\<not> bit events 3 \<and> bit (wait_events ?c AND NOT events) 0" if "recv_st ?c = RECV_STATE_BUSY" "\<not> have_recv"
    using that xs(5) e by (auto simp: recv_wakes_def have_recv_def bit_and_iff bit_not_iff)
  have ew: "wans \<noteq> W_Bytes b" if "\<not> bit events 3" "bit (wait_events ?c AND NOT events) 1" for b
    using a that wait_bits(8,9) [OF that(2)] by (auto simp: error_ok_def)
  have er: "rans \<noteq> R_Bytes bs" if "\<not> bit events 3" "bit (wait_events ?c AND NOT events) 0" for bs
    using a that wait_bits(8,9) [OF that(2)] by (auto simp: error_ok_def)
  consider (both) "have_send" "have_recv" | (send) "have_send" "\<not> have_recv" | (recv) "\<not> have_send" "have_recv" | (none) "\<not> have_send" "\<not> have_recv"
    by blast
  then show ?thesis
  proof cases
    case both
    let ?p = "recv_job ?c" and ?w3 = "con_jobs (BSmallPending_Set (recv_job ?c)) w2"
    have p: "?p \<in> live_jobs l" using xs(2) both(2) by (auto simp: con_ok_def recv_ok_def recv_jobs_def have_recv_def)
    have js: "job_stack (live_jobs l) (pending_jobs (rx ?w3)) [?p]" using pq.stack_set [OF j2 p] by simp
    have "?p \<notin> send_jobs (con w2)" using xs(2) d(3) by (auto simp: con_ok_def send_jobs_def)
    moreover have "recv_ok l (con w2) {?p}"
      using d(2) both(2) d(3) xs(2) by (auto simp: con_ok_def recv_ok_def recv_jobs_def if_ok_def have_recv_def)
    ultimately have "con_ok l (rx ?w3) (con ?w3) (set [?p])"
      using d(2) other_jobs(1) [of ?p "con w2" l "{}"] by (simp add: con_parts)
    from send_settles [OF js this, of wans K watched clock] both l(1) ew t2 d(3) e
    have A: "(client_step K watched clock)\<^sup>*\<^sup>* (l, rx ?w3) (l, rx (connection_send_unix K wans ?w3)) \<and> settled l (connection_send_unix K wans ?w3)"
      by (simp add: have_send_def recv_wakes_def)
    have "client_step K watched clock (l, rx w2) (l, rx ?w3)" using job_set [OF p] by simp
    from rtranclp_trans [OF d(1) converse_rtranclp_into_rtranclp [OF this A [THEN conjunct1]]] show ?thesis
      unfolding u using both A by simp
  next
    case send
    have "recv_wakes (con w2) (set [])" using rb send(2) d(3) by (auto simp: recv_wakes_def)
    from send_settles [OF j2, of wans K watched clock] this d(2,3) send l(1) ew t2 e
    have "(client_step K watched clock)\<^sup>*\<^sup>* (l, rx w2) (l, rx (connection_send_unix K wans w2)) \<and> settled l (connection_send_unix K wans w2)"
      by (simp add: have_send_def)
    then show ?thesis unfolding u using send d(1) by (auto intro: rtranclp_trans)
  next
    case recv
    have "send_wakes (con w2)" using sb recv(1) d(3) by (auto simp: send_wakes_def)
    from recv_settles [OF j2, of rans K watched clock] this d(2,3) recv l(2) er t2 e
    have "(client_step K watched clock)\<^sup>*\<^sup>* (l, rx w2) (l, rx (connection_recv K rans w2)) \<and> settled l (connection_recv K rans w2)"
      by (simp add: have_recv_def)
    then show ?thesis unfolding u using recv d(1) by (auto intro: rtranclp_trans)
  next
    case none
    have "settled l w2" if "bit events 3"
      unfolding settled_def using j2 d(2) t2 sb rb none that by (intro exI [of _ "[]"]) (auto simp: send_wakes_def recv_wakes_def d(3))
    moreover have "settled l (connection_report_error w2) \<and> rx (connection_report_error w2) = rx w2"
      using report_error_settles [OF j2] d(2,3) t2 e by simp
    ultimately show ?thesis unfolding u using none d(1) by auto
  qed
qed

lemma linked_unique: "linked n p f xs \<Longrightarrow> linked n p f ys \<Longrightarrow> xs = ys"
proof (induction xs arbitrary: f ys)
  case Nil
  then show ?case by (cases ys) (auto simp: linked_Cons)
next
  case (Cons x xs)
  then show ?case by (cases ys) (auto simp: linked_Cons)
qed

lemma stack_unique: "job_stack S g xs \<Longrightarrow> job_stack S g ys \<Longrightarrow> xs = ys"
  unfolding job_stack_def using linked_unique by blast

lemma job_settles:
  assumes s: "settled l w" and j: "job_stack (live_jobs l) (pending_jobs (rx w)) (p # ys)" "job_stack (live_jobs l) g ys" and e: "\<not> con_err (con w)"
    and len: "write_ok (job_operation_len (send_iface (con w))) wans" "read_ok (job_operation_len (recv_iface (con w))) rans"
    and a: "is_hupd (con w) \<or> error_ok (wait_events (con w)) 0 wans rans"
    and r: "con_job_handler K wans rans p (w\<lparr>rx := (rx w)\<lparr>pending_jobs := g\<rparr>\<rparr>) = Some w'"
  shows "(client_step K watched clock)\<^sup>*\<^sup>* (l, (rx w)\<lparr>pending_jobs := g\<rparr>) (l, rx w') \<and> settled l w'"
proof -
  let ?c = "con w" and ?w = "w\<lparr>rx := (rx w)\<lparr>pending_jobs := g\<rparr>\<rparr>"
  obtain xs where xs: "job_stack (live_jobs l) (pending_jobs (rx w)) xs" "con_ok l (rx w) ?c (set xs)" "trace_ok ?c (ctrace w)"
    "send_wakes ?c" "recv_wakes ?c (set xs)" using s by (auto simp: settled_def)
  have "xs = p # ys" using stack_unique [OF xs(1) j(1)] .
  note c = xs(2) [unfolded this] and rw = xs(5) [unfolded this]
  have p: "p \<in> live_jobs l" "p \<notin> set ys" using job_stackD(1,2) [OF j(1)] by auto
  have inited: "p \<in> send_jobs ?c \<Longrightarrow> send_st ?c \<noteq> SEND_STATE_NOT_INITED" "p \<in> recv_jobs ?c \<Longrightarrow> recv_st ?c \<noteq> RECV_STATE_NOT_INITED"
    using c p(1) by (auto simp: con_ok_def send_ok_def recv_ok_def)
  have dj: "distinct [job_operation (send_iface ?c), job_done (send_iface ?c), send_job ?c, job_operation (recv_iface ?c), job_done (recv_iface ?c), recv_job ?c]"
    "distinct [recv_job ?c, job_done (recv_iface ?c), job_operation (recv_iface ?c), send_job ?c, job_done (send_iface ?c), job_operation (send_iface ?c)]"
    using c unfolding con_ok_def by auto
  have sj: "send_ok l ?c (set ys)" if "p \<notin> send_jobs ?c" using c that other_jobs(1) [of p ?c l "set ys"] by (simp add: con_ok_def)
  have rj: "recv_ok l ?c (set ys)" if "p \<notin> recv_jobs ?c" using c that other_jobs(2) [of p ?c l "set ys"] by (simp add: con_ok_def)
  have sw: "send_wakes ?c" and bf: "bfd_ok l (rx w) ?c" and ff: "fault_free ?c" and sl: "send_limit ?c \<noteq> recv_limit ?c"
    using xs(4) c by (auto simp: con_ok_def)
  consider (op) "p = job_operation (send_iface ?c)" | (dn) "p = job_done (send_iface ?c)" | (job) "p = send_job ?c"
    | (rop) "p = job_operation (recv_iface ?c)" | (rdone) "p = job_done (recv_iface ?c)" | (rjob) "p = recv_job ?c"
    using r by (auto simp: con_job_handler_def Let_def split: if_splits)
  then show ?thesis
  proof cases
    case op
    let ?i = "send_iface ?c"
    have i: "si_state ?i = SI_STATE_OPERATION_PENDING" "send_st ?c = SEND_STATE_READY" "0 < job_operation_len ?i"
      using c inited(1) op by (cases "send_st ?c"; auto simp: con_ok_def send_ok_def if_ok_def send_jobs_def)+
    let ?w2 = "?w\<lparr>con := ?c\<lparr>send_iface := ?i\<lparr>si_state := SI_STATE_BUSY\<rparr>, busy_data := job_operation_data ?i, busy_data_len := job_operation_len ?i,
        send_st := SEND_STATE_BUSY\<rparr>\<rparr>"
    have w': "w' = connection_send_unix K wans ?w2"
      using r op i e unfolding con_job_handler_def Let_def
      by (simp add: connection_send_if_handler_send_def StreamPassInterface_job_operation_def Let_def)
    have "send_ok l (con ?w2) (set ys)"
      using c op i p(2) by (auto simp: con_ok_def send_ok_def send_jobs_def if_ok_def)
    moreover have "recv_ok l (con ?w2) (set ys)" using rj dj op by (simp add: recv_jobs_def)
    ultimately have "con_ok l (rx ?w2) (con ?w2) (set ys)" using c i(2) by (simp add: con_parts)
    moreover have "trace_ok (con ?w2) (ctrace ?w2)" using xs(3) i by (simp add: trace_ok_def) (simp add: send_mode_of_def)
    moreover have "recv_wakes (con ?w2) (set ys)" using rw dj op by (auto simp: recv_wakes_def)
    moreover have "\<not> is_hupd ?c \<Longrightarrow> \<not> bit (wait_events ?c) (Suc 0)" using bf i(2) by (auto simp: bfd_ok_def)
    ultimately show ?thesis unfolding w' using send_settles [of l ?w2 ys wans K watched clock] j(2) len(1) e by simp
  next
    case dn
    let ?i = "send_iface ?c"
    have i: "si_state ?i = SI_STATE_DONE_PENDING" "send_st ?c = SEND_STATE_READY"
      using c inited(1) dn by (cases "send_st ?c"; auto simp: con_ok_def send_ok_def if_ok_def send_jobs_def)+
    have w': "w' = emit (Done_Send (job_done_len ?i)) (?w\<lparr>con := ?c\<lparr>send_iface := ?i\<lparr>si_state := SI_STATE_NONE\<rparr>\<rparr>\<rparr>)"
      using r dn i dj unfolding con_job_handler_def Let_def by (simp add: StreamPassInterface_job_done_def Let_def)
    have "send_ok l (con w') (set ys)" unfolding w' using c dn i p(2) by (auto simp: con_ok_def send_ok_def send_jobs_def if_ok_def)
    moreover have "recv_ok l (con w') (set ys)" unfolding w' using rj dj dn by (simp add: recv_jobs_def)
    ultimately have "con_ok l (rx w') (con w') (set ys)" using c i(2) unfolding w' by (simp add: con_parts)
    moreover have "trace_ok (con w') (ctrace w')" using xs(3) i unfolding w' by (simp add: trace_ok_def) (simp add: send_mode_of_def)
    ultimately show ?thesis unfolding settled_def using j(2) sw rw dj dn w'
      by (intro conjI exI [of _ ys]) (auto simp: send_wakes_def recv_wakes_def)
  next
    case job
    then show ?thesis using c inited(1) by (auto simp: con_ok_def send_ok_def send_jobs_def)
  next
    case rop
    let ?i = "recv_iface ?c"
    have i: "si_state ?i = SI_STATE_OPERATION_PENDING" "recv_st ?c = RECV_STATE_READY" "0 < job_operation_len ?i" "recv_job ?c \<notin> set ys"
      using c inited(2) rop by (cases "recv_st ?c"; auto simp: con_ok_def recv_ok_def if_ok_def recv_jobs_def)+
    let ?w2 = "?w\<lparr>con := ?c\<lparr>recv_iface := ?i\<lparr>si_state := SI_STATE_BUSY\<rparr>, recv_busy_data := job_operation_data ?i, busy_data_avail := job_operation_len ?i,
        recv_st := RECV_STATE_BUSY\<rparr>\<rparr>"
    have w': "w' = connection_recv K rans ?w2"
      using r rop i e dj unfolding con_job_handler_def Let_def
      by (simp add: connection_recv_if_handler_recv_def StreamRecvInterface_job_operation_def StreamPassInterface_job_operation_def Let_def)
    have "recv_ok l (con ?w2) (set ys)"
      using c rop i p(2) by (auto simp: con_ok_def recv_ok_def recv_jobs_def if_ok_def)
    moreover have "send_ok l (con ?w2) (set ys)" using sj dj rop by (simp add: send_jobs_def)
    ultimately have "con_ok l (rx ?w2) (con ?w2) (set ys)" using c i(2) by (simp add: con_parts)
    moreover have "trace_ok (con ?w2) (ctrace ?w2)" using xs(3) i by (simp add: trace_ok_def) (simp add: recv_mode_of_def)
    moreover have "send_wakes (con ?w2)" using sw by (simp add: send_wakes_def)
    moreover have "\<not> is_hupd ?c \<Longrightarrow> \<not> bit (wait_events ?c) 0" using bf i(2) by (auto simp: bfd_ok_def)
    ultimately show ?thesis unfolding w' using recv_settles [of l ?w2 ys rans K watched clock] j(2) len(2) i(4) e by simp
  next
    case rdone
    let ?i = "recv_iface ?c"
    have i: "si_state ?i = SI_STATE_DONE_PENDING" "recv_st ?c = RECV_STATE_READY"
      using c inited(2) rdone by (cases "recv_st ?c"; auto simp: con_ok_def recv_ok_def if_ok_def recv_jobs_def)+
    have w': "w' = emit (Done_Recv (job_done_len ?i)) (?w\<lparr>con := ?c\<lparr>recv_iface := ?i\<lparr>si_state := SI_STATE_NONE\<rparr>\<rparr>\<rparr>)"
      using r rdone i dj unfolding con_job_handler_def Let_def by (simp add: StreamRecvInterface_job_done_def StreamPassInterface_job_done_def Let_def)
    have "recv_ok l (con w') (set ys)" unfolding w' using c rdone i p(2) by (auto simp: con_ok_def recv_ok_def recv_jobs_def if_ok_def)
    moreover have "send_ok l (con w') (set ys)" unfolding w' using sj dj rdone by (simp add: send_jobs_def)
    ultimately have "con_ok l (rx w') (con w') (set ys)" using c i(2) unfolding w' by (simp add: con_parts)
    moreover have "trace_ok (con w') (ctrace w')" using xs(3) i unfolding w' by (simp add: trace_ok_def) (simp add: recv_mode_of_def)
    ultimately show ?thesis unfolding settled_def using j(2) sw i w'
      by (intro conjI exI [of _ ys]) (auto simp: send_wakes_def recv_wakes_def)
  next
    case rjob
    have i: "recv_st ?c = RECV_STATE_BUSY" "busy_data_avail ?c = job_operation_len (recv_iface ?c)"
      using c inited(2) rjob by (auto simp: con_ok_def recv_ok_def recv_jobs_def)
    have w': "w' = connection_recv K rans ?w"
      using r rjob i e dj unfolding con_job_handler_def Let_def by (simp add: connection_recv_job_handler_def Let_def)
    have "recv_ok l (con ?w) (set ys)" using c rjob i p(2) dj by (auto simp: con_ok_def recv_ok_def recv_jobs_def if_ok_def)
    moreover have "send_ok l (con ?w) (set ys)" using sj dj rjob by (simp add: send_jobs_def)
    ultimately have "con_ok l (rx ?w) (con ?w) (set ys)" using c by (simp add: con_parts)
    moreover have "rans \<noteq> R_Bytes bs" if "\<not> is_hupd ?c" "bit (wait_events ?c) 0" for bs using a that by (auto simp: error_ok_def)
    ultimately show ?thesis unfolding w' using recv_settles [of l ?w ys rans K watched clock] j(2) len(2) i e xs(3) sw p(2) rjob by simp
  qed
qed

lemma init_steps:
  fixes x y z :: nat
  assumes "distinct [a, b, d]" and "{a, b, d} \<inter> live_jobs l = {}" and "job_stack (live_jobs l) (pending_jobs s) xs"
  defines "l' \<equiv> l\<lparr>live_jobs := live_jobs l \<union> {a, b, d}\<rparr>" and "g \<equiv> BSmallPending_Init d x (BSmallPending_Init b y (BSmallPending_Init a z (pending_jobs s)))"
  shows "(client_step K watched clock)\<^sup>*\<^sup>* (l, s) (l', s\<lparr>pending_jobs := g\<rparr>)" and "job_stack (live_jobs l') g xs"
proof -
  let ?l1 = "l\<lparr>live_jobs := insert a (live_jobs l)\<rparr>" and ?s1 = "s\<lparr>pending_jobs := BSmallPending_Init a z (pending_jobs s)\<rparr>"
  let ?l2 = "l\<lparr>live_jobs := insert b (insert a (live_jobs l))\<rparr>" and ?s2 = "s\<lparr>pending_jobs := BSmallPending_Init b y (BSmallPending_Init a z (pending_jobs s))\<rparr>"
  have "client_step K watched clock (l, s) (?l1, ?s1)" using job_init [of a l] assms(2) by simp
  moreover have "client_step K watched clock (?l1, ?s1) (?l2, ?s2)" using job_init [of b ?l1 K watched clock ?s1 y] assms(1,2) by simp
  moreover have "client_step K watched clock (?l2, ?s2) (l', s\<lparr>pending_jobs := g\<rparr>)"
    using job_init [of d ?l2 K watched clock ?s2 x] assms(1,2) by (simp add: l'_def g_def insert_commute Un_commute)
  ultimately show "(client_step K watched clock)\<^sup>*\<^sup>* (l, s) (l', s\<lparr>pending_jobs := g\<rparr>)" by (meson converse_rtranclp_into_rtranclp rtranclp.rtrancl_refl)
  show "job_stack (live_jobs l') g xs"
    using job_stack_Init [OF job_stack_Init [OF job_stack_Init [OF assms(3), of a z], of b y], of d x] assms(1,2)
    by (simp add: l'_def g_def insert_commute Un_commute)
qed

lemma free_steps:
  assumes "distinct [a, b, d]" and "{a, b, d} \<subseteq> live_jobs l" and "job_stack (live_jobs l) (pending_jobs s) xs"
  defines "l' \<equiv> l\<lparr>live_jobs := live_jobs l - {a, b, d}\<rparr>" and "g \<equiv> BSmallPending_Free a (BSmallPending_Free b (BSmallPending_Free d (pending_jobs s)))"
  shows "(client_step K watched clock)\<^sup>*\<^sup>* (l, s) (l', s\<lparr>pending_jobs := g\<rparr>)"
    and "job_stack (live_jobs l') g (remove1 a (remove1 b (remove1 d xs)))" and "set (remove1 a (remove1 b (remove1 d xs))) = set xs - {a, b, d}"
proof -
  let ?l1 = "l\<lparr>live_jobs := live_jobs l - {d}\<rparr>" and ?s1 = "s\<lparr>pending_jobs := BSmallPending_Free d (pending_jobs s)\<rparr>"
  let ?l2 = "l\<lparr>live_jobs := live_jobs l - {d} - {b}\<rparr>" and ?s2 = "s\<lparr>pending_jobs := BSmallPending_Free b (BSmallPending_Free d (pending_jobs s))\<rparr>"
  have m: "live_jobs l - {d} - {b} - {a} = live_jobs l - {a, b, d}" by blast
  have "client_step K watched clock (l, s) (?l1, ?s1)" using job_free [of d l] assms(2) by simp
  moreover have "client_step K watched clock (?l1, ?s1) (?l2, ?s2)" using job_free [of b ?l1 K watched clock ?s1] assms(1,2) by simp
  moreover have "client_step K watched clock (?l2, ?s2) (l', s\<lparr>pending_jobs := g\<rparr>)"
    using job_free [of a ?l2 K watched clock ?s2] assms(1,2) by (simp add: l'_def g_def m)
  ultimately show "(client_step K watched clock)\<^sup>*\<^sup>* (l, s) (l', s\<lparr>pending_jobs := g\<rparr>)" by (meson converse_rtranclp_into_rtranclp rtranclp.rtrancl_refl)
  show "job_stack (live_jobs l') g (remove1 a (remove1 b (remove1 d xs)))"
    using job_stack_Free [OF job_stack_Free [OF job_stack_Free [OF assms(3), of d], of b], of a] assms(1,2) by (simp add: l'_def g_def m)
  show "set (remove1 a (remove1 b (remove1 d xs))) = set xs - {a, b, d}" using job_stackD(1) [OF assms(3)] by auto
qed

lemma settledD:
  assumes "settled l w"
  obtains xs where "job_stack (live_jobs l) (pending_jobs (rx w)) xs" "con_ok l (rx w) (con w) (set xs)" "trace_ok (con w) (ctrace w)"
    "send_wakes (con w)" "recv_wakes (con w) (set xs)"
  using assms unfolding settled_def by blast

lemma con_okD:
  assumes "con_ok l s c X"
  shows "distinct [job_operation (send_iface c), job_done (send_iface c), send_job c]" "distinct [job_operation (recv_iface c), job_done (recv_iface c), recv_job c]"
    "send_jobs c \<inter> recv_jobs c = {}" "send_ok l c X" "recv_ok l c X" "bfd_ok l s c" "fault_free c"
  using assms unfolding con_ok_def send_jobs_def recv_jobs_def by auto

lemma send_init_settles:
  assumes s: "settled l w" and i: "send_st (con w) = SEND_STATE_NOT_INITED" "\<not> con_err (con w)"
  shows "(client_step K watched clock)\<^sup>*\<^sup>* (l, rx w) (l\<lparr>live_jobs := live_jobs l \<union> send_jobs (con w)\<rparr>, rx (BConnection_SendAsync_Init w))
    \<and> settled (l\<lparr>live_jobs := live_jobs l \<union> send_jobs (con w)\<rparr>) (BConnection_SendAsync_Init w)"
  using s
proof (rule settledD)
  fix xs
  assume xs: "job_stack (live_jobs l) (pending_jobs (rx w)) xs" "con_ok l (rx w) (con w) (set xs)" "trace_ok (con w) (ctrace w)"
    "send_wakes (con w)" "recv_wakes (con w) (set xs)"
  let ?c = "con w" and ?i = "send_iface (con w)" and ?w = "BConnection_SendAsync_Init w" and ?l = "l\<lparr>live_jobs := live_jobs l \<union> send_jobs (con w)\<rparr>"
  note d = con_okD [OF xs(2)]
  have n: "{job_operation ?i, job_done ?i, send_job ?c} \<inter> live_jobs l = {}" using d(4) i(1) by (simp add: send_ok_def send_jobs_def)
  note st = init_steps [OF d(1) n xs(1), folded send_jobs_def]
  have e: "?w = w\<lparr>rx := (rx w)\<lparr>pending_jobs := BSmallPending_Init (send_job ?c) 3 (BSmallPending_Init (job_done ?i) 2 (BSmallPending_Init (job_operation ?i) 1 (pending_jobs (rx w))))\<rparr>,
      con := ?c\<lparr>send_iface := ?i\<lparr>has_handler_done := False, si_state := SI_STATE_NONE\<rparr>, send_st := SEND_STATE_READY\<rparr>\<rparr>"
    using i by (simp add: BConnection_SendAsync_Init_def on_send_iface_def StreamPassInterface_Init_def con_jobs_def Let_def)
  have x: "set xs \<subseteq> live_jobs l" using job_stackD(2) [OF xs(1)] .
  have "send_ok ?l (con ?w) (set xs)" using x n unfolding e by (auto simp: send_ok_def send_jobs_def if_ok_def)
  moreover have "recv_ok ?l (con ?w) (set xs)" using d(3,5) unfolding e by (auto simp: recv_ok_def recv_jobs_def send_jobs_def)
  ultimately have "con_ok ?l (rx ?w) (con ?w) (set xs)" using xs(2) i(1) unfolding e by (auto simp: con_parts)
  moreover have "trace_ok (con ?w) (ctrace ?w)" using xs(3) i(1) unfolding e by (simp add: trace_ok_def) (simp add: send_mode_of_def)
  ultimately show ?thesis using st(1) [of K watched clock 3 2 1] st(2) [of 3 2 1] xs(5) unfolding settled_def
    by (intro conjI exI [of _ xs]) (simp_all add: e send_wakes_def recv_wakes_def)
qed

lemma recv_init_settles:
  assumes s: "settled l w" and i: "recv_st (con w) = RECV_STATE_NOT_INITED" "\<not> con_err (con w)"
  shows "(client_step K watched clock)\<^sup>*\<^sup>* (l, rx w) (l\<lparr>live_jobs := live_jobs l \<union> recv_jobs (con w)\<rparr>, rx (BConnection_RecvAsync_Init w))
    \<and> settled (l\<lparr>live_jobs := live_jobs l \<union> recv_jobs (con w)\<rparr>) (BConnection_RecvAsync_Init w)"
  using s
proof (rule settledD)
  fix xs
  assume xs: "job_stack (live_jobs l) (pending_jobs (rx w)) xs" "con_ok l (rx w) (con w) (set xs)" "trace_ok (con w) (ctrace w)"
    "send_wakes (con w)" "recv_wakes (con w) (set xs)"
  let ?c = "con w" and ?i = "recv_iface (con w)" and ?w = "BConnection_RecvAsync_Init w" and ?l = "l\<lparr>live_jobs := live_jobs l \<union> recv_jobs (con w)\<rparr>"
  note d = con_okD [OF xs(2)]
  have n: "{job_operation ?i, job_done ?i, recv_job ?c} \<inter> live_jobs l = {}" using d(5) i(1) by (simp add: recv_ok_def recv_jobs_def)
  note st = init_steps [OF d(2) n xs(1), folded recv_jobs_def]
  have e: "?w = w\<lparr>rx := (rx w)\<lparr>pending_jobs := BSmallPending_Init (recv_job ?c) 4 (BSmallPending_Init (job_done ?i) 2 (BSmallPending_Init (job_operation ?i) 1 (pending_jobs (rx w))))\<rparr>,
      con := ?c\<lparr>recv_iface := ?i\<lparr>has_handler_done := False, si_state := SI_STATE_NONE\<rparr>, recv_st := RECV_STATE_READY\<rparr>\<rparr>"
    using i by (simp add: BConnection_RecvAsync_Init_def on_recv_iface_def StreamRecvInterface_Init_def StreamPassInterface_Init_def con_jobs_def Let_def)
  have x: "set xs \<subseteq> live_jobs l" using job_stackD(2) [OF xs(1)] .
  have "recv_ok ?l (con ?w) (set xs)" using x n unfolding e by (auto simp: recv_ok_def recv_jobs_def if_ok_def)
  moreover have "send_ok ?l (con ?w) (set xs)" using d(3,4) unfolding e by (auto simp: send_ok_def recv_jobs_def send_jobs_def)
  ultimately have "con_ok ?l (rx ?w) (con ?w) (set xs)" using xs(2) i(1) unfolding e by (auto simp: con_parts)
  moreover have "trace_ok (con ?w) (ctrace ?w)" using xs(3) i(1) unfolding e by (simp add: trace_ok_def) (simp add: recv_mode_of_def)
  ultimately show ?thesis using st(1) [of K watched clock 4 2 1] st(2) [of 4 2 1] xs(4) unfolding settled_def
    by (intro conjI exI [of _ xs]) (simp_all add: e send_wakes_def recv_wakes_def)
qed

lemma clear_bits:
  fixes e :: "32 word"
  shows "bit (e AND NOT 2) 0 = bit e 0" "\<not> bit (e AND NOT 2) (Suc 0)" "\<not> bit (e AND NOT 1) 0" "bit (e AND NOT 1) (Suc 0) = bit e (Suc 0)"
  unfolding bit_and_iff bit_not_iff bit_1_2 by auto

lemma clear_step:
  assumes "bfd_ok l (rx w) (con w)" and "w1 = (if \<not> is_hupd (con w) then set_wait_events K (wait_events (con w) AND NOT b) w else w)"
  shows "(client_step K watched clock)\<^sup>*\<^sup>* (l, rx w) (l, rx w1)" and "pending_jobs (rx w1) = pending_jobs (rx w)"
    and "con w1 = (con w)\<lparr>wait_events := if \<not> is_hupd (con w) then wait_events (con w) AND NOT b else wait_events (con w)\<rparr>" and "ctrace w1 = ctrace w"
    and "bfd_ok l (rx w1) (con w1)"
proof -
  have o: "only_rw (wait_events (con w) AND NOT b)" using assms(1) wait_bits(7) by (auto simp: bfd_ok_def)
  show "(client_step K watched clock)\<^sup>*\<^sup>* (l, rx w) (l, rx w1)" using wait_step [OF assms(1) _ o, of K watched clock] assms(2) by auto
  show "pending_jobs (rx w1) = pending_jobs (rx w)" "ctrace w1 = ctrace w"
    "con w1 = (con w)\<lparr>wait_events := if \<not> is_hupd (con w) then wait_events (con w) AND NOT b else wait_events (con w)\<rparr>" using assms(2) by simp_all
  show "bfd_ok l (rx w1) (con w1)" using assms o wait_bits(8) [of "wait_events (con w)" b] by (auto simp: bfd_ok_def)
qed

lemma ok_cong:
  assumes "\<And>p. p \<in> J \<Longrightarrow> p \<in> live_jobs l \<longleftrightarrow> p \<in> live_jobs l'" and "\<And>p. p \<in> J \<Longrightarrow> p \<in> X \<longleftrightarrow> p \<in> X'"
  shows "J = send_jobs c \<Longrightarrow> send_ok l c X = send_ok l' c X'" and "J = recv_jobs c \<Longrightarrow> recv_ok l c X = recv_ok l' c X'"
proof -
  have m: "J \<inter> live_jobs l = {} \<longleftrightarrow> J \<inter> live_jobs l' = {}" "J \<subseteq> live_jobs l \<longleftrightarrow> J \<subseteq> live_jobs l'" using assms(1) by auto
  show "send_ok l c X = send_ok l' c X'" if j: "J = send_jobs c"
  proof -
    have "job_operation (send_iface c) \<in> X \<longleftrightarrow> job_operation (send_iface c) \<in> X'" "job_done (send_iface c) \<in> X \<longleftrightarrow> job_done (send_iface c) \<in> X'"
      "send_job c \<in> X \<longleftrightarrow> send_job c \<in> X'" using assms(2) unfolding j by (auto simp: send_jobs_def)
    then show ?thesis unfolding send_ok_def if_ok_def m [unfolded j] by simp
  qed
  show "recv_ok l c X = recv_ok l' c X'" if j: "J = recv_jobs c"
  proof -
    have "job_operation (recv_iface c) \<in> X \<longleftrightarrow> job_operation (recv_iface c) \<in> X'" "job_done (recv_iface c) \<in> X \<longleftrightarrow> job_done (recv_iface c) \<in> X'"
      "recv_job c \<in> X \<longleftrightarrow> recv_job c \<in> X'" using assms(2) unfolding j by (auto simp: recv_jobs_def)
    then show ?thesis unfolding recv_ok_def if_ok_def m [unfolded j] by simp
  qed
qed

lemma send_free_settles:
  assumes s: "settled l w" and i: "send_st (con w) \<noteq> SEND_STATE_NOT_INITED"
  shows "(client_step K watched clock)\<^sup>*\<^sup>* (l, rx w) (l\<lparr>live_jobs := live_jobs l - send_jobs (con w)\<rparr>, rx (BConnection_SendAsync_Free K w))
    \<and> settled (l\<lparr>live_jobs := live_jobs l - send_jobs (con w)\<rparr>) (BConnection_SendAsync_Free K w)"
  using s
proof (rule settledD)
  fix xs
  assume xs: "job_stack (live_jobs l) (pending_jobs (rx w)) xs" "con_ok l (rx w) (con w) (set xs)" "trace_ok (con w) (ctrace w)"
    "send_wakes (con w)" "recv_wakes (con w) (set xs)"
  let ?c = "con w" and ?i = "send_iface (con w)" and ?w = "BConnection_SendAsync_Free K w" and ?l = "l\<lparr>live_jobs := live_jobs l - send_jobs (con w)\<rparr>"
  note d = con_okD [OF xs(2)]
  define w1 where "w1 = (if \<not> is_hupd ?c then set_wait_events K (wait_events ?c AND NOT 2) w else w)"
  note c1 = clear_step [OF d(6) w1_def]
  have n: "{job_operation ?i, job_done ?i, send_job ?c} \<subseteq> live_jobs l" using d(4) i by (simp add: send_ok_def send_jobs_def)
  note st = free_steps [OF d(1) n xs(1) [folded c1(2)], folded send_jobs_def]
  let ?g = "BSmallPending_Free (job_operation ?i) (BSmallPending_Free (job_done ?i) (BSmallPending_Free (send_job ?c) (pending_jobs (rx w1))))"
  let ?ev = "if \<not> is_hupd ?c then wait_events ?c AND NOT 2 else wait_events ?c"
  have ie: "send_st ?c = SEND_STATE_READY \<or> send_st ?c = SEND_STATE_BUSY" using i by (cases "send_st ?c") auto
  have e: "?w = w1\<lparr>rx := (rx w1)\<lparr>pending_jobs := ?g\<rparr>, con := ?c\<lparr>wait_events := ?ev, send_st := SEND_STATE_NOT_INITED\<rparr>, ctrace := ctrace w @ [Off_Send]\<rparr>"
    unfolding BConnection_SendAsync_Free_def Let_def assert_eq(2) [OF ie] w1_def [symmetric] using c1(3,4)
    by (simp add: con_jobs_def StreamPassInterface_Free_def emit_def)
  let ?X = "set xs - send_jobs ?c"
  have "send_ok ?l (con ?w) ?X" unfolding e by (auto simp: send_ok_def send_jobs_def)
  moreover have "recv_ok l ?c (set xs) = recv_ok ?l ?c ?X" using d(3) by (intro ok_cong(2) [of "recv_jobs ?c"]) auto
  then have "recv_ok ?l (con ?w) ?X" using d(5) unfolding e by simp
  moreover have "bfd_ok ?l (rx ?w) (con ?w)" using c1(5) clear_bits [of "wait_events ?c"] unfolding e c1(3) by (auto simp: bfd_ok_def)
  ultimately have "con_ok ?l (rx ?w) (con ?w) ?X" using xs(2) unfolding e by (simp add: con_ok_def fault_free_def)
  moreover have "trace_ok (con ?w) (ctrace ?w)" using xs(3) unfolding e by (simp add: trace_ok_def) (simp add: send_mode_of_def)
  moreover have "recv_wakes (con ?w) ?X" using xs(5) d(3) clear_bits(1) unfolding e by (auto simp: recv_wakes_def recv_jobs_def)
  moreover have "send_wakes (con ?w)" unfolding e by (simp add: send_wakes_def)
  ultimately have "settled ?l ?w" using st(2,3) unfolding settled_def
    by (intro exI [of _ "remove1 (job_operation ?i) (remove1 (job_done ?i) (remove1 (send_job ?c) xs))"]) (simp add: e)
  then show ?thesis using rtranclp_trans [OF c1(1) st(1), of watched clock] by (simp add: e)
qed

lemma recv_free_settles:
  assumes s: "settled l w" and i: "recv_st (con w) \<noteq> RECV_STATE_NOT_INITED"
  shows "(client_step K watched clock)\<^sup>*\<^sup>* (l, rx w) (l\<lparr>live_jobs := live_jobs l - recv_jobs (con w)\<rparr>, rx (BConnection_RecvAsync_Free K w))
    \<and> settled (l\<lparr>live_jobs := live_jobs l - recv_jobs (con w)\<rparr>) (BConnection_RecvAsync_Free K w)"
  using s
proof (rule settledD)
  fix xs
  assume xs: "job_stack (live_jobs l) (pending_jobs (rx w)) xs" "con_ok l (rx w) (con w) (set xs)" "trace_ok (con w) (ctrace w)"
    "send_wakes (con w)" "recv_wakes (con w) (set xs)"
  let ?c = "con w" and ?i = "recv_iface (con w)" and ?w = "BConnection_RecvAsync_Free K w" and ?l = "l\<lparr>live_jobs := live_jobs l - recv_jobs (con w)\<rparr>"
  note d = con_okD [OF xs(2)]
  define w1 where "w1 = (if \<not> is_hupd ?c then set_wait_events K (wait_events ?c AND NOT 1) w else w)"
  note c1 = clear_step [OF d(6) w1_def]
  have n: "{job_operation ?i, job_done ?i, recv_job ?c} \<subseteq> live_jobs l" using d(5) i by (simp add: recv_ok_def recv_jobs_def)
  note st = free_steps [OF d(2) n xs(1) [folded c1(2)], folded recv_jobs_def]
  let ?g = "BSmallPending_Free (job_operation ?i) (BSmallPending_Free (job_done ?i) (BSmallPending_Free (recv_job ?c) (pending_jobs (rx w1))))"
  let ?ev = "if \<not> is_hupd ?c then wait_events ?c AND NOT 1 else wait_events ?c"
  have ie: "recv_st ?c = RECV_STATE_READY \<or> recv_st ?c = RECV_STATE_BUSY \<or> recv_st ?c = RECV_STATE_INITED_CLOSED"
    using i d(5) by (cases "recv_st ?c") (auto simp: recv_ok_def)
  have e: "?w = w1\<lparr>rx := (rx w1)\<lparr>pending_jobs := ?g\<rparr>, con := ?c\<lparr>wait_events := ?ev, recv_st := RECV_STATE_NOT_INITED\<rparr>, ctrace := ctrace w @ [Off_Recv]\<rparr>"
    unfolding BConnection_RecvAsync_Free_def Let_def assert_eq(2) [OF ie] w1_def [symmetric] using c1(3,4)
    by (simp add: con_jobs_def StreamRecvInterface_Free_def StreamPassInterface_Free_def emit_def)
  let ?X = "set xs - recv_jobs ?c"
  have "recv_ok ?l (con ?w) ?X" unfolding e by (auto simp: recv_ok_def recv_jobs_def)
  moreover have "send_ok l ?c (set xs) = send_ok ?l ?c ?X" using d(3) by (intro ok_cong(1) [of "send_jobs ?c"]) auto
  then have "send_ok ?l (con ?w) ?X" using d(4) unfolding e by simp
  moreover have "bfd_ok ?l (rx ?w) (con ?w)" using c1(5) clear_bits [of "wait_events ?c"] unfolding e c1(3) by (auto simp: bfd_ok_def)
  ultimately have "con_ok ?l (rx ?w) (con ?w) ?X" using xs(2) unfolding e by (simp add: con_ok_def fault_free_def)
  moreover have "trace_ok (con ?w) (ctrace ?w)" using xs(3) unfolding e by (simp add: trace_ok_def) (simp add: recv_mode_of_def)
  moreover have "send_wakes (con ?w)" using xs(4) clear_bits(4) unfolding e by (auto simp: send_wakes_def)
  moreover have "recv_wakes (con ?w) ?X" unfolding e by (simp add: recv_wakes_def)
  ultimately have "settled ?l ?w" using st(2,3) unfolding settled_def
    by (intro exI [of _ "remove1 (job_operation ?i) (remove1 (job_done ?i) (remove1 (recv_job ?c) xs))"]) (simp add: e)
  then show ?thesis using rtranclp_trans [OF c1(1) st(1), of watched clock] by (simp add: e)
qed

lemma user_send_settles:
  assumes s: "settled l w" and i: "send_st (con w) \<noteq> SEND_STATE_NOT_INITED" "si_state (send_iface (con w)) = SI_STATE_NONE"
    "has_handler_done (send_iface (con w))" "data \<noteq> []"
  shows "client_step K watched clock (l, rx w) (l, rx (user_send data w)) \<and> settled l (user_send data w)"
  using s
proof (rule settledD)
  fix xs
  assume xs: "job_stack (live_jobs l) (pending_jobs (rx w)) xs" "con_ok l (rx w) (con w) (set xs)" "trace_ok (con w) (ctrace w)"
    "send_wakes (con w)" "recv_wakes (con w) (set xs)"
  let ?c = "con w" and ?i = "send_iface (con w)" and ?w = "user_send data w"
  note d = con_okD [OF xs(2)]
  have p: "job_operation ?i \<in> live_jobs l" "send_st ?c \<noteq> SEND_STATE_BUSY" using d(4) i by (auto simp: send_ok_def send_jobs_def if_ok_def)
  have e: "?w = w\<lparr>rx := (rx w)\<lparr>pending_jobs := BSmallPending_Set (job_operation ?i) (pending_jobs (rx w))\<rparr>,
     con := ?c\<lparr>send_iface := ?i\<lparr>job_operation_data := data, job_operation_len := int (length data), si_state := SI_STATE_OPERATION_PENDING\<rparr>\<rparr>,
     ctrace := ctrace w @ [Call_Send data]\<rparr>"
    using i by (simp add: user_send_def on_send_iface_def StreamPassInterface_Sender_Send_def Let_def emit_def)
  have js: "job_stack (live_jobs l) (BSmallPending_Set (job_operation ?i) (pending_jobs (rx w))) (job_operation ?i # remove1 (job_operation ?i) xs)"
    using pq.stack_set [OF xs(1) p(1)] .
  have x: "set (job_operation ?i # remove1 (job_operation ?i) xs) = insert (job_operation ?i) (set xs)" using job_stackD(1) [OF xs(1)] by auto
  have "send_ok l (con ?w) (insert (job_operation ?i) (set xs))" using d(1,4) i p unfolding e by (auto simp: send_ok_def send_jobs_def if_ok_def)
  moreover have "job_operation ?i \<notin> recv_jobs ?c" using d(3) by (auto simp: send_jobs_def)
  ultimately have "con_ok l (rx ?w) (con ?w) (insert (job_operation ?i) (set xs))"
    using xs(2) other_jobs(2) [of "job_operation ?i" ?c l "set xs"] unfolding e by (simp add: con_parts)
  moreover have "trace_ok (con ?w) (ctrace ?w)" using xs(3) i unfolding e by (simp add: trace_ok_def) (simp add: send_mode_of_def)
  ultimately have "settled l ?w" unfolding settled_def using js x xs(4,5)
    by (intro exI [of _ "job_operation ?i # remove1 (job_operation ?i) xs"]) (simp add: e send_wakes_def recv_wakes_def)
  then show ?thesis using job_set [OF p(1), of K watched clock "rx w"] by (simp add: e)
qed

lemma user_recv_settles:
  assumes s: "settled l w" and i: "recv_st (con w) \<noteq> RECV_STATE_NOT_INITED" "si_state (recv_iface (con w)) = SI_STATE_NONE"
    "has_handler_done (recv_iface (con w))" "0 < avail"
  shows "client_step K watched clock (l, rx w) (l, rx (user_recv buf avail w)) \<and> settled l (user_recv buf avail w)"
  using s
proof (rule settledD)
  fix xs
  assume xs: "job_stack (live_jobs l) (pending_jobs (rx w)) xs" "con_ok l (rx w) (con w) (set xs)" "trace_ok (con w) (ctrace w)"
    "send_wakes (con w)" "recv_wakes (con w) (set xs)"
  let ?c = "con w" and ?i = "recv_iface (con w)" and ?w = "user_recv buf avail w"
  note d = con_okD [OF xs(2)]
  have p: "job_operation ?i \<in> live_jobs l" "recv_st ?c = RECV_STATE_READY"
    using d(5) i by (cases "recv_st ?c"; auto simp: recv_ok_def recv_jobs_def if_ok_def)+
  have e: "?w = w\<lparr>rx := (rx w)\<lparr>pending_jobs := BSmallPending_Set (job_operation ?i) (pending_jobs (rx w))\<rparr>,
     con := ?c\<lparr>recv_iface := ?i\<lparr>job_operation_data := buf, job_operation_len := avail, si_state := SI_STATE_OPERATION_PENDING\<rparr>\<rparr>,
     ctrace := ctrace w @ [Call_Recv buf avail]\<rparr>"
    using i by (simp add: user_recv_def on_recv_iface_def StreamRecvInterface_Receiver_Recv_def StreamPassInterface_Sender_Send_def Let_def emit_def)
  have js: "job_stack (live_jobs l) (BSmallPending_Set (job_operation ?i) (pending_jobs (rx w))) (job_operation ?i # remove1 (job_operation ?i) xs)"
    using pq.stack_set [OF xs(1) p(1)] .
  have x: "set (job_operation ?i # remove1 (job_operation ?i) xs) = insert (job_operation ?i) (set xs)" using job_stackD(1) [OF xs(1)] by auto
  have "recv_ok l (con ?w) (insert (job_operation ?i) (set xs))" using d(2,5) i p unfolding e by (auto simp: recv_ok_def recv_jobs_def if_ok_def)
  moreover have "job_operation ?i \<notin> send_jobs ?c" using d(3) by (auto simp: recv_jobs_def)
  ultimately have "con_ok l (rx ?w) (con ?w) (insert (job_operation ?i) (set xs))"
    using xs(2) other_jobs(1) [of "job_operation ?i" ?c l "set xs"] unfolding e by (simp add: con_parts)
  moreover have "trace_ok (con ?w) (ctrace ?w)" using xs(3) i p(2) unfolding e by (simp add: trace_ok_def) (simp add: recv_mode_of_def)
  ultimately have "settled l ?w" unfolding settled_def using js x xs(4,5)
    by (intro exI [of _ "job_operation ?i # remove1 (job_operation ?i) xs"]) (simp add: e send_wakes_def recv_wakes_def)
  then show ?thesis using job_set [OF p(1), of K watched clock "rx w"] by (simp add: e)
qed

section \<open>The connection in the event loop\<close>

text \<open>What a round leaves alone.\<close>

definition same_view :: "'k BReactor \<Rightarrow> 'k BReactor \<Rightarrow> bool" where
  "same_view s s' \<longleftrightarrow> fd_active s' = fd_active s \<and> waitEvents s' = waitEvents s \<and> pending_jobs s' = pending_jobs s"

lemma same_view_trans: "same_view s s' \<Longrightarrow> same_view s' s'' \<Longrightarrow> same_view s s''"
  by (simp add: same_view_def)

lemma same_view_asserts [simp]: "same_view s (E_ASSERT b t) = same_view s t" "same_view (E_ASSERT b s) t = same_view s t"
  "same_view s (set_returned_ptr b' v t) = same_view s t" "same_view s s"
  "same_view (s\<lparr>r_kernel := k\<rparr>) t = same_view s t" "same_view s (t\<lparr>r_kernel := k\<rparr>) = same_view s t"
  "same_view s (t\<lparr>epoll_results := r\<rparr>) = same_view s t" "same_view s (t\<lparr>epoll_results_num := m\<rparr>) = same_view s t"
  "same_view (s\<lparr>epoll_results_num := m\<rparr>) t = same_view s t" "same_view (s\<lparr>epoll_results_pos := m\<rparr>) t = same_view s t"
  "same_view s (t\<lparr>r_timers := tm\<rparr>) = same_view s t" "same_view (s\<lparr>r_timers := tm\<rparr>) t = same_view s t"
  by (simp_all add: same_view_def E_ASSERT_def set_returned_ptr_def)

lemma set_fd_pointers_view: "same_view s (set_fd_pointers i n s)"
proof (induction i n s rule: set_fd_pointers.induct)
  case (2 i n s)
  show ?case
  proof (cases "snd (epoll_results s ! i)")
    case (Some b)
    from "2.IH" [OF Some refl refl] show ?thesis using Some by (simp add: Let_def same_view_def E_ASSERT_def set_returned_ptr_def)
  qed simp
qed simp

lemma on_timers_view: "on_timers f s = Some s' \<Longrightarrow> same_view s s'"
  by (auto simp: on_timers_def same_view_def bind_eq_Some_conv)

lemma get_time_view: "get_time K s = (now, s') \<Longrightarrow> same_view s s'"
  by (auto simp: get_time_def same_view_def split: prod.splits)

lemma try_again_view: "try_again K timeout now s = Some (leave, now', s') \<Longrightarrow> same_view s s'"
  by (auto simp: try_again_def bind_eq_Some_conv dest!: on_timers_view get_time_view intro: same_view_trans split: option.splits prod.splits if_splits)

lemma epoll_pointers_view: "same_view s (set_epoll_fd_pointers t) = same_view s t"
  using set_fd_pointers_view [of t 0 "epoll_results_num t"] unfolding set_epoll_fd_pointers_def same_view_def by auto

lemma wait_once_view: "wait_once K timeout now s = Some (leave, now', s') \<Longrightarrow> same_view s s'"
  unfolding wait_once_def Let_def
  by (auto simp: bind_eq_Some_conv epoll_pointers_view split: option.splits epoll_answer.splits if_splits prod.splits
      dest!: try_again_view on_timers_view)

lemma wait_loop_view: "wait_loop K timeout now s = Some s' \<Longrightarrow> same_view s s'"
proof (induction rule: wait_loop.raw_induct [rotated 1, consumes 1])
  case (1 rec K timeout now s s')
  then obtain leave now' s1 where o: "wait_once K timeout now s = Some (leave, now', s1)" "(if leave then Some s1 else rec K timeout now' s1) = Some s'"
    by (auto simp: bind_eq_Some_conv)
  then show ?case using wait_once_view [OF o(1)] "1.IH" [of K timeout now' s1 s'] same_view_trans by (auto split: if_splits)
qed

lemma reset_limits_view: "reset_limits s = Some s' \<Longrightarrow> same_view s s'"
proof (induction rule: reset_limits.raw_induct [rotated 1, consumes 1])
  case (1 rec s s')
  show ?case
  proof (cases "LinkedList1_GetFirst (active_limits_list s)")
    case (Some x)
    from "1.IH" "1.hyps" Some show ?thesis by (fastforce simp: Let_def same_view_def E_ASSERT_def)
  qed (use 1 in simp)
qed

lemma wait_for_events_view:
  assumes "wait_for_events K s = Some s'"
  shows "same_view s s'"
proof -
  let ?a = "E_ASSERT (\<not> BPendingGroup_HasJobs (pending_jobs s)) s"
  let ?b = "E_ASSERT (LinkedList1_IsEmpty (timers_expired_list (r_timers ?a))) ?a"
  obtain s0 where d: "s0 = (E_ASSERT (epoll_results_pos ?b = epoll_results_num ?b) ?b)\<lparr>epoll_results_num := 0, epoll_results_pos := 0\<rparr>" by blast
  have s0: "same_view s s0" unfolding d by (simp add: same_view_def E_ASSERT_def)
  have "wait_for_events K s = do {
     first \<leftarrow> CAvl_GetFirst (timers_tree (r_timers s0));
     (case first of
        None \<Rightarrow> do { s \<leftarrow> wait_loop K None 0 s0; reset_limits s }
      | Some first_timer \<Rightarrow>
         let s = E_ASSERT (timer_state (r_timers s0) first_timer = TIMER_STATE_RUNNING) s0 in
         (case get_time K s of (now, s) \<Rightarrow> do {
            (tm, moved) \<leftarrow> move_expired_timers now False (r_timers s);
            let s = s\<lparr>r_timers := tm\<rparr>;
            (if moved then Some s
             else do {
               s \<leftarrow> wait_loop K (Some (absTime (r_timers s) first_timer)) now s;
               reset_limits s }) })) }"
    unfolding wait_for_events_def Let_def d by (rule refl)
  with assms obtain first where f: "(case first of
        None \<Rightarrow> do { s \<leftarrow> wait_loop K None 0 s0; reset_limits s }
      | Some first_timer \<Rightarrow>
         let s = E_ASSERT (timer_state (r_timers s0) first_timer = TIMER_STATE_RUNNING) s0 in
         (case get_time K s of (now, s) \<Rightarrow> do {
            (tm, moved) \<leftarrow> move_expired_timers now False (r_timers s);
            let s = s\<lparr>r_timers := tm\<rparr>;
            (if moved then Some s
             else do {
               s \<leftarrow> wait_loop K (Some (absTime (r_timers s) first_timer)) now s;
               reset_limits s }) })) = Some s'" by (auto simp: bind_eq_Some_conv)
  show ?thesis
  proof (cases first)
    case None
    with f obtain s1 where "wait_loop K None 0 s0 = Some s1" "reset_limits s1 = Some s'" by (auto simp: bind_eq_Some_conv)
    then show ?thesis using s0 wait_loop_view reset_limits_view same_view_trans by blast
  next
    case (Some t)
    obtain now s1 where g: "get_time K (E_ASSERT (timer_state (r_timers s0) t = TIMER_STATE_RUNNING) s0) = (now, s1)" by fastforce
    have v: "same_view s s1" using same_view_trans [OF s0] get_time_view [OF g] by simp
    from f Some g have "\<exists>tm. s' = s1\<lparr>r_timers := tm\<rparr> \<or> (\<exists>s2 n. wait_loop K n now (s1\<lparr>r_timers := tm\<rparr>) = Some s2 \<and> reset_limits s2 = Some s')"
      by (auto simp: Let_def bind_eq_Some_conv split: if_splits)
    then show ?thesis using v by (auto dest!: wait_loop_view reset_limits_view simp: same_view_def)
  qed
qed

lemma round_view:
  assumes "exec_round K s = Some (s', c)"
  shows "fd_active s' = fd_active s" and "waitEvents s' = waitEvents s"
    and "pending_jobs s' = (if BPendingGroup_HasJobs (pending_jobs s) then fst (BPendingGroup_ExecuteJob (pending_jobs s)) else pending_jobs s)"
    and "c = Some (Fd_handler h u ev) \<Longrightarrow> \<not> BPendingGroup_HasJobs (pending_jobs s) \<and> dispatch_fd s = (s', c) \<and> epoll_results_pos s < epoll_results_num s"
    and "BPendingGroup_HasJobs (pending_jobs s) \<Longrightarrow> c = map_option (\<lambda>(p, h). Job_handler h p) (snd (BPendingGroup_ExecuteJob (pending_jobs s)))"
    and "c = Some (Job_handler h p) \<Longrightarrow> BPendingGroup_HasJobs (pending_jobs s)"
proof -
  have d: "same_view s (fst (dispatch_fd s)) \<and> (\<forall>h p. snd (dispatch_fd s) \<noteq> Some (Job_handler h p))"
    by (simp add: dispatch_fd_def Let_def same_view_def E_ASSERT_def set_returned_ptr_def split: option.split)
  consider (job) "BPendingGroup_HasJobs (pending_jobs s)" "s' = s\<lparr>pending_jobs := fst (BPendingGroup_ExecuteJob (pending_jobs s))\<rparr>"
      "c = map_option (\<lambda>(p, h). Job_handler h p) (snd (BPendingGroup_ExecuteJob (pending_jobs s)))"
    | (timer) tm where "\<not> BPendingGroup_HasJobs (pending_jobs s)" "s' = s\<lparr>r_timers := tm\<rparr>" "\<forall>h p. c \<noteq> Some (Job_handler h p)" "\<forall>h u ev. c \<noteq> Some (Fd_handler h u ev)"
    | (fd) "\<not> BPendingGroup_HasJobs (pending_jobs s)" "epoll_results_pos s < epoll_results_num s" "dispatch_fd s = (s', c)"
    | (wait) "\<not> BPendingGroup_HasJobs (pending_jobs s)" "wait_for_events K s = Some s'" "c = None"
    using assms unfolding exec_round_def by (auto simp: Let_def bind_eq_Some_conv split: if_splits option.splits prod.splits)
  then have "fd_active s' = fd_active s \<and> waitEvents s' = waitEvents s
    \<and> pending_jobs s' = (if BPendingGroup_HasJobs (pending_jobs s) then fst (BPendingGroup_ExecuteJob (pending_jobs s)) else pending_jobs s)
    \<and> (\<forall>h u ev. c = Some (Fd_handler h u ev) \<longrightarrow> \<not> BPendingGroup_HasJobs (pending_jobs s) \<and> dispatch_fd s = (s', c) \<and> epoll_results_pos s < epoll_results_num s)
    \<and> (BPendingGroup_HasJobs (pending_jobs s) \<longrightarrow> c = map_option (\<lambda>(p, h). Job_handler h p) (snd (BPendingGroup_ExecuteJob (pending_jobs s))))
    \<and> (\<forall>h p. c = Some (Job_handler h p) \<longrightarrow> BPendingGroup_HasJobs (pending_jobs s))"
  proof cases
    case wait
    then show ?thesis using wait_for_events_view by (auto simp: same_view_def)
  qed (use d in \<open>auto simp: same_view_def map_option_case split: option.splits prod.splits\<close>)
  then show "fd_active s' = fd_active s" "waitEvents s' = waitEvents s"
    "pending_jobs s' = (if BPendingGroup_HasJobs (pending_jobs s) then fst (BPendingGroup_ExecuteJob (pending_jobs s)) else pending_jobs s)"
    "c = Some (Fd_handler h u ev) \<Longrightarrow> \<not> BPendingGroup_HasJobs (pending_jobs s) \<and> dispatch_fd s = (s', c) \<and> epoll_results_pos s < epoll_results_num s"
    "BPendingGroup_HasJobs (pending_jobs s) \<Longrightarrow> c = map_option (\<lambda>(p, h). Job_handler h p) (snd (BPendingGroup_ExecuteJob (pending_jobs s)))"
    "c = Some (Job_handler h p) \<Longrightarrow> BPendingGroup_HasJobs (pending_jobs s)"
    by blast+
qed

text \<open>The start: a connection whose objects are not in use, on uninitialised memory, and a source as \<open>BConnection_Init\<close> requires it.\<close>

definition all_jobs :: "BConnection \<Rightarrow> nat list" where
  "all_jobs c = [job_operation (send_iface c), job_done (send_iface c), send_job c, job_operation (recv_iface c), job_done (recv_iface c), recv_job c]"

definition fresh_con :: "live \<Rightarrow> 'k cworld \<Rightarrow> bool" where
  "fresh_con l w \<longleftrightarrow> distinct (all_jobs (con w)) \<and> set (all_jobs (con w)) \<inter> live_jobs l = {} \<and> con_bfd (con w) \<notin> live_fds l
     \<and> send_limit (con w) \<noteq> recv_limit (con w) \<and> send_limit (con w) \<notin> live_limits l \<and> recv_limit (con w) \<notin> live_limits l \<and> fault_free (con w)
     \<and> foldl send_next (Some Send_Idle) (ctrace w) = Some Send_Idle \<and> foldl recv_next (Some Recv_Idle) (ctrace w) = Some Recv_Idle"

definition source_ok :: "con_source \<Rightarrow> live \<Rightarrow> 'k cworld \<Rightarrow> bool" where
  "source_ok source l w = (case source of
      BCONNECTION_SOURCE_TYPE_LISTENER job fd \<Rightarrow> job \<in> live_jobs l \<and> BSmallPending_IsSet job (pending_jobs (rx w))
    | BCONNECTION_SOURCE_TYPE_CONNECTOR \<Rightarrow> 0 \<le> ctr_fd (ctr w) \<and> ctr_connected (ctr w) \<and> \<not> have_bfd (ctr w)
        \<and> \<not> BSmallPending_IsSet (ctr_job (ctr w)) (pending_jobs (rx w))
    | BCONNECTION_SOURCE_TYPE_PIPE fd _ \<Rightarrow> 0 \<le> fd)"

definition con_live :: "BConnection \<Rightarrow> live \<Rightarrow> live" where
  "con_live c l = l\<lparr>live_fds := insert (con_bfd c) (live_fds l), live_limits := insert (recv_limit c) (insert (send_limit c) (live_limits l))\<rparr>"

lemma upd_ex [simp]: "\<exists>fd b. c\<lparr>con_fd := x, close_fd := y\<rparr> = c\<lparr>con_fd := fd, close_fd := b\<rparr>"
  by blast

lemma take_source_ok:
  assumes o: "source_ok source l w" and t: "take_source source nonblocking w = (w1, ok)"
  shows "(client_step K watched clock)\<^sup>*\<^sup>* (l, rx w) (l, rx w1)"
    and "\<exists>fd b. con w1 = (con w)\<lparr>con_fd := fd, close_fd := b\<rparr>" and "ctrace w1 = ctrace w"
proof -
  have "(client_step K watched clock)\<^sup>*\<^sup>* (l, rx w) (l, rx w1) \<and> (\<exists>fd b. con w1 = (con w)\<lparr>con_fd := fd, close_fd := b\<rparr>) \<and> ctrace w1 = ctrace w"
  proof (cases source)
    case (BCONNECTION_SOURCE_TYPE_LISTENER job fd)
    then have "client_step K watched clock (l, rx w) (l, (rx w)\<lparr>pending_jobs := BSmallPending_Unset job (pending_jobs (rx w))\<rparr>)"
      using o by (intro job_unset) (simp add: source_ok_def)
    moreover have "\<exists>fd b. (con w)\<lparr>con_fd := x\<rparr> = (con w)\<lparr>con_fd := fd, close_fd := b\<rparr>" for x
      by (intro exI [of _ x] exI [of _ "close_fd (con w)"]) simp
    moreover have "\<exists>fd b. (con w)\<lparr>con_fd := x, close_fd := y\<rparr> = (con w)\<lparr>con_fd := fd, close_fd := b\<rparr>" for x y by blast
    ultimately show ?thesis using o t BCONNECTION_SOURCE_TYPE_LISTENER
      by (auto simp: take_source_def source_ok_def Let_def split: if_splits)
  qed (use o t in \<open>auto simp: take_source_def source_ok_def Let_def\<close>)
  then show "(client_step K watched clock)\<^sup>*\<^sup>* (l, rx w) (l, rx w1)" "\<exists>fd b. con w1 = (con w)\<lparr>con_fd := fd, close_fd := b\<rparr>" "ctrace w1 = ctrace w" by auto
qed

lemma init_settles:
  assumes f: "fresh_con l w" and o: "source_ok source l w" and j: "\<exists>xs. job_stack (live_jobs l) (pending_jobs (rx w)) xs"
    and K: "kernel_ok K watched clock" and r: "rinv watched clock (l, rx w)"
  shows "case BConnection_Init K source nonblocking w of
      (w', True) \<Rightarrow> (client_step K watched clock)\<^sup>*\<^sup>* (l, rx w) (con_live (con w) l, rx w') \<and> settled (con_live (con w) l) w'
    | (w', False) \<Rightarrow> (client_step K watched clock)\<^sup>*\<^sup>* (l, rx w) (l, rx w')"
proof -
  obtain w1 ok where t: "take_source source nonblocking w = (w1, ok)" by fastforce
  note s = take_source_ok [OF o t]
  obtain fd b where c1: "con w1 = (con w)\<lparr>con_fd := fd, close_fd := b\<rparr>" using s(2) by blast
  let ?b = "con_bfd (con w)" and ?l1 = "l\<lparr>live_fds := insert (con_bfd (con w)) (live_fds l)\<rparr>"
  have cl: "rx (con_close w') = rx w'" for w' :: "'a cworld" by (simp add: con_close_def)
  show ?thesis
  proof (cases "ok = Some True")
    case False
    then have "BConnection_Init K source nonblocking w = (w1, False) \<or> BConnection_Init K source nonblocking w = (con_close w1, False)"
      using t by (auto simp: BConnection_Init_def split: option.split)
    then show ?thesis using s(1) by (auto simp: cl)
  next
    case True
    define s1 where "s1 = BFileDescriptor_Init ?b fd 5 ?b (rx w1)"
    obtain s2 added where a: "BReactor_AddFileDescriptor K ?b s1 = (s2, added)" by fastforce
    have n: "\<not> fd_active s1 ?b" by (simp add: s1_def BFileDescriptor_Init_def)
    have "client_step K watched clock (l, rx w1) (?l1, s1)" using f unfolding s1_def by (intro fd_init) (simp add: fresh_con_def)
    moreover have "client_step K watched clock (?l1, s1) (?l1, s2)" using fd_add [of ?b ?l1 s1 K watched clock] n a by simp
    ultimately have s2: "(client_step K watched clock)\<^sup>*\<^sup>* (l, rx w) (?l1, s2)"
      using rtranclp.rtrancl_into_rtrancl [OF rtranclp.rtrancl_into_rtrancl [OF s(1)]] by blast
    have ad: "added \<Longrightarrow> fd_active s2 ?b \<and> waitEvents s2 ?b = 0" "\<not> added \<Longrightarrow> \<not> fd_active s2 ?b"
      using a n by (auto simp: BReactor_AddFileDescriptor_def Let_def set_returned_ptr_def split: prod.splits if_splits)
    show ?thesis
    proof (cases added)
      case False
      have "BConnection_Init K source nonblocking w = (con_close (w1\<lparr>con := (con w1)\<lparr>is_hupd := False\<rparr>, rx := s2\<rparr>), False)"
        using t True a False c1 by (simp add: BConnection_Init_def Let_def flip: s1_def)
      moreover have "l\<lparr>live_fds := live_fds ?l1 - {?b}\<rparr> = l" using f by (simp add: fresh_con_def)
      then have "client_step K watched clock (?l1, s2) (l, s2)" using fd_forget [of ?b ?l1 s2 K watched clock] ad(2) False by simp
      then have "(client_step K watched clock)\<^sup>*\<^sup>* (l, rx w) (l, s2)" using rtranclp.rtrancl_into_rtrancl [OF s2] by blast
      ultimately show ?thesis by (simp add: cl)
    next
      case True': True
      define s3 where "s3 = BReactorLimit_Init (recv_limit (con w)) 2 (BReactorLimit_Init (send_limit (con w)) 2 s2)"
      define w' where "w' = w1\<lparr>con := (con w1)\<lparr>is_hupd := False, wait_events := 0, send_st := SEND_STATE_NOT_INITED,
        recv_st := RECV_STATE_NOT_INITED, con_err := False\<rparr>, rx := s3\<rparr>"
      have e: "BConnection_Init K source nonblocking w = (w', True)"
        using t True a True' c1 by (simp add: BConnection_Init_def Let_def w'_def s3_def flip: s1_def)
      let ?l2 = "?l1\<lparr>live_limits := insert (send_limit (con w)) (live_limits l)\<rparr>"
      have "client_step K watched clock (?l1, s2) (?l2, BReactorLimit_Init (send_limit (con w)) 2 s2)"
        using limit_init [of "send_limit (con w)" ?l1 2 K watched clock s2] f by (simp add: fresh_con_def)
      moreover have "client_step K watched clock (?l2, BReactorLimit_Init (send_limit (con w)) 2 s2) (con_live (con w) l, s3)"
        using limit_init [of "recv_limit (con w)" ?l2 2 K watched clock "BReactorLimit_Init (send_limit (con w)) 2 s2"] f
        by (simp add: fresh_con_def con_live_def s3_def)
      ultimately have st: "(client_step K watched clock)\<^sup>*\<^sup>* (l, rx w) (con_live (con w) l, rx w')"
        using rtranclp.rtrancl_into_rtrancl [OF rtranclp.rtrancl_into_rtrancl [OF s2]] by (simp add: w'_def)
      have "rinv watched clock (con_live (con w) l, rx w')" using clients_inv [OF st K r] .
      then obtain xs where xs: "job_stack (live_jobs l) (pending_jobs (rx w')) xs" by (auto simp: rinv_def jobs_ok_def con_live_def)
      have v: "fd_active s3 = fd_active s2" "waitEvents s3 = waitEvents s2" by (simp_all add: s3_def BReactorLimit_Init_def E_ASSERT_def)
      have "con_ok (con_live (con w) l) (rx w') (con w') (set xs)"
        using f ad(1) True' v c1 by (auto simp: w'_def inv_parts fresh_con_def all_jobs_def con_live_def only_rw_def)
      moreover have "trace_ok (con w') (ctrace w')" using f s(3) by (simp add: w'_def trace_ok_def send_mode_of_def recv_mode_of_def fresh_con_def)
      ultimately have "settled (con_live (con w) l) w'" unfolding settled_def using xs
        by (intro exI [of _ xs]) (simp add: con_live_def send_wakes_def recv_wakes_def w'_def)
      then show ?thesis using e st by simp
    qed
  qed
qed

text \<open>The user attaches its handlers to the interfaces it got (\<open>BConnection_SendAsync_GetIf\<close>, \<open>BConnection_RecvAsync_GetIf\<close>).\<close>

definition attach_send :: "'k cworld \<Rightarrow> 'k cworld" where
  "attach_send w = w\<lparr>con := (con w)\<lparr>send_iface := StreamPassInterface_Sender_Init (send_iface (con w))\<rparr>\<rparr>"

definition attach_recv :: "'k cworld \<Rightarrow> 'k cworld" where
  "attach_recv w = w\<lparr>con := (con w)\<lparr>recv_iface := StreamRecvInterface_Receiver_Init (recv_iface (con w))\<rparr>\<rparr>"

text \<open>
  What the other clients of the loop leave alone: the connection's descriptor, its limits and its jobs.
\<close>

definition untouched :: "BConnection \<Rightarrow> live \<times> 'k BReactor \<Rightarrow> live \<times> 'k BReactor \<Rightarrow> bool" where
  "untouched c = (\<lambda>(l, s) (l', s'). con_bfd c \<in> live_fds l' \<and> fd_active s' (con_bfd c) = fd_active s (con_bfd c) \<and> waitEvents s' (con_bfd c) = waitEvents s (con_bfd c)
     \<and> send_limit c \<in> live_limits l' \<and> recv_limit c \<in> live_limits l'
     \<and> (\<forall>p\<in>set (all_jobs c). (p \<in> live_jobs l' \<longleftrightarrow> p \<in> live_jobs l)
          \<and> (p \<in> live_jobs l \<longrightarrow> BSmallPending_IsSet p (pending_jobs s') = BSmallPending_IsSet p (pending_jobs s))))"

definition other_call :: "BConnection \<Rightarrow> 'k BReactor \<Rightarrow> call option \<Rightarrow> bool" where
  "other_call c s cl = (case cl of
      Some (Job_handler h p) \<Rightarrow> p \<notin> set (all_jobs c)
    | Some (Fd_handler h u ev) \<Rightarrow> snd (epoll_results s ! epoll_results_pos s) \<noteq> Some (con_bfd c)
    | _ \<Rightarrow> True)"

text \<open>
  The steps: operations of the user, as their documentation allows them; rounds of the event loop that run a job of the connection, deliver an
  event of its descriptor, or concern others; and operations of other clients. After an error the user may only free. Here the answers of the
  descriptor are the expected ones; \<open>conn_any\<close> below drops this condition.
\<close>

inductive conn_step :: "'k kernel_ops \<Rightarrow> ('k \<Rightarrow> int \<Rightarrow> nat option) \<Rightarrow> ('k \<Rightarrow> int) \<Rightarrow> live \<times> 'k cworld \<Rightarrow> live \<times> 'k cworld \<Rightarrow> bool"
  for K watched clock where
  c_send_init: "send_st (con w) = SEND_STATE_NOT_INITED \<Longrightarrow> \<not> con_err (con w) \<Longrightarrow>
    conn_step K watched clock (l, w) (l\<lparr>live_jobs := live_jobs l \<union> send_jobs (con w)\<rparr>, BConnection_SendAsync_Init w)"
| c_send_free: "send_st (con w) \<noteq> SEND_STATE_NOT_INITED \<Longrightarrow>
    conn_step K watched clock (l, w) (l\<lparr>live_jobs := live_jobs l - send_jobs (con w)\<rparr>, BConnection_SendAsync_Free K w)"
| c_recv_init: "recv_st (con w) = RECV_STATE_NOT_INITED \<Longrightarrow> \<not> con_err (con w) \<Longrightarrow>
    conn_step K watched clock (l, w) (l\<lparr>live_jobs := live_jobs l \<union> recv_jobs (con w)\<rparr>, BConnection_RecvAsync_Init w)"
| c_recv_free: "recv_st (con w) \<noteq> RECV_STATE_NOT_INITED \<Longrightarrow>
    conn_step K watched clock (l, w) (l\<lparr>live_jobs := live_jobs l - recv_jobs (con w)\<rparr>, BConnection_RecvAsync_Free K w)"
| c_attach_send: "send_st (con w) \<noteq> SEND_STATE_NOT_INITED \<Longrightarrow> \<not> has_handler_done (send_iface (con w)) \<Longrightarrow> conn_step K watched clock (l, w) (l, attach_send w)"
| c_attach_recv: "recv_st (con w) \<noteq> RECV_STATE_NOT_INITED \<Longrightarrow> \<not> has_handler_done (recv_iface (con w)) \<Longrightarrow> conn_step K watched clock (l, w) (l, attach_recv w)"
| c_send: "send_st (con w) \<noteq> SEND_STATE_NOT_INITED \<Longrightarrow> si_state (send_iface (con w)) = SI_STATE_NONE \<Longrightarrow> has_handler_done (send_iface (con w)) \<Longrightarrow>
    \<not> con_err (con w) \<Longrightarrow> data \<noteq> [] \<Longrightarrow> conn_step K watched clock (l, w) (l, user_send data w)"
| c_recv: "recv_st (con w) \<noteq> RECV_STATE_NOT_INITED \<Longrightarrow> si_state (recv_iface (con w)) = SI_STATE_NONE \<Longrightarrow> has_handler_done (recv_iface (con w)) \<Longrightarrow>
    \<not> con_err (con w) \<Longrightarrow> 0 < avail \<Longrightarrow> conn_step K watched clock (l, w) (l, user_recv buf avail w)"
| c_job: "\<not> con_err (con w) \<Longrightarrow> \<not> exiting (rx w) \<Longrightarrow> exec_round K (rx w) = Some (s, Some (Job_handler h p)) \<Longrightarrow>
    con_job_handler K wans rans p (w\<lparr>rx := s\<rparr>) = Some w' \<Longrightarrow>
    write_ok (job_operation_len (send_iface (con w))) wans \<Longrightarrow> read_ok (job_operation_len (recv_iface (con w))) rans \<Longrightarrow>
    is_hupd (con w) \<or> error_ok (wait_events (con w)) 0 wans rans \<Longrightarrow> conn_step K watched clock (l, w) (l, w')"
| c_fd: "\<not> con_err (con w) \<Longrightarrow> \<not> exiting (rx w) \<Longrightarrow> exec_round K (rx w) = Some (s, Some (Fd_handler h u ev)) \<Longrightarrow>
    snd (epoll_results (rx w) ! epoll_results_pos (rx w)) = Some (con_bfd (con w)) \<Longrightarrow>
    write_ok (job_operation_len (send_iface (con w))) wans \<Longrightarrow> read_ok (job_operation_len (recv_iface (con w))) rans \<Longrightarrow>
    error_ok (wait_events (con w)) ev wans rans \<Longrightarrow> conn_step K watched clock (l, w) (l, connection_fd_handler K ev wans rans (w\<lparr>rx := s\<rparr>))"
| c_other_round: "\<not> con_err (con w) \<Longrightarrow> \<not> exiting (rx w) \<Longrightarrow> exec_round K (rx w) = Some (s, c) \<Longrightarrow> other_call (con w) (rx w) c \<Longrightarrow>
    conn_step K watched clock (l, w) (l, w\<lparr>rx := s\<rparr>)"
| c_other_client: "client_step K watched clock (l, rx w) (l', s') \<Longrightarrow> untouched (con w) (l, rx w) (l', s') \<Longrightarrow>
    conn_step K watched clock (l, w) (l', w\<lparr>rx := s'\<rparr>)"

definition conn_inv :: "'k kernel_ops \<Rightarrow> ('k \<Rightarrow> int \<Rightarrow> nat option) \<Rightarrow> ('k \<Rightarrow> int) \<Rightarrow> live \<times> 'k cworld \<Rightarrow> bool" where
  "conn_inv K watched clock = (\<lambda>(l, w). reactor_reach K watched clock (l, rx w) \<and> settled l w)"

definition conn_start :: "'k kernel_ops \<Rightarrow> ('k \<Rightarrow> int \<Rightarrow> nat option) \<Rightarrow> ('k \<Rightarrow> int) \<Rightarrow> live \<times> 'k cworld \<Rightarrow> bool" where
  "conn_start K watched clock w1 \<longleftrightarrow> (\<exists>l w source nonblocking. reactor_reach K watched clock (l, rx w) \<and> fresh_con l w \<and> source_ok source l w
     \<and> BConnection_Init K source nonblocking w = (snd w1, True) \<and> fst w1 = con_live (con w) l)"

definition conn_reach :: "'k kernel_ops \<Rightarrow> ('k \<Rightarrow> int \<Rightarrow> nat option) \<Rightarrow> ('k \<Rightarrow> int) \<Rightarrow> live \<times> 'k cworld \<Rightarrow> bool" where
  "conn_reach K watched clock = reach (conn_start K watched clock) (conn_step K watched clock)"

text \<open>
  The unrestricted steps: \<open>read\<close> and \<open>write\<close> may give data whatever was reported. A step is stale if a waited-for direction whose
  readiness was not reported gave data, and so the descriptor is still watched for a direction in which nothing is in progress. The runs
  \<open>conn_run\<close> take all steps and remember whether one of them was stale.
\<close>

definition left_watched :: "BConnection \<Rightarrow> bool" where
  "left_watched c \<longleftrightarrow> \<not> is_hupd c
     \<and> (bit (wait_events c) 1 \<and> send_st c \<noteq> SEND_STATE_BUSY \<or> bit (wait_events c) 0 \<and> recv_st c \<noteq> RECV_STATE_BUSY)"

inductive conn_any :: "'k kernel_ops \<Rightarrow> ('k \<Rightarrow> int \<Rightarrow> nat option) \<Rightarrow> ('k \<Rightarrow> int) \<Rightarrow> live \<times> 'k cworld \<Rightarrow> live \<times> 'k cworld \<Rightarrow> bool"
  for K watched clock where
  any_step: "conn_step K watched clock a b \<Longrightarrow> conn_any K watched clock a b"
| any_job: "\<not> con_err (con w) \<Longrightarrow> \<not> exiting (rx w) \<Longrightarrow> exec_round K (rx w) = Some (s, Some (Job_handler h p)) \<Longrightarrow>
    con_job_handler K wans rans p (w\<lparr>rx := s\<rparr>) = Some w' \<Longrightarrow>
    write_ok (job_operation_len (send_iface (con w))) wans \<Longrightarrow> read_ok (job_operation_len (recv_iface (con w))) rans \<Longrightarrow>
    conn_any K watched clock (l, w) (l, w')"
| any_fd: "\<not> con_err (con w) \<Longrightarrow> \<not> exiting (rx w) \<Longrightarrow> exec_round K (rx w) = Some (s, Some (Fd_handler h u ev)) \<Longrightarrow>
    snd (epoll_results (rx w) ! epoll_results_pos (rx w)) = Some (con_bfd (con w)) \<Longrightarrow>
    write_ok (job_operation_len (send_iface (con w))) wans \<Longrightarrow> read_ok (job_operation_len (recv_iface (con w))) rans \<Longrightarrow>
    conn_any K watched clock (l, w) (l, connection_fd_handler K ev wans rans (w\<lparr>rx := s\<rparr>))"

inductive stale_step :: "'k kernel_ops \<Rightarrow> live \<times> 'k cworld \<Rightarrow> live \<times> 'k cworld \<Rightarrow> bool" for K where
  stale_job: "exec_round K (rx w) = Some (s, Some (Job_handler h p)) \<Longrightarrow> con_job_handler K wans rans p (w\<lparr>rx := s\<rparr>) = Some w' \<Longrightarrow>
    \<not> is_hupd (con w) \<Longrightarrow> \<not> error_ok (wait_events (con w)) 0 wans rans \<Longrightarrow> left_watched (con w') \<Longrightarrow> stale_step K (l, w) (l, w')"
| stale_fd: "exec_round K (rx w) = Some (s, Some (Fd_handler h u ev)) \<Longrightarrow> w' = connection_fd_handler K ev wans rans (w\<lparr>rx := s\<rparr>) \<Longrightarrow>
    \<not> error_ok (wait_events (con w)) ev wans rans \<Longrightarrow> left_watched (con w') \<Longrightarrow> stale_step K (l, w) (l, w')"

inductive conn_run :: "'k kernel_ops \<Rightarrow> ('k \<Rightarrow> int \<Rightarrow> nat option) \<Rightarrow> ('k \<Rightarrow> int) \<Rightarrow> bool \<Rightarrow> live \<times> 'k cworld \<Rightarrow> bool"
  for K watched clock where
  run_start: "conn_start K watched clock a \<Longrightarrow> conn_run K watched clock False a"
| run_step: "conn_run K watched clock stale a \<Longrightarrow> conn_any K watched clock a b \<Longrightarrow> conn_run K watched clock (stale \<or> stale_step K a b) b"

lemma clients_reach: "(client_step K watched clock)\<^sup>*\<^sup>* w w' \<Longrightarrow> reactor_reach K watched clock w \<Longrightarrow> reactor_reach K watched clock w'"
proof (induction rule: rtranclp_induct)
  case (step y z)
  have k: "kernel_ok K watched clock" using reactor_reachD(2) step.prems by (metis surj_pair)
  have "reactor_step K watched clock y z" using step.hyps(2) by (rule client)
  with step k show ?case unfolding reactor_reach_def by (blast intro: reach_step)
qed

lemma round_reach: "reactor_reach K watched clock (l, s) \<Longrightarrow> \<not> exiting s \<Longrightarrow> exec_round K s = Some (s', c) \<Longrightarrow> reactor_reach K watched clock (l, s')"
  using reactor_reachD(2) [of K watched clock l s] unfolding reactor_reach_def by (blast intro: reach_step round)

lemma start_conn_inv:
  assumes "conn_start K watched clock w1"
  shows "conn_inv K watched clock w1"
proof -
  obtain l w source nb where s: "reactor_reach K watched clock (l, rx w)" "fresh_con l w" "source_ok source l w"
    "BConnection_Init K source nb w = (snd w1, True)" "fst w1 = con_live (con w) l" using assms by (auto simp: conn_start_def)
  note r = reactor_reachD [OF s(1)]
  have "\<exists>xs. job_stack (live_jobs l) (pending_jobs (rx w)) xs" using r(1) by (auto simp: rinv_def jobs_ok_def)
  from init_settles [OF s(2,3) this r(2,1), of nb] s show ?thesis using clients_reach [OF _ s(1)] by (auto simp: conn_inv_def split_beta)
qed

lemma same_view_settled:
  assumes "settled l w" and "fd_active s = fd_active (rx w)" "waitEvents s = waitEvents (rx w)" "pending_jobs s = pending_jobs (rx w)"
  shows "settled l (w\<lparr>rx := s\<rparr>)"
  using assms by (simp add: settled_def con_parts)

lemma other_settled:
  assumes s: "settled l w" and v: "untouched (con w) (l, rx w) (l', s')" and j: "job_stack (live_jobs l') (pending_jobs s') ys"
  shows "settled l' (w\<lparr>rx := s'\<rparr>)"
  using s
proof (rule settledD)
  fix xs
  assume xs: "job_stack (live_jobs l) (pending_jobs (rx w)) xs" "con_ok l (rx w) (con w) (set xs)" "trace_ok (con w) (ctrace w)"
    "send_wakes (con w)" "recv_wakes (con w) (set xs)"
  have aj: "set (all_jobs (con w)) = send_jobs (con w) \<union> recv_jobs (con w)" by (auto simp: all_jobs_def send_jobs_def recv_jobs_def)
  have l: "p \<in> live_jobs l \<longleftrightarrow> p \<in> live_jobs l'" if "p \<in> send_jobs (con w) \<union> recv_jobs (con w)" for p using v that by (auto simp: untouched_def aj)
  have x: "p \<in> set xs \<longleftrightarrow> p \<in> set ys" if p: "p \<in> send_jobs (con w) \<union> recv_jobs (con w)" for p
  proof (cases "p \<in> live_jobs l")
    case True
    then show ?thesis using v p l [OF p] pq.stack_is_set [OF xs(1) True] pq.stack_is_set [OF j, of p] by (auto simp: untouched_def aj)
  next
    case False
    then show ?thesis using job_stackD(2) [OF xs(1)] job_stackD(2) [OF j] l [OF p] by blast
  qed
  have "send_ok l (con w) (set xs) = send_ok l' (con w) (set ys)" "recv_ok l (con w) (set xs) = recv_ok l' (con w) (set ys)"
    using l x by (intro ok_cong(1) [of "send_jobs (con w)"] ok_cong(2) [of "recv_jobs (con w)"]; auto)+
  then have "con_ok l' s' (con w) (set ys)" using xs(2) v by (auto simp: con_parts untouched_def)
  moreover have "recv_wakes (con w) (set ys)" using xs(5) x [of "recv_job (con w)"] by (simp add: recv_wakes_def recv_jobs_def)
  ultimately show "settled l' (w\<lparr>rx := s'\<rparr>)" unfolding settled_def using j xs(3,4) by auto
qed

lemma job_round:
  assumes j: "job_stack S (pending_jobs s) xs" and e: "exec_round K s = Some (s', c)" and h: "BPendingGroup_HasJobs (pending_jobs s)"
  obtains p ys where "xs = p # ys" and "s' = s\<lparr>pending_jobs := fst (BPendingGroup_ExecuteJob (pending_jobs s))\<rparr>"
    and "job_stack S (pending_jobs s') ys" and "c = Some (Job_handler (job_handler (pending_jobs s) p) p)"
proof -
  obtain p ys where x: "xs = p # ys" using h linked_first [OF job_stackD(3) [OF j]] by (cases xs) (auto simp: pending_defs)
  note n = job_stack_Execute [OF j [unfolded x]]
  have "s' = s\<lparr>pending_jobs := fst (BPendingGroup_ExecuteJob (pending_jobs s))\<rparr>" "c = Some (Job_handler (job_handler (pending_jobs s) p) p)"
    using e h n by (auto simp: exec_round_def split: prod.splits)
  then show ?thesis using that x n by auto
qed

lemma other_round_settled:
  assumes s: "settled l w" and e: "exec_round K (rx w) = Some (s', c)" and o: "other_call (con w) (rx w) c"
  shows "settled l (w\<lparr>rx := s'\<rparr>)"
proof (cases "BPendingGroup_HasJobs (pending_jobs (rx w))")
  case False
  then show ?thesis using same_view_settled [OF s] round_view(1-3) [OF e] by simp
next
  case True
  obtain xs where xs: "job_stack (live_jobs l) (pending_jobs (rx w)) xs" "con_ok l (rx w) (con w) (set xs)" using s by (auto simp: settled_def)
  obtain p ys where j: "xs = p # ys" "job_stack (live_jobs l) (pending_jobs s') ys" "c = Some (Job_handler (job_handler (pending_jobs (rx w)) p) p)"
    using job_round [OF xs(1) e True] by metis
  have "p \<notin> set (all_jobs (con w))" using o j(3) by (simp add: other_call_def)
  then have "BSmallPending_IsSet q (pending_jobs s') = BSmallPending_IsSet q (pending_jobs (rx w))" if "q \<in> live_jobs l" "q \<in> set (all_jobs (con w))" for q
    using that pq.stack_is_set [OF xs(1) that(1)] pq.stack_is_set [OF j(2) that(1)] j(1) by auto
  then have "untouched (con w) (l, rx w) (l, s')"
    using round_view(1,2) [OF e] xs(2) by (auto simp: untouched_def con_ok_def bfd_ok_def)
  from other_settled [OF s this j(2)] show ?thesis .
qed

lemma fd_round_live:
  assumes i: "rinv watched clock (l, rx w)" and s: "settled l w" and e: "exec_round K (rx w) = Some (s', Some (Fd_handler h u ev))"
    and b: "snd (epoll_results (rx w) ! epoll_results_pos (rx w)) = Some (con_bfd (con w))"
  shows "\<not> is_hupd (con w)"
proof -
  obtain xs where xs: "con_ok l (rx w) (con w) (set xs)" using s by (auto simp: settled_def)
  have "fds_ok watched l (rx w)" using i by (simp add: rinv_def)
  then have "fd_active (rx w) (con_bfd (con w))"
    using fds_okD(4) [of watched l "rx w" "epoll_results_pos (rx w)" "con_bfd (con w)"] round_view(4) [OF e refl] b by auto
  then show ?thesis using xs by (simp add: con_ok_def bfd_ok_def)
qed

lemma fd_round_settled:
  assumes i: "rinv watched clock (l, rx w)" and s: "settled l w" and ne: "\<not> con_err (con w)"
    and e: "exec_round K (rx w) = Some (s', Some (Fd_handler h u ev))"
    and b: "snd (epoll_results (rx w) ! epoll_results_pos (rx w)) = Some (con_bfd (con w))"
    and len: "write_ok (job_operation_len (send_iface (con w))) wans" "read_ok (job_operation_len (recv_iface (con w))) rans"
    and er: "error_ok (wait_events (con w)) ev wans rans"
  shows "(client_step K watched clock)\<^sup>*\<^sup>* (l, s') (l, rx (connection_fd_handler K ev wans rans (w\<lparr>rx := s'\<rparr>)))
    \<and> settled l (connection_fd_handler K ev wans rans (w\<lparr>rx := s'\<rparr>))"
proof -
  note v = round_view(1-3) [OF e] and d = round_view(4) [OF e refl]
  let ?w = "w\<lparr>rx := s'\<rparr>" and ?b = "con_bfd (con w)"
  obtain xs where xs: "job_stack (live_jobs l) (pending_jobs (rx w)) xs" "con_ok l (rx w) (con w) (set xs)" using s by (auto simp: settled_def)
  have "xs = []" using d linked_first [OF job_stackD(3) [OF xs(1)]] by (cases xs) (auto simp: pending_defs)
  then have j: "job_stack (live_jobs l) (pending_jobs (rx ?w)) []" using xs(1) v(3) d by simp
  note h = fd_round_live [OF i s e b]
  have "ev = fd_events (waitEvents (rx w) ?b) (fst (epoll_results (rx w) ! epoll_results_pos (rx w)))"
    using d b by (auto simp: dispatch_fd_def Let_def E_ASSERT_def set_returned_ptr_def split: if_splits)
  moreover have "waitEvents (rx w) ?b = wait_events (con w)" using xs(2) h by (simp add: con_ok_def bfd_ok_def)
  ultimately have ev: "bit ev 0 \<Longrightarrow> bit (wait_events (con w)) 0" "bit ev 1 \<Longrightarrow> bit (wait_events (con w)) 1" by (simp_all add: fd_events_bits)
  have "settled l ?w" using same_view_settled [OF s] v d by simp
  from fd_handler_settles [OF this j, of ev wans rans K watched clock] ne h ev len er show ?thesis by simp
qed

lemma handler_frame [simp]:
  "send_ok l (c\<lparr>send_iface := (send_iface c)\<lparr>has_handler_done := b\<rparr>\<rparr>) X = send_ok l c X"
  "recv_ok l (c\<lparr>recv_iface := (recv_iface c)\<lparr>has_handler_done := b\<rparr>\<rparr>) X = recv_ok l c X"
  "send_mode_of (c\<lparr>send_iface := (send_iface c)\<lparr>has_handler_done := b\<rparr>\<rparr>) = send_mode_of c"
  "recv_mode_of (c\<lparr>recv_iface := (recv_iface c)\<lparr>has_handler_done := b\<rparr>\<rparr>) = recv_mode_of c"
  by (simp_all add: send_ok_def recv_ok_def if_ok_def send_jobs_def recv_jobs_def send_mode_of_def recv_mode_of_def cong: si_state.case_cong)

lemma attach_settled:
  assumes s: "settled l w"
  shows "\<not> has_handler_done (send_iface (con w)) \<Longrightarrow> settled l (attach_send w)"
    and "\<not> has_handler_done (recv_iface (con w)) \<Longrightarrow> settled l (attach_recv w)"
proof -
  obtain xs where xs: "job_stack (live_jobs l) (pending_jobs (rx w)) xs" "con_ok l (rx w) (con w) (set xs)" "trace_ok (con w) (ctrace w)"
    "send_wakes (con w)" "recv_wakes (con w) (set xs)" using s by (auto simp: settled_def)
  show "settled l (attach_send w)" if "\<not> has_handler_done (send_iface (con w))"
    unfolding settled_def using xs that
    by (intro exI [of _ xs]) (simp add: attach_send_def StreamPassInterface_Sender_Init_def con_parts trace_ok_def send_wakes_def recv_wakes_def)
  show "settled l (attach_recv w)" if "\<not> has_handler_done (recv_iface (con w))"
    unfolding settled_def using xs that
    by (intro exI [of _ xs]) (simp add: attach_recv_def StreamRecvInterface_Receiver_Init_def StreamPassInterface_Sender_Init_def
        con_parts trace_ok_def send_wakes_def recv_wakes_def)
qed

lemma inv_by:
  assumes "conn_inv K watched clock (l, w)" and "(client_step K watched clock)\<^sup>*\<^sup>* (l, rx w) (l', rx w') \<and> settled l' w'"
  shows "conn_inv K watched clock (l', w')"
  using assms clients_reach by (auto simp: conn_inv_def)

lemma conn_step_inv:
  assumes c: "conn_step K watched clock a b" and i: "conn_inv K watched clock a"
  shows "conn_inv K watched clock b"
  using c
proof cases
  case (c_job w s h p wans rans w' l)
  have r: "reactor_reach K watched clock (l, rx w)" "settled l w" using i c_job(1) by (auto simp: conn_inv_def)
  obtain xs where xs: "job_stack (live_jobs l) (pending_jobs (rx w)) xs" using r(2) by (auto simp: settled_def)
  obtain ys where j: "xs = p # ys" "job_stack (live_jobs l) (pending_jobs s) ys" "s = (rx w)\<lparr>pending_jobs := pending_jobs s\<rparr>"
  proof (rule job_round [OF xs c_job(5) round_view(6) [OF c_job(5) refl]])
    fix q ys
    assume q: "xs = q # ys" "s = (rx w)\<lparr>pending_jobs := fst (BPendingGroup_ExecuteJob (pending_jobs (rx w)))\<rparr>"
      "job_stack (live_jobs l) (pending_jobs s) ys" "Some (Job_handler h p) = Some (Job_handler (job_handler (pending_jobs (rx w)) q) q)"
    have "s = (rx w)\<lparr>pending_jobs := pending_jobs s\<rparr>" unfolding q(2) by simp
    with q show ?thesis by (intro that) simp_all
  qed
  have "con_job_handler K wans rans p (w\<lparr>rx := (rx w)\<lparr>pending_jobs := pending_jobs s\<rparr>\<rparr>) = Some w'" using c_job(6) j(3) by simp
  from job_settles [OF r(2) _ j(2) c_job(3) c_job(7,8,9) this, of watched clock] xs j(1,3)
  have "(client_step K watched clock)\<^sup>*\<^sup>* (l, s) (l, rx w') \<and> settled l w'" by simp
  then show ?thesis using clients_reach round_reach [OF r(1) c_job(4,5)] c_job(2) by (auto simp: conn_inv_def)
next
  case (c_fd w s h u ev wans rans l)
  have r: "reactor_reach K watched clock (l, rx w)" "settled l w" using i c_fd(1) by (auto simp: conn_inv_def)
  from fd_round_settled [OF reactor_reachD(1) [OF r(1)] r(2) c_fd(3) c_fd(5-9)] show ?thesis
    using clients_reach round_reach [OF r(1) c_fd(4,5)] c_fd(2) by (auto simp: conn_inv_def)
next
  case (c_other_round w s c l)
  then show ?thesis using i other_round_settled round_reach by (auto simp: conn_inv_def)
next
  case (c_other_client l w l' s')
  have r: "reactor_reach K watched clock (l', s')" using i c_other_client clients_reach [OF r_into_rtranclp [of "client_step K watched clock", OF c_other_client(3)]] by (simp add: conn_inv_def)
  then obtain ys where "job_stack (live_jobs l') (pending_jobs s') ys" using reactor_reachD(1) [OF r] by (auto simp: rinv_def jobs_ok_def)
  then show ?thesis using i c_other_client r other_settled by (auto simp: conn_inv_def)
next
  case (c_send w data l)
  then show ?thesis using i user_send_settles [of l w data K watched clock] clients_reach [OF r_into_rtranclp] by (auto simp: conn_inv_def)
next
  case (c_recv w avail l buf)
  then show ?thesis using i user_recv_settles [of l w avail K watched clock buf] clients_reach [OF r_into_rtranclp] by (auto simp: conn_inv_def)
next
  case (c_attach_send w l)
  then show ?thesis using i attach_settled(1) by (auto simp: conn_inv_def attach_send_def)
next
  case (c_attach_recv w l)
  then show ?thesis using i attach_settled(2) by (auto simp: conn_inv_def attach_recv_def)
next
  case (c_send_init w l)
  then show ?thesis using i inv_by [OF _ send_init_settles [of l w]] by (auto simp: conn_inv_def)
next
  case (c_send_free w l)
  then show ?thesis using i inv_by [OF _ send_free_settles [of l w]] by (auto simp: conn_inv_def)
next
  case (c_recv_init w l)
  then show ?thesis using i inv_by [OF _ recv_init_settles [of l w]] by (auto simp: conn_inv_def)
next
  case (c_recv_free w l)
  then show ?thesis using i inv_by [OF _ recv_free_settles [of l w]] by (auto simp: conn_inv_def)
qed

interpretation stream_con: invariant_system "conn_start K watched clock" "conn_step K watched clock" "conn_inv K watched clock"
  for K watched clock
  by unfold_locales (auto intro: start_conn_inv conn_step_inv)

text \<open>
  A transfer that leaves no direction watched in vain either did not use the answer or used an expected one.
\<close>

definition expected_write :: "32 word \<Rightarrow> 32 word \<Rightarrow> write_answer \<Rightarrow> write_answer" where
  "expected_write wanted events wans = (case wans of
      W_Bytes b \<Rightarrow> if bit wanted 1 \<and> \<not> bit events 1 then W_Error True else W_Bytes b
    | W_Error again \<Rightarrow> W_Error again)"

definition expected_read :: "32 word \<Rightarrow> 32 word \<Rightarrow> read_answer \<Rightarrow> read_answer" where
  "expected_read wanted events rans = (case rans of
      R_Bytes bs \<Rightarrow> if bit wanted 0 \<and> \<not> bit events 0 then R_Error True else R_Bytes bs
    | R_Error again \<Rightarrow> R_Error again)"

lemma expected_ok:
  "error_ok wanted events (expected_write wanted events wans) (expected_read wanted events rans)"
  "write_ok len wans \<Longrightarrow> write_ok len (expected_write wanted events wans)"
  "read_ok len rans \<Longrightarrow> read_ok len (expected_read wanted events rans)"
  by (cases wans; cases rans; auto simp: error_ok_def write_ok_def read_ok_def expected_write_def expected_read_def)+

lemma unused_write:
  assumes "\<not> left_watched (con (connection_send_unix K wans w))" and "\<not> is_hupd (con w)"
    and "bit wanted 1 \<Longrightarrow> \<not> bit events 1 \<Longrightarrow> bit (wait_events (con w)) 1"
  shows "connection_send_unix K (expected_write wanted events wans) w = connection_send_unix K wans w"
  using assms by (cases wans)
    (auto simp: expected_write_def connection_send_unix_def Let_def left_watched_def N_ASSERT_def on_send_iface_def split: prod.splits if_splits)

lemma unused_read:
  assumes "\<not> left_watched (con (connection_recv K rans w))" and "\<not> is_hupd (con w)"
    and "bit wanted 0 \<Longrightarrow> \<not> bit events 0 \<Longrightarrow> bit (wait_events (con w)) 0"
  shows "connection_recv K (expected_read wanted events rans) w = connection_recv K rans w"
  using assms by (cases rans)
    (auto simp: expected_read_def connection_recv_def Let_def left_watched_def N_ASSERT_def on_recv_iface_def split: prod.splits if_splits)

lemma assert_con_simps [simp]:
  "wait_events (con (N_ASSERT b w)) = wait_events (con w)" "is_hupd (con (N_ASSERT b w)) = is_hupd (con w)"
  by (simp_all add: N_ASSERT_def)

lemma unused_in_fd_handler:
  assumes n: "\<not> left_watched (con (connection_fd_handler K events wans rans w))" and c: "\<not> con_err (con w)" and h: "\<not> is_hupd (con w)" "\<not> bit events 3"
    and e: "wanted = wait_events (con w)"
  shows "connection_fd_handler K events (expected_write wanted events wans) (expected_read wanted events rans) w = connection_fd_handler K events wans rans w"
proof -
  have b: "bit (wanted AND NOT events) k" if "bit wanted k" "\<not> bit events k" for k
    using that bit_imp_le_length [OF that(1)] by (simp add: bit_and_iff bit_not_iff)
  define w0 where "w0 = set_wait_events K (wait_events (con w) AND NOT events) w"
  define have_send where "have_send \<longleftrightarrow> bit events 1 \<or> bit events 2 \<and> send_st (con w0) = SEND_STATE_BUSY"
  define w1 where "w1 = (if have_send then N_ASSERT (send_st (con w0) = SEND_STATE_BUSY) w0 else w0)"
  define have_recv where "have_recv \<longleftrightarrow> bit events 0 \<or> bit events 2 \<and> recv_st (con w1) = RECV_STATE_BUSY"
  define w2 where "w2 = (if have_recv then N_ASSERT (recv_st (con w1) = RECV_STATE_BUSY) w1 else w1)"
  define w3 where "w3 = (if have_recv then con_jobs (BSmallPending_Set (recv_job (con w2))) w2 else w2)"
  have u: "connection_fd_handler K events wans rans w = (if have_send then connection_send_unix K wans w3 else if have_recv then connection_recv K rans w2
      else if \<not> is_hupd (con w2) then connection_report_error w2 else w2)" for wans rans
    unfolding connection_fd_handler_def Let_def assert_eq(1) [OF c] assert_eq(1) [OF h(1)] bit_masks event_masks not_not w0_def [symmetric]
    using h(2) by (simp only: simp_thms if_False de_Morgan_conj have_send_def [symmetric] w1_def [symmetric] have_recv_def [symmetric] w2_def [symmetric]
      w3_def [symmetric])
  have f: "wait_events (con w2) = wanted AND NOT events" "wait_events (con w3) = wanted AND NOT events" "\<not> is_hupd (con w2)" "\<not> is_hupd (con w3)"
    using h(1) by (simp_all add: w3_def w2_def w1_def w0_def e)
  show ?thesis
  proof (cases have_send)
    case True
    then show ?thesis using n unused_write [of K wans w3 wanted events] f b unfolding u by simp
  next
    case False
    then show ?thesis using n unused_read [of K rans w2 wanted events] f b unfolding u by (cases have_recv) simp_all
  qed
qed

lemma unused_in_job:
  assumes "con_job_handler K wans rans p w = Some w'" and "\<not> left_watched (con w')" "\<not> is_hupd (con w)" and "wanted = wait_events (con w)"
  shows "con_job_handler K (expected_write wanted 0 wans) (expected_read wanted 0 rans) p w = Some w'"
  using assms unfolding con_job_handler_def connection_send_if_handler_send_def connection_send_job_handler_def
    connection_recv_if_handler_recv_def connection_recv_job_handler_def Let_def
  by (auto intro!: unused_write unused_read split: if_splits)

section \<open>Properties\<close>

lemma conn_reachD:
  assumes "conn_reach K watched clock (l, w)"
  shows "reactor_reach K watched clock (l, rx w)" and "settled l w"
  using stream_con.reach_inv [OF assms [unfolded conn_reach_def]] by (simp_all add: conn_inv_def)

lemma any_step_cases:
  assumes "conn_any K watched clock a b" and i: "conn_inv K watched clock a"
  shows "conn_step K watched clock a b \<or> stale_step K a b"
  using assms(1)
proof cases
  case any_step
  then show ?thesis by blast
next
  case (any_job w s h p wans rans w' l)
  note rest = any_job(3-8)
  show ?thesis
  proof (cases "is_hupd (con w) \<or> error_ok (wait_events (con w)) 0 wans rans")
    case True
    then show ?thesis using c_job [OF rest] any_job(1,2) by blast
  next
    case bad: False
    show ?thesis
    proof (cases "left_watched (con w')")
      case True
      then show ?thesis using stale_job [OF rest(3,4)] bad any_job(1,2) by blast
    next
      case False
      with unused_in_job [OF rest(4)] bad
      have "con_job_handler K (expected_write (wait_events (con w)) 0 wans) (expected_read (wait_events (con w)) 0 rans) p (w\<lparr>rx := s\<rparr>) = Some w'" by simp
      from c_job [OF rest(1-3) this] expected_ok rest(5,6) any_job(1,2) show ?thesis by blast
    qed
  qed
next
  case (any_fd w s h u ev wans rans l)
  note rest = any_fd(3-8)
  let ?ev = "wait_events (con w)" and ?w = "w\<lparr>rx := s\<rparr>"
  show ?thesis
  proof (cases "error_ok ?ev ev wans rans")
    case True
    then show ?thesis using c_fd [OF rest] any_fd(1,2) by blast
  next
    case bad: False
    show ?thesis
    proof (cases "left_watched (con (connection_fd_handler K ev wans rans ?w))")
      case True
      then show ?thesis using stale_fd [OF rest(3) refl bad] any_fd(1,2) by blast
    next
      case False
      have "\<not> is_hupd (con w)" using i fd_round_live [OF reactor_reachD(1) _ rest(3,4)] unfolding any_fd(1) conn_inv_def by blast
      with unused_in_fd_handler [of K ev wans rans ?w ?ev] bad rest(1) False
      have "connection_fd_handler K ev (expected_write ?ev ev wans) (expected_read ?ev ev rans) ?w = connection_fd_handler K ev wans rans ?w"
        by (simp add: error_ok_def)
      with c_fd [OF rest(1-4) expected_ok(2) [OF rest(5)] expected_ok(3) [OF rest(6)] expected_ok(1)] any_fd(1,2) show ?thesis by metis
    qed
  qed
qed

text \<open>So the runs without a stale step are those in which the answers are the expected ones.\<close>

lemma run_reach: "conn_run K watched clock stale a \<Longrightarrow> stale \<or> conn_reach K watched clock a"
proof (induction rule: conn_run.induct)
  case (run_start a)
  then show ?case by (simp add: conn_reach_def reach_start)
next
  case (run_step stale a b)
  then show ?case using any_step_cases [OF run_step.hyps(2)] stream_con.reach_inv unfolding conn_reach_def by (blast intro: reach_step)
qed

lemma inv_not_left_watched: "conn_inv K watched clock (l, w) \<Longrightarrow> \<not> left_watched (con w)"
  by (auto simp: conn_inv_def settled_def con_parts left_watched_def)

lemma reach_run: "conn_reach K watched clock a \<Longrightarrow> conn_run K watched clock False a"
  unfolding conn_reach_def
proof (induction rule: reach.induct)
  case (reach_start a)
  then show ?case by (rule run_start)
next
  case (reach_step a b)
  have "conn_inv K watched clock b" using stream_con.reach_next_inv [OF reach_step.hyps] by blast
  then have "\<not> stale_step K a b" by (auto elim!: stale_step.cases dest: inv_not_left_watched)
  with run_step [OF reach_step.IH any_step [OF reach_step.hyps(2)]] show ?case by simp
qed

text \<open>An example: a connection on the descriptor 5 that waits for data.\<close>

definition demo_if :: "nat \<Rightarrow> 'd \<Rightarrow> 'd stream_if" where
  "demo_if a d = \<lparr>job_operation = a, job_operation_data = d, job_operation_len = 0, job_done = a + 1, job_done_len = 0, si_state = SI_STATE_BUSY,
     has_handler_done = True, si_fault = False\<rparr>"

definition demo_world :: "((int \<Rightarrow> nat option) \<times> int) cworld" where
  "demo_world = \<lparr>rx = demo_start,
     con = \<lparr>con_fd = 0, close_fd = False, is_hupd = True, con_bfd = 4, wait_events = 0, send_limit = 31, send_iface = demo_if 21 [], send_job = 23,
       busy_data = [], busy_data_len = 0, send_st = SEND_STATE_BUSY, recv_limit = 32, recv_iface = demo_if 24 0, recv_job = 26, recv_busy_data = 0,
       busy_data_avail = 0, recv_st = RECV_STATE_BUSY, con_err = True, con_fault = False\<rparr>,
     ctr = \<lparr>ctr_fd = -1, ctr_connected = False, have_bfd = False, ctr_bfd = 7, ctr_job = 27, ctr_fault = False\<rparr>,
     ctrace = []\<rparr>"

definition demo_opened :: "((int \<Rightarrow> nat option) \<times> int) cworld" where
  "demo_opened = fst (BConnection_Init demo_kernel (BCONNECTION_SOURCE_TYPE_PIPE 5 True) True demo_world)"

definition demo_asked :: "((int \<Rightarrow> nat option) \<times> int) cworld" where
  "demo_asked = user_recv 100 10 (attach_recv (BConnection_RecvAsync_Init demo_opened))"

lemma demo_opened_eq:
  "BConnection_Init demo_kernel (BCONNECTION_SOURCE_TYPE_PIPE 5 True) True demo_world = (demo_opened, True)"
  "con demo_opened = (con demo_world)\<lparr>con_fd := 5, close_fd := True, is_hupd := False, wait_events := 0, send_st := SEND_STATE_NOT_INITED,
     recv_st := RECV_STATE_NOT_INITED, con_err := False\<rparr>"
  "ctrace demo_opened = []" "pending_jobs (rx demo_opened) = pending_jobs demo_start" "exiting (rx demo_opened) = False"
  "limit_count (rx demo_opened) = (\<lambda>_. 0)(31 := 0, 32 := 0)" "limit_max (rx demo_opened) = (\<lambda>_. 0)(31 := 2, 32 := 2)"
  by (simp_all add: demo_opened_def BConnection_Init_def take_source_def demo_world_def BReactor_AddFileDescriptor_def BFileDescriptor_Init_def
      set_returned_ptr_def demo_kernel_def demo_start_def BReactorLimit_Init_def Let_def)

lemma demo_reach_opened: "conn_reach demo_kernel fst snd (con_live (con demo_world) no_live, demo_opened)"
proof -
  have "reactor_reach demo_kernel fst snd (no_live, rx demo_world)" using demo_reach_start by (simp add: demo_world_def)
  moreover have "fresh_con no_live demo_world" by (simp add: fresh_con_def all_jobs_def no_live_def demo_world_def demo_if_def fault_free_def)
  moreover have "source_ok (BCONNECTION_SOURCE_TYPE_PIPE 5 True) no_live demo_world" by (simp add: source_ok_def)
  ultimately have "conn_start demo_kernel fst snd (con_live (con demo_world) no_live, demo_opened)"
    unfolding conn_start_def using demo_opened_eq(1) by fastforce
  then show ?thesis unfolding conn_reach_def by (rule reach_start)
qed

lemma demo_asked_eq:
  "con demo_asked = (con demo_opened)\<lparr>recv_iface := (demo_if 24 100)\<lparr>job_operation_len := 10, si_state := SI_STATE_OPERATION_PENDING\<rparr>, recv_st := RECV_STATE_READY\<rparr>"
  "ctrace demo_asked = [Call_Recv 100 10]" "exiting (rx demo_asked) = False"
  "limit_count (rx demo_asked) = (\<lambda>_. 0)(31 := 0, 32 := 0)" "limit_max (rx demo_asked) = (\<lambda>_. 0)(31 := 2, 32 := 2)"
  "pending_jobs (rx demo_asked) = BSmallPending_Set 24 (BSmallPending_Init 26 4 (BSmallPending_Init 25 2 (BSmallPending_Init 24 1 (pending_jobs demo_start))))"
  by (simp_all add: demo_asked_def user_recv_def attach_recv_def BConnection_RecvAsync_Init_def on_recv_iface_def StreamRecvInterface_Init_def
      StreamPassInterface_Init_def StreamRecvInterface_Receiver_Init_def StreamPassInterface_Sender_Init_def StreamRecvInterface_Receiver_Recv_def
      StreamPassInterface_Sender_Send_def con_jobs_def demo_opened_eq demo_if_def Let_def emit_def) (simp_all add: demo_world_def demo_if_def)

lemma demo_reach_asked: "conn_reach demo_kernel fst snd ((con_live (con demo_world) no_live)\<lparr>live_jobs := {24, 25, 26}\<rparr>, demo_asked)"
proof -
  let ?l = "con_live (con demo_world) no_live"
  let ?w1 = "BConnection_RecvAsync_Init demo_opened" and ?l1 = "?l\<lparr>live_jobs := {24, 25, 26}\<rparr>"
  have "conn_step demo_kernel fst snd (?l, demo_opened) (?l1, ?w1)"
    using c_recv_init [of demo_opened demo_kernel fst snd ?l] by (simp add: demo_opened_eq con_live_def no_live_def recv_jobs_def) (simp add: demo_world_def demo_if_def)
  moreover have "conn_step demo_kernel fst snd (?l1, ?w1) (?l1, attach_recv ?w1)"
    by (rule c_attach_recv) (simp_all add: BConnection_RecvAsync_Init_def on_recv_iface_def StreamRecvInterface_Init_def StreamPassInterface_Init_def con_jobs_def
      demo_opened_eq Let_def)
  moreover have "conn_step demo_kernel fst snd (?l1, attach_recv ?w1) (?l1, demo_asked)" unfolding demo_asked_def
    by (rule c_recv) (simp_all add: attach_recv_def BConnection_RecvAsync_Init_def on_recv_iface_def StreamRecvInterface_Init_def StreamPassInterface_Init_def
      StreamRecvInterface_Receiver_Init_def StreamPassInterface_Sender_Init_def con_jobs_def demo_opened_eq Let_def)
  ultimately show ?thesis using demo_reach_opened unfolding conn_reach_def by (blast intro: reach_step)
qed

definition demo_round :: "((int \<Rightarrow> nat option) \<times> int) BReactor" where
  "demo_round = (rx demo_asked)\<lparr>pending_jobs := fst (BPendingGroup_ExecuteJob (pending_jobs (rx demo_asked)))\<rparr>"

definition demo_waiting :: "((int \<Rightarrow> nat option) \<times> int) cworld" where
  "demo_waiting = set_wait_events demo_kernel 1 (demo_asked\<lparr>con := (con demo_asked)\<lparr>recv_iface := (recv_iface (con demo_asked))\<lparr>si_state := SI_STATE_BUSY\<rparr>,
     recv_busy_data := 100, busy_data_avail := 10, recv_st := RECV_STATE_BUSY\<rparr>, rx := fst (BReactorLimit_Increment 32 demo_round)\<rparr>)"

lemma demo_round_eq: "exec_round demo_kernel (rx demo_asked) = Some (demo_round, Some (Job_handler 1 24))"
proof -
  have "BPendingGroup_HasJobs (pending_jobs (rx demo_asked))" "snd (BPendingGroup_ExecuteJob (pending_jobs (rx demo_asked))) = Some (24, 1)"
    unfolding demo_asked_eq by (simp_all add: demo_start_def pending_defs Let_def)
  then show ?thesis by (auto simp: exec_round_def demo_round_def split: prod.splits)
qed

lemma demo_waiting_eq: "con_job_handler demo_kernel (W_Error True) (R_Error True) 24 (demo_asked\<lparr>rx := demo_round\<rparr>) = Some demo_waiting"
proof -
  have c: "send_iface (con demo_asked) = demo_if 21 []" "send_job (con demo_asked) = 23" "recv_limit (con demo_asked) = 32" "wait_events (con demo_asked) = 0"
    "\<not> con_err (con demo_asked)" "\<not> is_hupd (con demo_asked)" "recv_st (con demo_asked) = RECV_STATE_READY"
    "recv_iface (con demo_asked) = (demo_if 24 100)\<lparr>job_operation_len := 10, si_state := SI_STATE_OPERATION_PENDING\<rparr>"
    by (simp_all add: demo_asked_eq demo_opened_eq) (simp_all add: demo_world_def demo_if_def)
  obtain s where s: "BReactorLimit_Increment 32 demo_round = (s, True)"
    by (simp add: BReactorLimit_Increment_def demo_round_def demo_asked_eq Let_def)
  let ?w = "demo_asked\<lparr>rx := demo_round\<rparr>" and ?i = "recv_iface (con demo_asked)"
  let ?w1 = "demo_asked\<lparr>rx := demo_round, con := (con demo_asked)\<lparr>recv_iface := ?i\<lparr>si_state := SI_STATE_BUSY\<rparr>, recv_busy_data := 100,
    busy_data_avail := 10, recv_st := RECV_STATE_BUSY\<rparr>\<rparr>"
  have i: "job_operation ?i = 24" "job_operation_data ?i = 100" "job_operation_len ?i = 10" "si_state ?i = SI_STATE_OPERATION_PENDING"
    unfolding c(8) by (simp_all add: demo_if_def)
  have "con_job_handler demo_kernel (W_Error True) (R_Error True) 24 ?w = Some (connection_recv_if_handler_recv demo_kernel (R_Error True) 100 10
      (?w\<lparr>con := (con demo_asked)\<lparr>recv_iface := ?i\<lparr>si_state := SI_STATE_BUSY\<rparr>\<rparr>\<rparr>))"
    unfolding con_job_handler_def Let_def StreamRecvInterface_job_operation_def StreamPassInterface_job_operation_def
    using c(1,2) i by (simp add: demo_if_def)
  also have "connection_recv_if_handler_recv demo_kernel (R_Error True) 100 10
      (?w\<lparr>con := (con demo_asked)\<lparr>recv_iface := ?i\<lparr>si_state := SI_STATE_BUSY\<rparr>\<rparr>\<rparr>) = connection_recv demo_kernel (R_Error True) ?w1"
    unfolding connection_recv_if_handler_recv_def Let_def using c(5,7) by simp
  also have "connection_recv demo_kernel (R_Error True) ?w1 = demo_waiting"
    unfolding connection_recv_def Let_def demo_waiting_def using c(3-6) s by simp
  finally show ?thesis .
qed

lemma demo_reach_waiting: "conn_reach demo_kernel fst snd ((con_live (con demo_world) no_live)\<lparr>live_jobs := {24, 25, 26}\<rparr>, demo_waiting)"
proof -
  let ?l = "(con_live (con demo_world) no_live)\<lparr>live_jobs := {24, 25, 26}\<rparr>"
  have "conn_step demo_kernel fst snd (?l, demo_asked) (?l, demo_waiting)"
    by (rule c_job [OF _ _ demo_round_eq demo_waiting_eq])
      (simp_all add: demo_asked_eq demo_opened_eq write_ok_def read_ok_def error_ok_def)
  with demo_reach_asked show ?thesis unfolding conn_reach_def by (rule reach_step)
qed

lemma demo_waiting_simps:
  "con_err (con demo_waiting) = False" "is_hupd (con demo_waiting) = False" "recv_st (con demo_waiting) = RECV_STATE_BUSY" "wait_events (con demo_waiting) = 1"
  "send_st (con demo_waiting) = SEND_STATE_NOT_INITED" "recv_limit (con demo_waiting) = 32" "busy_data_avail (con demo_waiting) = 10"
  "ctrace demo_waiting = [Call_Recv 100 10]" "con_bfd (con demo_waiting) = 4" "si_state (recv_iface (con demo_waiting)) = SI_STATE_BUSY"
  "limit_count (rx demo_waiting) 32 = 1" "limit_max (rx demo_waiting) 32 = 2"
proof -
  show "con_err (con demo_waiting) = False" "is_hupd (con demo_waiting) = False" "recv_st (con demo_waiting) = RECV_STATE_BUSY" "wait_events (con demo_waiting) = 1"
    "send_st (con demo_waiting) = SEND_STATE_NOT_INITED" "recv_limit (con demo_waiting) = 32" "busy_data_avail (con demo_waiting) = 10"
    "ctrace demo_waiting = [Call_Recv 100 10]" "con_bfd (con demo_waiting) = 4" "si_state (recv_iface (con demo_waiting)) = SI_STATE_BUSY"
    by (simp_all add: demo_waiting_def demo_asked_eq demo_opened_eq) (simp_all add: demo_world_def)
  have "limit_count (BReactor_SetFileDescriptorEvents K b e s) = limit_count s" "limit_max (BReactor_SetFileDescriptorEvents K b e s) = limit_max s"
    for K b e and s :: "((int \<Rightarrow> nat option) \<times> int) BReactor"
    by (simp_all add: BReactor_SetFileDescriptorEvents_def Let_def E_ASSERT_def split: prod.split)
  then show "limit_count (rx demo_waiting) 32 = 1" "limit_max (rx demo_waiting) 32 = 2"
    by (simp_all add: demo_waiting_def BReactorLimit_Increment_def demo_round_def demo_asked_eq Let_def)
qed

text \<open>
  C12. Whatever the user of a stream connection does within the documented rules, whatever \<open>read\<close> and \<open>write\<close> answer and whatever other clients do in
  between: as long as no step was stale, no assertion fails, neither of its own code nor of the interfaces nor of the event loop it uses, and all its operations
  are operations a client of the event loop may perform. A stale step is one in which an error event came without the readiness that was waited for, the transfer
  succeeded all the same, and the descriptor is left watched; that is the defect of error events shown below, which does lead to a failed assertion, and this is the only way to one.
\<close>

theorem connection_never_faults:
  assumes "conn_run K watched clock stale (l, w)"
  shows "stale \<or> \<not> con_fault (con w) \<and> \<not> si_fault (send_iface (con w)) \<and> \<not> si_fault (recv_iface (con w))
    \<and> \<not> r_fault (rx w) \<and> \<not> timers_fault (r_timers (rx w)) \<and> reactor_reach K watched clock (l, rx w)"
proof (cases stale)
  case False
  then have "conn_reach K watched clock (l, w)" using run_reach [OF assms] by blast
  note d = conn_reachD [OF this]
  have "fault_free (con w)" using d(2) by (auto simp: settled_def con_ok_def)
  moreover have "\<not> r_fault (rx w) \<and> \<not> timers_fault (r_timers (rx w))"
    using reactor_reachD(1) [OF d(1)] by (auto simp: rinv_def timers_ok_def timers_rep_def)
  ultimately show ?thesis using d(1) by (simp add: fault_free_def)
qed simp

theorem connection_never_faults_witness:
  "\<not> con_fault (con demo_waiting) \<and> \<not> si_fault (recv_iface (con demo_waiting)) \<and> \<not> r_fault (rx demo_waiting)"
  using connection_never_faults [OF reach_run [OF demo_reach_waiting]] by blast

text \<open>
  C13. No operation is forgotten in the runs without a stale step. While a send is in progress and no error was reported, either a job of its interface is pending, or
  the kernel watches the descriptor for writing; likewise for a receive, whose own job may be pending instead.
\<close>

theorem connection_never_stuck:
  assumes "conn_reach K watched clock (l, w)" and "\<not> con_err (con w)"
  shows "(send_st (con w) \<noteq> SEND_STATE_NOT_INITED \<and> si_state (send_iface (con w)) \<noteq> SI_STATE_NONE \<longrightarrow>
      BSmallPending_IsSet (job_operation (send_iface (con w))) (pending_jobs (rx w)) \<or> BSmallPending_IsSet (job_done (send_iface (con w))) (pending_jobs (rx w))
      \<or> bit (waitEvents (rx w) (con_bfd (con w))) 1 \<and> watched (r_kernel (rx w)) (fd_num (rx w) (con_bfd (con w))) = Some (con_bfd (con w)))
    \<and> (recv_st (con w) \<noteq> RECV_STATE_NOT_INITED \<and> recv_st (con w) \<noteq> RECV_STATE_INITED_CLOSED \<and> si_state (recv_iface (con w)) \<noteq> SI_STATE_NONE \<longrightarrow>
      BSmallPending_IsSet (job_operation (recv_iface (con w))) (pending_jobs (rx w)) \<or> BSmallPending_IsSet (job_done (recv_iface (con w))) (pending_jobs (rx w))
      \<or> BSmallPending_IsSet (recv_job (con w)) (pending_jobs (rx w))
      \<or> bit (waitEvents (rx w) (con_bfd (con w))) 0 \<and> watched (r_kernel (rx w)) (fd_num (rx w) (con_bfd (con w))) = Some (con_bfd (con w)))"
proof -
  let ?c = "con w" and ?s = "rx w" and ?b = "con_bfd (con w)"
  note d = conn_reachD [OF assms(1)]
  obtain xs where xs: "job_stack (live_jobs l) (pending_jobs ?s) xs" "con_ok l ?s ?c (set xs)" "send_wakes ?c" "recv_wakes ?c (set xs)"
    using d(2) by (auto simp: settled_def)
  note o = con_okD [OF xs(2)]
  have is_set: "BSmallPending_IsSet p (pending_jobs ?s)" if "p \<in> set xs" for p using that job_stackD(2) [OF xs(1)] pq.stack_is_set [OF xs(1), of p] by auto
  have f: "fds_ok watched l ?s" using reactor_reachD(1) [OF d(1)] by (simp add: rinv_def)
  have live: "watched (r_kernel ?s) (fd_num ?s ?b) = Some ?b \<and> waitEvents ?s ?b = wait_events ?c" if "\<not> is_hupd ?c"
    using that o(6) fds_okD(1) [OF f, of "fd_num ?s ?b" ?b] by (auto simp: bfd_ok_def)
  show ?thesis
  proof (intro conjI impI)
    assume a: "send_st ?c \<noteq> SEND_STATE_NOT_INITED \<and> si_state (send_iface ?c) \<noteq> SI_STATE_NONE"
    then have "job_operation (send_iface ?c) \<in> set xs \<or> job_done (send_iface ?c) \<in> set xs \<or> send_st ?c = SEND_STATE_BUSY"
      using o(4) by (cases "si_state (send_iface ?c)") (auto simp: send_ok_def if_ok_def)
    then show "BSmallPending_IsSet (job_operation (send_iface ?c)) (pending_jobs ?s) \<or> BSmallPending_IsSet (job_done (send_iface ?c)) (pending_jobs ?s)
      \<or> bit (waitEvents ?s ?b) 1 \<and> watched (r_kernel ?s) (fd_num ?s ?b) = Some ?b"
      using is_set live xs(3) assms(2) by (auto simp: send_wakes_def)
  next
    assume a: "recv_st ?c \<noteq> RECV_STATE_NOT_INITED \<and> recv_st ?c \<noteq> RECV_STATE_INITED_CLOSED \<and> si_state (recv_iface ?c) \<noteq> SI_STATE_NONE"
    then have "job_operation (recv_iface ?c) \<in> set xs \<or> job_done (recv_iface ?c) \<in> set xs \<or> recv_st ?c = RECV_STATE_BUSY"
      using o(5) by (cases "si_state (recv_iface ?c)") (auto simp: recv_ok_def if_ok_def)
    then show "BSmallPending_IsSet (job_operation (recv_iface ?c)) (pending_jobs ?s) \<or> BSmallPending_IsSet (job_done (recv_iface ?c)) (pending_jobs ?s)
      \<or> BSmallPending_IsSet (recv_job ?c) (pending_jobs ?s) \<or> bit (waitEvents ?s ?b) 0 \<and> watched (r_kernel ?s) (fd_num ?s ?b) = Some ?b"
      using is_set live xs(4) assms(2) by (auto simp: recv_wakes_def)
  qed
qed

theorem connection_never_stuck_witness:
  "BSmallPending_IsSet 24 (pending_jobs (rx demo_waiting)) \<or> BSmallPending_IsSet 25 (pending_jobs (rx demo_waiting))
    \<or> BSmallPending_IsSet 26 (pending_jobs (rx demo_waiting))
    \<or> bit (waitEvents (rx demo_waiting) 4) 0 \<and> fst (r_kernel (rx demo_waiting)) (fd_num (rx demo_waiting) 4) = Some 4"
proof -
  have "job_operation (recv_iface (con demo_waiting)) = 24" "job_done (recv_iface (con demo_waiting)) = 25" "recv_job (con demo_waiting) = 26"
    by (simp_all add: demo_waiting_def demo_asked_eq demo_opened_eq demo_if_def) (simp add: demo_world_def)
  then show ?thesis using connection_never_stuck [OF demo_reach_waiting] by (simp add: demo_waiting_simps)
qed










lemma recv_keeps_fault: "con_fault (con w) \<Longrightarrow> con_fault (con (connection_recv K a w))"
  by (simp add: connection_recv_def Let_def N_ASSERT_def connection_report_error_def on_recv_iface_def split: read_answer.split prod.split)

text \<open>
  C15. A defect. When an error event comes alone while a receive waits for data, and \<open>read\<close> then does give data, the handler does not clear the wait for reading:
  the descriptor stays watched although no receive is in progress, and the next event for reading fails an assertion.
\<close>

theorem connection_error_event_keeps_waiting:
  assumes r: "conn_reach K watched clock (l, w)" and e: "\<not> con_err (con w)" "\<not> is_hupd (con w)"
    and b: "recv_st (con w) = RECV_STATE_BUSY" "bit (wait_events (con w)) 0" "send_st (con w) \<noteq> SEND_STATE_BUSY"
    and lim: "limit_count (rx w) (recv_limit (con w)) < limit_max (rx w) (recv_limit (con w))"
    and bs: "bs \<noteq> []" "int (length bs) \<le> busy_data_avail (con w)"
  shows "let w' = connection_fd_handler K BREACTOR_ERROR wans (R_Bytes bs) w
    in recv_st (con w') = RECV_STATE_READY \<and> \<not> con_fault (con w') \<and> bit (waitEvents (rx w') (con_bfd (con w'))) 0
      \<and> con_fault (con (connection_fd_handler K BREACTOR_READ wans' rans' w'))"
proof -
  let ?c = "con w" and ?b = "con_bfd (con w)" and ?i = "recv_iface (con w)"
  define w1 where "w1 = set_wait_events K (wait_events ?c AND NOT 4) w"
  define s where "s = fst (BReactorLimit_Increment (recv_limit ?c) (rx w1))"
  define w' where "w' = connection_fd_handler K 4 wans (R_Bytes bs) w"
  obtain xs where c: "con_ok l (rx w) ?c (set xs)" using conn_reachD(2) [OF r] by (auto simp: settled_def)
  have ff: "\<not> con_fault ?c" using c by (simp add: con_parts)
  have lc: "limit_count (rx w1) = limit_count (rx w)" "limit_max (rx w1) = limit_max (rx w)"
    by (simp_all add: w1_def BReactor_SetFileDescriptorEvents_def Let_def E_ASSERT_def split: prod.split)
  have s: "BReactorLimit_Increment (recv_limit ?c) (rx w1) = (s, True)"
    using lim by (auto simp: s_def BReactorLimit_Increment_def Let_def lc)
  have "w' = connection_recv K (R_Bytes bs) w1"
    using e b unfolding w'_def connection_fd_handler_def Let_def assert_eq(1) [OF e(1)] assert_eq(1) [OF e(2)] w1_def [symmetric] by (simp add: w1_def)
  also have "\<dots> = on_recv_iface (StreamRecvInterface_Done (int (length bs)))
      ((emit (Got (recv_busy_data ?c) bs) (w1\<lparr>rx := s\<rparr>))\<lparr>con := (con w1)\<lparr>recv_st := RECV_STATE_READY\<rparr>\<rparr>)"
    using e b bs s by (simp add: connection_recv_def Let_def) (simp add: w1_def)
  finally have w': "w' = \<dots>" .
  have f: "recv_st (con w') = RECV_STATE_READY" "con_fault (con w') = con_fault ?c" "waitEvents (rx w') = waitEvents s" "con_bfd (con w') = ?b"
    unfolding w' by (simp_all add: on_recv_iface_def StreamRecvInterface_Done_def StreamPassInterface_Done_def Let_def w1_def)
  have "bit (wait_events ?c AND NOT 4) 0" using b(2) unfolding bit_and_iff bit_not_iff by (simp add: bit_numeral_rec)
  then have wt: "bit (waitEvents (rx w') (con_bfd (con w'))) 0" unfolding f(3,4) s_def by (simp add: w1_def)
  have "con_fault (con (connection_fd_handler K 1 wans' rans' w'))"
    unfolding connection_fd_handler_def Let_def using f(1) by (simp add: N_ASSERT_def recv_keeps_fault)
  then show ?thesis using f(1,2) ff wt unfolding w'_def [symmetric] Let_def by simp
qed

theorem connection_error_event_keeps_waiting_witness:
  "let w' = connection_fd_handler demo_kernel BREACTOR_ERROR (W_Error True) (R_Bytes [7, 8]) demo_waiting
   in recv_st (con w') = RECV_STATE_READY \<and> bit (waitEvents (rx w') (con_bfd (con w'))) 0
     \<and> con_fault (con (connection_fd_handler demo_kernel BREACTOR_READ (W_Error True) (R_Bytes [9]) w'))"
  using connection_error_event_keeps_waiting [OF demo_reach_waiting, of "[7, 8]" "W_Error True" "W_Error True" "R_Bytes [9]"]
  by (simp add: demo_waiting_simps Let_def)

lemma con_jobs_ctr [simp]: "ctr (con_jobs f w) = ctr w"
  by (simp add: con_jobs_def)

lemma addr_round_trip: "BConnection_AddressSupported a \<Longrightarrow> Option.bind (addr_socket_to_sys a) addr_sys_to_socket = Some a"
  by (cases a) (simp_all add: BConnection_AddressSupported_def addr_socket_to_sys_def addr_sys_to_socket_def)

text \<open>When both directions are off, freeing the connection releases its objects and its descriptor, and closes the latter exactly if it owns it.\<close>

lemma connection_Free_releases:
  assumes r: "conn_reach K watched clock (l, w)" and o: "send_st (con w) = SEND_STATE_NOT_INITED" "recv_st (con w) = RECV_STATE_NOT_INITED"
  shows "let w' = BConnection_Free K w; c = con w; l' = l\<lparr>live_limits := live_limits l - {recv_limit c} - {send_limit c}, live_fds := live_fds l - {con_bfd c}\<rparr>
    in \<not> con_fault (con w') \<and> reactor_reach K watched clock (l', rx w') \<and> \<not> fd_active (rx w') (con_bfd c)
      \<and> ctrace w' = ctrace w @ (if close_fd c then [Closed (con_fd c)] else [])"
proof -
  let ?c = "con w" and ?b = "con_bfd (con w)"
  note d = conn_reachD [OF r]
  obtain xs where xs: "con_ok l (rx w) ?c (set xs)" using d(2) by (auto simp: settled_def)
  then have bf: "bfd_ok l (rx w) ?c" "send_limit ?c \<noteq> recv_limit ?c" "\<not> con_fault ?c" by (auto simp: con_parts)
  let ?s1 = "BReactorLimit_Free (recv_limit ?c) (rx w)"
  let ?s2 = "BReactorLimit_Free (send_limit ?c) ?s1"
  let ?l1 = "l\<lparr>live_limits := live_limits l - {recv_limit ?c}\<rparr>" and ?l2 = "l\<lparr>live_limits := live_limits l - {recv_limit ?c} - {send_limit ?c}\<rparr>"
  let ?s3 = "if \<not> is_hupd ?c then BReactor_RemoveFileDescriptor K ?b ?s2 else ?s2"
  let ?l3 = "l\<lparr>live_limits := live_limits l - {recv_limit ?c} - {send_limit ?c}, live_fds := live_fds l - {?b}\<rparr>"
  have v: "fd_active ?s2 = fd_active (rx w)" by (simp add: BReactorLimit_Free_def)
  have "client_step K watched clock (l, rx w) (?l1, ?s1)" using limit_free [of "recv_limit ?c" l] bf by (simp add: bfd_ok_def)
  moreover have "client_step K watched clock (?l1, ?s1) (?l2, ?s2)"
    using limit_free [of "send_limit ?c" ?l1 K watched clock ?s1] bf by (simp add: bfd_ok_def)
  moreover have "(client_step K watched clock)\<^sup>*\<^sup>* (?l2, ?s2) (?l2, ?s3)"
    using fd_remove [of ?b ?l2 ?s2 K watched clock] bf v by (auto simp: bfd_ok_def)
  moreover have "client_step K watched clock (?l2, ?s3) (?l3, ?s3)"
    using fd_forget [of ?b ?l2 ?s3 K watched clock] bf v by (simp add: bfd_ok_def)
  ultimately have "(client_step K watched clock)\<^sup>*\<^sup>* (l, rx w) (?l3, ?s3)"
    by (meson converse_rtranclp_into_rtranclp rtranclp.rtrancl_into_rtrancl)
  from clients_reach [OF this d(1)] show ?thesis using o bf v unfolding BConnection_Free_def Let_def
    by (cases "is_hupd ?c") (simp_all add: con_close_def bfd_ok_def)
qed

definition connectable :: "liscon_from \<Rightarrow> bool" where
  "connectable from = (case from of BLISCON_FROM_UNIX path \<Rightarrow> length path \<le> MAX_UNIX_SOCKET_PATH | BLISCON_FROM_ADDR addr \<Rightarrow> addr \<noteq> BAddr_None)"

text \<open>
  C16. Starting a connection leaves nothing behind. If it succeeds, the connector is connected and its job is pending, or it waits for the descriptor to become
  writable and the event loop watches it. If it fails, no object of the event loop is in use that was not before, and the socket is closed if it was
  opened. The address the kernel is asked to connect to is the one given.
\<close>

theorem connector_init_complete:
  assumes r: "reactor_reach K watched clock (l, rx w)" and f: "ctr_job (ctr w) \<notin> live_jobs l" "ctr_bfd (ctr w) \<notin> live_fds l"
    and i: "BConnector_InitFrom K from fd nonblocking connect w = (w', ok)"
  shows "if ok then
      (\<exists>l'. reactor_reach K watched clock (l', rx w') \<and> ctr_job (ctr w) \<in> live_jobs l'
        \<and> (if ctr_connected (ctr w') then \<not> have_bfd (ctr w') \<and> BSmallPending_IsSet (ctr_job (ctr w)) (pending_jobs (rx w'))
           else have_bfd (ctr w') \<and> watched (r_kernel (rx w')) fd = Some (ctr_bfd (ctr w)) \<and> waitEvents (rx w') (ctr_bfd (ctr w)) = BREACTOR_WRITE))
      \<and> ctr_fd (ctr w') = fd \<and> 0 \<le> fd \<and> ctrace w' = ctrace w
    else reactor_reach K watched clock (l, rx w')
      \<and> ctrace w' = ctrace w @ (if connectable from \<and> 0 \<le> fd then [Closed fd] else [])"
proof -
  let ?p = "ctr_job (ctr w)" and ?b = "ctr_bfd (ctr w)"
  note R = reactor_reachD [OF r]
  define a where "a = (case from of
             BLISCON_FROM_UNIX path \<Rightarrow> build_unix_address path
           | BLISCON_FROM_ADDR addr \<Rightarrow> if BConnection_AddressSupported addr then addr_socket_to_sys addr else None)"
  have ac: "a = None \<longleftrightarrow> \<not> connectable from"
    by (cases "from") (auto simp: a_def connectable_def build_unix_address_def BConnection_AddressSupported_def addr_socket_to_sys_def split: BAddr.splits)
  obtain xs where xs: "job_stack (live_jobs l) (pending_jobs (rx w)) xs" using R(1) by (auto simp: rinv_def jobs_ok_def)
  let ?l1 = "l\<lparr>live_jobs := insert ?p (live_jobs l)\<rparr>" and ?g = "BSmallPending_Init ?p 6 (pending_jobs (rx w))"
  let ?s1 = "(rx w)\<lparr>pending_jobs := ?g\<rparr>" and ?w1 = "(con_jobs (BSmallPending_Init ?p 6) w)\<lparr>ctr := (ctr w)\<lparr>ctr_fd := fd\<rparr>\<rparr>"
  have s1: "(client_step K watched clock)\<^sup>*\<^sup>* (l, rx w) (?l1, ?s1)" using job_init [OF f(1), of K watched clock "rx w" 6] by auto
  have bk: "reactor_reach K watched clock (l, s\<lparr>pending_jobs := BSmallPending_Free ?p (pending_jobs s)\<rparr>)"
    if "(client_step K watched clock)\<^sup>*\<^sup>* (?l1, ?s1) (?l1, s)" for s
  proof -
    have "l\<lparr>live_jobs := live_jobs ?l1 - {?p}\<rparr> = l" using f(1) by simp
    then have "client_step K watched clock (?l1, s) (l, s\<lparr>pending_jobs := BSmallPending_Free ?p (pending_jobs s)\<rparr>)"
      using job_free [of ?p ?l1 K watched clock s] by simp
    from rtranclp.rtrancl_into_rtrancl [OF rtranclp_trans [OF s1 that] this] show ?thesis using clients_reach r by blast
  qed
  show ?thesis
  proof (cases a)
    case None
    then show ?thesis using i r ac unfolding BConnector_InitFrom_def a_def [symmetric] by simp
  next
    case (Some sysaddr)
    have cn: "connectable from" using ac Some by blast
    let ?fail1 = "\<lambda>w. (con_jobs (BSmallPending_Free (ctr_job (ctr w))) w, False)"
    let ?w2 = "?w1\<lparr>ctr := (ctr w)\<lparr>ctr_fd := fd, ctr_connected := False, have_bfd := False\<rparr>\<rparr>"
    obtain s2 added where ad: "BReactor_AddFileDescriptor K ?b (BFileDescriptor_Init ?b fd 7 ?b ?s1) = (s2, added)" by fastforce
    have u: "(w', ok) = (if fd < 0 then ?fail1 ?w1 else if \<not> nonblocking \<or> connect sysaddr = Refused then ?fail1 (emit (Closed fd) ?w1)
      else if connect sysaddr = In_Progress then
        (if \<not> added then ?fail1 (emit (Closed fd) (?w2\<lparr>rx := s2\<rparr>))
         else (?w2\<lparr>rx := BReactor_SetFileDescriptorEvents K ?b BREACTOR_WRITE s2, ctr := (ctr w)\<lparr>ctr_fd := fd, ctr_connected := False, have_bfd := True\<rparr>\<rparr>, True))
      else (con_jobs (BSmallPending_Set ?p) (?w2\<lparr>ctr := (ctr w)\<lparr>ctr_fd := fd, ctr_connected := True, have_bfd := False\<rparr>\<rparr>), True))"
      using i [symmetric] Some ad unfolding BConnector_InitFrom_def a_def [symmetric] by (simp add: Let_def con_jobs_def)
    let ?l2 = "?l1\<lparr>live_fds := insert ?b (live_fds l)\<rparr>" and ?si = "BFileDescriptor_Init ?b fd 7 ?b ?s1"
    have n: "\<not> fd_active ?si ?b" "fd_num ?si ?b = fd" by (simp_all add: BFileDescriptor_Init_def)
    have "client_step K watched clock (?l1, ?s1) (?l2, ?si)" using fd_init [of ?b ?l1 K watched clock ?s1 fd 7 ?b] f(2) by simp
    moreover have "client_step K watched clock (?l2, ?si) (?l2, s2)" using fd_add [of ?b ?l2 ?si K watched clock] n ad by simp
    ultimately have s2: "(client_step K watched clock)\<^sup>*\<^sup>* (?l1, ?s1) (?l2, s2)" by (meson converse_rtranclp_into_rtranclp rtranclp.rtrancl_refl)
    have act: "fd_active s2 ?b = added" "fd_num s2 ?b = fd"
      using ad n by (auto simp: BReactor_AddFileDescriptor_def Let_def set_returned_ptr_def split: prod.splits if_splits)
    consider (fail1) "fd < 0" "(w', ok) = ?fail1 ?w1"
      | (fail2) "0 \<le> fd" "(w', ok) = ?fail1 (emit (Closed fd) ?w1)"
      | (fail3) "0 \<le> fd" "\<not> added" "(w', ok) = ?fail1 (emit (Closed fd) (?w2\<lparr>rx := s2\<rparr>))"
      | (wait) "0 \<le> fd" "added" "ok" "w' = ?w2\<lparr>rx := BReactor_SetFileDescriptorEvents K ?b BREACTOR_WRITE s2,
          ctr := (ctr w)\<lparr>ctr_fd := fd, ctr_connected := False, have_bfd := True\<rparr>\<rparr>"
      | (now) "0 \<le> fd" "ok" "w' = con_jobs (BSmallPending_Set ?p) (?w2\<lparr>ctr := (ctr w)\<lparr>ctr_fd := fd, ctr_connected := True, have_bfd := False\<rparr>\<rparr>)"
      using u by (auto split: if_splits)
    then show ?thesis
    proof cases
      case fail1
      then show ?thesis using bk [of ?s1] by simp
    next
      case fail2
      then show ?thesis using bk [of ?s1] cn by simp
    next
      case fail3
      have "?l2\<lparr>live_fds := live_fds ?l2 - {?b}\<rparr> = ?l1" using f(2) by simp
      then have "client_step K watched clock (?l2, s2) (?l1, s2)" using fd_forget [of ?b ?l2 s2 K watched clock] act fail3(2) by simp
      from bk [OF rtranclp.rtrancl_into_rtrancl [OF s2 this]] show ?thesis using fail3 cn by simp
    next
      case wait
      have "client_step K watched clock (?l2, s2) (?l2, rx w')"
        using fd_set [of ?b ?l2 s2 BREACTOR_WRITE K watched clock] act wait(2,4) by simp
      from clients_reach [OF rtranclp_trans [OF s1 rtranclp.rtrancl_into_rtrancl [OF s2 this]] r] have rr: "reactor_reach K watched clock (?l2, rx w')" .
      then have "fds_ok watched ?l2 (rx w')" using reactor_reachD(1) [OF rr] by (simp add: rinv_def)
      then have "watched (r_kernel (rx w')) fd = Some ?b" using fds_okD(1) [of watched ?l2 "rx w'" fd ?b] act wait(2,4) by simp
      moreover have "?p \<in> live_jobs ?l2" by simp
      ultimately show ?thesis using rr wait by auto
    next
      case now
      have p: "?p \<in> live_jobs ?l1" by simp
      have "client_step K watched clock (?l1, ?s1) (?l1, rx w')" using job_set [OF p, of K watched clock ?s1] now(3) by simp
      from clients_reach [OF rtranclp.rtrancl_into_rtrancl [OF s1 this] r] have "reactor_reach K watched clock (?l1, rx w')" .
      moreover have "job_stack (live_jobs ?l1) (pending_jobs (rx w')) (?p # remove1 ?p xs)"
        using pq.stack_set [OF job_stack_Init [OF xs f(1), of 6], of ?p] now(3) by simp
      from pq.stack_is_set [OF this p] have "BSmallPending_IsSet ?p (pending_jobs (rx w'))" by simp
      ultimately show ?thesis using now by auto
    qed
  qed
qed

theorem connector_init_complete_witness:
  "\<exists>l' w'. BConnector_InitFrom demo_kernel (BLISCON_FROM_ADDR (BAddr_IPv4 1 2)) 5 True (\<lambda>a. In_Progress) demo_world = (w', True)
     \<and> reactor_reach demo_kernel fst snd (l', rx w') \<and> have_bfd (ctr w') \<and> fst (r_kernel (rx w')) 5 = Some 7"
proof -
  let ?i = "BConnector_InitFrom demo_kernel (BLISCON_FROM_ADDR (BAddr_IPv4 1 2)) 5 True (\<lambda>a. In_Progress) demo_world"
  obtain w' where w': "?i = (w', True)" "\<not> ctr_connected (ctr w')"
    by (simp add: BConnector_InitFrom_def BConnection_AddressSupported_def addr_socket_to_sys_def demo_world_def con_jobs_def BReactor_AddFileDescriptor_def
        BFileDescriptor_Init_def set_returned_ptr_def demo_kernel_def demo_start_def Let_def)
  have "reactor_reach demo_kernel fst snd (no_live, rx demo_world)" using demo_reach_start by (simp add: demo_world_def)
  from connector_init_complete [OF this _ _ w'(1)] show ?thesis using w' by (auto simp: no_live_def demo_world_def)
qed

end
